(* ===== verification/Prelude.thy ===== *)
theory Prelude
  imports Main "HOL-Library.Word"
begin

text \<open>
  Shared vocabulary of the development: the ways a C++ statement can fail to complete (as
  values of a sum type), the byte images of integers on a little-endian host, block copies
  inside a byte array, and the generic lemmas the component theories share.

  A C++ \<open>char\<close> is an Isabelle \<^typ>\<open>char\<close> (eight bits), so \<open>std::string\<close>, \<open>std::vector<char>\<close>
  and raw byte ranges are all of type \<^typ>\<open>string\<close>.
\<close>

section \<open>Results\<close>

text \<open>
  The build sets \<open>-O0\<close> and does not define \<open>NDEBUG\<close>, so a failed \<open>assert\<close> aborts the process
  and is observable behaviour. The other faults are a memory access outside an object, a shift
  by at least the width of its operand, an exception leaving the function and a fatal log
  statement, which calls \<open>abort\<close>.
\<close>

datatype fault =
    AssertFail
  | OutOfBounds
  | UndefinedShift
  | Overflow
  | Exception string
  | Fatal

type_synonym 'a res = "fault + 'a"

definition rbind :: "'a res \<Rightarrow> ('a \<Rightarrow> 'b res) \<Rightarrow> 'b res" where
  "rbind m f = (case m of Inl e \<Rightarrow> Inl e | Inr x \<Rightarrow> f x)"

definition c_assert :: "bool \<Rightarrow> 'a res \<Rightarrow> 'a res" where
  "c_assert P r = (if P then r else Inl AssertFail)"

named_theorems res_simps \<open>elimination of the result combinators\<close>

lemma rbind_Inl [simp]: "rbind (Inl e) f = Inl e"
  and rbind_Inr [simp]: "rbind (Inr x) f = f x"
  by (simp_all add: rbind_def)

lemma rbind_eq_Inr [res_simps]: "rbind m f = Inr y \<longleftrightarrow> (\<exists>x. m = Inr x \<and> f x = Inr y)"
  by (cases m) simp_all

lemma rbind_eq_Inl [res_simps]:
  "rbind m f = Inl e \<longleftrightarrow> m = Inl e \<or> (\<exists>x. m = Inr x \<and> f x = Inl e)"
  by (cases m) simp_all

lemma rbind_assoc: "rbind (rbind m f) g = rbind m (\<lambda>x. rbind (f x) g)"
  by (cases m) simp_all

lemma c_assert_True [simp]: "P \<Longrightarrow> c_assert P r = r"
  and c_assert_False [simp]: "\<not> P \<Longrightarrow> c_assert P r = Inl AssertFail"
  by (simp_all add: c_assert_def)

lemma c_assert_eq_Inr [res_simps]: "c_assert P r = Inr x \<longleftrightarrow> P \<and> r = Inr x"
  by (simp add: c_assert_def)

text \<open>Code that may not return: \<^const>\<open>None\<close> is not returning.\<close>

type_synonym 'a run = "'a res option"

definition obind :: "'a run \<Rightarrow> ('a \<Rightarrow> 'b run) \<Rightarrow> 'b run" where
  "obind m f = (case m of None \<Rightarrow> None | Some (Inl e) \<Rightarrow> Some (Inl e) | Some (Inr x) \<Rightarrow> f x)"

lemma obind_simps [simp]:
  "obind None f = None" "obind (Some (Inl e)) f = Some (Inl e)" "obind (Some (Inr x)) f = f x"
  by (simp_all add: obind_def)

section \<open>Machine integers and their byte images\<close>

type_synonym i32 = "32 word"
type_synonym i64 = "64 word"

text \<open>Signed arithmetic: overflow is undefined, so every intermediate result is checked against its type.\<close>

definition in_i64 :: "int \<Rightarrow> bool" where
  "in_i64 x \<longleftrightarrow> - (2 ^ 63) \<le> x \<and> x < 2 ^ 63"

definition ck64 :: "int \<Rightarrow> int res" where
  "ck64 x = (if in_i64 x then Inr x else Inl Overflow)"

definition in_i32 :: "int \<Rightarrow> bool" where
  "in_i32 x \<longleftrightarrow> - (2 ^ 31) \<le> x \<and> x < 2 ^ 31"

text \<open>\<open>ints steps v\<close> is the value \<open>v\<close> of an \<open>int\<close> expression whose intermediate results are \<open>steps\<close>.\<close>

definition ints :: "int list \<Rightarrow> 'a \<Rightarrow> 'a res" where
  "ints steps v = (if list_all in_i32 steps then Inr v else Inl Overflow)"

text \<open>The object representation of an \<open>n\<close>-byte integer on a little-endian host.\<close>

fun le_bytes :: "nat \<Rightarrow> nat \<Rightarrow> string" where
  "le_bytes 0 x = []"
| "le_bytes (Suc n) x = char_of (x mod 256) # le_bytes n (x div 256)"

fun le_value :: "string \<Rightarrow> nat" where
  "le_value [] = 0"
| "le_value (c # cs) = of_char c + 256 * le_value cs"

lemma length_le_bytes [simp]: "length (le_bytes n x) = n"
  by (induction n arbitrary: x) simp_all

lemma le_value_le_bytes [simp]: "le_value (le_bytes n x) = x mod 256 ^ n"
proof (induction n arbitrary: x)
  case (Suc n)
  have "x mod 256 + 256 * (x div 256 mod 256 ^ n) = x mod (256 * 256 ^ n)"
    by (simp add: mod_mult2_eq)
  with Suc show ?case by (simp add: of_char_of)
qed simp

lemma of_char_less [simp]: "(of_char c :: nat) < 256"
  by (cases c) simp

lemma le_value_less: "le_value cs < 256 ^ length cs"
proof (induction cs)
  case (Cons c cs)
  have "of_char c + 256 * le_value cs < 256 + 256 * le_value cs" by simp
  also have "\<dots> = 256 * Suc (le_value cs)" by simp
  also have "\<dots> \<le> 256 * 256 ^ length cs" using Cons.IH by (intro mult_le_mono) auto
  finally show ?case by simp
qed simp

lemma le_bytes_le_value [simp]: "length cs = n \<Longrightarrow> le_bytes n (le_value cs) = cs"
  by (induction cs arbitrary: n) auto

lemma le_value_inj: "length a = length b \<Longrightarrow> le_value a = le_value b \<Longrightarrow> a = b"
  by (metis le_bytes_le_value)

definition word_bytes :: "'w::len word \<Rightarrow> string" where
  "word_bytes w = le_bytes (LENGTH('w) div 8) (unat w)"

definition bytes_word :: "string \<Rightarrow> 'w::len word" where
  "bytes_word cs = word_of_nat (le_value cs)"

lemma length_word_bytes [simp]: "length (word_bytes (w :: 'w::len word)) = LENGTH('w) div 8"
  by (simp add: word_bytes_def)

lemma word_bytes_roundtrip:
  assumes "8 dvd LENGTH('w::len)"
  shows "bytes_word (word_bytes w) = (w :: 'w word)"
proof -
  from assms have "(256::nat) ^ (LENGTH('w) div 8) = 2 ^ LENGTH('w)"
    by (auto simp: dvd_def power_mult)
  then show ?thesis
    using unsigned_less [of w] by (simp add: bytes_word_def word_bytes_def)
qed

text \<open>Narrowing a size to a 32-bit signed integer keeps it below \<open>2 ^ 31\<close> and makes it negative from there.\<close>

lemma sint_of_nat_small: "n < 2 ^ 31 \<Longrightarrow> sint (word_of_nat n :: i32) = int n"
  by (simp add: signed_of_nat signed_take_bit_int_eq_self)

lemma sint_of_nat_big:
  assumes "2 ^ 31 \<le> n" "n < 2 ^ 32"
  shows "sint (word_of_nat n :: i32) = int n - 2 ^ 32"
proof -
  have "take_bit (Suc 31) (int n) = take_bit (Suc 31) (int n - 2 ^ 32)"
    by (simp add: take_bit_eq_mod)
  then have "signed_take_bit 31 (int n) = signed_take_bit 31 (int n - 2 ^ 32)"
    by (simp add: signed_take_bit_eq_iff_take_bit_eq)
  also have "\<dots> = int n - 2 ^ 32" using assms by (simp add: signed_take_bit_int_eq_self)
  finally show ?thesis by (simp add: signed_of_nat)
qed

section \<open>Block copies inside an array\<close>

text \<open>
  \<open>write_at i xs ys\<close> overwrites \<open>ys\<close> from index \<open>i\<close> with \<open>xs\<close>; \<open>segment i n ys\<close> reads \<open>n\<close> elements
  from index \<open>i\<close>. \<open>copy_fwd\<close> is \<open>std::copy\<close> inside one array, element by element from the front.
\<close>

definition write_at :: "nat \<Rightarrow> 'a list \<Rightarrow> 'a list \<Rightarrow> 'a list" where
  "write_at i xs ys = take i ys @ xs @ drop (i + length xs) ys"

definition segment :: "nat \<Rightarrow> nat \<Rightarrow> 'a list \<Rightarrow> 'a list" where
  "segment i n ys = take n (drop i ys)"

fun copy_fwd :: "nat \<Rightarrow> nat \<Rightarrow> nat \<Rightarrow> 'a list \<Rightarrow> 'a list" where
  "copy_fwd 0 s d ys = ys"
| "copy_fwd (Suc n) s d ys = copy_fwd n (Suc s) (Suc d) (ys[d := ys ! s])"

lemma length_write_at [simp]:
  "i + length xs \<le> length ys \<Longrightarrow> length (write_at i xs ys) = length ys"
  by (simp add: write_at_def)

lemma length_segment [simp]: "i + n \<le> length ys \<Longrightarrow> length (segment i n ys) = n"
  by (simp add: segment_def)

lemma segment_0 [simp]: "segment i 0 ys = []"
  by (simp add: segment_def)

lemma segment_write_at:
  "i + length xs \<le> length ys \<Longrightarrow> segment i (length xs) (write_at i xs ys) = xs"
  by (simp add: segment_def write_at_def)

lemma segment_append:
  "i + m + n \<le> length ys \<Longrightarrow> segment i (m + n) ys = segment i m ys @ segment (i + m) n ys"
  by (simp add: segment_def take_add add.commute)

lemma take_segment: "m \<le> n \<Longrightarrow> take m (segment i n ys) = segment i m ys"
  by (simp add: segment_def min_def)

lemma drop_segment: "m \<le> n \<Longrightarrow> drop m (segment i n ys) = segment (i + m) (n - m) ys"
  by (simp add: segment_def drop_take add.commute)

lemma segment_take: "i + n \<le> m \<Longrightarrow> segment i n (take m ys) = segment i n ys"
  by (simp add: segment_def drop_take)

lemma segment_before_write_at:
  "i + n \<le> j \<Longrightarrow> j \<le> length ys \<Longrightarrow> segment i n (write_at j xs ys) = segment i n ys"
  by (simp add: segment_def write_at_def drop_take)

lemma segment_append1: "i + n \<le> length ys \<Longrightarrow> segment i n (ys @ zs) = segment i n ys"
  by (simp add: segment_def)

lemma copy_fwd_write_at:
  "d \<le> s \<Longrightarrow> s + n \<le> length ys \<Longrightarrow> copy_fwd n s d ys = write_at d (segment s n ys) ys"
proof (induction n arbitrary: s d ys)
  case 0
  then show ?case by (simp add: write_at_def)
next
  case (Suc n)
  let ?ys = "ys[d := ys ! s]"
  have s: "s < length ys" and d: "d < length ys" using Suc.prems by auto
  have sl: "segment (Suc s) n ?ys = segment (Suc s) n ys"
    using Suc.prems by (simp add: segment_def drop_update_cancel)
  have "copy_fwd (Suc n) s d ys = write_at (Suc d) (segment (Suc s) n ys) ?ys"
    using Suc.IH [of "Suc d" "Suc s" ?ys] Suc.prems sl by simp
  also have "\<dots> = write_at d (ys ! s # segment (Suc s) n ys) ys"
    using d by (simp add: write_at_def take_Suc_conv_app_nth drop_update_cancel)
  also have "ys ! s # segment (Suc s) n ys = segment s (Suc n) ys"
    using s by (simp add: segment_def Cons_nth_drop_Suc [symmetric])
  finally show ?case .
qed

section \<open>Searching\<close>

lemma takeWhile_holds: "i < length (takeWhile P xs) \<Longrightarrow> P (xs ! i)"
  using nth_mem [of i "takeWhile P xs"] by (simp add: takeWhile_nth) (metis set_takeWhileD)

lemma find_append: "find P (xs @ ys) = (case find P xs of None \<Rightarrow> find P ys | Some x \<Rightarrow> Some x)"
  by (induction xs) auto

section \<open>Decimal numerals\<close>

text \<open>
  What \<open>operator<<\<close>, \<open>printf("%d")\<close> and \<open>atoi\<close> do with decimal digits.
\<close>

definition digit_char :: "nat \<Rightarrow> char" where
  "digit_char d = char_of (48 + d)"

definition is_digit :: "char \<Rightarrow> bool" where
  "is_digit c \<longleftrightarrow> 48 \<le> (of_char c :: nat) \<and> (of_char c :: nat) \<le> 57"

definition digit_val :: "char \<Rightarrow> nat" where
  "digit_val c = of_char c - 48"

fun show_nat :: "nat \<Rightarrow> string" where
  "show_nat n = (if n < 10 then [digit_char n] else show_nat (n div 10) @ [digit_char (n mod 10)])"

declare show_nat.simps [simp del]

definition show_int :: "int \<Rightarrow> string" where
  "show_int k = (if k < 0 then CHR ''-'' # show_nat (nat (- k)) else show_nat (nat k))"

fun read_nat :: "nat \<Rightarrow> string \<Rightarrow> nat" where
  "read_nat acc [] = acc"
| "read_nat acc (c # cs) = (if is_digit c then read_nat (10 * acc + digit_val c) cs else acc)"

lemma digit_char_simps [simp]:
  "d < 10 \<Longrightarrow> is_digit (digit_char d)" "d < 10 \<Longrightarrow> digit_val (digit_char d) = d"
  by (simp_all add: is_digit_def digit_val_def digit_char_def of_char_of)

lemma show_nat_nonempty [simp]: "show_nat n \<noteq> []"
  by (subst show_nat.simps) simp

lemma show_nat_digits: "\<forall>c \<in> set (show_nat n). is_digit c"
proof (induction n rule: show_nat.induct)
  case (1 n)
  then show ?case by (subst show_nat.simps) auto
qed

lemma read_nat_append:
  "\<forall>c \<in> set xs. is_digit c \<Longrightarrow> read_nat acc (xs @ ys) = read_nat (read_nat acc xs) ys"
  by (induction xs arbitrary: acc) auto

lemma read_nat_show_nat: "read_nat 0 (show_nat n) = n"
proof (induction n rule: show_nat.induct)
  case (1 n)
  show ?case
  proof (cases "n < 10")
    case True
    then show ?thesis by (subst show_nat.simps) simp
  next
    case False
    then have "read_nat 0 (show_nat n) = read_nat (read_nat 0 (show_nat (n div 10))) [digit_char (n mod 10)]"
      by (subst show_nat.simps) (simp add: read_nat_append show_nat_digits)
    also have "read_nat 0 (show_nat (n div 10)) = n div 10" using 1 False by simp
    finally show ?thesis by simp
  qed
qed

lemma show_nat_inj: "show_nat m = show_nat n \<Longrightarrow> m = n"
  by (metis read_nat_show_nat)

lemma show_nat_hd: "hd (show_nat n) \<noteq> CHR ''-''"
proof -
  have "is_digit (hd (show_nat n))" using show_nat_digits [of n] by simp
  then show ?thesis by (auto simp: is_digit_def)
qed

lemma show_int_inj: "show_int a = show_int b \<Longrightarrow> a = b"
  using show_nat_hd by (auto simp: show_int_def split: if_splits dest: show_nat_inj)
    (metis list.sel(1))+

lemma length_show_nat: "n < 10 ^ k \<Longrightarrow> 0 < k \<Longrightarrow> length (show_nat n) \<le> k"
proof (induction k arbitrary: n)
  case (Suc k)
  show ?case
  proof (cases "n < 10")
    case False
    then have "0 < k" using Suc.prems(1) by (cases k) auto
    moreover have "n div 10 < 10 ^ k" using Suc.prems(1) by (simp add: less_mult_imp_div_less mult.commute)
    ultimately show ?thesis using Suc.IH [of "n div 10"] False by (subst show_nat.simps) simp
  qed (subst show_nat.simps, simp)
qed simp

end
