(* ===== verification/Buffer.thy ===== *)
theory Buffer
  imports Prelude
begin

text \<open>
  The byte buffer of the network library (\<open>muduo/net/Buffer.h\<close>, \<open>Buffer.cc\<close>) with the byte-order
  helpers it calls (\<open>muduo/net/Endian.h\<close>). The state is the array and the two indices; pointers
  into the array (\<open>peek()\<close>, \<open>beginWrite()\<close>, the results of the searches) are indices of it. The
  abstraction of a buffer is the byte sequence between its indices, and the locale
  \<open>byte_queue\<close> states what the rest of the library relies on: appending adds at the end,
  retrieving drops from the front.
\<close>

section \<open>Byte order\<close>

definition bswap :: "'w::len word \<Rightarrow> 'w word" where
  "bswap w = bytes_word (rev (word_bytes w))"

definition hostToNetwork64 :: "i64 \<Rightarrow> i64" where
  "hostToNetwork64 host64 = bswap host64"

definition hostToNetwork32 :: "i32 \<Rightarrow> i32" where
  "hostToNetwork32 host32 = bswap host32"

definition hostToNetwork16 :: "16 word \<Rightarrow> 16 word" where
  "hostToNetwork16 host16 = bswap host16"

definition networkToHost64 :: "i64 \<Rightarrow> i64" where
  "networkToHost64 net64 = bswap net64"

definition networkToHost32 :: "i32 \<Rightarrow> i32" where
  "networkToHost32 net32 = bswap net32"

definition networkToHost16 :: "16 word \<Rightarrow> 16 word" where
  "networkToHost16 net16 = bswap net16"

section \<open>The buffer\<close>

record buffer =
  bytes :: string
  readerIndex :: nat
  writerIndex :: nat

definition kCheapPrepend :: nat where
  "kCheapPrepend = 8"

definition kInitialSize :: nat where
  "kInitialSize = 1024"

definition newBuffer :: "nat \<Rightarrow> buffer" where
  "newBuffer initialSize =
     \<lparr>bytes = replicate (kCheapPrepend + initialSize) (CHR 0x00),
      readerIndex = kCheapPrepend, writerIndex = kCheapPrepend\<rparr>"

definition buf_swap :: "buffer \<times> buffer \<Rightarrow> buffer \<times> buffer" where
  "buf_swap p = (case p of (this, rhs) \<Rightarrow>
     (\<lparr>bytes = bytes rhs, readerIndex = readerIndex rhs, writerIndex = writerIndex rhs\<rparr>,
      \<lparr>bytes = bytes this, readerIndex = readerIndex this, writerIndex = writerIndex this\<rparr>))"

definition readableBytes :: "buffer \<Rightarrow> nat" where
  "readableBytes b = writerIndex b - readerIndex b"

definition writableBytes :: "buffer \<Rightarrow> nat" where
  "writableBytes b = length (bytes b) - writerIndex b"

definition prependableBytes :: "buffer \<Rightarrow> nat" where
  "prependableBytes b = readerIndex b"

text \<open>The readable bytes: what the pointer \<open>peek()\<close> and the count \<open>readableBytes()\<close> delimit.\<close>

definition contents :: "buffer \<Rightarrow> string" where
  "contents b = segment (readerIndex b) (readableBytes b) (bytes b)"

subsection \<open>Searching\<close>

fun search2 :: "char \<Rightarrow> char \<Rightarrow> string \<Rightarrow> nat option" where
  "search2 a b (x # y # zs) =
     (if x = a \<and> y = b then Some 0 else map_option Suc (search2 a b (y # zs)))"
| "search2 a b zs = None"

fun memchr :: "char \<Rightarrow> string \<Rightarrow> nat option" where
  "memchr c [] = None"
| "memchr c (x # xs) = (if x = c then Some 0 else map_option Suc (memchr c xs))"

abbreviation CR :: char where "CR \<equiv> CHR 0x0D"
abbreviation LF :: char where "LF \<equiv> CHR 0x0A"

definition findCRLF :: "buffer \<Rightarrow> nat option" where
  "findCRLF b = map_option (\<lambda>k. readerIndex b + k) (search2 CR LF (contents b))"

definition findCRLF_from :: "nat \<Rightarrow> buffer \<Rightarrow> nat option res" where
  "findCRLF_from start b =
     c_assert (readerIndex b \<le> start) (c_assert (start \<le> writerIndex b)
       (Inr (map_option (\<lambda>k. start + k)
               (search2 CR LF (segment start (writerIndex b - start) (bytes b))))))"

definition findEOL :: "buffer \<Rightarrow> nat option" where
  "findEOL b = map_option (\<lambda>k. readerIndex b + k) (memchr LF (contents b))"

definition findEOL_from :: "nat \<Rightarrow> buffer \<Rightarrow> nat option res" where
  "findEOL_from start b =
     c_assert (readerIndex b \<le> start) (c_assert (start \<le> writerIndex b)
       (Inr (map_option (\<lambda>k. start + k)
               (memchr LF (segment start (writerIndex b - start) (bytes b))))))"

subsection \<open>Retrieving\<close>

definition retrieveAll :: "buffer \<Rightarrow> buffer" where
  "retrieveAll b = b\<lparr>readerIndex := kCheapPrepend, writerIndex := kCheapPrepend\<rparr>"

definition retrieve :: "nat \<Rightarrow> buffer \<Rightarrow> buffer res" where
  "retrieve len b =
     c_assert (len \<le> readableBytes b)
       (if len < readableBytes b then Inr (b\<lparr>readerIndex := readerIndex b + len\<rparr>)
        else Inr (retrieveAll b))"

definition retrieveUntil :: "nat \<Rightarrow> buffer \<Rightarrow> buffer res" where
  "retrieveUntil end_ptr b =
     c_assert (readerIndex b \<le> end_ptr) (c_assert (end_ptr \<le> writerIndex b)
       (retrieve (end_ptr - readerIndex b) b))"

definition retrieveInt64 :: "buffer \<Rightarrow> buffer res" where
  "retrieveInt64 b = retrieve 8 b"

definition retrieveInt32 :: "buffer \<Rightarrow> buffer res" where
  "retrieveInt32 b = retrieve 4 b"

definition retrieveInt16 :: "buffer \<Rightarrow> buffer res" where
  "retrieveInt16 b = retrieve 2 b"

definition retrieveInt8 :: "buffer \<Rightarrow> buffer res" where
  "retrieveInt8 b = retrieve 1 b"

definition retrieveAsString :: "nat \<Rightarrow> buffer \<Rightarrow> (string \<times> buffer) res" where
  "retrieveAsString len b =
     c_assert (len \<le> readableBytes b)
       (let result = segment (readerIndex b) len (bytes b)
        in rbind (retrieve len b) (\<lambda>b'. Inr (result, b')))"

definition retrieveAllAsString :: "buffer \<Rightarrow> (string \<times> buffer) res" where
  "retrieveAllAsString b = retrieveAsString (readableBytes b) b"

subsection \<open>Appending\<close>

definition makeSpace :: "nat \<Rightarrow> buffer \<Rightarrow> buffer res" where
  "makeSpace len b =
     (if writableBytes b + prependableBytes b < len + kCheapPrepend
      then Inr (b\<lparr>bytes := take (writerIndex b + len) (bytes b)
                   @ replicate (writerIndex b + len - length (bytes b)) (CHR 0x00)\<rparr>)
      else c_assert (kCheapPrepend < readerIndex b)
        (let readable = readableBytes b;
             b' = b\<lparr>bytes := copy_fwd readable (readerIndex b) kCheapPrepend (bytes b),
                    readerIndex := kCheapPrepend,
                    writerIndex := kCheapPrepend + readable\<rparr>
         in c_assert (readable = readableBytes b') (Inr b')))"

definition ensureWritableBytes :: "nat \<Rightarrow> buffer \<Rightarrow> buffer res" where
  "ensureWritableBytes len b =
     rbind (if writableBytes b < len then makeSpace len b else Inr b)
       (\<lambda>b'. c_assert (len \<le> writableBytes b') (Inr b'))"

definition hasWritten :: "nat \<Rightarrow> buffer \<Rightarrow> buffer res" where
  "hasWritten len b =
     c_assert (len \<le> writableBytes b) (Inr (b\<lparr>writerIndex := writerIndex b + len\<rparr>))"

definition unwrite :: "nat \<Rightarrow> buffer \<Rightarrow> buffer res" where
  "unwrite len b =
     c_assert (len \<le> readableBytes b) (Inr (b\<lparr>writerIndex := writerIndex b - len\<rparr>))"

definition buf_append :: "string \<Rightarrow> buffer \<Rightarrow> buffer res" where
  "buf_append data b =
     rbind (ensureWritableBytes (length data) b) (\<lambda>b1.
       hasWritten (length data) (b1\<lparr>bytes := write_at (writerIndex b1) data (bytes b1)\<rparr>))"

text \<open>
  A \<open>StringPiece\<close> is a pointer and a length of type \<open>int\<close>; \<open>toStringPiece\<close> narrows the number of
  readable bytes to 32 bits, and \<open>append\<close> widens the length again.
\<close>

definition toStringPiece :: "buffer \<Rightarrow> string \<times> int" where
  "toStringPiece b = (contents b, sint (word_of_nat (readableBytes b) :: i32))"

definition append_piece :: "string \<times> int \<Rightarrow> buffer \<Rightarrow> buffer res" where
  "append_piece str b =
     (case str of (d, len) \<Rightarrow> if len < 0 then Inl Overflow else buf_append (take (nat len) d) b)"

text \<open>The conversion of a string to the \<open>StringPiece\<close> that \<open>append\<close> takes narrows its length, too.\<close>

definition piece :: "string \<Rightarrow> string \<times> int" where
  "piece s = (s, sint (word_of_nat (length s) :: i32))"

definition prepend :: "string \<Rightarrow> buffer \<Rightarrow> buffer res" where
  "prepend data b =
     c_assert (length data \<le> prependableBytes b)
       (let r = readerIndex b - length data
        in Inr (b\<lparr>readerIndex := r, bytes := write_at r data (bytes b)\<rparr>))"

definition shrink :: "nat \<Rightarrow> buffer \<Rightarrow> buffer res" where
  "shrink reserve b =
     rbind (ensureWritableBytes (readableBytes b + reserve) (newBuffer kInitialSize)) (\<lambda>other.
     rbind (append_piece (toStringPiece b) other) (\<lambda>other'.
     Inr (fst (buf_swap (b, other')))))"

subsection \<open>Integers in network byte order\<close>

definition appendInt64 :: "i64 \<Rightarrow> buffer \<Rightarrow> buffer res" where
  "appendInt64 x b = (let be64 = hostToNetwork64 x in buf_append (word_bytes be64) b)"

definition appendInt32 :: "i32 \<Rightarrow> buffer \<Rightarrow> buffer res" where
  "appendInt32 x b = (let be32 = hostToNetwork32 x in buf_append (word_bytes be32) b)"

definition appendInt16 :: "16 word \<Rightarrow> buffer \<Rightarrow> buffer res" where
  "appendInt16 x b = (let be16 = hostToNetwork16 x in buf_append (word_bytes be16) b)"

definition appendInt8 :: "8 word \<Rightarrow> buffer \<Rightarrow> buffer res" where
  "appendInt8 x b = buf_append (word_bytes x) b"

definition peekInt64 :: "buffer \<Rightarrow> i64 res" where
  "peekInt64 b = c_assert (8 \<le> readableBytes b)
     (Inr (networkToHost64 (bytes_word (segment (readerIndex b) 8 (bytes b)))))"

definition peekInt32 :: "buffer \<Rightarrow> i32 res" where
  "peekInt32 b = c_assert (4 \<le> readableBytes b)
     (Inr (networkToHost32 (bytes_word (segment (readerIndex b) 4 (bytes b)))))"

definition peekInt16 :: "buffer \<Rightarrow> 16 word res" where
  "peekInt16 b = c_assert (2 \<le> readableBytes b)
     (Inr (networkToHost16 (bytes_word (segment (readerIndex b) 2 (bytes b)))))"

definition peekInt8 :: "buffer \<Rightarrow> 8 word res" where
  "peekInt8 b = c_assert (1 \<le> readableBytes b)
     (Inr (bytes_word (segment (readerIndex b) 1 (bytes b))))"

definition readInt64 :: "buffer \<Rightarrow> (i64 \<times> buffer) res" where
  "readInt64 b = rbind (peekInt64 b) (\<lambda>result. rbind (retrieveInt64 b) (\<lambda>b'. Inr (result, b')))"

definition readInt32 :: "buffer \<Rightarrow> (i32 \<times> buffer) res" where
  "readInt32 b = rbind (peekInt32 b) (\<lambda>result. rbind (retrieveInt32 b) (\<lambda>b'. Inr (result, b')))"

definition readInt16 :: "buffer \<Rightarrow> (16 word \<times> buffer) res" where
  "readInt16 b = rbind (peekInt16 b) (\<lambda>result. rbind (retrieveInt16 b) (\<lambda>b'. Inr (result, b')))"

definition readInt8 :: "buffer \<Rightarrow> (8 word \<times> buffer) res" where
  "readInt8 b = rbind (peekInt8 b) (\<lambda>result. rbind (retrieveInt8 b) (\<lambda>b'. Inr (result, b')))"

definition prependInt64 :: "i64 \<Rightarrow> buffer \<Rightarrow> buffer res" where
  "prependInt64 x b = (let be64 = hostToNetwork64 x in prepend (word_bytes be64) b)"

definition prependInt32 :: "i32 \<Rightarrow> buffer \<Rightarrow> buffer res" where
  "prependInt32 x b = (let be32 = hostToNetwork32 x in prepend (word_bytes be32) b)"

definition prependInt16 :: "16 word \<Rightarrow> buffer \<Rightarrow> buffer res" where
  "prependInt16 x b = (let be16 = hostToNetwork16 x in prepend (word_bytes be16) b)"

definition prependInt8 :: "8 word \<Rightarrow> buffer \<Rightarrow> buffer res" where
  "prependInt8 x b = prepend (word_bytes x) b"

subsection \<open>Reading from a descriptor\<close>

text \<open>
  The system call \<open>readv(2)\<close> is a parameter: from the total length of the two vectors to an
  error number or the bytes it stored, at most as many as were asked for.
\<close>

datatype read_result = ReadError int | ReadBytes string

definition readv_bounded :: "(nat \<Rightarrow> read_result) \<Rightarrow> bool" where
  "readv_bounded readv \<longleftrightarrow> (\<forall>n d. readv n = ReadBytes d \<longrightarrow> length d \<le> n)"

definition extrabuf_size :: nat where
  "extrabuf_size = 65536"

definition readFd_iovlen :: "buffer \<Rightarrow> nat" where
  "readFd_iovlen b =
     (let writable = writableBytes b
      in if writable < extrabuf_size then writable + extrabuf_size else writable)"

definition readFd :: "(nat \<Rightarrow> read_result) \<Rightarrow> buffer \<Rightarrow> (int \<times> int option \<times> buffer) res" where
  "readFd readv b =
     (let writable = writableBytes b
      in case readv (readFd_iovlen b) of
           ReadError e \<Rightarrow> Inr (-1, Some e, b)
         | ReadBytes d \<Rightarrow>
             (let n = length d;
                  b1 = b\<lparr>bytes := write_at (writerIndex b) (take writable d) (bytes b)\<rparr>
              in if n \<le> writable
                 then Inr (int n, None, b1\<lparr>writerIndex := writerIndex b1 + n\<rparr>)
                 else rbind (buf_append (drop writable d)
                               (b1\<lparr>writerIndex := length (bytes b1)\<rparr>))
                        (\<lambda>b2. Inr (int n, None, b2))))"

section \<open>Well-formedness and the byte-queue contract\<close>

definition wf_buffer :: "buffer \<Rightarrow> bool" where
  "wf_buffer b \<longleftrightarrow> readerIndex b \<le> writerIndex b \<and> writerIndex b \<le> length (bytes b)
     \<and> kCheapPrepend \<le> length (bytes b)"

named_theorems buffer_sizes \<open>the index arithmetic of a buffer\<close>
declare readableBytes_def [buffer_sizes] writableBytes_def [buffer_sizes]
  prependableBytes_def [buffer_sizes] kCheapPrepend_def [buffer_sizes] wf_buffer_def [buffer_sizes]

lemma wf_newBuffer [simp]: "wf_buffer (newBuffer n)"
  by (simp add: newBuffer_def buffer_sizes)

lemma contents_newBuffer [simp]: "contents (newBuffer n) = []"
  by (simp add: newBuffer_def contents_def buffer_sizes)

lemma newBuffer_asserts:
  "readableBytes (newBuffer n) = 0 \<and> writableBytes (newBuffer n) = n
    \<and> prependableBytes (newBuffer n) = kCheapPrepend"
  by (simp add: newBuffer_def buffer_sizes)

lemma length_contents [simp]: "wf_buffer b \<Longrightarrow> length (contents b) = readableBytes b"
  by (simp add: contents_def buffer_sizes)

lemma wf_retrieveAll [simp]: "wf_buffer b \<Longrightarrow> wf_buffer (retrieveAll b)"
  by (simp add: retrieveAll_def buffer_sizes)

lemma contents_retrieveAll [simp]: "contents (retrieveAll b) = []"
  by (simp add: retrieveAll_def contents_def buffer_sizes)

lemma retrieve_spec:
  assumes "wf_buffer b" and "n \<le> readableBytes b"
  shows "\<exists>b'. retrieve n b = Inr b' \<and> wf_buffer b' \<and> contents b' = drop n (contents b)"
proof (cases "n < readableBytes b")
  case True
  with assms show ?thesis
    by (simp add: retrieve_def contents_def drop_segment) (simp add: buffer_sizes)
next
  case False
  with assms show ?thesis by (simp add: retrieve_def)
qed

lemma retrieve_fails: "readableBytes b < n \<Longrightarrow> retrieve n b = Inl AssertFail"
  by (simp add: retrieve_def)

lemma makeSpace_spec:
  assumes wf: "wf_buffer b" and need: "writableBytes b < n"
  shows "\<exists>b'. makeSpace n b = Inr b' \<and> wf_buffer b' \<and> contents b' = contents b
           \<and> n \<le> writableBytes b'"
proof (cases "writableBytes b + prependableBytes b < n + kCheapPrepend")
  case True
  with wf need show ?thesis
    by (simp add: makeSpace_def contents_def) (auto simp: buffer_sizes segment_append1)
next
  case False
  let ?k = "readableBytes b"
  have bounds: "kCheapPrepend < readerIndex b" "readerIndex b + ?k \<le> length (bytes b)"
    using False need wf by (auto simp: buffer_sizes)
  let ?d = "write_at kCheapPrepend (contents b) (bytes b)"
  have fits: "kCheapPrepend + length (contents b) \<le> length (bytes b)"
    using bounds wf by simp
  have copy: "copy_fwd ?k (readerIndex b) kCheapPrepend (bytes b) = ?d"
    using bounds by (simp add: copy_fwd_write_at contents_def)
  have len: "length ?d = length (bytes b)" using fits by simp
  have seg: "segment kCheapPrepend ?k ?d = contents b"
    using segment_write_at [OF fits] wf by simp
  let ?b' = "b\<lparr>bytes := ?d, readerIndex := kCheapPrepend, writerIndex := kCheapPrepend + ?k\<rparr>"
  have "makeSpace n b = Inr ?b'"
    using False bounds copy by (simp add: makeSpace_def Let_def readableBytes_def [of "b\<lparr>bytes := _, readerIndex := _, writerIndex := _\<rparr>"])
  moreover have "contents ?b' = contents b"
    using seg by (simp add: contents_def [of ?b'] readableBytes_def [of ?b'])
  moreover have "wf_buffer ?b'" "n \<le> writableBytes ?b'"
    using False need bounds len wf by (auto simp: buffer_sizes)
  ultimately show ?thesis by blast
qed

lemma ensureWritableBytes_spec:
  assumes "wf_buffer b"
  shows "\<exists>b'. ensureWritableBytes n b = Inr b' \<and> wf_buffer b' \<and> contents b' = contents b
           \<and> n \<le> writableBytes b'"
  using assms makeSpace_spec [of b n] by (cases "writableBytes b < n")
    (auto simp: ensureWritableBytes_def)

lemma write_hasWritten:
  assumes wf: "wf_buffer b" and fits: "length xs \<le> writableBytes b"
  defines "b' \<equiv> b\<lparr>bytes := write_at (writerIndex b) xs (bytes b),
                  writerIndex := writerIndex b + length xs\<rparr>"
  shows "wf_buffer b' \<and> contents b' = contents b @ xs"
proof -
  let ?d = "write_at (writerIndex b) xs (bytes b)"
  have fits': "writerIndex b + length xs \<le> length (bytes b)"
    using wf fits by (auto simp: buffer_sizes)
  have r: "readableBytes b' = readableBytes b + length xs"
    and w: "readerIndex b + readableBytes b = writerIndex b"
    using wf by (auto simp: b'_def buffer_sizes)
  have old: "segment (readerIndex b) (readableBytes b) ?d = contents b"
    using wf w fits' by (simp add: contents_def segment_before_write_at)
  have new: "segment (writerIndex b) (length xs) ?d = xs"
    using fits' by (rule segment_write_at)
  have split: "segment (readerIndex b) (readableBytes b + length xs) ?d
      = segment (readerIndex b) (readableBytes b) ?d @ segment (writerIndex b) (length xs) ?d"
    using segment_append [of "readerIndex b" "readableBytes b" "length xs" ?d] fits' w by simp
  have "contents b' = segment (readerIndex b) (readableBytes b + length xs) ?d"
    by (simp add: contents_def [of b'] r) (simp add: b'_def)
  then have "contents b' = contents b @ xs" by (simp add: split old new)
  moreover have "wf_buffer b'" using wf fits' by (simp add: b'_def buffer_sizes)
  ultimately show ?thesis by simp
qed

lemma buf_append_spec:
  assumes "wf_buffer b"
  shows "\<exists>b'. buf_append xs b = Inr b' \<and> wf_buffer b' \<and> contents b' = contents b @ xs"
proof -
  obtain b1 where b1: "ensureWritableBytes (length xs) b = Inr b1" "wf_buffer b1"
      "contents b1 = contents b" "length xs \<le> writableBytes b1"
    using ensureWritableBytes_spec [OF assms] by blast
  have fits: "writerIndex b1 + length xs \<le> length (bytes b1)"
    using b1(2,4) by (auto simp: buffer_sizes)
  then have "hasWritten (length xs) (b1\<lparr>bytes := write_at (writerIndex b1) xs (bytes b1)\<rparr>)
     = Inr (b1\<lparr>bytes := write_at (writerIndex b1) xs (bytes b1),
               writerIndex := writerIndex b1 + length xs\<rparr>)"
    by (simp add: hasWritten_def writableBytes_def)
  with b1 write_hasWritten [OF b1(2,4)] show ?thesis by (simp add: buf_append_def)
qed

lemma append_piece_short:
  assumes "wf_buffer b" "length s < 2 ^ 31"
  shows "\<exists>b'. append_piece (piece s) b = Inr b' \<and> wf_buffer b' \<and> contents b' = contents b @ s"
  using buf_append_spec [OF assms(1), of s] sint_of_nat_small [OF assms(2)] by (simp add: append_piece_def piece_def)

lemma prepend_spec:
  assumes wf: "wf_buffer b" and fits: "length xs \<le> prependableBytes b"
  shows "\<exists>b'. prepend xs b = Inr b' \<and> wf_buffer b' \<and> contents b' = xs @ contents b"
proof -
  let ?r = "readerIndex b - length xs"
  let ?d = "write_at ?r xs (bytes b)"
  let ?b' = "b\<lparr>readerIndex := ?r, bytes := ?d\<rparr>"
  have r: "?r + length xs = readerIndex b" "readerIndex b \<le> length (bytes b)"
    using wf fits by (auto simp: buffer_sizes)
  have wf': "wf_buffer ?b'" using wf r by (simp add: buffer_sizes)
  have rd: "readableBytes ?b' = length xs + readableBytes b"
    using wf r by (auto simp: buffer_sizes)
  have tail: "segment (readerIndex b) (readableBytes b) ?d = contents b"
    using r by (simp add: contents_def segment_def write_at_def)
  have "contents ?b' = segment ?r (length xs + readableBytes b) ?d"
    by (simp add: contents_def [of ?b'] rd)
  also have "\<dots> = xs @ contents b"
    using segment_append [of ?r "length xs" "readableBytes b" ?d] r tail wf
    by (simp add: segment_write_at buffer_sizes)
  finally show ?thesis using wf' fits by (simp add: prepend_def Let_def)
qed

lemma retrieveAsString_spec:
  assumes "wf_buffer b" and "n \<le> readableBytes b"
  shows "\<exists>b'. retrieveAsString n b = Inr (take n (contents b), b') \<and> wf_buffer b'
           \<and> contents b' = drop n (contents b)"
  using retrieve_spec [OF assms] assms
  by (auto simp: retrieveAsString_def contents_def [of b] take_segment)

subsection \<open>The contract\<close>

text \<open>
  What the connections and the session rely on: \<open>put\<close> adds at the end, \<open>get\<close> removes from the
  front what it returns, and asking for more than is there aborts. A client program is a list
  of such operations; \<open>run_ops\<close> runs it and collects the bytes it got.
\<close>

datatype qop = Put string | Get nat

fun run_ops :: "(string \<Rightarrow> 'q \<Rightarrow> 'q res) \<Rightarrow> (nat \<Rightarrow> 'q \<Rightarrow> (string \<times> 'q) res) \<Rightarrow>
    qop list \<Rightarrow> 'q \<Rightarrow> (string \<times> 'q) res" where
  "run_ops put get [] q = Inr ([], q)"
| "run_ops put get (Put xs # ops) q = rbind (put xs q) (run_ops put get ops)"
| "run_ops put get (Get n # ops) q =
     rbind (get n q) (\<lambda>(s, q1). rbind (run_ops put get ops q1) (\<lambda>(r, q2). Inr (s @ r, q2)))"

fun put_bytes :: "qop list \<Rightarrow> string" where
  "put_bytes [] = []"
| "put_bytes (Put xs # ops) = xs @ put_bytes ops"
| "put_bytes (Get n # ops) = put_bytes ops"

fun demands_met :: "nat \<Rightarrow> qop list \<Rightarrow> bool" where
  "demands_met a [] = True"
| "demands_met a (Put xs # ops) = demands_met (a + length xs) ops"
| "demands_met a (Get n # ops) = (n \<le> a \<and> demands_met (a - n) ops)"

locale byte_queue =
  fixes content :: "'q \<Rightarrow> string" and inv :: "'q \<Rightarrow> bool"
    and put :: "string \<Rightarrow> 'q \<Rightarrow> 'q res" and get :: "nat \<Rightarrow> 'q \<Rightarrow> (string \<times> 'q) res"
  assumes put_spec: "inv q \<Longrightarrow> \<exists>q'. put xs q = Inr q' \<and> inv q' \<and> content q' = content q @ xs"
    and get_spec: "inv q \<Longrightarrow> n \<le> length (content q) \<Longrightarrow>
      \<exists>q'. get n q = Inr (take n (content q), q') \<and> inv q' \<and> content q' = drop n (content q)"
    and get_fails: "inv q \<Longrightarrow> length (content q) < n \<Longrightarrow> get n q = Inl AssertFail"
begin

lemma run_ops_fifo:
  "inv q \<Longrightarrow> demands_met (length (content q)) ops \<Longrightarrow>
    \<exists>r q'. run_ops put get ops q = Inr (r, q') \<and> inv q' \<and> r @ content q' = content q @ put_bytes ops"
proof (induction ops arbitrary: q)
  case Nil
  then show ?case by simp
next
  case (Cons op ops)
  show ?case
  proof (cases op)
    case (Put xs)
    obtain q' where "put xs q = Inr q'" "inv q'" "content q' = content q @ xs"
      using put_spec [OF Cons.prems(1)] by blast
    with Cons.IH [of q'] Cons.prems(2) Put show ?thesis by auto
  next
    case (Get n)
    with Cons.prems(2) have n: "n \<le> length (content q)"
      and rest: "demands_met (length (content q) - n) ops" by simp_all
    obtain q' where q': "get n q = Inr (take n (content q), q')" "inv q'"
        "content q' = drop n (content q)"
      using get_spec [OF Cons.prems(1) n] by blast
    obtain r q'' where "run_ops put get ops q' = Inr (r, q'')" "inv q''"
        "r @ content q'' = content q' @ put_bytes ops"
      using Cons.IH [OF q'(2)] rest q'(3) by auto
    with Get q' show ?thesis by simp
  qed
qed

lemma run_ops_aborts:
  "inv q \<Longrightarrow> \<not> demands_met (length (content q)) ops \<Longrightarrow> run_ops put get ops q = Inl AssertFail"
proof (induction ops arbitrary: q)
  case (Cons op ops)
  show ?case
  proof (cases op)
    case (Put xs)
    obtain q' where "put xs q = Inr q'" "inv q'" "content q' = content q @ xs"
      using put_spec [OF Cons.prems(1)] by blast
    with Cons.IH [of q'] Cons.prems(2) Put show ?thesis by simp
  next
    case (Get n)
    show ?thesis
    proof (cases "n \<le> length (content q)")
      case True
      obtain q' where "get n q = Inr (take n (content q), q')" "inv q'"
          "content q' = drop n (content q)"
        using get_spec [OF Cons.prems(1) True] by blast
      with Cons.IH [of q'] Cons.prems(2) Get True show ?thesis by simp
    next
      case False
      with get_fails [OF Cons.prems(1)] Get show ?thesis by simp
    qed
  qed
qed simp

end

interpretation net_buffer: byte_queue contents wf_buffer buf_append retrieveAsString
proof unfold_locales
  fix q :: buffer and n
  assume "wf_buffer q" "length (contents q) < n"
  then show "retrieveAsString n q = Inl AssertFail" by (simp add: retrieveAsString_def)
qed (use buf_append_spec retrieveAsString_spec in auto)

section \<open>Properties of the buffer\<close>

text \<open>
  C2. First in, first out, for every program of appends and reads on a well-formed buffer: if no
  read asks for more than is readable, no assertion fails (growing and compacting included),
  the buffer stays well formed, and the bytes read followed by the bytes still readable are the
  bytes readable at the start followed by the bytes appended.
\<close>

theorem buffer_fifo:
  assumes "wf_buffer b" and "demands_met (readableBytes b) ops"
  shows "\<exists>r b'. run_ops buf_append retrieveAsString ops b = Inr (r, b') \<and> wf_buffer b'
           \<and> r @ contents b' = contents b @ put_bytes ops"
  using net_buffer.run_ops_fifo [OF assms(1)] assms by simp

theorem buffer_fifo_witness:
  "\<exists>r b'. run_ops buf_append retrieveAsString [Put ''hello'', Get 2, Put ''!'', Get 4] (newBuffer 3)
     = Inr (r, b') \<and> wf_buffer b'
     \<and> r @ contents b' = contents (newBuffer 3) @ put_bytes [Put ''hello'', Get 2, Put ''!'', Get 4]"
  by (rule buffer_fifo) (simp_all add: newBuffer_asserts)

text \<open>
  A program of appends and reads that at some point asks for more bytes than are readable
  always ends in an assertion failure, never in a short read.
\<close>

theorem buffer_overread_aborts:
  assumes "wf_buffer b" and "\<not> demands_met (readableBytes b) ops"
  shows "run_ops buf_append retrieveAsString ops b = Inl AssertFail"
  using net_buffer.run_ops_aborts [OF assms(1)] assms by simp

theorem buffer_overread_aborts_witness:
  "run_ops buf_append retrieveAsString [Put ''ab'', Get 3] (newBuffer 16) = Inl AssertFail"
  by (rule buffer_overread_aborts) (simp_all add: newBuffer_asserts)

subsection \<open>Integers\<close>

lemma word_bytes_bytes_word:
  assumes "8 dvd LENGTH('w::len)" and "length cs = LENGTH('w) div 8"
  shows "word_bytes (bytes_word cs :: 'w word) = cs"
proof -
  from assms(1) have "(256::nat) ^ (LENGTH('w) div 8) = 2 ^ LENGTH('w)"
    by (auto simp: dvd_def power_mult)
  with le_value_less [of cs] assms(2) have "le_value cs < 2 ^ LENGTH('w)" by simp
  then have "unat (bytes_word cs :: 'w word) = le_value cs"
    by (simp add: bytes_word_def unat_of_nat)
  with assms(2) show ?thesis by (simp add: word_bytes_def)
qed

lemma word_bytes_bswap:
  "8 dvd LENGTH('w::len) \<Longrightarrow> word_bytes (bswap (w :: 'w word)) = rev (word_bytes w)"
  by (simp add: bswap_def word_bytes_bytes_word)

lemma bswap_bswap: "8 dvd LENGTH('w::len) \<Longrightarrow> bswap (bswap (w :: 'w word)) = w"
  by (simp add: bswap_def [of "bswap w"] word_bytes_bswap word_bytes_roundtrip)

lemmas network_defs =
  hostToNetwork64_def hostToNetwork32_def hostToNetwork16_def
  networkToHost64_def networkToHost32_def networkToHost16_def

lemma contents_front:
  "wf_buffer b \<Longrightarrow> n \<le> readableBytes b \<Longrightarrow> segment (readerIndex b) n (bytes b) = take n (contents b)"
  by (simp add: contents_def take_segment)

text \<open>The four integer readers on a buffer whose content starts with a big-endian image.\<close>

lemma read_front:
  assumes "wf_buffer b" and "contents b = xs @ rest"
  shows "length xs \<le> readableBytes b" and "segment (readerIndex b) (length xs) (bytes b) = xs"
proof -
  show le: "length xs \<le> readableBytes b"
    using assms by (metis le_add1 length_append length_contents)
  show "segment (readerIndex b) (length xs) (bytes b) = xs"
    using contents_front [OF assms(1) le] assms(2) by simp
qed

lemma peekInt64_be:
  "wf_buffer b \<Longrightarrow> contents b = rev (word_bytes x) @ rest \<Longrightarrow> peekInt64 b = Inr x"
  using read_front [of b "rev (word_bytes x)" rest] bswap_bswap [of x]
  by (simp add: peekInt64_def network_defs bswap_def)

lemma peekInt32_be:
  "wf_buffer b \<Longrightarrow> contents b = rev (word_bytes x) @ rest \<Longrightarrow> peekInt32 b = Inr x"
  using read_front [of b "rev (word_bytes x)" rest] bswap_bswap [of x]
  by (simp add: peekInt32_def network_defs bswap_def)

lemma peekInt16_be:
  "wf_buffer b \<Longrightarrow> contents b = rev (word_bytes x) @ rest \<Longrightarrow> peekInt16 b = Inr x"
  using read_front [of b "rev (word_bytes x)" rest] bswap_bswap [of x]
  by (simp add: peekInt16_def network_defs bswap_def)

lemma peekInt8_be:
  "wf_buffer b \<Longrightarrow> contents b = word_bytes x @ rest \<Longrightarrow> peekInt8 b = Inr x"
  using read_front [of b "word_bytes x" rest] word_bytes_roundtrip [of x]
  by (simp add: peekInt8_def)

lemma retrieve_front:
  assumes "wf_buffer b" and "contents b = xs @ rest"
  shows "\<exists>b'. retrieve (length xs) b = Inr b' \<and> wf_buffer b' \<and> contents b' = rest"
  using retrieve_spec [OF assms(1) read_front(1) [OF assms]] assms(2) by auto

lemma appendInt_specs:
  assumes "wf_buffer b"
  shows "\<exists>b'. appendInt64 x b = Inr b' \<and> wf_buffer b' \<and> contents b' = contents b @ rev (word_bytes x)"
    and "\<exists>b'. appendInt32 y b = Inr b' \<and> wf_buffer b' \<and> contents b' = contents b @ rev (word_bytes y)"
    and "\<exists>b'. appendInt16 z b = Inr b' \<and> wf_buffer b' \<and> contents b' = contents b @ rev (word_bytes z)"
    and "\<exists>b'. appendInt8 v b = Inr b' \<and> wf_buffer b' \<and> contents b' = contents b @ word_bytes v"
  using buf_append_spec [OF assms]
  by (auto simp: appendInt64_def appendInt32_def appendInt16_def appendInt8_def network_defs
      word_bytes_bswap)

lemma readInt_specs:
  assumes "wf_buffer b"
  shows "contents b = rev (word_bytes x) @ rest \<Longrightarrow>
      \<exists>b'. readInt64 b = Inr (x, b') \<and> wf_buffer b' \<and> contents b' = rest"
    and "contents b = rev (word_bytes y) @ rest \<Longrightarrow>
      \<exists>b'. readInt32 b = Inr (y, b') \<and> wf_buffer b' \<and> contents b' = rest"
    and "contents b = rev (word_bytes z) @ rest \<Longrightarrow>
      \<exists>b'. readInt16 b = Inr (z, b') \<and> wf_buffer b' \<and> contents b' = rest"
    and "contents b = word_bytes v @ rest \<Longrightarrow>
      \<exists>b'. readInt8 b = Inr (v, b') \<and> wf_buffer b' \<and> contents b' = rest"
proof -
  show "\<exists>b'. readInt64 b = Inr (x, b') \<and> wf_buffer b' \<and> contents b' = rest"
    if "contents b = rev (word_bytes x) @ rest"
    using retrieve_front [OF assms that] peekInt64_be [OF assms that]
    by (auto simp: readInt64_def retrieveInt64_def)
  show "\<exists>b'. readInt32 b = Inr (y, b') \<and> wf_buffer b' \<and> contents b' = rest"
    if "contents b = rev (word_bytes y) @ rest"
    using retrieve_front [OF assms that] peekInt32_be [OF assms that]
    by (auto simp: readInt32_def retrieveInt32_def)
  show "\<exists>b'. readInt16 b = Inr (z, b') \<and> wf_buffer b' \<and> contents b' = rest"
    if "contents b = rev (word_bytes z) @ rest"
    using retrieve_front [OF assms that] peekInt16_be [OF assms that]
    by (auto simp: readInt16_def retrieveInt16_def numeral_2_eq_2)
  show "\<exists>b'. readInt8 b = Inr (v, b') \<and> wf_buffer b' \<and> contents b' = rest"
    if "contents b = word_bytes v @ rest"
    using retrieve_front [OF assms that] peekInt8_be [OF assms that]
    by (auto simp: readInt8_def retrieveInt8_def)
qed

text \<open>
  Integers survive the network byte order: whatever is readable, appending a 64-, a 32-, a 16-
  and an 8-bit integer puts their big-endian images at the end, and reading the four back in the
  same order from an empty buffer returns them and leaves the buffer empty.
\<close>

theorem int_roundtrip:
  assumes "wf_buffer b" and "contents b = []"
  shows "\<exists>b1 b2 b3 b4 c1 c2 c3 c4.
     appendInt64 x b = Inr b1 \<and> appendInt32 y b1 = Inr b2 \<and> appendInt16 z b2 = Inr b3
     \<and> appendInt8 v b3 = Inr b4
     \<and> contents b4 = rev (word_bytes x) @ rev (word_bytes y) @ rev (word_bytes z) @ word_bytes v
     \<and> readInt64 b4 = Inr (x, c1) \<and> readInt32 c1 = Inr (y, c2) \<and> readInt16 c2 = Inr (z, c3)
     \<and> readInt8 c3 = Inr (v, c4) \<and> contents c4 = []"
proof -
  obtain b1 where b1: "appendInt64 x b = Inr b1" "wf_buffer b1" "contents b1 = rev (word_bytes x)"
    using appendInt_specs(1) [OF assms(1), of x] assms(2) by auto
  obtain b2 where b2: "appendInt32 y b1 = Inr b2" "wf_buffer b2"
      "contents b2 = rev (word_bytes x) @ rev (word_bytes y)"
    using appendInt_specs(2) [OF b1(2), of y] b1(3) by auto
  obtain b3 where b3: "appendInt16 z b2 = Inr b3" "wf_buffer b3"
      "contents b3 = rev (word_bytes x) @ rev (word_bytes y) @ rev (word_bytes z)"
    using appendInt_specs(3) [OF b2(2), of z] b2(3) by auto
  obtain b4 where b4: "appendInt8 v b3 = Inr b4" "wf_buffer b4"
      "contents b4 = rev (word_bytes x) @ rev (word_bytes y) @ rev (word_bytes z) @ word_bytes v"
    using appendInt_specs(4) [OF b3(2), of v] b3(3) by auto
  obtain c1 where c1: "readInt64 b4 = Inr (x, c1)" "wf_buffer c1"
      "contents c1 = rev (word_bytes y) @ rev (word_bytes z) @ word_bytes v"
    using readInt_specs(1) [OF b4(2,3)] by auto
  obtain c2 where c2: "readInt32 c1 = Inr (y, c2)" "wf_buffer c2"
      "contents c2 = rev (word_bytes z) @ word_bytes v"
    using readInt_specs(2) [OF c1(2,3)] by auto
  obtain c3 where c3: "readInt16 c2 = Inr (z, c3)" "wf_buffer c3" "contents c3 = word_bytes v @ []"
    using readInt_specs(3) [OF c2(2,3)] by auto
  obtain c4 where c4: "readInt8 c3 = Inr (v, c4)" "contents c4 = []"
    using readInt_specs(4) [OF c3(2,3)] by auto
  from b1(1) b2(1) b3(1) b4(1,3) c1(1) c2(1) c3(1) c4 show ?thesis by blast
qed

theorem int_roundtrip_witness:
  "\<exists>b1 b2 b3 b4 c1 c2 c3 c4.
     appendInt64 1 (newBuffer 2) = Inr b1 \<and> appendInt32 (-2) b1 = Inr b2
     \<and> appendInt16 770 b2 = Inr b3 \<and> appendInt8 255 b3 = Inr b4
     \<and> contents b4 = rev (word_bytes (1 :: i64)) @ rev (word_bytes (-2 :: i32))
          @ rev (word_bytes (770 :: 16 word)) @ word_bytes (255 :: 8 word)
     \<and> readInt64 b4 = Inr (1, c1) \<and> readInt32 c1 = Inr (-2, c2) \<and> readInt16 c2 = Inr (770, c3)
     \<and> readInt8 c3 = Inr (255, c4) \<and> contents c4 = []"
  by (rule int_roundtrip) simp_all

text \<open>
  The header space: with at least four prependable bytes, \<open>prependInt32\<close> puts a length in front
  of the content without touching it, and \<open>readInt32\<close> takes it off again.
\<close>

theorem prepend_header_roundtrip:
  assumes wf: "wf_buffer b" and room: "4 \<le> prependableBytes b"
  shows "\<exists>b1 b2. prependInt32 n b = Inr b1 \<and> contents b1 = rev (word_bytes n) @ contents b
           \<and> readInt32 b1 = Inr (n, b2) \<and> wf_buffer b2 \<and> contents b2 = contents b"
proof -
  obtain b1 where b1: "prependInt32 n b = Inr b1" "wf_buffer b1"
      "contents b1 = rev (word_bytes n) @ contents b"
    using prepend_spec [OF wf, of "rev (word_bytes n)"] room
    by (auto simp: prependInt32_def network_defs word_bytes_bswap)
  then show ?thesis using readInt_specs(2) [OF b1(2,3)] by blast
qed

theorem prepend_header_roundtrip_witness:
  "\<exists>b1 b2. prependInt32 5 (newBuffer 9) = Inr b1
     \<and> contents b1 = rev (word_bytes (5 :: i32)) @ contents (newBuffer 9)
     \<and> readInt32 b1 = Inr (5, b2) \<and> wf_buffer b2 \<and> contents b2 = contents (newBuffer 9)"
  by (rule prepend_header_roundtrip) (simp_all add: newBuffer_asserts kCheapPrepend_def)

subsection \<open>Reading from a descriptor\<close>

lemma readFd_spec:
  assumes wf: "wf_buffer b" and bounded: "readv_bounded readv"
  shows "case readv (readFd_iovlen b) of
      ReadError e \<Rightarrow> readFd readv b = Inr (-1, Some e, b)
    | ReadBytes d \<Rightarrow> (\<exists>b'. readFd readv b = Inr (int (length d), None, b') \<and> wf_buffer b'
        \<and> contents b' = contents b @ d \<and> (writableBytes b < length d \<longrightarrow> length d \<le> 131071))"
proof (cases "readv (readFd_iovlen b)")
  case (ReadError e)
  then show ?thesis by (simp add: readFd_def)
next
  case (ReadBytes d)
  let ?w = "writableBytes b"
  let ?b1 = "b\<lparr>bytes := write_at (writerIndex b) (take ?w d) (bytes b)\<rparr>"
  have "length d \<le> readFd_iovlen b" using bounded ReadBytes by (auto simp: readv_bounded_def)
  then have bound: "?w < length d \<longrightarrow> length d \<le> 131071"
    by (auto simp: readFd_iovlen_def extrabuf_size_def Let_def split: if_splits)
  have w1: "wf_buffer (?b1\<lparr>writerIndex := writerIndex b + length (take ?w d)\<rparr>)"
    and c1: "contents (?b1\<lparr>writerIndex := writerIndex b + length (take ?w d)\<rparr>)
      = contents b @ take ?w d"
    using write_hasWritten [OF wf, of "take ?w d"] by simp_all
  have "\<exists>b'. readFd readv b = Inr (int (length d), None, b') \<and> wf_buffer b'
      \<and> contents b' = contents b @ d"
  proof (cases "length d \<le> ?w")
    case True
    with w1 c1 ReadBytes show ?thesis by (auto simp: readFd_def Let_def)
  next
    case False
    have full: "length (bytes ?b1) = writerIndex b + length (take ?w d)"
      using False wf by (auto simp: buffer_sizes)
    obtain b' where "buf_append (drop ?w d) (?b1\<lparr>writerIndex := length (bytes ?b1)\<rparr>) = Inr b'"
        "wf_buffer b'" "contents b' = (contents b @ take ?w d) @ drop ?w d"
      using buf_append_spec [OF w1, of "drop ?w d"] c1 unfolding full by auto
    with False ReadBytes show ?thesis by (auto simp: readFd_def Let_def)
  qed
  with bound ReadBytes show ?thesis by auto
qed

text \<open>
  \<open>readFd\<close> appends exactly the bytes \<open>readv(2)\<close> delivered, in order, whether they fit the writable
  space or spill into the stack buffer, and returns their number, which is at most 131071 whenever
  the stack buffer was used; on an error it returns -1 with the error number and changes nothing.
\<close>

theorem readFd_correct:
  assumes wf: "wf_buffer b" and bounded: "readv_bounded readv"
  shows "case readv (readFd_iovlen b) of
      ReadError e \<Rightarrow> readFd readv b = Inr (-1, Some e, b)
    | ReadBytes d \<Rightarrow> (\<exists>b'. readFd readv b = Inr (int (length d), None, b') \<and> wf_buffer b'
        \<and> contents b' = contents b @ d \<and> (writableBytes b < length d \<longrightarrow> length d \<le> 131071))"
  using assms by (rule readFd_spec)

theorem readFd_correct_witness:
  "\<exists>b'. readFd (\<lambda>k. ReadBytes (take k ''ping'')) (newBuffer 2) = Inr (4, None, b') \<and> wf_buffer b'
     \<and> contents b' = ''ping''"
  using readFd_correct [of "newBuffer 2" "\<lambda>k. ReadBytes (take k ''ping'')"]
  by (simp add: readv_bounded_def readFd_iovlen_def newBuffer_asserts extrabuf_size_def)

subsection \<open>Searching and shrinking\<close>

lemma search2_Some:
  "search2 a b s = Some k \<longleftrightarrow>
     (\<exists>rest. s = take k s @ a # b # rest) \<and> k + 2 \<le> length s \<and>
     (\<forall>j<k. \<not> (s ! j = a \<and> s ! Suc j = b))"
proof (induction a b s arbitrary: k rule: search2.induct)
  case (1 a b x y zs)
  show ?case
  proof (cases k)
    case 0
    then show ?thesis by auto
  next
    case (Suc j)
    have "(\<forall>i<Suc j. \<not> ((x # y # zs) ! i = a \<and> (x # y # zs) ! Suc i = b)) \<longleftrightarrow>
        \<not> (x = a \<and> y = b) \<and> (\<forall>i<j. \<not> ((y # zs) ! i = a \<and> (y # zs) ! Suc i = b))"
      by (auto simp: less_Suc_eq_0_disj)
    with Suc 1 show ?thesis by auto
  qed
qed auto

lemma search2_None: "search2 a b s = None \<longleftrightarrow> (\<nexists>u v. s = u @ a # b # v)"
proof (induction a b s rule: search2.induct)
  case (1 a b x y zs)
  have "(\<exists>u v. x # y # zs = u @ a # b # v) \<longleftrightarrow> (x = a \<and> y = b) \<or> (\<exists>u v. y # zs = u @ a # b # v)"
    by (auto simp: Cons_eq_append_conv)
  with 1 show ?case by auto
qed (auto simp: Cons_eq_append_conv)

text \<open>
  \<open>findCRLF\<close> finds the first line break: a result is a position inside the readable bytes where
  CR LF stands and before which no CR LF starts, and no result means there is none.
\<close>

theorem findCRLF_first:
  assumes "wf_buffer b"
  shows "case findCRLF b of
      None \<Rightarrow> \<nexists>u v. contents b = u @ CR # LF # v
    | Some p \<Rightarrow> readerIndex b \<le> p \<and> p + 2 \<le> writerIndex b
        \<and> segment p 2 (bytes b) = [CR, LF]
        \<and> (\<nexists>u v. take (p + 1 - readerIndex b) (contents b) = u @ CR # LF # v)"
proof (cases "search2 CR LF (contents b)")
  case None
  then have "findCRLF b = None" by (simp add: findCRLF_def)
  with None show ?thesis by (simp add: search2_None)
next
  case (Some k)
  let ?s = "contents b"
  obtain rest where s: "?s = take k ?s @ CR # LF # rest" and k: "k + 2 \<le> length ?s"
    and first: "\<forall>j<k. \<not> (?s ! j = CR \<and> ?s ! Suc j = LF)"
    using Some by (auto simp: search2_Some)
  have k': "k + 2 \<le> readableBytes b" using k assms by simp
  have "segment (readerIndex b + k) 2 (bytes b) = take 2 (drop k ?s)"
    using k' by (simp add: contents_def [of b] drop_segment take_segment)
  also have "drop k ?s = CR # LF # rest"
    using s k by (metis add_leD1 append_eq_conv_conj length_take min.absorb2)
  finally have seg: "segment (readerIndex b + k) 2 (bytes b) = [CR, LF]" by (simp add: numeral_2_eq_2)
  have no: False if "take (k + 1) ?s = u @ CR # LF # v" for u v
  proof -
    have "length u < k" using arg_cong [OF that, of length] k by simp
    moreover have "?s = u @ CR # LF # v @ drop (k + 1) ?s"
      using that by (metis append.assoc append_Cons append_take_drop_id)
    then have "?s ! length u = CR" "?s ! Suc (length u) = LF"
      by (metis nth_append_length, metis append.assoc append_Cons append_Nil length_append_singleton nth_append_length)
    ultimately show False using first by blast
  qed
  have "readerIndex b + k + 2 \<le> writerIndex b" using k' assms by (auto simp: buffer_sizes)
  with Some seg no show ?thesis by (auto simp: findCRLF_def)
qed

theorem findCRLF_first_witness:
  "case findCRLF (newBuffer 4) of
      None \<Rightarrow> \<nexists>u v. contents (newBuffer 4) = u @ CR # LF # v
    | Some p \<Rightarrow> readerIndex (newBuffer 4) \<le> p \<and> p + 2 \<le> writerIndex (newBuffer 4)
        \<and> segment p 2 (bytes (newBuffer 4)) = [CR, LF]
        \<and> (\<nexists>u v. take (p + 1 - readerIndex (newBuffer 4)) (contents (newBuffer 4))
              = u @ CR # LF # v)"
  by (rule findCRLF_first) simp

lemma buf_append_in_place:
  assumes "wf_buffer b" and "length xs \<le> writableBytes b"
  shows "\<exists>b'. buf_append xs b = Inr b' \<and> wf_buffer b' \<and> contents b' = contents b @ xs
           \<and> writableBytes b' = writableBytes b - length xs"
  using assms write_hasWritten [OF assms]
  by (auto simp: buf_append_def ensureWritableBytes_def hasWritten_def buffer_sizes)

text \<open>
  \<open>shrink\<close> keeps the content and leaves room for \<open>reserve\<close> more bytes as long as fewer than
  \<open>2 ^ 31\<close> bytes are readable; from there up to \<open>2 ^ 32\<close> the narrowing of the length in
  \<open>toStringPiece\<close> makes it fail.
\<close>

theorem shrink_correct:
  assumes wf: "wf_buffer b"
  shows "if readableBytes b < 2 ^ 31
     then \<exists>b'. shrink reserve b = Inr b' \<and> wf_buffer b' \<and> contents b' = contents b
            \<and> reserve \<le> writableBytes b'
     else readableBytes b < 2 ^ 32 \<longrightarrow> shrink reserve b = Inl Overflow"
proof -
  let ?n = "readableBytes b"
  obtain o1 where o1: "ensureWritableBytes (?n + reserve) (newBuffer kInitialSize) = Inr o1"
      "wf_buffer o1" "contents o1 = []" "?n + reserve \<le> writableBytes o1"
    using ensureWritableBytes_spec [OF wf_newBuffer] by fastforce
  show ?thesis
  proof (cases "?n < 2 ^ 31")
    case True
    obtain b' where b': "buf_append (contents b) o1 = Inr b'" "wf_buffer b'"
        "contents b' = contents b" "writableBytes b' = writableBytes o1 - ?n"
      using buf_append_in_place [OF o1(2), of "contents b"] o1 wf by auto
    have "append_piece (toStringPiece b) o1 = Inr b'"
      using b'(1) True wf by (simp add: append_piece_def toStringPiece_def sint_of_nat_small)
    then have "shrink reserve b = Inr b'"
      using o1(1) by (simp add: shrink_def buf_swap_def)
    with b' o1(4) True show ?thesis by auto
  next
    case False
    then show ?thesis
      using o1(1) by (simp add: shrink_def append_piece_def toStringPiece_def sint_of_nat_big)
  qed
qed

theorem shrink_correct_witness:
  "\<exists>b'. shrink 10 (newBuffer 4096) = Inr b' \<and> wf_buffer b' \<and> contents b' = [] \<and> 10 \<le> writableBytes b'"
  using shrink_correct [of "newBuffer 4096" 10] by (simp add: newBuffer_asserts)

end
