(* ===== verification/Channel.thy ===== *)
theory Channel
  imports Prelude
begin

unbundle bit_operations_syntax

text \<open>
  A selectable descriptor (\<open>muduo/net/Channel.h\<close>, \<open>Channel.cc\<close>): the events it is interested in, the
  events the poller reported, and the dispatch of reported events to the four callbacks. The
  callbacks are a parameter: functions on the channel and the rest of the world.
\<close>

section \<open>Event masks\<close>

definition POLLIN :: i32 where "POLLIN = 0x1"
definition POLLPRI :: i32 where "POLLPRI = 0x2"
definition POLLOUT :: i32 where "POLLOUT = 0x4"
definition POLLERR :: i32 where "POLLERR = 0x8"
definition POLLHUP :: i32 where "POLLHUP = 0x10"
definition POLLNVAL :: i32 where "POLLNVAL = 0x20"
definition POLLRDHUP :: i32 where "POLLRDHUP = 0x2000"

lemmas poll_flags =
  POLLIN_def POLLPRI_def POLLOUT_def POLLERR_def POLLHUP_def POLLNVAL_def POLLRDHUP_def

definition kNoneEvent :: i32 where "kNoneEvent = 0"
definition kReadEvent :: i32 where "kReadEvent = POLLIN OR POLLPRI"
definition kWriteEvent :: i32 where "kWriteEvent = POLLOUT"

section \<open>State\<close>

record channel =
  fd :: int
  events :: i32
  revents :: i32
  index :: int
  logHup :: bool
  tied :: bool
  eventHandling :: bool
  addedToLoop :: bool

definition newChannel :: "int \<Rightarrow> channel" where
  "newChannel fd' = \<lparr>fd = fd', events = 0, revents = 0, index = -1, logHup = True, tied = False,
     eventHandling = False, addedToLoop = False\<rparr>"

definition tie :: "channel \<Rightarrow> channel" where
  "tie c = c\<lparr>tied := True\<rparr>"

definition isNoneEvent :: "channel \<Rightarrow> bool" where
  "isNoneEvent c \<longleftrightarrow> events c = kNoneEvent"

definition isWriting :: "channel \<Rightarrow> bool" where
  "isWriting c \<longleftrightarrow> events c AND kWriteEvent \<noteq> 0"

definition isReading :: "channel \<Rightarrow> bool" where
  "isReading c \<longleftrightarrow> events c AND kReadEvent \<noteq> 0"

text \<open>
  The setters of the interest mask. Each also sets \<open>addedToLoop_\<close> and calls
  \<open>loop_->updateChannel(this)\<close>; that call is made by the poller component, on the new channel.
\<close>

definition enableReading :: "channel \<Rightarrow> channel" where
  "enableReading c = c\<lparr>events := events c OR kReadEvent, addedToLoop := True\<rparr>"

definition disableReading :: "channel \<Rightarrow> channel" where
  "disableReading c = c\<lparr>events := events c AND NOT kReadEvent, addedToLoop := True\<rparr>"

definition enableWriting :: "channel \<Rightarrow> channel" where
  "enableWriting c = c\<lparr>events := events c OR kWriteEvent, addedToLoop := True\<rparr>"

definition disableWriting :: "channel \<Rightarrow> channel" where
  "disableWriting c = c\<lparr>events := events c AND NOT kWriteEvent, addedToLoop := True\<rparr>"

definition disableAll :: "channel \<Rightarrow> channel" where
  "disableAll c = c\<lparr>events := kNoneEvent, addedToLoop := True\<rparr>"

text \<open>The destructor's assertions on the channel's own state.\<close>

definition destroyChannel :: "channel \<Rightarrow> unit res" where
  "destroyChannel c = c_assert (\<not> eventHandling c) (c_assert (\<not> addedToLoop c) (Inr ()))"

section \<open>Dispatch\<close>

datatype callback = CloseCallback | ErrorCallback | ReadCallback | WriteCallback

text \<open>
  \<open>cbs k = None\<close> is an empty \<open>std::function\<close>. The mask is read again before each test, as the
  source does, from the channel the previous callback left behind.
\<close>

type_synonym 'w callbacks = "callback \<Rightarrow> (channel \<times> 'w \<Rightarrow> (channel \<times> 'w) res) option"

definition fire :: "'w callbacks \<Rightarrow> callback \<Rightarrow> (i32 \<Rightarrow> bool) \<Rightarrow> channel \<times> 'w \<Rightarrow> (channel \<times> 'w) res" where
  "fire cbs k test s =
     (if test (revents (fst s))
      then (case cbs k of None \<Rightarrow> Inr s | Some f \<Rightarrow> f s)
      else Inr s)"

definition hup_test :: "i32 \<Rightarrow> bool" where
  "hup_test r \<longleftrightarrow> r AND POLLHUP \<noteq> 0 \<and> \<not> (r AND POLLIN \<noteq> 0)"

definition err_test :: "i32 \<Rightarrow> bool" where
  "err_test r \<longleftrightarrow> r AND (POLLERR OR POLLNVAL) \<noteq> 0"

definition read_test :: "i32 \<Rightarrow> bool" where
  "read_test r \<longleftrightarrow> r AND (POLLIN OR POLLPRI OR POLLRDHUP) \<noteq> 0"

definition write_test :: "i32 \<Rightarrow> bool" where
  "write_test r \<longleftrightarrow> r AND POLLOUT \<noteq> 0"

definition handleEventWithGuard :: "'w callbacks \<Rightarrow> channel \<times> 'w \<Rightarrow> (channel \<times> 'w) res" where
  "handleEventWithGuard cbs s =
     rbind (fire cbs CloseCallback hup_test (apfst (\<lambda>c. c\<lparr>eventHandling := True\<rparr>) s)) (\<lambda>s.
     rbind (fire cbs ErrorCallback err_test s) (\<lambda>s.
     rbind (fire cbs ReadCallback read_test s) (\<lambda>s.
     rbind (fire cbs WriteCallback write_test s) (\<lambda>s.
     Inr (apfst (\<lambda>c. c\<lparr>eventHandling := False\<rparr>) s)))))"

text \<open>\<open>owner_alive\<close> is whether locking the weak pointer \<open>tie_\<close> gave the owner.\<close>

definition handleEvent :: "'w callbacks \<Rightarrow> bool \<Rightarrow> channel \<times> 'w \<Rightarrow> (channel \<times> 'w) res" where
  "handleEvent cbs owner_alive s =
     (if tied (fst s)
      then (if owner_alive then handleEventWithGuard cbs s else Inr s)
      else handleEventWithGuard cbs s)"

section \<open>Printing\<close>

definition eventsToString :: "int \<Rightarrow> i32 \<Rightarrow> string" where
  "eventsToString fd' ev =
     show_int fd' @ '': ''
     @ (if ev AND POLLIN \<noteq> 0 then ''IN '' else [])
     @ (if ev AND POLLPRI \<noteq> 0 then ''PRI '' else [])
     @ (if ev AND POLLOUT \<noteq> 0 then ''OUT '' else [])
     @ (if ev AND POLLHUP \<noteq> 0 then ''HUP '' else [])
     @ (if ev AND POLLRDHUP \<noteq> 0 then ''RDHUP '' else [])
     @ (if ev AND POLLERR \<noteq> 0 then ''ERR '' else [])
     @ (if ev AND POLLNVAL \<noteq> 0 then ''NVAL '' else [])"

definition reventsToString :: "channel \<Rightarrow> string" where
  "reventsToString c = eventsToString (fd c) (revents c)"

definition chan_eventsToString :: "channel \<Rightarrow> string" where
  "chan_eventsToString c = eventsToString (fd c) (events c)"

section \<open>Properties\<close>

text \<open>The masks as sets of bits.\<close>

lemma bit_flags:
  "bit POLLIN n \<longleftrightarrow> n = 0" "bit POLLPRI n \<longleftrightarrow> n = 1" "bit POLLOUT n \<longleftrightarrow> n = 2"
proof -
  have "bit (push_bit k (1 :: i32)) n \<longleftrightarrow> n = k" if "k < 32" for k
    using that by (auto simp: bit_simps)
  from this [of 0] this [of 1] this [of 2] show
    "bit POLLIN n \<longleftrightarrow> n = 0" "bit POLLPRI n \<longleftrightarrow> n = 1" "bit POLLOUT n \<longleftrightarrow> n = 2"
    by (simp_all add: poll_flags)
qed

lemma and_flag_nonzero: "(w :: i32) AND m \<noteq> 0 \<longleftrightarrow> (\<exists>n. bit w n \<and> bit m n)"
  by (auto simp: bit_eq_iff bit_simps) (use bit_imp_le_length [of w] in force)

lemma isWriting_bit: "isWriting c \<longleftrightarrow> bit (events c) 2"
  by (auto simp: isWriting_def kWriteEvent_def and_flag_nonzero bit_flags)

lemma isReading_bits: "isReading c \<longleftrightarrow> bit (events c) 0 \<or> bit (events c) 1"
  by (auto simp: isReading_def kReadEvent_def and_flag_nonzero bit_simps bit_flags)

lemmas interest_defs =
  enableReading_def disableReading_def enableWriting_def disableWriting_def disableAll_def

lemma reading_after [simp]:
  "isReading (enableReading c)" "\<not> isReading (disableReading c)"
  "isReading (enableWriting c) = isReading c" "isReading (disableWriting c) = isReading c"
  "\<not> isReading (disableAll c)"
  by (auto simp: isReading_bits interest_defs bit_simps kReadEvent_def kWriteEvent_def kNoneEvent_def bit_flags)

lemma writing_after [simp]:
  "isWriting (enableWriting c)" "\<not> isWriting (disableWriting c)"
  "isWriting (enableReading c) = isWriting c" "isWriting (disableReading c) = isWriting c"
  "\<not> isWriting (disableAll c)"
  by (auto simp: isWriting_bit interest_defs bit_simps kReadEvent_def kWriteEvent_def kNoneEvent_def bit_flags)

text \<open>
  Interest bookkeeping: reading and writing interest are independent, each \<open>enable\<close> turns on and
  each \<open>disable\<close> turns off exactly its own, after \<open>disableAll\<close> the channel has no interest, and every
  setter marks the channel as added to the loop without changing its descriptor or poller index.
\<close>

lemma interest_setters:
  "isReading (enableReading c) \<and> isWriting (enableReading c) = isWriting c
   \<and> \<not> isReading (disableReading c) \<and> isWriting (disableReading c) = isWriting c
   \<and> isWriting (enableWriting c) \<and> isReading (enableWriting c) = isReading c
   \<and> \<not> isWriting (disableWriting c) \<and> isReading (disableWriting c) = isReading c
   \<and> isNoneEvent (disableAll c)
   \<and> list_all (\<lambda>f. addedToLoop (f c) \<and> fd (f c) = fd c \<and> index (f c) = index c)
        [enableReading, disableReading, enableWriting, disableWriting, disableAll]"
  by (simp add: isNoneEvent_def) (simp add: interest_defs)

section \<open>Which callbacks run\<close>

definition fired :: "i32 \<Rightarrow> callback list" where
  "fired r = (if hup_test r then [CloseCallback] else []) @ (if err_test r then [ErrorCallback] else [])
     @ (if read_test r then [ReadCallback] else []) @ (if write_test r then [WriteCallback] else [])"

fun run_callbacks :: "'w callbacks \<Rightarrow> callback list \<Rightarrow> channel \<times> 'w \<Rightarrow> (channel \<times> 'w) res" where
  "run_callbacks cbs [] s = Inr s"
| "run_callbacks cbs (k # ks) s =
     rbind (case cbs k of None \<Rightarrow> Inr s | Some f \<Rightarrow> f s) (run_callbacks cbs ks)"

text \<open>\<open>set_revents\<close> is called by the pollers only: a callback leaves the reported events alone.\<close>

definition keeps_revents :: "'w callbacks \<Rightarrow> bool" where
  "keeps_revents cbs \<longleftrightarrow>
     (\<forall>k f s s'. cbs k = Some f \<longrightarrow> f s = Inr s' \<longrightarrow> revents (fst s') = revents (fst s))"

lemma fire_run:
  "fire cbs k test s = run_callbacks cbs (if test (revents (fst s)) then [k] else []) s"
  by (cases "case cbs k of None \<Rightarrow> Inr s | Some f \<Rightarrow> f s") (auto simp: fire_def)

lemma fire_revents:
  "keeps_revents cbs \<Longrightarrow> fire cbs k test s = Inr s' \<Longrightarrow> revents (fst s') = revents (fst s)"
  by (auto simp: fire_def keeps_revents_def simp del: split_paired_All split: if_splits option.splits)

lemma run_callbacks_append:
  "run_callbacks cbs (ks @ ls) = (\<lambda>s. rbind (run_callbacks cbs ks s) (run_callbacks cbs ls))"
proof (induction ks)
  case (Cons k ks)
  show ?case
  proof
    fix s
    show "run_callbacks cbs ((k # ks) @ ls) s
        = rbind (run_callbacks cbs (k # ks) s) (run_callbacks cbs ls)"
      by (simp add: Cons.IH rbind_assoc)
  qed
qed simp

lemma fire_bind_cong:
  assumes "keeps_revents cbs" and "revents (fst s) = r"
    and "\<And>s'. revents (fst s') = r \<Longrightarrow> F s' = G s'"
  shows "rbind (fire cbs k test s) F = rbind (run_callbacks cbs (if test r then [k] else []) s) G"
proof -
  have run: "fire cbs k test s = run_callbacks cbs (if test r then [k] else []) s"
    using assms(2) by (simp add: fire_run)
  show ?thesis
  proof (cases "fire cbs k test s")
    case (Inr s')
    with fire_revents [OF assms(1)] assms(2) have "F s' = G s'" by (intro assms(3)) metis
    with Inr run show ?thesis by simp
  qed (use run in simp)
qed

text \<open>
  Dispatch: the callbacks that run are determined by the reported events alone and run in the
  fixed order close, error, read, write, each at most once; in particular the close callback runs
  only for a hang-up with nothing left to read.
\<close>

theorem dispatch_order:
  assumes "keeps_revents cbs"
  shows "handleEventWithGuard cbs (c, w) =
     rbind (run_callbacks cbs (fired (revents c)) (c\<lparr>eventHandling := True\<rparr>, w))
       (\<lambda>s. Inr (apfst (\<lambda>c. c\<lparr>eventHandling := False\<rparr>) s))"
  unfolding handleEventWithGuard_def fired_def run_callbacks_append rbind_assoc apfst_conv
  by (intro fire_bind_cong [OF assms]) simp_all

theorem dispatch_order_witness:
  "handleEventWithGuard (\<lambda>k. Some (\<lambda>(c, log). Inr (c, log @ [k])))
      ((newChannel 5)\<lparr>revents := POLLHUP OR POLLERR OR POLLOUT\<rparr>, [])
    = Inr ((newChannel 5)\<lparr>revents := POLLHUP OR POLLERR OR POLLOUT\<rparr>,
           [CloseCallback, ErrorCallback, WriteCallback])"
  by (subst dispatch_order)
    (auto simp: keeps_revents_def fired_def hup_test_def err_test_def read_test_def write_test_def
      poll_flags newChannel_def)

text \<open>
  Lifetime: a channel tied to an owner that is gone runs no callback at all.
\<close>

lemma tied_dead_owner_ignored:
  "handleEvent cbs False (tie c, w) = Inr (tie c, w)"
  by (simp add: handleEvent_def tie_def)

end
