(* ===== verification/Poller.thy ===== *)
theory Poller
  imports Channel
begin

unbundle bit_operations_syntax

text \<open>
  The two I/O multiplexers behind one interface (\<open>muduo/net/Poller.h\<close>, \<open>Poller.cc\<close>). Channels are objects shared by pointer, so the state carries a heap from
  channel addresses to channels next to the table \<open>channels_\<close>. The locale \<open>poller_contract\<close> is the virtual interface: what a channel may rely on, whichever
  multiplexer the loop was built with; the theories \<open>PollPoller\<close> and
  \<open>EPollPoller\<close> show that both implement it.
\<close>

section \<open>The common base\<close>

record poller_base =
  heap :: "nat \<Rightarrow> channel"
  channels :: "int \<rightharpoonup> nat"

definition hasChannel :: "nat \<Rightarrow> 'x poller_base_scheme \<Rightarrow> bool" where
  "hasChannel ch s \<longleftrightarrow> channels s (fd (heap s ch)) = Some ch"

definition set_channel :: "nat \<Rightarrow> channel \<Rightarrow> 'x poller_base_scheme \<Rightarrow> 'x poller_base_scheme" where
  "set_channel ch c s = s\<lparr>heap := (heap s)(ch := c)\<rparr>"

text \<open>
  \<open>Channel::update\<close> and \<open>Channel::remove\<close>, over the multiplexer's \<open>updateChannel\<close> and
  \<open>removeChannel\<close>; the setter \<open>f\<close> is one of the setters of the interest mask.
\<close>

definition Channel_update ::
  "(nat \<Rightarrow> 'x poller_base_scheme \<Rightarrow> 'x poller_base_scheme res) \<Rightarrow> (channel \<Rightarrow> channel) \<Rightarrow> nat \<Rightarrow>
   'x poller_base_scheme \<Rightarrow> 'x poller_base_scheme res" where
  "Channel_update updateChannel f ch s = updateChannel ch (set_channel ch (f (heap s ch)) s)"

definition Channel_remove ::
  "(nat \<Rightarrow> 'x poller_base_scheme \<Rightarrow> 'x poller_base_scheme res) \<Rightarrow> nat \<Rightarrow>
   'x poller_base_scheme \<Rightarrow> 'x poller_base_scheme res" where
  "Channel_remove removeChannel ch s =
     c_assert (isNoneEvent (heap s ch))
       (removeChannel ch (set_channel ch ((heap s ch)\<lparr>addedToLoop := False\<rparr>) s))"

section \<open>The contract of a multiplexer\<close>

text \<open>A mask made of the read and write interest only.\<close>

definition interest_mask :: "i32 \<Rightarrow> bool" where
  "interest_mask w \<longleftrightarrow> w AND 7 = w"

text \<open>A channel that may be handed to \<open>updateChannel\<close>: already registered, or new on a free descriptor.\<close>

definition registrable :: "nat \<Rightarrow> 'x poller_base_scheme \<Rightarrow> bool" where
  "registrable ch s \<longleftrightarrow> 0 \<le> fd (heap s ch) \<and>
     (hasChannel ch s \<or> index (heap s ch) = -1 \<and> channels s (fd (heap s ch)) = None)"

text \<open>What the kernel may have been told for a channel with a given interest: exactly the interest, or no events at all for none.\<close>

definition told :: "i32 \<Rightarrow> i32 option set" where
  "told m = (if m = 0 then {None, Some 0} else {Some m})"

locale poller_contract =
  fixes inv :: "'x poller_base_scheme \<Rightarrow> bool"
    and watched :: "'x poller_base_scheme \<Rightarrow> int \<Rightarrow> i32 option"
    and removable :: "nat \<Rightarrow> 'x poller_base_scheme \<Rightarrow> bool"
    and updateChannel :: "nat \<Rightarrow> 'x poller_base_scheme \<Rightarrow> 'x poller_base_scheme res"
    and removeChannel :: "nat \<Rightarrow> 'x poller_base_scheme \<Rightarrow> 'x poller_base_scheme res"
  assumes update_spec:
    "inv s \<Longrightarrow> registrable ch s \<Longrightarrow> fd c = fd (heap s ch) \<Longrightarrow> index c = index (heap s ch) \<Longrightarrow>
     interest_mask (events c) \<Longrightarrow>
     \<exists>s'. updateChannel ch (set_channel ch c s) = Inr s' \<and> inv s'
       \<and> channels s' = (channels s)(fd c \<mapsto> ch)
       \<and> fd (heap s' ch) = fd c \<and> events (heap s' ch) = events c
       \<and> watched s' (fd c) \<in> told (events c)
       \<and> (\<forall>f. f \<noteq> fd c \<longrightarrow> watched s' f = watched s f)
       \<and> (hasChannel ch s \<longrightarrow> events c = 0 \<longrightarrow> removable ch s')"
    and remove_spec:
    "inv s \<Longrightarrow> hasChannel ch s \<Longrightarrow> removable ch s \<Longrightarrow> isNoneEvent (heap s ch) \<Longrightarrow>
     \<exists>s'. removeChannel ch (set_channel ch ((heap s ch)\<lparr>addedToLoop := False\<rparr>) s) = Inr s' \<and> inv s'
       \<and> channels s' = (channels s)(fd (heap s ch) := None)
       \<and> watched s' (fd (heap s ch)) = None
       \<and> (\<forall>f. f \<noteq> fd (heap s ch) \<longrightarrow> watched s' f = watched s f)"

text \<open>The setters a channel offers, and what they keep.\<close>

datatype setter = EnableReading | DisableReading | EnableWriting | DisableWriting | DisableAll

fun apply_setter :: "setter \<Rightarrow> channel \<Rightarrow> channel" where
  "apply_setter EnableReading = enableReading"
| "apply_setter DisableReading = disableReading"
| "apply_setter EnableWriting = enableWriting"
| "apply_setter DisableWriting = disableWriting"
| "apply_setter DisableAll = disableAll"

fun update_all :: "(nat \<Rightarrow> 'x poller_base_scheme \<Rightarrow> 'x poller_base_scheme res) \<Rightarrow> setter list \<Rightarrow> nat \<Rightarrow>
    'x poller_base_scheme \<Rightarrow> 'x poller_base_scheme res" where
  "update_all upd [] ch s = Inr s"
| "update_all upd (f # fs) ch s =
     rbind (Channel_update upd (apply_setter f) ch s) (update_all upd fs ch)"

lemma apply_setter_frame [simp]:
  "fd (apply_setter f c) = fd c" "index (apply_setter f c) = index c"
  by (cases f; simp add: interest_defs)+

lemma events_fold_setter:
  "events c = events c' \<Longrightarrow> events (fold apply_setter fs c) = events (fold apply_setter fs c')"
proof (induction fs arbitrary: c c')
  case (Cons f fs)
  from Cons.prems have "events (apply_setter f c) = events (apply_setter f c')"
    by (cases f) (simp_all add: interest_defs)
  then have "events (fold apply_setter fs (apply_setter f c))
      = events (fold apply_setter fs (apply_setter f c'))" by (rule Cons.IH)
  then show ?case by simp
qed simp

lemma update_all_append:
  "update_all upd (fs @ gs) ch s = rbind (update_all upd fs ch s) (update_all upd gs ch)"
proof (induction fs arbitrary: s)
  case (Cons f fs)
  have "update_all upd (fs @ gs) ch = (\<lambda>s. rbind (update_all upd fs ch s) (update_all upd gs ch))"
    by (rule ext) (rule Cons.IH)
  then show ?case by (simp add: rbind_assoc)
qed simp

lemma bit_and_7: "bit (w AND 7) n \<longleftrightarrow> bit w n \<and> n < 3" for w :: i32
proof -
  have "(7 :: i32) = mask 3" by (simp add: mask_eq_exp_minus_1)
  then have "bit (w AND 7) n \<longleftrightarrow> bit w n \<and> bit (mask 3 :: i32) n" by (simp only: bit_and_iff)
  then show ?thesis unfolding bit_mask_iff by auto
qed

lemma interest_mask_bits: "interest_mask w \<longleftrightarrow> (\<forall>n. bit w n \<longrightarrow> n < 3)"
proof
  show "interest_mask w \<Longrightarrow> \<forall>n. bit w n \<longrightarrow> n < 3"
    by (metis bit_and_7 interest_mask_def)
  show "\<forall>n. bit w n \<longrightarrow> n < 3 \<Longrightarrow> interest_mask w"
    unfolding interest_mask_def by (rule bit_word_eqI) (use bit_and_7 in blast)
qed

lemma interest_mask_setter [simp]:
  "interest_mask (events c) \<Longrightarrow> interest_mask (events (apply_setter f c))"
  by (cases f) (auto simp: interest_mask_bits interest_defs bit_simps kReadEvent_def kWriteEvent_def
      kNoneEvent_def bit_flags)

lemma heap_set_channel [simp]: "heap (set_channel ch c s) = (heap s)(ch := c)"
  and channels_set_channel [simp]: "channels (set_channel ch c s) = channels s"
  by (simp_all add: set_channel_def)

context poller_contract
begin

lemma setter_step:
  assumes "inv s" "registrable ch s" "interest_mask (events (heap s ch))"
  shows "\<exists>s'. Channel_update updateChannel (apply_setter f) ch s = Inr s' \<and> inv s'
     \<and> channels s' = (channels s)(fd (heap s ch) \<mapsto> ch) \<and> fd (heap s' ch) = fd (heap s ch)
     \<and> events (heap s' ch) = events (apply_setter f (heap s ch)) \<and> registrable ch s'
     \<and> (\<forall>g. g \<noteq> fd (heap s ch) \<longrightarrow> watched s' g = watched s g)
     \<and> watched s' (fd (heap s ch)) \<in>
         told (events (heap s' ch))
     \<and> (hasChannel ch s \<longrightarrow> f = DisableAll \<longrightarrow> removable ch s')"
proof -
  let ?c = "apply_setter f (heap s ch)"
  obtain s' where s': "updateChannel ch (set_channel ch ?c s) = Inr s'" "inv s'"
      "channels s' = (channels s)(fd ?c \<mapsto> ch)" "fd (heap s' ch) = fd ?c"
      "events (heap s' ch) = events ?c"
      "watched s' (fd ?c) \<in> told (events ?c)"
      "\<forall>g. g \<noteq> fd ?c \<longrightarrow> watched s' g = watched s g"
      "hasChannel ch s \<longrightarrow> events ?c = 0 \<longrightarrow> removable ch s'"
    using update_spec [OF assms(1,2), of ?c] assms(3) by auto
  have "registrable ch s'"
    using assms(2) s'(3,4) by (simp add: registrable_def hasChannel_def)
  moreover have "f = DisableAll \<longrightarrow> events ?c = 0"
    by (simp add: disableAll_def kNoneEvent_def)
  ultimately show ?thesis using s' by (auto simp: Channel_update_def)
qed

lemma update_all_spec:
  assumes "inv s" "registrable ch s" "interest_mask (events (heap s ch))"
  shows "\<exists>s'. update_all updateChannel fs ch s = Inr s' \<and> inv s' \<and> registrable ch s'
     \<and> fd (heap s' ch) = fd (heap s ch) \<and> interest_mask (events (heap s' ch))
     \<and> events (heap s' ch) = events (fold apply_setter fs (heap s ch))
     \<and> channels s' = (if fs = [] then channels s else (channels s)(fd (heap s ch) \<mapsto> ch))
     \<and> (fs \<noteq> [] \<longrightarrow> watched s' (fd (heap s ch)) \<in> told (events (heap s' ch)))
     \<and> (\<forall>g. g \<noteq> fd (heap s ch) \<longrightarrow> watched s' g = watched s g)"
  using assms
proof (induction fs arbitrary: s)
  case (Cons f fs)
  obtain s1 where s1: "Channel_update updateChannel (apply_setter f) ch s = Inr s1" "inv s1"
      "channels s1 = (channels s)(fd (heap s ch) \<mapsto> ch)" "fd (heap s1 ch) = fd (heap s ch)"
      "events (heap s1 ch) = events (apply_setter f (heap s ch))" "registrable ch s1"
      "\<forall>g. g \<noteq> fd (heap s ch) \<longrightarrow> watched s1 g = watched s g" "watched s1 (fd (heap s ch)) \<in> told (events (heap s1 ch))"
    using setter_step [OF Cons.prems] by blast
  have "interest_mask (events (heap s1 ch))" using s1(5) Cons.prems(3) by simp
  from Cons.IH [OF s1(2,6) this] obtain s2 where s2: "update_all updateChannel fs ch s1 = Inr s2"
      "inv s2" "registrable ch s2" "fd (heap s2 ch) = fd (heap s1 ch)"
      "interest_mask (events (heap s2 ch))"
      "events (heap s2 ch) = events (fold apply_setter fs (heap s1 ch))"
      "\<forall>g. g \<noteq> fd (heap s1 ch) \<longrightarrow> watched s2 g = watched s1 g"
    and chs: "channels s2 = (if fs = [] then channels s1 else (channels s1)(fd (heap s1 ch) \<mapsto> ch))"
    and w: "fs \<noteq> [] \<longrightarrow> watched s2 (fd (heap s1 ch)) \<in> told (events (heap s2 ch))"
    by blast
  have "watched s2 (fd (heap s ch)) \<in> told (events (heap s2 ch))" using w s1(4,8) s2(1) by (cases "fs = []") simp_all
  moreover
  have "channels s2 = (channels s)(fd (heap s ch) \<mapsto> ch)"
    using chs s1(3,4) by (cases "fs = []") simp_all
  ultimately show ?case using s1 s2 events_fold_setter [OF s1(5), of fs] by (intro exI [of _ s2]) simp
qed simp

lemma lifecycle:
  assumes "inv s" "registrable ch s" "interest_mask (events (heap s ch))" "fs \<noteq> []"
  shows "\<exists>s1 s'. update_all updateChannel fs ch s = Inr s1 \<and> inv s1
     \<and> channels s1 = (channels s)(fd (heap s ch) \<mapsto> ch)
     \<and> watched s1 (fd (heap s ch)) \<in> told (events (fold apply_setter fs (heap s ch)))
     \<and> (\<forall>g. g \<noteq> fd (heap s ch) \<longrightarrow> watched s1 g = watched s g)
     \<and> rbind (update_all updateChannel [DisableAll] ch s1) (Channel_remove removeChannel ch) = Inr s' \<and> inv s'
     \<and> channels s' = (channels s)(fd (heap s ch) := None) \<and> watched s' (fd (heap s ch)) = None
     \<and> (\<forall>g. g \<noteq> fd (heap s ch) \<longrightarrow> watched s' g = watched s g)"
proof -
  obtain s1 where s1: "update_all updateChannel fs ch s = Inr s1" "inv s1" "registrable ch s1"
      "fd (heap s1 ch) = fd (heap s ch)" "interest_mask (events (heap s1 ch))"
      "channels s1 = (channels s)(fd (heap s ch) \<mapsto> ch)"
      "\<forall>g. g \<noteq> fd (heap s ch) \<longrightarrow> watched s1 g = watched s g"
      "watched s1 (fd (heap s ch)) \<in> told (events (fold apply_setter fs (heap s ch)))"
    using update_all_spec [OF assms(1-3), of fs] assms(4) by auto
  have has1: "hasChannel ch s1" using s1(4,6) by (simp add: hasChannel_def)
  obtain s2 where s2: "Channel_update updateChannel (apply_setter DisableAll) ch s1 = Inr s2" "inv s2"
      "channels s2 = (channels s1)(fd (heap s1 ch) \<mapsto> ch)" "fd (heap s2 ch) = fd (heap s1 ch)"
      "events (heap s2 ch) = events (apply_setter DisableAll (heap s1 ch))" "removable ch s2"
      "\<forall>g. g \<noteq> fd (heap s1 ch) \<longrightarrow> watched s2 g = watched s1 g"
    using setter_step [OF s1(2,3,5), of DisableAll] has1 by blast
  have "hasChannel ch s2" "isNoneEvent (heap s2 ch)"
    using s2(3,4,5) by (simp_all add: hasChannel_def isNoneEvent_def disableAll_def)
  from remove_spec [OF s2(2) this(1) s2(6) this(2)] this(2) obtain s3 where
      s3: "Channel_remove removeChannel ch s2 = Inr s3" "inv s3"
      "channels s3 = (channels s2)(fd (heap s2 ch) := None)" "watched s3 (fd (heap s2 ch)) = None"
      "\<forall>g. g \<noteq> fd (heap s2 ch) \<longrightarrow> watched s3 g = watched s2 g"
    by (auto simp: Channel_remove_def)
  have "rbind (update_all updateChannel [DisableAll] ch s1) (Channel_remove removeChannel ch) = Inr s3" using s2(1) s3(1) by simp
  moreover have "channels s3 = (channels s)(fd (heap s ch) := None)" using s1(4,6) s2(3,4) s3(3) by simp
  moreover have "watched s3 (fd (heap s ch)) = None" "\<forall>g. g \<noteq> fd (heap s ch) \<longrightarrow> watched s3 g = watched s g"
    using s1(4,7) s2(4,7) s3(4,5) by simp_all
  ultimately show ?thesis using s1 s3(2) by blast
qed

end

end
