(* ===== verification/PollPoller.thy ===== *)
theory PollPoller
  imports Poller
begin

unbundle bit_operations_syntax

text \<open>
  The multiplexer over \<open>poll(2)\<close> (\<open>muduo/net/poller/PollPoller.cc\<close>). A channel's \<open>index_\<close> is its slot
  in the array handed to the kernel; a channel without interest keeps its slot with the descriptor
  \<open>fd\<close> stored as \<open>-fd-1\<close>, and removing a channel moves the last slot into the free one. The system
  call is a parameter.
\<close>

section \<open>poll(2)\<close>

record pollfd =
  pfd_fd :: int
  pfd_events :: "16 word"
  pfd_revents :: "16 word"

record poll_poller = poller_base +
  pollfds :: "pollfd list"

definition poll_updateChannel :: "nat \<Rightarrow> poll_poller \<Rightarrow> poll_poller res" where
  "poll_updateChannel ch s =
     (let c = heap s ch in
      if index c < 0 then
        c_assert (channels s (fd c) = None)
          (let pfd = \<lparr>pfd_fd = fd c, pfd_events = ucast (events c), pfd_revents = 0\<rparr>;
               fds = pollfds s @ [pfd];
               idx = int (length fds) - 1
           in Inr (s\<lparr>heap := (heap s)(ch := c\<lparr>index := idx\<rparr>),
                     channels := (channels s)(fd c \<mapsto> ch), pollfds := fds\<rparr>))
      else
        c_assert (channels s (fd c) \<noteq> None)
        (c_assert (channels s (fd c) = Some ch)
        (c_assert (0 \<le> index c \<and> index c < int (length (pollfds s)))
        (let idx = nat (index c); pfd = pollfds s ! idx in
         c_assert (pfd_fd pfd = fd c \<or> pfd_fd pfd = - fd c - 1)
           (Inr (s\<lparr>pollfds := (pollfds s)[idx :=
              \<lparr>pfd_fd = (if isNoneEvent c then - fd c - 1 else fd c),
               pfd_events = ucast (events c), pfd_revents = 0\<rparr>]\<rparr>))))))"

definition poll_removeChannel :: "nat \<Rightarrow> poll_poller \<Rightarrow> poll_poller res" where
  "poll_removeChannel ch s =
     (let c = heap s ch in
      c_assert (channels s (fd c) \<noteq> None)
      (c_assert (channels s (fd c) = Some ch)
      (c_assert (isNoneEvent c)
      (c_assert (0 \<le> index c \<and> index c < int (length (pollfds s)))
      (let idx = nat (index c); pfd = pollfds s ! idx in
       c_assert (pfd_fd pfd = - fd c - 1 \<and> scast (pfd_events pfd) = events c)
       (let chans = (channels s)(fd c := None) in
        if idx = length (pollfds s) - 1
        then Inr (s\<lparr>channels := chans, pollfds := butlast (pollfds s)\<rparr>)
        else
          (let fdAtEnd = pfd_fd (last (pollfds s));
               channelAtEnd = (if fdAtEnd < 0 then - fdAtEnd - 1 else fdAtEnd);
               swapped = ((pollfds s)[idx := last (pollfds s)])[length (pollfds s) - 1 := pfd]
           in case chans channelAtEnd of
                None \<Rightarrow> Inl OutOfBounds
              | Some d \<Rightarrow> Inr (s\<lparr>heap := (heap s)(d := (heap s d)\<lparr>index := int idx\<rparr>),
                                 channels := chans, pollfds := butlast swapped\<rparr>))))))))"

fun poll_fillActiveChannels ::
  "int \<Rightarrow> pollfd list \<Rightarrow> poll_poller \<Rightarrow> nat list \<Rightarrow> (poll_poller \<times> nat list) res" where
  "poll_fillActiveChannels numEvents [] s active = Inr (s, active)"
| "poll_fillActiveChannels numEvents (pfd # pfds) s active =
     (if numEvents > 0 then
        (if sint (pfd_revents pfd) > 0 then
           (case channels s (pfd_fd pfd) of
              None \<Rightarrow> Inl AssertFail
            | Some ch \<Rightarrow>
                c_assert (fd (heap s ch) = pfd_fd pfd)
                  (poll_fillActiveChannels (numEvents - 1) pfds
                     (set_channel ch ((heap s ch)\<lparr>revents := scast (pfd_revents pfd)\<rparr>) s)
                     (active @ [ch])))
         else poll_fillActiveChannels numEvents pfds s active)
      else Inr (s, active))"

text \<open>
  \<open>sys\<close> is the outcome of \<open>poll(2)\<close>: its return value and the \<open>revents\<close> it stored.
\<close>

definition poll_poll ::
  "(pollfd list \<Rightarrow> int \<times> 16 word list) \<Rightarrow> poll_poller \<Rightarrow> (poll_poller \<times> nat list) res" where
  "poll_poll sys s =
     (let (numEvents, revs) = sys (pollfds s);
          s1 = s\<lparr>pollfds := map (\<lambda>(p, r). p\<lparr>pfd_revents := r\<rparr>) (zip (pollfds s) revs)\<rparr>
      in if numEvents > 0 then poll_fillActiveChannels numEvents (pollfds s1) s1 []
         else Inr (s1, []))"

definition newPollPoller :: "(nat \<Rightarrow> channel) \<Rightarrow> poll_poller" where
  "newPollPoller h = \<lparr>heap = h, channels = Map.empty, pollfds = []\<rparr>"


section \<open>The slots agree with the channels\<close>

definition slot_fd :: "pollfd \<Rightarrow> int" where
  "slot_fd p = (if pfd_fd p < 0 then - pfd_fd p - 1 else pfd_fd p)"

definition slot_of :: "nat \<Rightarrow> poll_poller \<Rightarrow> nat" where
  "slot_of ch s = nat (index (heap s ch))"

definition registered_ok :: "int \<Rightarrow> nat \<Rightarrow> poll_poller \<Rightarrow> bool" where
  "registered_ok f ch s \<longleftrightarrow> 0 \<le> f \<and> fd (heap s ch) = f \<and> 0 \<le> index (heap s ch)
     \<and> slot_of ch s < length (pollfds s) \<and> slot_fd (pollfds s ! slot_of ch s) = f
     \<and> interest_mask (events (heap s ch))
     \<and> pfd_events (pollfds s ! slot_of ch s) = ucast (events (heap s ch))"

definition poll_inv :: "poll_poller \<Rightarrow> bool" where
  "poll_inv s \<longleftrightarrow> (\<forall>f ch. channels s f = Some ch \<longrightarrow> registered_ok f ch s)
     \<and> (\<forall>i<length (pollfds s). \<exists>ch. channels s (slot_fd (pollfds s ! i)) = Some ch \<and> slot_of ch s = i)"

definition poll_watched :: "poll_poller \<Rightarrow> int \<Rightarrow> i32 option" where
  "poll_watched s f = (if f < 0 then None
     else map_option (\<lambda>p. scast (pfd_events p)) (List.find (\<lambda>p. pfd_fd p = f) (pollfds s)))"

definition poll_removable :: "nat \<Rightarrow> poll_poller \<Rightarrow> bool" where
  "poll_removable ch s \<longleftrightarrow> pfd_fd (pollfds s ! slot_of ch s) = - fd (heap s ch) - 1"

lemma scast_ucast_mask [simp]: "interest_mask w \<Longrightarrow> scast (ucast w :: 16 word) = w"
  unfolding interest_mask_bits by (rule bit_word_eqI) (force simp: bit_simps min_def)

lemma poll_inv_registered: "poll_inv s \<Longrightarrow> channels s f = Some ch \<Longrightarrow> registered_ok f ch s"
  by (simp add: poll_inv_def)

lemma poll_inv_slot:
  "poll_inv s \<Longrightarrow> i < length (pollfds s) \<Longrightarrow>
    \<exists>ch. channels s (slot_fd (pollfds s ! i)) = Some ch \<and> slot_of ch s = i"
  by (simp add: poll_inv_def)

lemma poll_slot_unique:
  assumes "poll_inv s" "channels s f = Some ch" "i < length (pollfds s)" "slot_fd (pollfds s ! i) = f"
  shows "i = slot_of ch s"
  using poll_inv_slot [OF assms(1,3)] assms(2,4) by auto

lemma poll_watched_registered:
  assumes inv: "poll_inv s" and reg: "channels s f = Some ch"
  defines "p \<equiv> pollfds s ! slot_of ch s"
  shows "poll_watched s f = (if pfd_fd p = f then Some (events (heap s ch)) else None)"
proof -
  have ok: "registered_ok f ch s" using inv reg by (rule poll_inv_registered)
  have only: "i = slot_of ch s" if "i < length (pollfds s)" "pfd_fd (pollfds s ! i) = f" for i
    using poll_slot_unique [OF inv reg that(1)] that(2) ok by (auto simp: slot_fd_def registered_ok_def)
  show ?thesis
  proof (cases "pfd_fd p = f")
    case True
    then have "List.find (\<lambda>p. pfd_fd p = f) (pollfds s) = Some p"
      using only ok unfolding find_Some_iff p_def registered_ok_def by (metis less_irrefl less_trans)
    with True ok show ?thesis by (simp add: poll_watched_def registered_ok_def p_def)
  next
    case False
    then have "List.find (\<lambda>p. pfd_fd p = f) (pollfds s) = None"
      using only by (auto simp: find_None_iff in_set_conv_nth p_def)
    with False show ?thesis by (simp add: poll_watched_def)
  qed
qed

lemma poll_watched_unregistered:
  assumes "poll_inv s" "channels s f = None"
  shows "poll_watched s f = None"
proof (cases "f < 0")
  case False
  have "pfd_fd p \<noteq> f" if "p \<in> set (pollfds s)" for p
    using that poll_inv_slot [OF assms(1)] assms(2) False by (fastforce simp: in_set_conv_nth slot_fd_def)
  then have "List.find (\<lambda>p. pfd_fd p = f) (pollfds s) = None" by (auto simp: find_None_iff)
  then show ?thesis by (simp add: poll_watched_def)
qed (simp add: poll_watched_def)

lemma poll_watched_cong:
  assumes "poll_inv s" "poll_inv s'" "channels s' f = channels s f"
    and "\<And>ch. channels s f = Some ch \<Longrightarrow> events (heap s' ch) = events (heap s ch)
          \<and> pollfds s' ! slot_of ch s' = pollfds s ! slot_of ch s"
  shows "poll_watched s' f = poll_watched s f"
  using assms by (cases "channels s f") (auto simp: poll_watched_registered poll_watched_unregistered)

subsection \<open>Adding and changing a channel\<close>

definition poll_added :: "nat \<Rightarrow> channel \<Rightarrow> poll_poller \<Rightarrow> poll_poller" where
  "poll_added ch c s = s\<lparr>heap := (heap s)(ch := c\<lparr>index := int (length (pollfds s))\<rparr>),
     channels := (channels s)(fd c \<mapsto> ch),
     pollfds := pollfds s @ [\<lparr>pfd_fd = fd c, pfd_events = ucast (events c), pfd_revents = 0\<rparr>]\<rparr>"

definition poll_changed :: "nat \<Rightarrow> channel \<Rightarrow> poll_poller \<Rightarrow> poll_poller" where
  "poll_changed ch c s = s\<lparr>heap := (heap s)(ch := c),
     pollfds := (pollfds s)[nat (index c) :=
       \<lparr>pfd_fd = (if isNoneEvent c then - fd c - 1 else fd c), pfd_events = ucast (events c),
        pfd_revents = 0\<rparr>]\<rparr>"

lemma poll_update_new:
  "index c = -1 \<Longrightarrow> channels s (fd c) = None \<Longrightarrow>
    poll_updateChannel ch (set_channel ch c s) = Inr (poll_added ch c s)"
  by (simp add: poll_updateChannel_def poll_added_def set_channel_def)

lemma poll_update_existing:
  assumes "poll_inv s" "channels s (fd c) = Some ch" "index c = index (heap s ch)"
  shows "poll_updateChannel ch (set_channel ch c s) = Inr (poll_changed ch c s)"
  using poll_inv_registered [OF assms(1,2)] assms(2,3)
  by (auto simp: poll_updateChannel_def poll_changed_def set_channel_def registered_ok_def
      slot_of_def slot_fd_def Let_def split: if_splits)

lemma poll_other:
  assumes "poll_inv s" "channels s f = Some d" "f \<noteq> fd (heap s ch)"
  shows "d \<noteq> ch"
  using poll_inv_registered [OF assms(1,2)] assms(3) by (auto simp: registered_ok_def)

lemma poll_inv_added:
  assumes inv: "poll_inv s" and new: "channels s (fd c) = None" "0 \<le> fd c" "interest_mask (events c)"
    and same: "fd c = fd (heap s ch)"
  shows "poll_inv (poll_added ch c s)"
proof -
  let ?s = "poll_added ch c s"
  have other: "d \<noteq> ch" "f \<noteq> fd c" if "channels s f = Some d" for f d
    using poll_inv_registered [OF inv that] that new(1) same by (auto simp: registered_ok_def)
  have keep: "registered_ok f d ?s" "slot_of d ?s = slot_of d s" if "channels s f = Some d" for f d
    using poll_inv_registered [OF inv that] other [OF that]
    by (auto simp: registered_ok_def poll_added_def slot_of_def nth_append)
  have self: "registered_ok (fd c) ch ?s" "slot_of ch ?s = length (pollfds s)"
    using new by (simp_all add: registered_ok_def poll_added_def slot_of_def slot_fd_def)
  have chans: "channels ?s = (channels s)(fd c \<mapsto> ch)" by (simp add: poll_added_def)
  have "\<exists>d. channels ?s (slot_fd (pollfds ?s ! i)) = Some d \<and> slot_of d ?s = i"
    if "i < length (pollfds ?s)" for i
  proof (cases "i < length (pollfds s)")
    case True
    obtain d where d: "channels s (slot_fd (pollfds s ! i)) = Some d" "slot_of d s = i"
      using poll_inv_slot [OF inv True] by blast
    moreover have "pollfds ?s ! i = pollfds s ! i" using True by (simp add: poll_added_def nth_append)
    ultimately show ?thesis using keep(2) [OF d(1)] other(2) [OF d(1)] chans by auto
  next
    case False
    with that have i: "i = length (pollfds s)" by (simp add: poll_added_def)
    then have "slot_fd (pollfds ?s ! i) = fd c" using new(2) by (simp add: poll_added_def slot_fd_def)
    with self(2) chans i show ?thesis by simp
  qed
  then show ?thesis using self(1) keep(1) by (auto simp: poll_inv_def chans)
qed

lemma poll_inv_changed:
  assumes inv: "poll_inv s" and reg: "channels s (fd c) = Some ch"
    and same: "fd c = fd (heap s ch)" "index c = index (heap s ch)" and mask: "interest_mask (events c)"
  shows "poll_inv (poll_changed ch c s)"
proof -
  let ?s = "poll_changed ch c s" and ?i = "slot_of ch s"
  have ok: "registered_ok (fd c) ch s" using inv reg by (rule poll_inv_registered)
  have slots: "slot_of d ?s = slot_of d s" for d
    using same by (simp add: slot_of_def poll_changed_def)
  have fds: "slot_fd (pollfds ?s ! i) = slot_fd (pollfds s ! i)" if "i < length (pollfds s)" for i
    using that ok same by (cases "i = ?i")
      (auto simp: poll_changed_def slot_of_def registered_ok_def slot_fd_def)
  have "registered_ok f d ?s" if "channels s f = Some d" for f d
  proof (cases "d = ch")
    case True
    with that ok poll_inv_registered [OF inv that] have "f = fd c" by (auto simp: registered_ok_def)
    with True ok same mask show ?thesis
      by (auto simp: registered_ok_def slots fds) (auto simp: poll_changed_def slot_of_def)
  next
    case False
    have okd: "registered_ok f d s" using inv that by (rule poll_inv_registered)
    then have "slot_of d s \<noteq> ?i"
      using ok False that reg by (auto simp: registered_ok_def)
    with okd False show ?thesis
      by (auto simp: registered_ok_def slots fds) (auto simp: poll_changed_def slot_of_def same)
  qed
  moreover have "channels ?s = channels s" "length (pollfds ?s) = length (pollfds s)"
    by (simp_all add: poll_changed_def)
  ultimately show ?thesis using inv by (auto simp: poll_inv_def slots fds)
qed

lemma poll_update_spec:
  assumes inv: "poll_inv s" and reg: "registrable ch s"
    and same: "fd c = fd (heap s ch)" "index c = index (heap s ch)" and mask: "interest_mask (events c)"
  shows "\<exists>s'. poll_updateChannel ch (set_channel ch c s) = Inr s' \<and> poll_inv s'
       \<and> channels s' = (channels s)(fd c \<mapsto> ch)
       \<and> fd (heap s' ch) = fd c \<and> events (heap s' ch) = events c
       \<and> poll_watched s' (fd c) \<in> told (events c)
       \<and> (\<forall>f. f \<noteq> fd c \<longrightarrow> poll_watched s' f = poll_watched s f)
       \<and> (hasChannel ch s \<longrightarrow> events c = 0 \<longrightarrow> poll_removable ch s')"
proof (cases "channels s (fd c)")
  case None
  let ?s = "poll_added ch c s"
  have idx: "index c = -1" "0 \<le> fd c" "\<not> hasChannel ch s"
    using None reg same by (auto simp: registrable_def hasChannel_def)
  have inv': "poll_inv ?s" using poll_inv_added inv None idx(2) mask same(1) by blast
  have "poll_watched ?s f = poll_watched s f" if "f \<noteq> fd c" for f
  proof (rule poll_watched_cong [OF inv inv'])
    show "channels ?s f = channels s f" using that by (simp add: poll_added_def)
    fix d assume d: "channels s f = Some d"
    have "d \<noteq> ch" using poll_other [OF inv d] that same(1) by simp
    then show "events (heap ?s d) = events (heap s d) \<and> pollfds ?s ! slot_of d ?s = pollfds s ! slot_of d s"
      using poll_inv_registered [OF inv d]
      by (auto simp: poll_added_def slot_of_def nth_append registered_ok_def)
  qed
  moreover have "poll_watched ?s (fd c) = Some (events c)"
    by (subst poll_watched_registered [OF inv'])
      (auto simp: poll_added_def slot_of_def)
  ultimately show ?thesis
    using poll_update_new [of c s ch] idx None inv' by (auto simp: poll_added_def told_def)
next
  case (Some d)
  then have d: "channels s (fd c) = Some ch"
    using reg same by (auto simp: registrable_def hasChannel_def)
  let ?s = "poll_changed ch c s"
  have ok: "registered_ok (fd c) ch s" using inv d by (rule poll_inv_registered)
  have inv': "poll_inv ?s" using inv d same mask by (rule poll_inv_changed)
  have "poll_watched ?s f = poll_watched s f" if "f \<noteq> fd c" for f
  proof (rule poll_watched_cong [OF inv inv'])
    show "channels ?s f = channels s f" by (simp add: poll_changed_def)
    fix e assume e: "channels s f = Some e"
    have "e \<noteq> ch" using poll_other [OF inv e] that same(1) by simp
    moreover have "slot_of e s \<noteq> slot_of ch s"
      using ok poll_inv_registered [OF inv e] that by (auto simp: registered_ok_def)
    ultimately show "events (heap ?s e) = events (heap s e)
        \<and> pollfds ?s ! slot_of e ?s = pollfds s ! slot_of e s"
      using same(2) by (auto simp: poll_changed_def slot_of_def)
  qed
  moreover have "poll_watched ?s (fd c) = (if events c = 0 then None else Some (events c))"
    using ok same d
    by (subst poll_watched_registered [OF inv'])
      (auto simp: poll_changed_def slot_of_def registered_ok_def isNoneEvent_def kNoneEvent_def)
  moreover have "events c = 0 \<Longrightarrow> poll_removable ch ?s"
    using ok same by (auto simp: poll_removable_def poll_changed_def slot_of_def registered_ok_def
        isNoneEvent_def kNoneEvent_def)
  moreover have "channels ?s = (channels s)(fd c \<mapsto> ch)"
    using d by (simp add: poll_changed_def fun_upd_idem)
  moreover have "fd (heap ?s ch) = fd c" "events (heap ?s ch) = events c"
    by (simp_all add: poll_changed_def)
  ultimately show ?thesis
    using poll_update_existing [OF inv d same(2)] inv' by (auto simp: told_def)
qed

subsection \<open>Removing a channel\<close>

text \<open>
  Both branches of \<open>removeChannel\<close> leave the same slots as overwriting the freed slot with the last
  one and dropping the last.
\<close>

definition poll_dropped :: "nat \<Rightarrow> poll_poller \<Rightarrow> poll_poller" where
  "poll_dropped ch s =
     (let i = slot_of ch s; l = last (pollfds s) in
      s\<lparr>heap := (case ((channels s)(fd (heap s ch) := None)) (slot_fd l) of
           None \<Rightarrow> heap s | Some d \<Rightarrow> (heap s)(d := (heap s d)\<lparr>index := int i\<rparr>)),
        channels := (channels s)(fd (heap s ch) := None),
        pollfds := butlast ((pollfds s)[i := l])\<rparr>)"

lemma registered_ok_addedToLoop [simp]:
  "registered_ok f d (set_channel ch ((heap s ch)\<lparr>addedToLoop := b\<rparr>) s) = registered_ok f d s"
  "slot_of d (set_channel ch ((heap s ch)\<lparr>addedToLoop := b\<rparr>) s) = slot_of d s"
  "pollfds (set_channel ch ((heap s ch)\<lparr>addedToLoop := b\<rparr>) s) = pollfds s"
  by (simp_all add: registered_ok_def slot_of_def set_channel_def)

lemma poll_inv_addedToLoop [simp]:
  "poll_inv (set_channel ch ((heap s ch)\<lparr>addedToLoop := b\<rparr>) s) = poll_inv s"
  by (simp add: poll_inv_def)

lemma poll_remove_eq:
  assumes inv: "poll_inv s" and reg: "hasChannel ch s" and rem: "poll_removable ch s"
    and none: "isNoneEvent (heap s ch)"
  shows "poll_removeChannel ch s = Inr (poll_dropped ch s)"
proof -
  let ?f = "fd (heap s ch)" and ?i = "slot_of ch s" and ?n = "length (pollfds s)"
  have d: "channels s ?f = Some ch" using reg by (simp add: hasChannel_def)
  have ok: "registered_ok ?f ch s" using inv d by (rule poll_inv_registered)
  have pre: "0 \<le> index (heap s ch) \<and> index (heap s ch) < int ?n" "?i < ?n" "nat (index (heap s ch)) = ?i"
    "pfd_fd (pollfds s ! ?i) = - ?f - 1 \<and> scast (pfd_events (pollfds s ! ?i)) = events (heap s ch)"
    using ok rem by (auto simp: registered_ok_def poll_removable_def slot_of_def)
  have last: "last (pollfds s) = pollfds s ! (?n - 1)" using pre(2) by (cases "pollfds s") (auto simp: last_conv_nth)
  obtain e where e: "channels s (slot_fd (last (pollfds s))) = Some e" "slot_of e s = ?n - 1"
    using poll_inv_slot [OF inv, of "?n - 1"] pre(2) unfolding last by (metis diff_less less_nat_zero_code neq0_conv zero_less_one)
  show ?thesis
  proof (cases "?i = ?n - 1")
    case True
    then have "slot_fd (last (pollfds s)) = ?f" using ok last by (simp add: registered_ok_def)
    moreover have "(pollfds s)[?n - 1 := last (pollfds s)] = pollfds s"
      using last by (simp add: list_update_same_conv pre(2))
    ultimately show ?thesis
      using d none pre True by (simp add: poll_removeChannel_def poll_dropped_def Let_def)
  next
    case False
    have "slot_fd (last (pollfds s)) \<noteq> ?f"
      using e d False by auto
    with e(1) have e': "((channels s)(?f := None)) (slot_fd (last (pollfds s))) = Some e" by simp
    have "butlast ((pollfds s)[?i := last (pollfds s), ?n - 1 := pollfds s ! ?i])
        = butlast ((pollfds s)[?i := last (pollfds s)])"
      by (simp add: butlast_list_update)
    with e' False show ?thesis
      using d none pre by (simp add: poll_removeChannel_def poll_dropped_def Let_def slot_fd_def)
  qed
qed

lemma poll_dropped_slots:
  assumes inv: "poll_inv s" and reg: "hasChannel ch s" and d: "channels s f = Some d" "f \<noteq> fd (heap s ch)"
  shows "pollfds (poll_dropped ch s) ! slot_of d (poll_dropped ch s) = pollfds s ! slot_of d s"
    and "slot_of d (poll_dropped ch s)
      = (if slot_of d s = length (pollfds s) - 1 then slot_of ch s else slot_of d s)"
    and "registered_ok f d (poll_dropped ch s)"
proof -
  let ?f = "fd (heap s ch)" and ?i = "slot_of ch s" and ?n = "length (pollfds s)" and ?s = "poll_dropped ch s"
  let ?l = "last (pollfds s)"
  have ch: "channels s ?f = Some ch" using reg by (simp add: hasChannel_def)
  have okc: "registered_ok ?f ch s" and okd: "registered_ok f d s"
    using poll_inv_registered [OF inv] ch d(1) by blast+
  have ne: "d \<noteq> ch" "slot_of d s \<noteq> ?i" using okc okd d(2) by (auto simp: registered_ok_def)
  have bounds: "?i < ?n" "slot_of d s < ?n" using okc okd by (auto simp: registered_ok_def)
  have last: "?l = pollfds s ! (?n - 1)" using bounds by (cases "pollfds s") (auto simp: last_conv_nth)
  have fds: "pollfds ?s ! j = (if j = ?i then ?l else pollfds s ! j)" if "j < ?n - 1" for j
    using that bounds by (auto simp: poll_dropped_def Let_def nth_butlast)
  have slot: "slot_of d ?s = (if slot_of d s = ?n - 1 then ?i else slot_of d s)"
  proof (cases "slot_of d s = ?n - 1")
    case True
    then have "slot_fd ?l = f" using okd last by (simp add: registered_ok_def)
    with True d show ?thesis by (simp add: poll_dropped_def slot_of_def Let_def)
  next
    case False
    have "slot_fd ?l \<noteq> f"
      using poll_slot_unique [OF inv d(1), of "?n - 1"] bounds False last by fastforce
    with False d show ?thesis
      by (auto simp: poll_dropped_def slot_of_def Let_def split: option.splits)
        (metis inv poll_inv_registered registered_ok_def)+
  qed
  then show "slot_of d ?s = (if slot_of d s = ?n - 1 then ?i else slot_of d s)" .
  have lt: "slot_of d ?s < ?n - 1" using slot bounds ne by (auto split: if_splits)
  show nth: "pollfds ?s ! slot_of d ?s = pollfds s ! slot_of d s"
    using fds [OF lt] slot ne last by (auto split: if_splits)
  have "length (pollfds ?s) = ?n - 1" by (simp add: poll_dropped_def Let_def)
  moreover have "fd (heap ?s d) = fd (heap s d)" "events (heap ?s d) = events (heap s d)"
    "0 \<le> index (heap ?s d)"
    using okd by (auto simp: poll_dropped_def Let_def registered_ok_def split: option.splits)
  ultimately show "registered_ok f d ?s" using okd lt nth by (simp add: registered_ok_def)
qed

lemma poll_inv_dropped:
  assumes inv: "poll_inv s" and reg: "hasChannel ch s"
  shows "poll_inv (poll_dropped ch s)"
proof -
  let ?f = "fd (heap s ch)" and ?i = "slot_of ch s" and ?n = "length (pollfds s)" and ?s = "poll_dropped ch s"
  have ch: "channels s ?f = Some ch" using reg by (simp add: hasChannel_def)
  have okc: "registered_ok ?f ch s" using inv ch by (rule poll_inv_registered)
  have chans: "channels ?s = (channels s)(?f := None)" by (simp add: poll_dropped_def Let_def)
  have len: "length (pollfds ?s) = ?n - 1" by (simp add: poll_dropped_def Let_def)
  have "\<exists>d. channels ?s (slot_fd (pollfds ?s ! j)) = Some d \<and> slot_of d ?s = j" if "j < ?n - 1" for j
  proof -
    define k where "k = (if j = ?i then ?n - 1 else j)"
    have k: "k < ?n" "k \<noteq> ?i" using that by (auto simp: k_def)
    obtain d where d: "channels s (slot_fd (pollfds s ! k)) = Some d" "slot_of d s = k"
      using poll_inv_slot [OF inv k(1)] by blast
    have f: "slot_fd (pollfds s ! k) \<noteq> ?f" using poll_slot_unique [OF inv ch k(1)] k(2) by blast
    have "slot_of d ?s = j"
      using poll_dropped_slots(2) [OF inv reg d(1) f] d(2) that by (auto simp: k_def)
    moreover from this have "pollfds ?s ! j = pollfds s ! k"
      using poll_dropped_slots(1) [OF inv reg d(1) f] d(2) by simp
    ultimately show ?thesis using d(1) f chans by auto
  qed
  then show ?thesis
    using poll_dropped_slots(3) [OF inv reg] by (auto simp: poll_inv_def chans len split: if_splits)
qed

lemma poll_remove_spec:
  assumes inv: "poll_inv s" and reg: "hasChannel ch s" and rem: "poll_removable ch s"
    and none: "isNoneEvent (heap s ch)"
  shows "\<exists>s'. poll_removeChannel ch (set_channel ch ((heap s ch)\<lparr>addedToLoop := False\<rparr>) s) = Inr s'
       \<and> poll_inv s' \<and> channels s' = (channels s)(fd (heap s ch) := None)
       \<and> poll_watched s' (fd (heap s ch)) = None
       \<and> (\<forall>f. f \<noteq> fd (heap s ch) \<longrightarrow> poll_watched s' f = poll_watched s f)"
proof -
  let ?t = "set_channel ch ((heap s ch)\<lparr>addedToLoop := False\<rparr>) s" and ?f = "fd (heap s ch)"
  have t: "poll_inv ?t" "hasChannel ch ?t" "poll_removable ch ?t" "isNoneEvent (heap ?t ch)"
    using assms by (simp_all add: hasChannel_def poll_removable_def isNoneEvent_def)
  let ?s = "poll_dropped ch ?t"
  have inv': "poll_inv ?s" using t(1,2) by (rule poll_inv_dropped)
  have chans: "channels ?s = (channels s)(?f := None)" by (simp add: poll_dropped_def Let_def)
  have "poll_watched ?s f = poll_watched s f" if "f \<noteq> ?f" for f
  proof (rule poll_watched_cong [OF inv inv'])
    show "channels ?s f = channels s f" using that chans by simp
    fix d assume d: "channels s f = Some d"
    then have "events (heap ?s d) = events (heap s d)"
      by (auto simp: poll_dropped_def Let_def split: option.splits)
    then show "events (heap ?s d) = events (heap s d) \<and> pollfds ?s ! slot_of d ?s = pollfds s ! slot_of d s"
      using poll_dropped_slots(1) [OF t(1,2), of f d] d that by simp
  qed
  moreover have "poll_watched ?s ?f = None"
    using poll_watched_unregistered [OF inv'] chans by simp
  ultimately show ?thesis using poll_remove_eq [OF t] inv' chans by auto
qed

interpretation poll: poller_contract poll_inv poll_watched poll_removable poll_updateChannel
  poll_removeChannel
  by unfold_locales (fact poll_update_spec, fact poll_remove_spec)

section \<open>Properties of the poll(2) multiplexer\<close>

text \<open>
  C11. Life of a channel: whatever setters are called on a new or registered channel (at least one), no assertion fails and \<open>poll(2)\<close> is then
  told exactly the interest the setters leave for its descriptor (nothing, or the empty mask, when they leave none) and what it was told before for every
  other descriptor. Disabling all interest and removing the channel afterwards never fails an assertion, frees its descriptor and its slot, and again changes no
  other descriptor, although removal moves another channel's slot.
\<close>

theorem poll_lifecycle:
  assumes "poll_inv s" "registrable ch s" "interest_mask (events (heap s ch))" "fs \<noteq> []"
  shows "\<exists>s1 s'. update_all poll_updateChannel fs ch s = Inr s1 \<and> poll_inv s1
     \<and> channels s1 = (channels s)(fd (heap s ch) \<mapsto> ch)
     \<and> poll_watched s1 (fd (heap s ch)) \<in> told (events (fold apply_setter fs (heap s ch)))
     \<and> (\<forall>g. g \<noteq> fd (heap s ch) \<longrightarrow> poll_watched s1 g = poll_watched s g)
     \<and> rbind (update_all poll_updateChannel [DisableAll] ch s1) (Channel_remove poll_removeChannel ch) = Inr s' \<and> poll_inv s'
     \<and> channels s' = (channels s)(fd (heap s ch) := None) \<and> poll_watched s' (fd (heap s ch)) = None
     \<and> (\<forall>g. g \<noteq> fd (heap s ch) \<longrightarrow> poll_watched s' g = poll_watched s g)"
  using assms by (rule poll.lifecycle)

lemma poll_inv_new: "poll_inv (newPollPoller h)"
  by (simp add: poll_inv_def newPollPoller_def)

theorem poll_lifecycle_witness:
  "\<exists>s1. update_all poll_updateChannel [EnableReading, DisableAll, EnableWriting] 0 (newPollPoller (\<lambda>_. newChannel 7)) = Inr s1
     \<and> poll_watched s1 7 = Some kWriteEvent"
proof -
  let ?s = "newPollPoller (\<lambda>_. newChannel 7)"
  have "registrable 0 ?s" "interest_mask (events (heap ?s 0))" "fd (heap ?s 0) = 7"
    by (simp_all add: newPollPoller_def registrable_def newChannel_def hasChannel_def interest_mask_def)
  moreover have "events (fold apply_setter [EnableReading, DisableAll, EnableWriting] (heap ?s 0)) = kWriteEvent" "kWriteEvent \<noteq> 0"
    by (simp_all add: interest_defs newPollPoller_def newChannel_def kNoneEvent_def kWriteEvent_def poll_flags)
  ultimately show ?thesis
    using poll_lifecycle [OF poll_inv_new [of "\<lambda>_. newChannel 7"], where ch = 0 and fs = "[EnableReading, DisableAll, EnableWriting]"]
    by (auto simp: told_def)
qed

text \<open>
  A channel that was removed keeps its old slot number, so handing it to \<open>updateChannel\<close> again
  always fails an assertion.
\<close>

theorem poll_reregister_aborts:
  assumes "poll_inv s" "hasChannel ch s" "poll_removable ch s" "isNoneEvent (heap s ch)"
  shows "\<exists>s'. Channel_remove poll_removeChannel ch s = Inr s'
     \<and> Channel_update poll_updateChannel (apply_setter f) ch s' = Inl AssertFail"
proof -
  let ?t = "set_channel ch ((heap s ch)\<lparr>addedToLoop := False\<rparr>) s"
  have t: "poll_inv ?t" "hasChannel ch ?t" "poll_removable ch ?t" "isNoneEvent (heap ?t ch)"
    using assms by (simp_all add: hasChannel_def poll_removable_def isNoneEvent_def)
  have ok: "registered_ok (fd (heap ?t ch)) ch ?t"
    using poll_inv_registered [OF t(1)] t(2) by (simp add: hasChannel_def)
  let ?s = "poll_dropped ch ?t"
  have s: "Channel_remove poll_removeChannel ch s = Inr ?s"
    using poll_remove_eq [OF t] assms(4) by (simp add: Channel_remove_def)
  have "channels ?s (fd (heap ?s ch)) = None" "0 \<le> index (heap ?s ch)"
    using ok by (auto simp: poll_dropped_def Let_def registered_ok_def split: option.splits)
  then show ?thesis using s
    by (simp add: Channel_update_def poll_updateChannel_def Let_def)
qed

theorem poll_reregister_aborts_witness:
  "\<exists>s s'. Channel_remove poll_removeChannel 0 s = Inr s'
     \<and> Channel_update poll_updateChannel (apply_setter EnableReading) 0 s' = Inl AssertFail"
proof -
  let ?c = "(newChannel 7)\<lparr>index := 0\<rparr>"
  let ?s = "\<lparr>heap = (\<lambda>_. ?c), channels = [7 \<mapsto> 0],
     pollfds = [\<lparr>pfd_fd = -8, pfd_events = 0, pfd_revents = 0\<rparr>]\<rparr> :: poll_poller"
  have "poll_inv ?s"
    by (auto simp: poll_inv_def registered_ok_def slot_of_def slot_fd_def newChannel_def
        interest_mask_def split: if_splits)
  moreover have "hasChannel 0 ?s" "poll_removable 0 ?s" "isNoneEvent (heap ?s 0)"
    by (simp_all add: hasChannel_def poll_removable_def slot_of_def newChannel_def isNoneEvent_def
        kNoneEvent_def)
  ultimately show ?thesis using poll_reregister_aborts [of ?s 0 EnableReading] by blast
qed

subsection \<open>Delivering events\<close>

text \<open>
  What \<open>poll(2)\<close> documents: it stores one result mask per entry, returns the number of entries with a
  non-empty mask (or -1), and gives entries with a negative descriptor an empty mask.
\<close>

definition poll_documented :: "(pollfd list \<Rightarrow> int \<times> 16 word list) \<Rightarrow> bool" where
  "poll_documented sys \<longleftrightarrow> (\<forall>pfds n revs. sys pfds = (n, revs) \<longrightarrow> length revs = length pfds
     \<and> (n \<ge> 0 \<longrightarrow> n = int (length (filter (\<lambda>r. r \<noteq> 0) revs)))
     \<and> (\<forall>i<length pfds. revs ! i \<noteq> 0 \<longrightarrow> 0 \<le> pfd_fd (pfds ! i) \<and> 0 < sint (revs ! i)))"

definition poll_ready :: "pollfd list \<Rightarrow> pollfd list" where
  "poll_ready pfds = filter (\<lambda>p. 0 < sint (pfd_revents p)) pfds"

definition channel_at :: "poll_poller \<Rightarrow> pollfd \<Rightarrow> nat" where
  "channel_at s p = the (channels s (pfd_fd p))"

definition mark :: "poll_poller \<Rightarrow> pollfd \<Rightarrow> poll_poller" where
  "mark s p = set_channel (channel_at s p)
     ((heap s (channel_at s p))\<lparr>revents := scast (pfd_revents p)\<rparr>) s"

lemma mark_simps [simp]:
  "channels (mark s p) = channels s" "pollfds (mark s p) = pollfds s"
  "fd (heap (mark s p) ch) = fd (heap s ch)" "channel_at (mark s p) = channel_at s"
  by (simp_all add: mark_def set_channel_def channel_at_def fun_eq_iff)

lemma heap_mark: "heap (mark s p) ch = (if ch = channel_at s p
    then (heap s ch)\<lparr>revents := scast (pfd_revents p)\<rparr> else heap s ch)"
  by (simp add: mark_def)

lemma poll_fill_spec:
  assumes "numEvents = int (length (poll_ready pfds))"
    and "\<forall>p \<in> set (poll_ready pfds). \<exists>ch. channels s (pfd_fd p) = Some ch \<and> fd (heap s ch) = pfd_fd p"
  shows "poll_fillActiveChannels numEvents pfds s active
     = Inr (foldl mark s (poll_ready pfds), active @ map (channel_at s) (poll_ready pfds))"
  using assms
proof (induction pfds arbitrary: numEvents s active)
  case (Cons p pfds)
  show ?case
  proof (cases "0 < sint (pfd_revents p)")
    case True
    then obtain ch where ch: "channels s (pfd_fd p) = Some ch" "fd (heap s ch) = pfd_fd p"
      using Cons.prems(2) by (auto simp: poll_ready_def)
    have m: "set_channel ch ((heap s ch)\<lparr>revents := scast (pfd_revents p)\<rparr>) s = mark s p"
      using ch by (simp add: mark_def channel_at_def)
    have "poll_fillActiveChannels (numEvents - 1) pfds (mark s p) (active @ [ch])
      = Inr (foldl mark (mark s p) (poll_ready pfds), (active @ [ch]) @ map (channel_at (mark s p)) (poll_ready pfds))"
      using Cons.prems True by (intro Cons.IH) (auto simp: poll_ready_def)
    with True ch m Cons.prems(1) show ?thesis
      by (simp add: poll_ready_def channel_at_def)
  next
    case False
    have skip: "poll_ready (p # pfds) = poll_ready pfds" using False by (simp add: poll_ready_def)
    show ?thesis
    proof (cases "poll_ready pfds = []")
      case True
      with Cons.prems(1) show ?thesis by (simp add: skip)
    next
      case False
      with Cons.prems Cons.IH [of numEvents s active] \<open>\<not> 0 < sint (pfd_revents p)\<close> show ?thesis
        by (simp add: skip)
    qed
  qed
qed (simp add: poll_ready_def)

lemma foldl_mark_other:
  "ch \<notin> channel_at s ` set ps \<Longrightarrow> heap (foldl mark s ps) ch = heap s ch"
  by (induction ps arbitrary: s) (auto simp: heap_mark)

lemma foldl_mark_revents:
  "distinct (map (channel_at s) ps) \<Longrightarrow> p \<in> set ps \<Longrightarrow>
    revents (heap (foldl mark s ps) (channel_at s p)) = scast (pfd_revents p)"
proof (induction ps arbitrary: s)
  case (Cons q ps)
  show ?case
  proof (cases "p = q")
    case True
    with Cons.prems(1) have "channel_at (mark s q) p \<notin> channel_at (mark s q) ` set ps" by simp
    from foldl_mark_other [OF this] True show ?thesis by (simp add: heap_mark)
  next
    case False
    with Cons.prems Cons.IH [of "mark s q"] show ?thesis by simp
  qed
qed simp

lemma foldl_mark_frame [simp]: "channels (foldl mark s ps) = channels s"
  by (induction ps arbitrary: s) simp_all

text \<open>The entries \<open>poll(2)\<close> left, and their channels, by slot.\<close>

definition polled :: "poll_poller \<Rightarrow> 16 word list \<Rightarrow> nat \<Rightarrow> pollfd" where
  "polled s revs i = (pollfds s ! i)\<lparr>pfd_revents := revs ! i\<rparr>"

lemma polled_entries:
  "length revs = length (pollfds s) \<Longrightarrow>
    map (\<lambda>(p, r). p\<lparr>pfd_revents := r\<rparr>) (zip (pollfds s) revs)
      = map (polled s revs) [0..<length (pollfds s)]"
  by (rule nth_equalityI) (simp_all add: polled_def)

lemma polled_channel:
  assumes "poll_inv s" "i < length (pollfds s)" "0 \<le> pfd_fd (pollfds s ! i)"
  shows "\<exists>ch. channels s (pfd_fd (polled s revs i)) = Some ch \<and> slot_of ch s = i
     \<and> fd (heap s ch) = pfd_fd (polled s revs i)"
  using poll_inv_slot [OF assms(1,2)] assms(3) poll_inv_registered [OF assms(1)]
  by (auto simp: slot_fd_def polled_def registered_ok_def)

text \<open>
  Delivery: with \<open>poll(2)\<close> behaving as documented, \<open>PollPoller::poll\<close> reports exactly the
  registered channels whose slot has a non-empty result, each once, with that result as its
  received events, and never fails an assertion.
\<close>

theorem poll_reports:
  assumes inv: "poll_inv s" and doc: "poll_documented sys"
    and sys: "sys (pollfds s) = (n, revs)" and ok: "0 \<le> n"
  shows "\<exists>s' active. poll_poll sys s = Inr (s', active) \<and> channels s' = channels s \<and> distinct active
     \<and> set active = {ch. hasChannel ch s \<and> revs ! slot_of ch s \<noteq> 0}
     \<and> (\<forall>ch. hasChannel ch s \<and> revs ! slot_of ch s \<noteq> 0 \<longrightarrow> revents (heap s' ch) = scast (revs ! slot_of ch s))"
proof -
  let ?n = "length (pollfds s)" and ?P = "polled s revs"
  have len: "length revs = ?n" and cnt: "n = int (length (filter (\<lambda>r. r \<noteq> 0) revs))"
    and pos: "\<And>i. i < ?n \<Longrightarrow> revs ! i \<noteq> 0 \<Longrightarrow> 0 \<le> pfd_fd (pollfds s ! i) \<and> 0 < sint (revs ! i)"
    using doc sys ok by (auto simp: poll_documented_def)
  let ?is = "filter (\<lambda>i. revs ! i \<noteq> 0) [0..<?n]"
  let ?s1 = "s\<lparr>pollfds := map ?P [0..<?n]\<rparr>"
  have iff: "0 < sint (revs ! i) \<longleftrightarrow> revs ! i \<noteq> 0" if "i < ?n" for i using pos [OF that] by auto
  have ready: "poll_ready (pollfds ?s1) = map ?P ?is"
    using iff by (auto simp: poll_ready_def filter_map o_def polled_def intro!: arg_cong [where f = "map _"] filter_cong)
  have "filter (\<lambda>r. r \<noteq> 0) (map ((!) revs) [0..<?n]) = map ((!) revs) ?is"
    by (simp add: filter_map o_def)
  moreover have "map ((!) revs) [0..<?n] = revs" using map_nth [of revs] len by simp
  ultimately have "filter (\<lambda>r. r \<noteq> 0) revs = map ((!) revs) ?is" by simp
  then have cnt': "n = int (length (poll_ready (pollfds ?s1)))"
    using cnt ready by simp
  have chan: "\<exists>ch. channels s (pfd_fd (?P i)) = Some ch \<and> slot_of ch s = i \<and> fd (heap s ch) = pfd_fd (?P i)"
    if "i \<in> set ?is" for i
    using polled_channel [OF inv] pos that by auto
  then have at: "slot_of (channel_at s (?P i)) s = i" "hasChannel (channel_at s (?P i)) s" if "i \<in> set ?is" for i
    using that by (fastforce simp: channel_at_def hasChannel_def)+
  have "channel_at ?s1 = channel_at s" by (simp add: channel_at_def fun_eq_iff)
  then have fill: "poll_poll sys s = Inr (if n > 0 then foldl mark ?s1 (map ?P ?is) else ?s1, map (channel_at s \<circ> ?P) ?is)"
    using poll_fill_spec [OF cnt', of ?s1 "[]"] chan sys polled_entries [OF len] ready cnt'
    by (auto simp: poll_poll_def)
  have ids: "map (\<lambda>ch. slot_of ch s) (map (channel_at s \<circ> ?P) ?is) = ?is"
    using at(1) by (auto intro!: map_idI)
  then have dist: "distinct (map (channel_at s \<circ> ?P) ?is)"
    by (metis distinct_filter distinct_map distinct_upt)
  have slot: "slot_of ch s \<in> set ?is" "channel_at s (?P (slot_of ch s)) = ch"
    if "hasChannel ch s" "revs ! slot_of ch s \<noteq> 0" for ch
  proof -
    have ch: "channels s (fd (heap s ch)) = Some ch" using that(1) by (simp add: hasChannel_def)
    from poll_inv_registered [OF inv ch] have lt: "slot_of ch s < ?n"
      and fd: "slot_fd (pollfds s ! slot_of ch s) = fd (heap s ch)" by (auto simp: registered_ok_def)
    show "slot_of ch s \<in> set ?is" using lt that(2) by simp
    show "channel_at s (?P (slot_of ch s)) = ch"
      using pos [OF lt that(2)] fd ch by (simp add: channel_at_def polled_def slot_fd_def split: if_splits)
  qed
  let ?s' = "if n > 0 then foldl mark ?s1 (map ?P ?is) else ?s1"
  have "revents (heap ?s' ch) = scast (revs ! slot_of ch s)"
    if "hasChannel ch s" "revs ! slot_of ch s \<noteq> 0" for ch
  proof -
    have "?P (slot_of ch s) \<in> set (map ?P ?is)" using slot(1) [OF that] by simp
    from foldl_mark_revents [OF _ this, of ?s1] dist \<open>channel_at ?s1 = channel_at s\<close>
    have "revents (heap (foldl mark ?s1 (map ?P ?is)) ch) = scast (revs ! slot_of ch s)"
      using slot(2) [OF that] by (simp add: polled_def)
    moreover have "n > 0"
      using slot(1) [OF that] cnt' ready by (metis empty_iff list.map_disc_iff list.set(1) length_greater_0_conv of_nat_0_less_iff)
    ultimately show ?thesis by simp
  qed
  moreover have "set (map (channel_at s \<circ> ?P) ?is) = {ch. hasChannel ch s \<and> revs ! slot_of ch s \<noteq> 0}"
    using at slot by (auto simp: image_iff) (metis)+
  moreover have "channels ?s' = channels s" by simp
  ultimately show ?thesis using fill dist by blast
qed

theorem poll_reports_witness:
  "\<exists>s' active. poll_poll (\<lambda>p. (0, map (\<lambda>_. 0) p)) (newPollPoller (\<lambda>_. newChannel 1)) = Inr (s', active)
     \<and> channels s' = channels (newPollPoller (\<lambda>_. newChannel 1)) \<and> distinct active
     \<and> set active = {ch. hasChannel ch (newPollPoller (\<lambda>_. newChannel 1))
          \<and> ([] :: 16 word list) ! slot_of ch (newPollPoller (\<lambda>_. newChannel 1)) \<noteq> 0}"
  using poll_reports [OF poll_inv_new, of "\<lambda>p. (0, map (\<lambda>_. 0) p)" "\<lambda>_. newChannel 1" 0 "[]"]
  by (auto simp: poll_documented_def) (auto simp: newPollPoller_def)

end
