(* ===== verification/EPollPoller.thy ===== *)
theory EPollPoller
  imports PollPoller
begin

unbundle bit_operations_syntax

text \<open>
  The multiplexer over \<open>epoll(4)\<close> (\<open>muduo/net/poller/EPollPoller.cc\<close>) and the choice between the two
  (\<open>poller/DefaultPoller.cc\<close>). A channel's \<open>index_\<close> is its registration state; the kernel's interest
  list is what the sequence of \<open>epoll_ctl(2)\<close> calls made so far leaves, so the state keeps that
  sequence. Whether a call succeeds is a parameter.
\<close>

section \<open>epoll(4)\<close>

definition kNew :: int where "kNew = -1"
definition kAdded :: int where "kAdded = 1"
definition kDeleted :: int where "kDeleted = 2"

datatype epoll_op = EPOLL_CTL_ADD | EPOLL_CTL_DEL | EPOLL_CTL_MOD

record epoll_call =
  call_op :: epoll_op
  call_fd :: int
  call_events :: i32
  call_ptr :: nat

record epoll_poller = poller_base +
  ctl_calls :: "epoll_call list"
  event_slots :: nat

definition operationToString :: "epoll_op \<Rightarrow> string" where
  "operationToString op' = (case op' of EPOLL_CTL_ADD \<Rightarrow> ''ADD'' | EPOLL_CTL_DEL \<Rightarrow> ''DEL''
     | EPOLL_CTL_MOD \<Rightarrow> ''MOD'')"

text \<open>
  The system call is a parameter: whether a call succeeds, given all calls made so far, the last of
  which is the one in question.
\<close>

type_synonym epoll_ctl = "epoll_call list \<Rightarrow> bool"

definition epoll_update :: "epoll_ctl \<Rightarrow> epoll_op \<Rightarrow> nat \<Rightarrow> epoll_poller \<Rightarrow> epoll_poller res" where
  "epoll_update ctl operation ch s =
     (let c = heap s ch;
          call = \<lparr>call_op = operation, call_fd = fd c, call_events = events c, call_ptr = ch\<rparr>;
          s' = s\<lparr>ctl_calls := ctl_calls s @ [call]\<rparr>
      in if ctl (ctl_calls s') then Inr s'
         else if operation = EPOLL_CTL_DEL then Inr s'
         else Inl Fatal)"

definition epoll_updateChannel :: "epoll_ctl \<Rightarrow> nat \<Rightarrow> epoll_poller \<Rightarrow> epoll_poller res" where
  "epoll_updateChannel ctl ch s =
     (let c = heap s ch; idx = index c in
      if idx = kNew \<or> idx = kDeleted then
        (if idx = kNew
         then c_assert (channels s (fd c) = None)
                (epoll_update ctl EPOLL_CTL_ADD ch
                   (set_channel ch (c\<lparr>index := kAdded\<rparr>) (s\<lparr>channels := (channels s)(fd c \<mapsto> ch)\<rparr>)))
         else c_assert (channels s (fd c) \<noteq> None) (c_assert (channels s (fd c) = Some ch)
                (epoll_update ctl EPOLL_CTL_ADD ch (set_channel ch (c\<lparr>index := kAdded\<rparr>) s))))
      else
        c_assert (channels s (fd c) \<noteq> None) (c_assert (channels s (fd c) = Some ch)
        (c_assert (idx = kAdded)
          (if isNoneEvent c
           then rbind (epoll_update ctl EPOLL_CTL_DEL ch s)
                  (\<lambda>s'. Inr (set_channel ch ((heap s' ch)\<lparr>index := kDeleted\<rparr>) s'))
           else epoll_update ctl EPOLL_CTL_MOD ch s))))"

definition epoll_removeChannel :: "epoll_ctl \<Rightarrow> nat \<Rightarrow> epoll_poller \<Rightarrow> epoll_poller res" where
  "epoll_removeChannel ctl ch s =
     (let c = heap s ch; idx = index c in
      c_assert (channels s (fd c) \<noteq> None) (c_assert (channels s (fd c) = Some ch)
      (c_assert (isNoneEvent c) (c_assert (idx = kAdded \<or> idx = kDeleted)
        (rbind (let s1 = s\<lparr>channels := (channels s)(fd c := None)\<rparr>
                in if idx = kAdded then epoll_update ctl EPOLL_CTL_DEL ch s1 else Inr s1)
          (\<lambda>s'. Inr (set_channel ch ((heap s' ch)\<lparr>index := kNew\<rparr>) s')))))))"

fun epoll_fillActiveChannels ::
  "(i32 \<times> nat) list \<Rightarrow> epoll_poller \<Rightarrow> nat list \<Rightarrow> (epoll_poller \<times> nat list) res" where
  "epoll_fillActiveChannels [] s active = Inr (s, active)"
| "epoll_fillActiveChannels ((ev, ch) # evs) s active =
     (case channels s (fd (heap s ch)) of
        None \<Rightarrow> Inl AssertFail
      | Some ch' \<Rightarrow> c_assert (ch' = ch)
          (epoll_fillActiveChannels evs
             (set_channel ch ((heap s ch)\<lparr>revents := ev\<rparr>) s) (active @ [ch])))"

text \<open>
  \<open>wait\<close> is the outcome of \<open>epoll_wait(2)\<close> for the given number of slots: an error, or the events it
  stored (with the pointers registered for them).
\<close>

definition epoll_poll ::
  "(nat \<Rightarrow> (i32 \<times> nat) list option) \<Rightarrow> epoll_poller \<Rightarrow> (epoll_poller \<times> nat list) res" where
  "epoll_poll wait s =
     (case wait (event_slots s) of
        None \<Rightarrow> Inr (s, [])
      | Some evs \<Rightarrow>
          (if length evs > 0 then
             c_assert (length evs \<le> event_slots s)
               (rbind (epoll_fillActiveChannels evs s []) (\<lambda>(s', active).
                  if length evs = event_slots s'
                  then Inr (s'\<lparr>event_slots := event_slots s' * 2\<rparr>, active)
                  else Inr (s', active)))
           else Inr (s, [])))"

definition kInitEventListSize :: nat where "kInitEventListSize = 16"

definition newEPollPoller :: "(nat \<Rightarrow> channel) \<Rightarrow> epoll_poller" where
  "newEPollPoller h = \<lparr>heap = h, channels = Map.empty, ctl_calls = [],
     event_slots = kInitEventListSize\<rparr>"

text \<open>\<open>Poller::newDefaultPoller\<close>: the environment variable \<open>MUDUO_USE_POLL\<close> selects \<open>poll(2)\<close>.\<close>

definition newDefaultPoller ::
  "bool \<Rightarrow> (nat \<Rightarrow> channel) \<Rightarrow> poll_poller + epoll_poller" where
  "newDefaultPoller use_poll h = (if use_poll then Inl (newPollPoller h) else Inr (newEPollPoller h))"


section \<open>The kernel's interest list\<close>

text \<open>
  What \<open>epoll_ctl(2)\<close> documents: \<open>ADD\<close> is for a descriptor that is not in the interest list, \<open>MOD\<close> and
  \<open>DEL\<close> are for one that is; a call outside its precondition fails and changes nothing. The list a
  sequence of calls leaves is their replay.
\<close>

type_synonym interest = "int \<rightharpoonup> i32 \<times> nat"

definition call_valid :: "interest \<Rightarrow> epoll_call \<Rightarrow> bool" where
  "call_valid k c \<longleftrightarrow> (if call_op c = EPOLL_CTL_ADD then k (call_fd c) = None else k (call_fd c) \<noteq> None)"

definition apply_call :: "interest \<Rightarrow> epoll_call \<Rightarrow> interest" where
  "apply_call k c = (if call_valid k c
     then k(call_fd c := (if call_op c = EPOLL_CTL_DEL then None else Some (call_events c, call_ptr c)))
     else k)"

definition replay :: "epoll_call list \<Rightarrow> interest" where
  "replay calls = foldl apply_call Map.empty calls"

lemma replay_snoc [simp]: "replay (calls @ [c]) = apply_call (replay calls) c"
  by (simp add: replay_def)

definition epoll_documented :: "epoll_ctl \<Rightarrow> bool" where
  "epoll_documented ctl \<longleftrightarrow> (\<forall>calls c. call_valid (replay calls) c \<longrightarrow> ctl (calls @ [c]))"

definition epoll_watched :: "epoll_poller \<Rightarrow> int \<Rightarrow> i32 option" where
  "epoll_watched s f = map_option fst (replay (ctl_calls s) f)"

definition epoll_registered_ok :: "int \<Rightarrow> nat \<Rightarrow> epoll_poller \<Rightarrow> bool" where
  "epoll_registered_ok f ch s \<longleftrightarrow> fd (heap s ch) = f \<and>
     (index (heap s ch) = kAdded \<and> replay (ctl_calls s) f = Some (events (heap s ch), ch)
      \<or> index (heap s ch) = kDeleted \<and> replay (ctl_calls s) f = None)"

text \<open>Every call so far was made within its precondition.\<close>

definition calls_legal :: "epoll_call list \<Rightarrow> bool" where
  "calls_legal calls \<longleftrightarrow> (\<forall>i < length calls. call_valid (replay (take i calls)) (calls ! i))"

lemma calls_legal_simps [simp]:
  "calls_legal []" "calls_legal (calls @ [c]) \<longleftrightarrow> calls_legal calls \<and> call_valid (replay calls) c"
  by (auto simp: calls_legal_def nth_append less_Suc_eq)

definition epoll_inv :: "epoll_poller \<Rightarrow> bool" where
  "epoll_inv s \<longleftrightarrow> (\<forall>f ch. channels s f = Some ch \<longrightarrow> epoll_registered_ok f ch s)
     \<and> (\<forall>f. channels s f = None \<longrightarrow> replay (ctl_calls s) f = None) \<and> calls_legal (ctl_calls s)"

definition epoll_removable :: "nat \<Rightarrow> epoll_poller \<Rightarrow> bool" where
  "epoll_removable ch s \<longleftrightarrow> hasChannel ch s"

lemmas epoll_indices = kNew_def kAdded_def kDeleted_def

locale epoll_kernel =
  fixes ctl :: epoll_ctl
  assumes documented: "epoll_documented ctl"
begin

lemma epoll_update_eq:
  assumes "call_valid (replay (ctl_calls s))
     \<lparr>call_op = op', call_fd = fd (heap s ch), call_events = events (heap s ch), call_ptr = ch\<rparr>"
  shows "epoll_update ctl op' ch s = Inr (s\<lparr>ctl_calls := ctl_calls s @
     [\<lparr>call_op = op', call_fd = fd (heap s ch), call_events = events (heap s ch), call_ptr = ch\<rparr>]\<rparr>)"
  using assms documented by (simp add: epoll_update_def epoll_documented_def Let_def)

lemma epoll_other:
  assumes "epoll_inv s" "channels s f = Some d" "f \<noteq> fd (heap s ch)"
  shows "d \<noteq> ch"
  using assms by (auto simp: epoll_inv_def epoll_registered_ok_def)

lemma epoll_update_spec:
  assumes inv: "epoll_inv s" and reg: "registrable ch s"
    and same: "fd c = fd (heap s ch)" "index c = index (heap s ch)" and mask: "interest_mask (events c)"
  shows "\<exists>s'. epoll_updateChannel ctl ch (set_channel ch c s) = Inr s' \<and> epoll_inv s'
       \<and> channels s' = (channels s)(fd c \<mapsto> ch)
       \<and> fd (heap s' ch) = fd c \<and> events (heap s' ch) = events c
       \<and> epoll_watched s' (fd c) \<in> told (events c)
       \<and> (\<forall>f. f \<noteq> fd c \<longrightarrow> epoll_watched s' f = epoll_watched s f)
       \<and> (hasChannel ch s \<longrightarrow> events c = 0 \<longrightarrow> epoll_removable ch s')"
proof -
  define op' where "op' = (if index c = kAdded then if events c = 0 then EPOLL_CTL_DEL
    else EPOLL_CTL_MOD else EPOLL_CTL_ADD)"
  define idx where "idx = (if op' = EPOLL_CTL_DEL then kDeleted else kAdded)"
  define call where "call = \<lparr>call_op = op', call_fd = fd c, call_events = events c, call_ptr = ch\<rparr>"
  define c' where "c' = (if op' = EPOLL_CTL_MOD then c else c\<lparr>index := idx\<rparr>)"
  have c': "fd c' = fd c" "events c' = events c" "index c' = idx"
    by (auto simp: c'_def idx_def op'_def)
  define s' where "s' = s\<lparr>heap := (heap s)(ch := c'),
     channels := (channels s)(fd c \<mapsto> ch), ctl_calls := ctl_calls s @ [call]\<rparr>"
  let ?k = "replay (ctl_calls s)"
  consider (new) "index c = kNew" "channels s (fd c) = None" "?k (fd c) = None"
    | (deleted) "index c = kDeleted" "channels s (fd c) = Some ch" "?k (fd c) = None"
    | (added) "index c = kAdded" "channels s (fd c) = Some ch" "?k (fd c) \<noteq> None"
  proof (cases "channels s (fd c)")
    case None
    then show thesis
      using new inv reg same by (auto simp: registrable_def hasChannel_def epoll_inv_def kNew_def)
  next
    case (Some d)
    then have d: "channels s (fd c) = Some ch"
      using reg same by (auto simp: registrable_def hasChannel_def)
    then have "epoll_registered_ok (fd c) ch s" using inv by (simp add: epoll_inv_def)
    then show thesis using deleted added d same by (auto simp: epoll_registered_ok_def)
  qed
  then have valid: "call_valid ?k call"
    and eq: "epoll_updateChannel ctl ch (set_channel ch c s) = Inr s'"
  proof (atomize (full), cases)
    case new
    then show "call_valid ?k call \<and> epoll_updateChannel ctl ch (set_channel ch c s) = Inr s'"
      by (simp add: epoll_updateChannel_def Let_def op'_def idx_def c'_def call_def s'_def call_valid_def
          epoll_update_eq set_channel_def epoll_indices)
  next
    case deleted
    then show "call_valid ?k call \<and> epoll_updateChannel ctl ch (set_channel ch c s) = Inr s'"
      by (simp add: epoll_updateChannel_def Let_def op'_def idx_def c'_def call_def s'_def call_valid_def
          epoll_update_eq set_channel_def epoll_indices fun_upd_idem)
  next
    case added
    then show "call_valid ?k call \<and> epoll_updateChannel ctl ch (set_channel ch c s) = Inr s'"
      by (simp add: epoll_updateChannel_def Let_def op'_def idx_def c'_def call_def s'_def call_valid_def
          epoll_update_eq set_channel_def epoll_indices fun_upd_idem isNoneEvent_def kNoneEvent_def)
  qed
  have k': "replay (ctl_calls s') = ?k(fd c := (if op' = EPOLL_CTL_DEL then None else Some (events c, ch)))"
    using valid by (simp add: s'_def apply_call_def) (simp add: call_def)
  have "epoll_registered_ok f d s'" if "channels s' f = Some d" for f d
  proof (cases "f = fd c")
    case True
    with that k' show ?thesis
      by (auto simp: epoll_registered_ok_def s'_def idx_def c')
  next
    case False
    with that have d: "channels s f = Some d" by (simp add: s'_def)
    have "d \<noteq> ch" using epoll_other [OF inv d] False same(1) by simp
    moreover have "epoll_registered_ok f d s" using inv d by (simp add: epoll_inv_def)
    ultimately show ?thesis using False k' by (simp add: epoll_registered_ok_def) (simp add: s'_def)
  qed
  moreover have "replay (ctl_calls s') f = None" if "channels s' f = None" for f
    using that inv k' by (auto simp: s'_def epoll_inv_def split: if_splits)
  moreover have "calls_legal (ctl_calls s')" using valid inv by (simp add: s'_def epoll_inv_def)
  ultimately have "epoll_inv s'" by (simp add: epoll_inv_def)
  moreover have "channels s' = (channels s)(fd c \<mapsto> ch)" "heap s' ch = c'"
    by (simp_all add: s'_def)
  moreover have "epoll_watched s' (fd c) \<in> told (events c)"
    using k' by (auto simp: epoll_watched_def op'_def told_def split: if_splits)
  moreover have "\<forall>f. f \<noteq> fd c \<longrightarrow> epoll_watched s' f = epoll_watched s f"
    using k' by (simp add: epoll_watched_def)
  ultimately show ?thesis using eq c' by (auto simp: epoll_removable_def hasChannel_def)
qed

lemma epoll_remove_spec:
  assumes inv: "epoll_inv s" and reg: "hasChannel ch s" and none: "isNoneEvent (heap s ch)"
  shows "\<exists>s'. epoll_removeChannel ctl ch (set_channel ch ((heap s ch)\<lparr>addedToLoop := False\<rparr>) s) = Inr s'
       \<and> epoll_inv s' \<and> channels s' = (channels s)(fd (heap s ch) := None)
       \<and> epoll_watched s' (fd (heap s ch)) = None
       \<and> (\<forall>f. f \<noteq> fd (heap s ch) \<longrightarrow> epoll_watched s' f = epoll_watched s f)
       \<and> index (heap s' ch) = kNew \<and> fd (heap s' ch) = fd (heap s ch) \<and> events (heap s' ch) = 0"
proof -
  let ?f = "fd (heap s ch)" and ?k = "replay (ctl_calls s)"
  let ?c = "(heap s ch)\<lparr>addedToLoop := False\<rparr>"
  define calls where "calls = (if index (heap s ch) = kAdded
    then [\<lparr>call_op = EPOLL_CTL_DEL, call_fd = ?f, call_events = events ?c, call_ptr = ch\<rparr>] else [])"
  define s' where "s' = s\<lparr>heap := (heap s)(ch := ?c\<lparr>index := kNew\<rparr>),
    channels := (channels s)(?f := None), ctl_calls := ctl_calls s @ calls\<rparr>"
  have d: "channels s ?f = Some ch" using reg by (simp add: hasChannel_def)
  then have ok: "epoll_registered_ok ?f ch s" using inv by (simp add: epoll_inv_def)
  have eq: "epoll_removeChannel ctl ch (set_channel ch ?c s) = Inr s'"
    using ok d none
    by (auto simp: epoll_removeChannel_def Let_def epoll_registered_ok_def s'_def calls_def
        set_channel_def isNoneEvent_def epoll_update_eq call_valid_def epoll_indices)
  have k': "replay (ctl_calls s') = ?k(?f := None)"
    using ok by (auto simp: s'_def calls_def epoll_registered_ok_def apply_call_def call_valid_def
        fun_upd_idem epoll_indices)
  have "epoll_registered_ok f e s'" if "channels s' f = Some e" for f e
  proof -
    from that have e: "channels s f = Some e" "f \<noteq> ?f" by (auto simp: s'_def split: if_splits)
    have "e \<noteq> ch" using epoll_other [OF inv e] .
    moreover have "epoll_registered_ok f e s" using inv e(1) by (simp add: epoll_inv_def)
    ultimately show ?thesis using e(2) k' by (simp add: epoll_registered_ok_def) (simp add: s'_def)
  qed
  moreover have "replay (ctl_calls s') f = None" if "channels s' f = None" for f
    using that inv k' by (auto simp: s'_def epoll_inv_def split: if_splits)
  moreover have "calls_legal (ctl_calls s')"
    using ok inv by (auto simp: s'_def calls_def epoll_inv_def epoll_registered_ok_def call_valid_def epoll_indices)
  ultimately have "epoll_inv s'" by (simp add: epoll_inv_def)
  moreover have "epoll_watched s' ?f = None" "\<forall>f. f \<noteq> ?f \<longrightarrow> epoll_watched s' f = epoll_watched s f"
    using k' by (simp_all add: epoll_watched_def)
  moreover have "channels s' = (channels s)(?f := None)" "index (heap s' ch) = kNew"
    "fd (heap s' ch) = ?f" "events (heap s' ch) = 0"
    using none by (simp_all add: s'_def isNoneEvent_def kNoneEvent_def)
  ultimately show ?thesis using eq by blast
qed

end

sublocale epoll_kernel \<subseteq> epoll: poller_contract epoll_inv epoll_watched epoll_removable
  "epoll_updateChannel ctl" "epoll_removeChannel ctl"
proof unfold_locales
  fix s :: epoll_poller and ch
  assume "epoll_inv s" "hasChannel ch s" "isNoneEvent (heap s ch)"
  from epoll_remove_spec [OF this] show
    "\<exists>s'. epoll_removeChannel ctl ch (set_channel ch ((heap s ch)\<lparr>addedToLoop := False\<rparr>) s) = Inr s'
       \<and> epoll_inv s' \<and> channels s' = (channels s)(fd (heap s ch) := None)
       \<and> epoll_watched s' (fd (heap s ch)) = None
       \<and> (\<forall>f. f \<noteq> fd (heap s ch) \<longrightarrow> epoll_watched s' f = epoll_watched s f)"
    by blast
qed (fact epoll_update_spec)

context epoll_kernel
begin

lemmas kernel_lifecycle = epoll.lifecycle

end

text \<open>The kernel that fails exactly the calls the manual page says fail.\<close>

definition strict_ctl :: epoll_ctl where
  "strict_ctl calls \<longleftrightarrow> calls \<noteq> [] \<and> call_valid (replay (butlast calls)) (last calls)"

interpretation strict: epoll_kernel strict_ctl
  by unfold_locales (simp add: epoll_documented_def strict_ctl_def)

section \<open>Properties of the epoll multiplexer\<close>

text \<open>
  C10. Life of a channel on epoll: whatever setters are called on a new or registered channel (at least one), no assertion fails, every \<open>epoll_ctl\<close> call is
  within its precondition, and the interest list then holds exactly the interest the setters leave for its descriptor (nothing, or the empty mask, when they leave
  none) and is unchanged for every other. Disabling all interest and removing the channel afterwards also fails no assertion and makes legal calls only; the list then
  holds nothing for the descriptor.
\<close>

theorem epoll_lifecycle:
  assumes "epoll_documented ctl" and "epoll_inv s" "registrable ch s"
    "interest_mask (events (heap s ch))" "fs \<noteq> []"
  shows "\<exists>s1 s'. update_all (epoll_updateChannel ctl) fs ch s = Inr s1 \<and> epoll_inv s1
     \<and> channels s1 = (channels s)(fd (heap s ch) \<mapsto> ch)
     \<and> epoll_watched s1 (fd (heap s ch)) \<in> told (events (fold apply_setter fs (heap s ch)))
     \<and> (\<forall>g. g \<noteq> fd (heap s ch) \<longrightarrow> epoll_watched s1 g = epoll_watched s g)
     \<and> rbind (update_all (epoll_updateChannel ctl) [DisableAll] ch s1) (Channel_remove (epoll_removeChannel ctl) ch) = Inr s'
     \<and> epoll_inv s' \<and> calls_legal (ctl_calls s')
     \<and> channels s' = (channels s)(fd (heap s ch) := None) \<and> epoll_watched s' (fd (heap s ch)) = None
     \<and> (\<forall>g. g \<noteq> fd (heap s ch) \<longrightarrow> epoll_watched s' g = epoll_watched s g)"
proof -
  have "epoll_inv s' \<Longrightarrow> calls_legal (ctl_calls s')" for s' by (simp add: epoll_inv_def)
  with epoll_kernel.kernel_lifecycle [OF epoll_kernel.intro [OF assms(1)] assms(2-5)] show ?thesis by metis
qed

lemma epoll_inv_new: "epoll_inv (newEPollPoller h)"
  by (simp add: epoll_inv_def newEPollPoller_def replay_def)

theorem epoll_lifecycle_witness:
  "\<exists>s1. update_all (epoll_updateChannel strict_ctl) [EnableReading, DisableAll, EnableWriting] 3 (newEPollPoller (\<lambda>_. newChannel 7)) = Inr s1
     \<and> epoll_watched s1 7 = Some kWriteEvent"
proof -
  let ?s = "newEPollPoller (\<lambda>_. newChannel 7)"
  have "registrable 3 ?s" "interest_mask (events (heap ?s 3))" "fd (heap ?s 3) = 7"
    by (simp_all add: newEPollPoller_def registrable_def newChannel_def hasChannel_def interest_mask_def)
  moreover have "events (fold apply_setter [EnableReading, DisableAll, EnableWriting] (heap ?s 3)) = kWriteEvent" "kWriteEvent \<noteq> 0"
    by (simp_all add: interest_defs newEPollPoller_def newChannel_def kNoneEvent_def kWriteEvent_def poll_flags)
  ultimately show ?thesis
    using epoll_lifecycle [OF strict.documented epoll_inv_new [of "\<lambda>_. newChannel 7"], where ch = 3 and fs = "[EnableReading, DisableAll, EnableWriting]"]
    by (auto simp: told_def)
qed

text \<open>
  Unlike on poll(2), a removed channel may be registered again: its state is back to new, and the
  next setter adds it to the interest list.
\<close>

theorem epoll_reregister:
  assumes "epoll_documented ctl" and inv: "epoll_inv s" and reg: "hasChannel ch s"
    and none: "isNoneEvent (heap s ch)" and pos: "0 \<le> fd (heap s ch)"
  shows "\<exists>s1 s2. Channel_remove (epoll_removeChannel ctl) ch s = Inr s1
     \<and> Channel_update (epoll_updateChannel ctl) enableReading ch s1 = Inr s2 \<and> epoll_inv s2
     \<and> epoll_watched s2 (fd (heap s ch)) = Some kReadEvent"
proof -
  have kernel: "epoll_kernel ctl" using assms(1) by (rule epoll_kernel.intro)
  obtain s1 where s1: "Channel_remove (epoll_removeChannel ctl) ch s = Inr s1" "epoll_inv s1"
      "channels s1 = (channels s)(fd (heap s ch) := None)" "index (heap s1 ch) = kNew"
      "fd (heap s1 ch) = fd (heap s ch)" "events (heap s1 ch) = 0"
    using epoll_kernel.epoll_remove_spec [OF kernel inv reg none] none
    by (auto simp: Channel_remove_def)
  have r: "registrable ch s1" using s1 pos by (simp add: registrable_def kNew_def)
  let ?c = "enableReading (heap s1 ch)"
  have "events ?c = kReadEvent" "interest_mask kReadEvent" "kReadEvent \<noteq> 0"
    using s1(6) by (simp_all add: enableReading_def interest_mask_def kReadEvent_def poll_flags)
  moreover have "fd ?c = fd (heap s1 ch)" "index ?c = index (heap s1 ch)"
    by (simp_all add: enableReading_def)
  ultimately show ?thesis
    using epoll_kernel.epoll_update_spec [OF kernel s1(2) r, of ?c] s1(1,5)
    by (auto simp: Channel_update_def told_def)
qed

theorem epoll_reregister_witness:
  "\<exists>s s1 s2. Channel_remove (epoll_removeChannel strict_ctl) 0 s = Inr s1
     \<and> Channel_update (epoll_updateChannel strict_ctl) enableReading 0 s1 = Inr s2 \<and> epoll_inv s2
     \<and> epoll_watched s2 (fd (heap s 0)) = Some kReadEvent"
proof -
  let ?s = "(newEPollPoller (\<lambda>_. (newChannel 7)\<lparr>index := kDeleted\<rparr>))\<lparr>channels := [7 \<mapsto> 0]\<rparr>"
  have "epoll_inv ?s"
    by (simp add: epoll_inv_def epoll_registered_ok_def newEPollPoller_def newChannel_def replay_def)
  moreover have "hasChannel 0 ?s" "isNoneEvent (heap ?s 0)" "0 \<le> fd (heap ?s 0)"
    by (simp_all add: hasChannel_def newEPollPoller_def newChannel_def isNoneEvent_def kNoneEvent_def)
  ultimately show ?thesis using epoll_reregister [OF strict.documented, of ?s 0] by blast
qed

subsection \<open>Delivering events\<close>

text \<open>
  What \<open>epoll_wait(2)\<close> documents: at most as many events as slots, each carrying the pointer some
  descriptor of the interest list was registered with.
\<close>

definition wait_documented :: "interest \<Rightarrow> nat \<Rightarrow> (i32 \<times> nat) list \<Rightarrow> bool" where
  "wait_documented k slots evs \<longleftrightarrow> length evs \<le> slots
     \<and> list_all (\<lambda>(ev, p). \<exists>f m. k f = Some (m, p)) evs"

lemma epoll_fill_spec:
  assumes "list_all (\<lambda>(ev, p). hasChannel p s) evs"
  shows "\<exists>s'. epoll_fillActiveChannels evs s active = Inr (s', active @ map snd evs)
     \<and> channels s' = channels s \<and> event_slots s' = event_slots s \<and> ctl_calls s' = ctl_calls s
     \<and> (\<forall>p. p \<notin> snd ` set evs \<longrightarrow> heap s' p = heap s p)
     \<and> (distinct (map snd evs) \<longrightarrow> list_all (\<lambda>(ev, p). revents (heap s' p) = ev) evs)"
  using assms
proof (induction evs arbitrary: s active)
  case (Cons e evs)
  obtain ev p where e: "e = (ev, p)" by (cases e)
  let ?s = "set_channel p ((heap s p)\<lparr>revents := ev\<rparr>) s"
  have has: "hasChannel q ?s = hasChannel q s" for q by (simp add: hasChannel_def)
  have "list_all (\<lambda>(ev, q). hasChannel q ?s) evs" using Cons.prems by (simp only: has) simp
  from Cons.IH [OF this, of "active @ [p]"] obtain s' where s':
      "epoll_fillActiveChannels evs ?s (active @ [p]) = Inr (s', (active @ [p]) @ map snd evs)"
      "channels s' = channels s" "event_slots s' = event_slots s" "ctl_calls s' = ctl_calls s"
      "\<forall>q. q \<notin> snd ` set evs \<longrightarrow> heap s' q = heap ?s q"
      "distinct (map snd evs) \<longrightarrow> list_all (\<lambda>(ev, p). revents (heap s' p) = ev) evs"
    by (auto simp: set_channel_def)
  moreover have "epoll_fillActiveChannels (e # evs) s active
      = epoll_fillActiveChannels evs ?s (active @ [p])"
    using Cons.prems e by (simp add: hasChannel_def)
  ultimately show ?case using e by auto
qed simp

text \<open>
  Delivery: with \<open>epoll_wait(2)\<close> behaving as documented, every pointer it returns is a registered
  channel, so \<open>EPollPoller::poll\<close> fails no assertion, reports exactly the returned channels in order,
  stores each one's events, and doubles the event array exactly when it came back full.
\<close>

theorem epoll_reports:
  assumes inv: "epoll_inv s" and wait: "wait (event_slots s) = Some evs"
    and doc: "wait_documented (replay (ctl_calls s)) (event_slots s) evs"
  shows "\<exists>s'. epoll_poll wait s = Inr (s', map snd evs) \<and> channels s' = channels s
     \<and> event_slots s' = (if evs \<noteq> [] \<and> length evs = event_slots s then 2 * event_slots s else event_slots s)
     \<and> (distinct (map snd evs) \<longrightarrow> list_all (\<lambda>(ev, p). revents (heap s' p) = ev) evs)"
proof -
  have reg: "hasChannel p s" if "replay (ctl_calls s) f = Some (m, p)" for f m p
  proof -
    have "channels s f \<noteq> None" using inv that by (force simp: epoll_inv_def)
    then obtain d where "channels s f = Some d" by auto
    moreover from this inv have "epoll_registered_ok f d s" by (simp add: epoll_inv_def)
    ultimately show ?thesis using that by (auto simp: epoll_registered_ok_def hasChannel_def)
  qed
  have "list_all (\<lambda>(ev, p). hasChannel p s) evs"
    using doc reg by (auto simp: wait_documented_def list_all_iff)
  from epoll_fill_spec [OF this, of "[]"] obtain s' where s':
      "epoll_fillActiveChannels evs s [] = Inr (s', map snd evs)" "channels s' = channels s"
      "event_slots s' = event_slots s"
      "distinct (map snd evs) \<longrightarrow> list_all (\<lambda>(ev, p). revents (heap s' p) = ev) evs" by auto
  let ?r = "if evs \<noteq> [] \<and> length evs = event_slots s then s'\<lparr>event_slots := 2 * event_slots s\<rparr> else s'"
  have "epoll_poll wait s = Inr (if evs = [] then s else ?r, map snd evs)"
    using s' wait doc by (auto simp: epoll_poll_def wait_documented_def mult.commute)
  with s' show ?thesis by (cases "evs = []") auto
qed

theorem epoll_reports_witness:
  "\<exists>s'. epoll_poll (\<lambda>_. Some []) (newEPollPoller (\<lambda>_. newChannel 3)) = Inr (s', [])
     \<and> event_slots s' = 16"
  using epoll_reports [OF epoll_inv_new, of "\<lambda>_. Some []" "\<lambda>_. newChannel 3" "[]"]
  by (auto simp: wait_documented_def newEPollPoller_def kInitEventListSize_def)

end
