(* ===== verification/TimerQueue.thy ===== *)
theory TimerQueue
  imports Prelude "HOL-Library.Product_Lexorder"
begin

text \<open>
  The timer queue of an event loop (\<open>Timer.h\<close>, \<open>Timer.cc\<close>, \<open>TimerId.h\<close>, \<open>TimerQueue.cc\<close> and
  the parts of \<open>Timestamp.h\<close> it uses).

  Timers live on an explicit heap, so that \<open>delete\<close> and a later use of the pointer are visible:
  reading a freed timer is the fault \<^const>\<open>OutOfBounds\<close>. \<open>timers_\<close>, a \<open>std::set\<close> of (expiration,
  pointer), is the sorted list of its elements; \<open>activeTimers_\<close> and \<open>cancelingTimers_\<close> are only
  searched, inserted into and counted, so they are sets. Signed 64-bit arithmetic on times is
  integer arithmetic with overflow as a fault.

  Outside of the model and therefore parameters are the allocator (\<open>alloc\<close>), the values
  \<open>gettimeofday\<close> returns call by call (\<open>clk\<close>), and the user's callbacks (\<open>act\<close>), which may
  add and cancel timers while they run.
\<close>

section \<open>Timestamps and timers\<close>

definition kMicroSecondsPerSecond :: int where
  "kMicroSecondsPerSecond = 1000 * 1000"

definition timestamp_invalid :: int where
  "timestamp_invalid = 0"

definition timestamp_valid :: "int \<Rightarrow> bool" where
  "timestamp_valid t \<longleftrightarrow> t > 0"

text \<open>
  \<open>addTime\<close> gets the interval already converted to microseconds
  (\<open>static_cast<int64_t>(seconds * kMicroSecondsPerSecond)\<close>); floating point is not modelled.
\<close>

definition addTime :: "int \<Rightarrow> int \<Rightarrow> int res" where
  "addTime timestamp delta = ck64 (timestamp + delta)"

record timer =
  callback :: nat
  expiration :: int
  interval_us :: int
  repeat :: bool
  sequence :: i64

text \<open>\<open>interval_pos\<close> is \<open>interval > 0.0\<close>; \<open>seq\<close> is the value \<open>incrementAndGet\<close> returned.\<close>

definition newTimer :: "nat \<Rightarrow> int \<Rightarrow> bool \<Rightarrow> int \<Rightarrow> i64 \<Rightarrow> timer" where
  "newTimer cb when interval_pos us seq =
     \<lparr>callback = cb, expiration = when, interval_us = us, repeat = interval_pos, sequence = seq\<rparr>"

definition restart :: "int \<Rightarrow> timer \<Rightarrow> timer res" where
  "restart now tm =
     (if repeat tm
      then rbind (addTime now (interval_us tm)) (\<lambda>e. Inr (tm\<lparr>expiration := e\<rparr>))
      else Inr (tm\<lparr>expiration := timestamp_invalid\<rparr>))"

section \<open>The queue\<close>

record timespec =
  tv_sec :: int
  tv_nsec :: int

type_synonym entry = "int \<times> nat"
type_synonym active_timer = "nat \<times> i64"

text \<open>
  \<open>armed\<close> is the setting of the timer file descriptor: the time and the relative delay of the
  last \<open>timerfd_settime\<close> that has not gone off. \<open>ticks\<close> counts the calls of \<open>Timestamp::now\<close>.
\<close>

record timer_queue =
  theap :: "nat \<rightharpoonup> timer"
  timers :: "entry list"
  activeTimers :: "active_timer set"
  callingExpiredTimers :: bool
  cancelingTimers :: "active_timer set"
  numCreated :: i64
  armed :: "(int \<times> timespec) option"
  ticks :: nat

definition newTimerQueue :: "timer_queue" where
  "newTimerQueue = \<lparr>theap = Map.empty, timers = [], activeTimers = {}, callingExpiredTimers = False,
     cancelingTimers = {}, numCreated = 0, armed = None, ticks = 0\<rparr>"

definition timer_deref :: "nat \<Rightarrow> timer_queue \<Rightarrow> timer res" where
  "timer_deref p s = (case theap s p of None \<Rightarrow> Inl OutOfBounds | Some tm \<Rightarrow> Inr tm)"

definition timer_delete :: "nat \<Rightarrow> timer_queue \<Rightarrow> timer_queue res" where
  "timer_delete p s = rbind (timer_deref p s) (\<lambda>_. Inr (s\<lparr>theap := (theap s)(p := None)\<rparr>))"

definition howMuchTimeFromNow :: "int \<Rightarrow> int \<Rightarrow> timespec res" where
  "howMuchTimeFromNow now when =
     rbind (ck64 (when - now)) (\<lambda>d.
     let microseconds = (if d < 100 then 100 else d)
     in Inr \<lparr>tv_sec = microseconds div kMicroSecondsPerSecond,
             tv_nsec = (microseconds mod kMicroSecondsPerSecond) * 1000\<rparr>)"

text \<open>
  \<open>timerfd_settime(2)\<close>: an invalid \<open>timespec\<close> is refused with \<open>EINVAL\<close>, a zero one disarms the
  timer, any other arms it. The caller only logs a failure.
\<close>

definition timerfd_settime :: "int \<Rightarrow> timespec \<Rightarrow> timer_queue \<Rightarrow> timer_queue" where
  "timerfd_settime now ts s =
     (if tv_sec ts < 0 \<or> tv_nsec ts < 0 \<or> tv_nsec ts \<ge> 1000000000 then s
      else if tv_sec ts = 0 \<and> tv_nsec ts = 0 then s\<lparr>armed := None\<rparr>
      else s\<lparr>armed := Some (now, ts)\<rparr>)"

definition resetTimerfd :: "(nat \<Rightarrow> int) \<Rightarrow> int \<Rightarrow> timer_queue \<Rightarrow> timer_queue res" where
  "resetTimerfd clk expire s =
     (let now = clk (ticks s)
      in rbind (howMuchTimeFromNow now expire) (\<lambda>ts.
         Inr (timerfd_settime now ts (s\<lparr>ticks := Suc (ticks s)\<rparr>))))"

text \<open>The one-shot timer has gone off when its descriptor becomes readable.\<close>

definition readTimerfd :: "timer_queue \<Rightarrow> timer_queue" where
  "readTimerfd s = s\<lparr>armed := None\<rparr>"

definition tq_insert :: "nat \<Rightarrow> timer_queue \<Rightarrow> (timer_queue \<times> bool) res" where
  "tq_insert p s =
     c_assert (length (timers s) = card (activeTimers s))
     (rbind (timer_deref p s) (\<lambda>tm.
      let when = expiration tm;
          earliestChanged = (timers s = [] \<or> when < fst (hd (timers s)))
      in c_assert ((when, p) \<notin> set (timers s))
         (let s1 = s\<lparr>timers := insort (when, p) (timers s)\<rparr>
          in c_assert ((p, sequence tm) \<notin> activeTimers s1)
             (let s2 = s1\<lparr>activeTimers := insert (p, sequence tm) (activeTimers s1)\<rparr>
              in c_assert (length (timers s2) = card (activeTimers s2))
                 (Inr (s2, earliestChanged))))))"

definition addTimerInLoop :: "(nat \<Rightarrow> int) \<Rightarrow> nat \<Rightarrow> timer_queue \<Rightarrow> timer_queue res" where
  "addTimerInLoop clk p s =
     rbind (tq_insert p s) (\<lambda>(s1, earliestChanged).
     if earliestChanged
     then rbind (timer_deref p s1) (\<lambda>tm. resetTimerfd clk (expiration tm) s1)
     else Inr s1)"

text \<open>\<open>addTimer\<close> called in the loop thread, where \<open>runInLoop\<close> runs its argument at once.\<close>

definition allocTimer ::
  "((nat \<rightharpoonup> timer) \<Rightarrow> nat option) \<Rightarrow> nat \<Rightarrow> int \<Rightarrow> bool \<Rightarrow> int \<Rightarrow> timer_queue \<Rightarrow> (timer_queue \<times> nat) res" where
  "allocTimer alloc cb when interval_pos us s =
     (case alloc (theap s) of
        None \<Rightarrow> Inl (Exception ''bad_alloc'')
      | Some p \<Rightarrow>
          let seq = numCreated s + 1
          in Inr (s\<lparr>theap := (theap s)(p \<mapsto> newTimer cb when interval_pos us seq),
                    numCreated := seq\<rparr>, p))"

definition addTimer ::
  "((nat \<rightharpoonup> timer) \<Rightarrow> nat option) \<Rightarrow> (nat \<Rightarrow> int) \<Rightarrow> nat \<Rightarrow> int \<Rightarrow> bool \<Rightarrow> int \<Rightarrow> timer_queue
     \<Rightarrow> (timer_queue \<times> active_timer) res" where
  "addTimer alloc clk cb when interval_pos us s =
     rbind (allocTimer alloc cb when interval_pos us s) (\<lambda>(s1, p).
     rbind (addTimerInLoop clk p s1) (\<lambda>s2.
     rbind (timer_deref p s2) (\<lambda>tm. Inr (s2, (p, sequence tm)))))"

definition cancelInLoop :: "active_timer \<Rightarrow> timer_queue \<Rightarrow> timer_queue res" where
  "cancelInLoop timerId s =
     c_assert (length (timers s) = card (activeTimers s))
     (rbind
       (if timerId \<in> activeTimers s
        then rbind (timer_deref (fst timerId) s) (\<lambda>tm.
             c_assert ((expiration tm, fst timerId) \<in> set (timers s))
             (let s1 = s\<lparr>timers := remove1 (expiration tm, fst timerId) (timers s)\<rparr>
              in rbind (timer_delete (fst timerId) s1) (\<lambda>s2.
                 Inr (s2\<lparr>activeTimers := activeTimers s2 - {timerId}\<rparr>))))
        else if callingExpiredTimers s
        then Inr (s\<lparr>cancelingTimers := insert timerId (cancelingTimers s)\<rparr>)
        else Inr s)
       (\<lambda>s'. c_assert (length (timers s') = card (activeTimers s')) (Inr s')))"

definition UINTPTR_MAX :: nat where
  "UINTPTR_MAX = 2 ^ 64 - 1"

fun eraseActive :: "entry list \<Rightarrow> timer_queue \<Rightarrow> timer_queue res" where
  "eraseActive [] s = Inr s"
| "eraseActive ((t, p) # es) s =
     rbind (timer_deref p s) (\<lambda>tm.
     c_assert ((p, sequence tm) \<in> activeTimers s)
     (eraseActive es (s\<lparr>activeTimers := activeTimers s - {(p, sequence tm)}\<rparr>)))"

definition getExpired :: "int \<Rightarrow> timer_queue \<Rightarrow> (timer_queue \<times> entry list) res" where
  "getExpired now s =
     c_assert (length (timers s) = card (activeTimers s))
     (let sentry = (now, UINTPTR_MAX);
          expired = takeWhile (\<lambda>e. e < sentry) (timers s);
          rest = dropWhile (\<lambda>e. e < sentry) (timers s)
      in c_assert (rest = [] \<or> now < fst (hd rest))
         (rbind (eraseActive expired (s\<lparr>timers := rest\<rparr>)) (\<lambda>s'.
          c_assert (length (timers s') = card (activeTimers s')) (Inr (s', expired)))))"

fun resetEntries :: "entry list \<Rightarrow> int \<Rightarrow> timer_queue \<Rightarrow> timer_queue res" where
  "resetEntries [] now s = Inr s"
| "resetEntries ((t, p) # es) now s =
     rbind (timer_deref p s) (\<lambda>tm.
     rbind
       (if repeat tm \<and> (p, sequence tm) \<notin> cancelingTimers s
        then rbind (restart now tm) (\<lambda>tm'.
             rbind (tq_insert p (s\<lparr>theap := (theap s)(p \<mapsto> tm')\<rparr>)) (\<lambda>(s1, _). Inr s1))
        else timer_delete p s)
       (resetEntries es now))"

definition tq_reset :: "(nat \<Rightarrow> int) \<Rightarrow> entry list \<Rightarrow> int \<Rightarrow> timer_queue \<Rightarrow> timer_queue res" where
  "tq_reset clk expired now s =
     rbind (resetEntries expired now s) (\<lambda>s1.
     rbind (if timers s1 \<noteq> []
            then rbind (timer_deref (snd (hd (timers s1))) s1) (\<lambda>tm. Inr (expiration tm))
            else Inr timestamp_invalid) (\<lambda>nextExpire.
     if timestamp_valid nextExpire then resetTimerfd clk nextExpire s1 else Inr s1))"

text \<open>What a callback does with the queue while it runs.\<close>

datatype timer_cmd = AddTimer nat int bool int | CancelTimer active_timer

fun run_cmds ::
  "((nat \<rightharpoonup> timer) \<Rightarrow> nat option) \<Rightarrow> (nat \<Rightarrow> int) \<Rightarrow> timer_cmd list \<Rightarrow> timer_queue \<Rightarrow> timer_queue res" where
  "run_cmds alloc clk [] s = Inr s"
| "run_cmds alloc clk (AddTimer cb when r us # cs) s =
     rbind (addTimer alloc clk cb when r us s) (\<lambda>(s1, _). run_cmds alloc clk cs s1)"
| "run_cmds alloc clk (CancelTimer tid # cs) s =
     rbind (cancelInLoop tid s) (run_cmds alloc clk cs)"

fun runExpired ::
  "((nat \<rightharpoonup> timer) \<Rightarrow> nat option) \<Rightarrow> (nat \<Rightarrow> int) \<Rightarrow> (nat \<Rightarrow> timer_queue \<Rightarrow> timer_cmd list)
     \<Rightarrow> entry list \<Rightarrow> timer_queue \<Rightarrow> (timer_queue \<times> nat list) res" where
  "runExpired alloc clk act [] s = Inr (s, [])"
| "runExpired alloc clk act ((t, p) # es) s =
     rbind (timer_deref p s) (\<lambda>tm.
     rbind (run_cmds alloc clk (act (callback tm) s) s) (\<lambda>s1.
     rbind (runExpired alloc clk act es s1) (\<lambda>(s2, cbs). Inr (s2, callback tm # cbs))))"

text \<open>The result carries the callbacks that ran, in order.\<close>

definition tq_handleRead ::
  "((nat \<rightharpoonup> timer) \<Rightarrow> nat option) \<Rightarrow> (nat \<Rightarrow> int) \<Rightarrow> (nat \<Rightarrow> timer_queue \<Rightarrow> timer_cmd list)
     \<Rightarrow> timer_queue \<Rightarrow> (timer_queue \<times> nat list) res" where
  "tq_handleRead alloc clk act s =
     (let now = clk (ticks s);
          s0 = readTimerfd (s\<lparr>ticks := Suc (ticks s)\<rparr>)
      in rbind (getExpired now s0) (\<lambda>(s1, expired).
         rbind (runExpired alloc clk act expired
                  (s1\<lparr>callingExpiredTimers := True, cancelingTimers := {}\<rparr>)) (\<lambda>(s2, cbs).
         rbind (tq_reset clk expired now (s2\<lparr>callingExpiredTimers := False\<rparr>)) (\<lambda>s3.
         Inr (s3, cbs)))))"

fun deleteAll :: "entry list \<Rightarrow> timer_queue \<Rightarrow> timer_queue res" where
  "deleteAll [] s = Inr s"
| "deleteAll ((t, p) # es) s = rbind (timer_delete p s) (deleteAll es)"

definition destroyTimerQueue :: "timer_queue \<Rightarrow> timer_queue res" where
  "destroyTimerQueue s = deleteAll (timers s) s"

section \<open>The invariant\<close>

text \<open>
  \<open>own\<close> is the set of timers that are allocated and not in the queue: the ones just created,
  and the expired ones while their callbacks run. Everything else on the heap is in the queue,
  so nothing leaks and nothing is freed twice.
\<close>

definition time_ok :: "int \<Rightarrow> bool" where
  "time_ok t \<longleftrightarrow> - (2 ^ 62) \<le> t \<and> t < 2 ^ 62"

definition timer_ok :: "timer \<Rightarrow> bool" where
  "timer_ok tm \<longleftrightarrow> time_ok (expiration tm) \<and> 0 \<le> interval_us tm \<and> interval_us tm < 2 ^ 61"

definition clock_ok :: "(nat \<Rightarrow> int) \<Rightarrow> bool" where
  "clock_ok clk \<longleftrightarrow> (\<forall>n. 0 < clk n \<and> clk n < 2 ^ 61)"

definition alloc_ok :: "((nat \<rightharpoonup> timer) \<Rightarrow> nat option) \<Rightarrow> bool" where
  "alloc_ok alloc \<longleftrightarrow> (\<forall>h p. alloc h = Some p \<longrightarrow> h p = None \<and> p < UINTPTR_MAX)"

definition activeOf :: "(nat \<rightharpoonup> timer) \<Rightarrow> entry \<Rightarrow> active_timer" where
  "activeOf h e = (snd e, sequence (the (h (snd e))))"

definition tq_inv :: "nat set \<Rightarrow> timer_queue \<Rightarrow> bool" where
  "tq_inv own s \<longleftrightarrow>
     sorted (timers s) \<and> distinct (map snd (timers s)) \<and>
     (\<forall>(t, p) \<in> set (timers s). \<exists>tm. theap s p = Some tm \<and> expiration tm = t) \<and>
     activeTimers s = activeOf (theap s) ` set (timers s) \<and>
     own \<inter> snd ` set (timers s) = {} \<and> dom (theap s) = own \<union> snd ` set (timers s) \<and>
     (\<forall>p tm. theap s p = Some tm \<longrightarrow> p < UINTPTR_MAX \<and> timer_ok tm)"

lemma tq_inv_new: "tq_inv {} newTimerQueue"
  by (simp add: tq_inv_def newTimerQueue_def)

lemma tq_invD:
  assumes "tq_inv own s"
  shows "sorted (timers s)" "distinct (map snd (timers s))" "distinct (timers s)"
    "(t, p) \<in> set (timers s) \<Longrightarrow> \<exists>tm. theap s p = Some tm \<and> expiration tm = t"
    "activeTimers s = activeOf (theap s) ` set (timers s)"
    "own \<inter> snd ` set (timers s) = {}" "dom (theap s) = own \<union> snd ` set (timers s)"
    "theap s p = Some tm \<Longrightarrow> p < UINTPTR_MAX" "theap s p = Some tm \<Longrightarrow> timer_ok tm"
  using assms by (auto simp: tq_inv_def distinct_map)

lemma tq_inv_sizes:
  assumes "tq_inv own s"
  shows "card (activeTimers s) = length (timers s)"
proof -
  have "inj_on (activeOf (theap s)) (set (timers s))"
    using tq_invD(2) [OF assms] by (auto simp: distinct_map inj_on_def activeOf_def)
  then show ?thesis
    using tq_invD(3,5) [OF assms] by (simp add: card_image distinct_card)
qed

lemma tq_inv_member:
  assumes "tq_inv own s" "(t, p) \<in> set (timers s)"
  shows "\<exists>tm. theap s p = Some tm \<and> expiration tm = t \<and> (p, sequence tm) \<in> activeTimers s"
  using tq_invD(4,5) [OF assms(1)] assms(2) by (fastforce simp: activeOf_def image_iff)

lemma tq_inv_active:
  assumes "tq_inv own s" "(p, q) \<in> activeTimers s"
  shows "\<exists>tm. theap s p = Some tm \<and> sequence tm = q \<and> (expiration tm, p) \<in> set (timers s)"
  using tq_invD(4,5) [OF assms(1)] assms(2) by (fastforce simp: activeOf_def image_iff)

text \<open>Fields the invariant does not read.\<close>

lemma tq_inv_frame:
  assumes "tq_inv own s" "theap s' = theap s" "timers s' = timers s" "activeTimers s' = activeTimers s"
  shows "tq_inv own s'"
  using assms by (simp add: tq_inv_def)

lemma sorted_insort_timers:
  "distinct (map snd es) \<Longrightarrow> p \<notin> snd ` set es \<Longrightarrow> distinct (map snd (insort (t, p) es))"
  by (induction es) (auto simp: set_insort_key)

lemma map_snd_remove1:
  "distinct (map snd es) \<Longrightarrow> distinct (map snd (remove1 e es))"
  by (metis distinct_map distinct_remove1 inj_on_subset set_remove1_subset)

lemma length_insort_entry [simp]: "length (insort (e :: entry) es) = Suc (length es)"
  by (induction es) auto

section \<open>Insertion\<close>

definition inserted :: "nat \<Rightarrow> timer \<Rightarrow> timer_queue \<Rightarrow> timer_queue" where
  "inserted p tm s = s\<lparr>timers := insort (expiration tm, p) (timers s),
     activeTimers := insert (p, sequence tm) (activeTimers s)\<rparr>"

lemma inserted_inv:
  assumes inv: "tq_inv own s" and p: "p \<in> own" "theap s p = Some tm"
  shows "tq_inv (own - {p}) (inserted p tm s)"
proof -
  note d = tq_invD [OF inv]
  have out: "p \<notin> snd ` set (timers s)" using d(6) p(1) by auto
  have "distinct (map snd (insort (expiration tm, p) (timers s)))"
    by (rule sorted_insort_timers [OF d(2) out])
  moreover have "activeOf (theap s) (expiration tm, p) = (p, sequence tm)"
    using p(2) by (simp add: activeOf_def)
  ultimately show ?thesis
    using d(1,4-9) p out unfolding tq_inv_def inserted_def
    by (simp add: set_insort_key sorted_insort) blast
qed

lemma tq_insert_spec:
  assumes inv: "tq_inv own s" and p: "p \<in> own" "theap s p = Some tm"
  shows "tq_insert p s =
    Inr (inserted p tm s, timers s = [] \<or> expiration tm < fst (hd (timers s)))"
proof -
  have out: "p \<notin> snd ` set (timers s)" using tq_invD(6) [OF inv] p(1) by auto
  then have new: "(expiration tm, p) \<notin> set (timers s)" by force
  have "(p, sequence tm) \<notin> activeTimers s"
    using out tq_invD(5) [OF inv] by (auto simp: activeOf_def)
  moreover have "finite (activeTimers s)" using tq_invD(5) [OF inv] by simp
  ultimately show ?thesis
    using p(2) new tq_inv_sizes [OF inv]
    by (simp add: tq_insert_def timer_deref_def Let_def inserted_def)
qed

section \<open>Arming the descriptor\<close>

definition ts_us :: "timespec \<Rightarrow> int" where
  "ts_us ts = tv_sec ts * 1000000 + tv_nsec ts div 1000"

text \<open>The descriptor goes off at \<open>t\<close>, or 100 microseconds after it was set if that is later.\<close>

definition armed_for :: "int \<Rightarrow> timer_queue \<Rightarrow> bool" where
  "armed_for t s \<longleftrightarrow> (\<exists>n ts. armed s = Some (n, ts) \<and> 100 \<le> ts_us ts \<and> n + ts_us ts \<le> max (n + 100) t)"

text \<open>With \<open>b\<close> the descriptor is armed for the earliest timer; while expired callbacks run it
  need be so only for times that \<open>reset\<close> would take for invalid.\<close>

definition arm_inv :: "bool \<Rightarrow> timer_queue \<Rightarrow> bool" where
  "arm_inv b s \<longleftrightarrow> (timers s \<noteq> [] \<and> (b \<or> fst (hd (timers s)) \<le> 0) \<longrightarrow> armed_for (fst (hd (timers s))) s)"

lemma armed_for_mono: "armed_for t s \<Longrightarrow> t \<le> t' \<Longrightarrow> armed s' = armed s \<Longrightarrow> armed_for t' s'"
  by (fastforce simp: armed_for_def)

lemma resetTimerfd_spec:
  assumes "clock_ok clk" "time_ok t"
  shows "\<exists>ts. resetTimerfd clk t s = Inr (s\<lparr>ticks := Suc (ticks s), armed := Some (clk (ticks s), ts)\<rparr>)
     \<and> 0 \<le> tv_nsec ts \<and> tv_nsec ts < 1000000000 \<and> ts_us ts = max 100 (t - clk (ticks s))"
proof -
  define n where "n = clk (ticks s)"
  define us where "us = max 100 (t - n)"
  define ts where "ts = \<lparr>tv_sec = us div 1000000, tv_nsec = (us mod 1000000) * 1000\<rparr>"
  have "0 < n" "n < 2 ^ 61" using assms(1) by (auto simp: clock_ok_def n_def)
  then have rng: "in_i64 (t - n)" using assms(2) by (auto simp: in_i64_def time_ok_def)
  have "(if t - n < 100 then 100 else t - n) = us" by (simp add: us_def max_def)
  with rng have how: "howMuchTimeFromNow n t = Inr ts"
    by (simp add: howMuchTimeFromNow_def ck64_def Let_def ts_def kMicroSecondsPerSecond_def)
  have us: "ts_us ts = us" by (simp add: ts_us_def ts_def)
  have ge: "us \<ge> 100" by (simp add: us_def)
  then have sec: "tv_sec ts \<ge> 0" by (simp add: ts_def pos_imp_zdiv_nonneg_iff)
  have ns: "0 \<le> tv_nsec ts" "tv_nsec ts < 1000000000"
    using pos_mod_bound [of 1000000 us] by (simp_all add: ts_def)
  have "\<not> (tv_sec ts = 0 \<and> tv_nsec ts = 0)" using us ge by (auto simp: ts_us_def)
  then have "timerfd_settime n ts (s\<lparr>ticks := Suc (ticks s)\<rparr>)
      = s\<lparr>ticks := Suc (ticks s), armed := Some (n, ts)\<rparr>"
    using ns sec unfolding timerfd_settime_def by simp
  with how have "resetTimerfd clk t s = Inr (s\<lparr>ticks := Suc (ticks s), armed := Some (n, ts)\<rparr>)"
    by (simp add: resetTimerfd_def Let_def n_def)
  with us ns show ?thesis unfolding us_def n_def by blast
qed

lemma resetTimerfd_arms:
  assumes "clock_ok clk" "time_ok t"
  shows "\<exists>s'. resetTimerfd clk t s = Inr s' \<and> armed_for t s' \<and> (\<exists>a k. s' = s\<lparr>ticks := k, armed := a\<rparr>)"
proof -
  from resetTimerfd_spec [OF assms, of s] obtain ts where ts:
    "resetTimerfd clk t s = Inr (s\<lparr>ticks := Suc (ticks s), armed := Some (clk (ticks s), ts)\<rparr>)"
    "ts_us ts = max 100 (t - clk (ticks s))" by blast
  then show ?thesis by (auto simp: armed_for_def)
qed

lemma hd_insort:
  "fst (hd (insort (t, p) es)) = (if es = [] \<or> t < fst (hd es) then t else fst (hd es))"
  by (cases es) (auto simp: less_eq_prod_def)

lemma addTimerInLoop_spec:
  assumes inv: "tq_inv own s" and p: "p \<in> own" "theap s p = Some tm" and clk: "clock_ok clk"
  shows "\<exists>s'. addTimerInLoop clk p s = Inr s' \<and> tq_inv (own - {p}) s' \<and> theap s' = theap s
     \<and> timers s' = insort (expiration tm, p) (timers s)
     \<and> callingExpiredTimers s' = callingExpiredTimers s \<and> cancelingTimers s' = cancelingTimers s
     \<and> (\<forall>b. arm_inv b s \<longrightarrow> arm_inv b s')"
proof -
  note ins = tq_insert_spec [OF inv p] and inv' = inserted_inv [OF inv p]
  have ht: "theap (inserted p tm s) p = Some tm" "timers (inserted p tm s) = insort (expiration tm, p) (timers s)"
    using p by (simp_all add: inserted_def)
  show ?thesis
  proof (cases "timers s = [] \<or> expiration tm < fst (hd (timers s))")
    case True
    have "time_ok (expiration tm)" using tq_invD(9) [OF inv p(2)] by (simp add: timer_ok_def)
    from resetTimerfd_arms [OF clk this, of "inserted p tm s"] obtain s' a k where s':
      "resetTimerfd clk (expiration tm) (inserted p tm s) = Inr s'" "armed_for (expiration tm) s'"
      "s' = (inserted p tm s)\<lparr>ticks := k, armed := a\<rparr>" by blast
    have "addTimerInLoop clk p s = Inr s'"
      using True s'(1) ht(1) by (simp add: addTimerInLoop_def ins timer_deref_def)
    moreover have "tq_inv (own - {p}) s'" by (rule tq_inv_frame [OF inv']) (simp_all add: s'(3))
    moreover have "arm_inv b s'" for b
      using True s'(2) by (auto simp: arm_inv_def s'(3) inserted_def hd_insort)
    ultimately show ?thesis using s'(3) by (auto simp: inserted_def)
  next
    case False
    then have "addTimerInLoop clk p s = Inr (inserted p tm s)"
      by (simp add: addTimerInLoop_def ins)
    moreover have "arm_inv b (inserted p tm s)" if "arm_inv b s" for b
      using that False by (auto simp: arm_inv_def inserted_def hd_insort armed_for_def)
    ultimately show ?thesis using inv' by (auto simp: inserted_def)
  qed
qed

section \<open>Cancellation\<close>

definition removed :: "nat \<Rightarrow> timer \<Rightarrow> timer_queue \<Rightarrow> timer_queue" where
  "removed p tm s = s\<lparr>timers := remove1 (expiration tm, p) (timers s), theap := (theap s)(p := None),
     activeTimers := activeTimers s - {(p, sequence tm)}\<rparr>"

lemma removed_inv:
  assumes inv: "tq_inv own s" and p: "theap s p = Some tm" "(expiration tm, p) \<in> set (timers s)"
  shows "tq_inv own (removed p tm s)"
proof -
  note d = tq_invD [OF inv]
  have "inj_on snd (set (timers s))" using d(2) by (simp add: distinct_map)
  then have uniq: "e = (expiration tm, p)" if "e \<in> set (timers s)" "snd e = p" for e
    by (rule inj_onD) (use that p(2) in simp_all)
  have "set (timers s) - {(expiration tm, p)} = {e \<in> set (timers s). snd e \<noteq> p}"
  proof (intro subset_antisym subsetI)
    fix e assume e: "e \<in> set (timers s) - {(expiration tm, p)}"
    then have "snd e \<noteq> p" using uniq [of e] by fast
    with e show "e \<in> {e \<in> set (timers s). snd e \<noteq> p}" by blast
  qed auto
  then have rest: "set (remove1 (expiration tm, p) (timers s)) = {e \<in> set (timers s). snd e \<noteq> p}"
    using d(3) by simp
  have "activeOf ((theap s)(p := None)) ` {e \<in> set (timers s). snd e \<noteq> p}
      = activeOf (theap s) ` {e \<in> set (timers s). snd e \<noteq> p}"
    by (rule image_cong) (auto simp: activeOf_def)
  also have "\<dots> = activeOf (theap s) ` set (timers s) - {(p, sequence tm)}"
  proof (intro subset_antisym subsetI)
    fix a assume a: "a \<in> activeOf (theap s) ` set (timers s) - {(p, sequence tm)}"
    then obtain e where e: "e \<in> set (timers s)" "a = activeOf (theap s) e" by blast
    with a p(1) have "snd e \<noteq> p" by (auto simp: activeOf_def)
    with e show "a \<in> activeOf (theap s) ` {e \<in> set (timers s). snd e \<noteq> p}" by blast
  qed (auto simp: activeOf_def)
  finally have act: "activeOf ((theap s)(p := None)) ` {e \<in> set (timers s). snd e \<noteq> p}
      = activeOf (theap s) ` set (timers s) - {(p, sequence tm)}" .
  have "sorted (remove1 (expiration tm, p) (timers s))" using d(1) by (rule sorted_remove1)
  moreover have "distinct (map snd (remove1 (expiration tm, p) (timers s)))"
    by (rule map_snd_remove1 [OF d(2)])
  moreover have np: "p \<notin> own" using d(6) p(2) by force
  have "dom ((theap s)(p := None)) = own \<union> snd ` {e \<in> set (timers s). snd e \<noteq> p}"
    using d(7) np by auto
  moreover have "own \<inter> snd ` {e \<in> set (timers s). snd e \<noteq> p} = {}" using d(6) by blast
  moreover have "\<forall>(t, p') \<in> {e \<in> set (timers s). snd e \<noteq> p}.
      \<exists>tm. ((theap s)(p := None)) p' = Some tm \<and> expiration tm = t"
    using d(4) by auto
  moreover have "\<forall>p' tm. ((theap s)(p := None)) p' = Some tm \<longrightarrow> p' < UINTPTR_MAX \<and> timer_ok tm"
    using d(8,9) by simp
  ultimately show ?thesis
    unfolding tq_inv_def by (simp add: removed_def rest act d(5))
qed

lemma cancel_active_spec:
  assumes inv: "tq_inv own s" and p: "(p, q) \<in> activeTimers s"
  shows "\<exists>tm. theap s p = Some tm \<and> sequence tm = q \<and> cancelInLoop (p, q) s = Inr (removed p tm s)
     \<and> tq_inv own (removed p tm s)"
proof -
  from tq_inv_active [OF inv p] obtain tm where tm: "theap s p = Some tm" "sequence tm = q"
    "(expiration tm, p) \<in> set (timers s)" by blast
  note inv' = removed_inv [OF inv tm(1,3)]
  have "cancelInLoop (p, q) s = Inr (removed p tm s)"
    using p tm tq_inv_sizes [OF inv] tq_inv_sizes [OF inv']
    by (simp add: cancelInLoop_def timer_deref_def timer_delete_def removed_def Let_def)
  with tm inv' show ?thesis by blast
qed

lemma cancel_inactive_spec:
  assumes "tq_inv own s" and "tid \<notin> activeTimers s"
  shows "cancelInLoop tid s = Inr (if callingExpiredTimers s
     then s\<lparr>cancelingTimers := insert tid (cancelingTimers s)\<rparr> else s)"
  using assms(2) tq_inv_sizes [OF assms(1)] by (simp add: cancelInLoop_def)

lemma hd_remove1_ge:
  assumes "sorted es" "remove1 e es \<noteq> []"
  shows "es \<noteq> []" "fst (hd es) \<le> fst (hd (remove1 (e :: entry) es))"
proof -
  show ne: "es \<noteq> []" using assms(2) by auto
  have "hd (remove1 e es) \<in> set es" using assms(2) by (meson hd_in_set notin_set_remove1)
  then have "hd es \<le> hd (remove1 e es)" using assms(1) ne by (cases es) auto
  then show "fst (hd es) \<le> fst (hd (remove1 e es))" by (auto simp: less_eq_prod_def)
qed

lemma removed_arm:
  assumes "tq_inv own s" "arm_inv b s"
  shows "arm_inv b (removed p tm s)"
proof (cases "remove1 (expiration tm, p) (timers s) = []")
  case False
  note h = hd_remove1_ge [OF tq_invD(1) [OF assms(1)] False]
  show ?thesis using assms(2) h
    by (auto simp: arm_inv_def removed_def intro: armed_for_mono)
qed (simp add: arm_inv_def removed_def)

section \<open>Expiry\<close>

lemma takeWhile_sorted:
  "sorted xs \<Longrightarrow> takeWhile (\<lambda>e. e < x) xs = filter (\<lambda>e. e < x) (xs :: 'a::linorder list)"
proof (induction xs)
  case (Cons a xs)
  then have "filter (\<lambda>e. e < x) xs = []" if "\<not> a < x"
    using that by (auto simp: filter_empty_conv dest: le_less_trans)
  with Cons show ?case by auto
qed simp

lemma dropWhile_sorted:
  "sorted xs \<Longrightarrow> dropWhile (\<lambda>e. e < x) xs = filter (\<lambda>e. \<not> e < x) (xs :: 'a::linorder list)"
proof (induction xs)
  case (Cons a xs)
  then have "filter (\<lambda>e. \<not> e < x) xs = xs" if "\<not> a < x"
    using that by (auto simp: filter_id_conv)
  with Cons show ?case by auto
qed simp

lemma eraseActive_spec:
  assumes "distinct (map snd es)" "snd ` set es \<inter> snd ` R = {}" "snd ` set es \<subseteq> dom (theap s)"
    "activeTimers s = activeOf (theap s) ` (set es \<union> R)"
  shows "eraseActive es s = Inr (s\<lparr>activeTimers := activeOf (theap s) ` R\<rparr>)"
  using assms
proof (induction es arbitrary: s)
  case Nil
  then show ?case by simp
next
  case (Cons e es)
  obtain t p where e [simp]: "e = (t, p)" by (cases e)
  from Cons.prems(3) obtain tm where tm: "theap s p = Some tm" by auto
  let ?s = "s\<lparr>activeTimers := activeTimers s - {(p, sequence tm)}\<rparr>"
  have ae: "activeOf (theap s) e = (p, sequence tm)" using tm by (simp add: activeOf_def)
  have "p \<notin> snd ` (set es \<union> R)" using Cons.prems(1,2) by auto
  then have "(p, sequence tm) \<notin> activeOf (theap s) ` (set es \<union> R)"
    by (auto simp: activeOf_def image_iff)
  then have act: "activeTimers ?s = activeOf (theap ?s) ` (set es \<union> R)"
    using Cons.prems(4) ae by auto
  have "eraseActive es ?s = Inr (?s\<lparr>activeTimers := activeOf (theap ?s) ` R\<rparr>)"
    by (rule Cons.IH) (use Cons.prems act in auto)
  moreover have "(p, sequence tm) \<in> activeTimers s" using Cons.prems(4) ae by force
  ultimately show ?case using tm by (simp add: timer_deref_def)
qed

lemma sentry_less:
  "p < UINTPTR_MAX \<Longrightarrow> (t, p) < (now :: int, UINTPTR_MAX) \<longleftrightarrow> t \<le> now"
  by (auto simp: less_prod_def)

definition due :: "int \<Rightarrow> timer_queue \<Rightarrow> entry list" where
  "due now s = filter (\<lambda>e. fst e \<le> now) (timers s)"

definition expired_out :: "int \<Rightarrow> timer_queue \<Rightarrow> timer_queue" where
  "expired_out now s = s\<lparr>timers := filter (\<lambda>e. now < fst e) (timers s),
     activeTimers := activeOf (theap s) ` {e \<in> set (timers s). now < fst e}\<rparr>"

lemma expired_out_inv:
  assumes inv: "tq_inv own s"
  shows "tq_inv (own \<union> snd ` set (due now s)) (expired_out now s)"
proof -
  note d = tq_invD [OF inv]
  have inj: "inj_on snd (set (timers s))" using d(2) by (simp add: distinct_map)
  have "sorted (filter (\<lambda>e. now < fst e) (timers s))" using d(1) by (rule sorted_wrt_filter)
  moreover have "distinct (map snd (filter (\<lambda>e. now < fst e) (timers s)))"
    using d(2) by (rule distinct_map_filter)
  moreover have "snd ` set (due now s) \<inter> snd ` {e \<in> set (timers s). now < fst e} = {}"
  proof (rule ccontr)
    assume "\<not> ?thesis"
    then obtain a b where "a \<in> set (timers s)" "b \<in> set (timers s)" "fst a \<le> now" "now < fst b" "snd a = snd b"
      by (auto simp: due_def)
    with inj_onD [OF inj, of a b] show False by simp
  qed
  moreover have un: "snd ` set (timers s) = snd ` set (due now s) \<union> snd ` {e \<in> set (timers s). now < fst e}"
    unfolding image_Un [symmetric] by (rule arg_cong [of _ _ "image snd"]) (auto simp: due_def)
  moreover have "own \<inter> snd ` {e \<in> set (timers s). now < fst e} = {}" using d(6) by blast
  moreover have "\<forall>(t, p) \<in> {e \<in> set (timers s). now < fst e}. \<exists>tm. theap s p = Some tm \<and> expiration tm = t"
    using d(4) by auto
  moreover have "\<forall>p tm. theap s p = Some tm \<longrightarrow> p < UINTPTR_MAX \<and> timer_ok tm"
    using d(8,9) by simp
  ultimately show ?thesis
    using d(7) unfolding tq_inv_def by (simp add: expired_out_def Un_assoc Int_Un_distrib2)
qed

lemma getExpired_spec:
  assumes inv: "tq_inv own s"
  shows "getExpired now s = Inr (expired_out now s, due now s)"
proof -
  note d = tq_invD [OF inv]
  have lt: "e < (now, UINTPTR_MAX) \<longleftrightarrow> fst e \<le> now" if "e \<in> set (timers s)" for e
    using that d(4) [of "fst e" "snd e"] d(8) [of "snd e"] sentry_less [of "snd e" "fst e" now] by auto
  have tw: "takeWhile (\<lambda>e. e < (now, UINTPTR_MAX)) (timers s) = due now s"
    unfolding takeWhile_sorted [OF d(1)] due_def by (rule filter_cong) (use lt in auto)
  have dw: "dropWhile (\<lambda>e. e < (now, UINTPTR_MAX)) (timers s) = filter (\<lambda>e. now < fst e) (timers s)"
    unfolding dropWhile_sorted [OF d(1)] by (rule filter_cong) (use lt in auto)
  let ?rest = "filter (\<lambda>e. now < fst e) (timers s)"
  have hd: "?rest = [] \<or> now < fst (hd ?rest)"
    using hd_in_set [of ?rest] by auto
  note inv' = expired_out_inv [OF inv, of now]
  have "eraseActive (due now s) (s\<lparr>timers := ?rest\<rparr>) = Inr (expired_out now s)"
  proof -
    have "set (due now s) \<union> {e \<in> set (timers s). now < fst e} = set (timers s)"
      by (auto simp: due_def)
    moreover have "snd ` set (due now s) \<inter> snd ` {e \<in> set (timers s). now < fst e} = {}"
      using tq_invD(6) [OF inv'] by (auto simp: expired_out_def)
    moreover have "distinct (map snd (due now s))"
      unfolding due_def using d(2) by (rule distinct_map_filter)
    moreover have "snd ` set (due now s) \<subseteq> dom (theap s)" using d(7) by (auto simp: due_def)
    ultimately show ?thesis
      using eraseActive_spec [of "due now s" "{e \<in> set (timers s). now < fst e}" "s\<lparr>timers := ?rest\<rparr>"] d(5)
      by (simp add: expired_out_def)
  qed
  moreover have "length (timers (expired_out now s)) = card (activeTimers (expired_out now s))"
    using tq_inv_sizes [OF inv'] by simp
  ultimately show ?thesis
    using tq_inv_sizes [OF inv] hd by (simp add: getExpired_def Let_def tw dw del: dropWhile_eq_Nil_conv)
qed

section \<open>Callbacks that add and cancel timers\<close>

text \<open>
  The only way an operation of the queue does not complete is a failing allocation:
  \<open>completes P r\<close> says that \<open>r\<close> is a value with \<open>P\<close>, or the \<open>bad_alloc\<close> of a failing allocation.
\<close>

definition completes :: "('a \<Rightarrow> bool) \<Rightarrow> 'a res \<Rightarrow> bool" where
  "completes P r \<longleftrightarrow> r = Inl (Exception ''bad_alloc'') \<or> (\<exists>x. r = Inr x \<and> P x)"

lemma completes_Inr: "P x \<Longrightarrow> completes P (Inr x)"
  by (simp add: completes_def)

lemma completes_bind:
  assumes "completes P m" "\<And>x. P x \<Longrightarrow> completes Q (f x)"
  shows "completes Q (rbind m f)"
  using assms by (cases m) (auto simp: completes_def)

lemma completes_total:
  "completes P r \<Longrightarrow> r \<noteq> Inl (Exception ''bad_alloc'') \<Longrightarrow> \<exists>x. r = Inr x \<and> P x"
  by (auto simp: completes_def)

fun cmd_ok :: "timer_cmd \<Rightarrow> bool" where
  "cmd_ok (AddTimer cb when r us) \<longleftrightarrow> time_ok when \<and> 0 \<le> us \<and> us < 2 ^ 61"
| "cmd_ok (CancelTimer tid) \<longleftrightarrow> True"

definition act_ok :: "(nat \<Rightarrow> timer_queue \<Rightarrow> timer_cmd list) \<Rightarrow> bool" where
  "act_ok act \<longleftrightarrow> (\<forall>c s. list_all cmd_ok (act c s))"

text \<open>What every operation a callback can call keeps: the invariant, the timers owned by the
  caller, the arming of the descriptor and the cancellations recorded so far.\<close>

definition keeps :: "nat set \<Rightarrow> bool \<Rightarrow> timer_queue \<Rightarrow> timer_queue \<Rightarrow> bool" where
  "keeps own b s s' \<longleftrightarrow> tq_inv own s' \<and> (\<forall>p \<in> own. theap s' p = theap s p)
     \<and> (arm_inv b s \<longrightarrow> arm_inv b s') \<and> callingExpiredTimers s' = callingExpiredTimers s
     \<and> cancelingTimers s \<subseteq> cancelingTimers s'"

lemma keeps_refl: "tq_inv own s \<Longrightarrow> keeps own b s s"
  by (simp add: keeps_def)

lemma keeps_trans: "keeps own b s s' \<Longrightarrow> keeps own b s' s'' \<Longrightarrow> keeps own b s s''"
  by (auto simp: keeps_def)

lemma keeps_inv: "keeps own b s s' \<Longrightarrow> tq_inv own s'"
  by (simp add: keeps_def)

lemma alloc_inv:
  assumes inv: "tq_inv own s" and new: "theap s p = None" "p < UINTPTR_MAX" and ok: "timer_ok tm"
  shows "tq_inv (insert p own) (s\<lparr>theap := (theap s)(p \<mapsto> tm), numCreated := n\<rparr>)"
proof -
  note d = tq_invD [OF inv]
  have out: "p \<notin> snd ` set (timers s)" using d(7) new(1) by auto
  have "activeOf ((theap s)(p \<mapsto> tm)) ` set (timers s) = activeOf (theap s) ` set (timers s)"
    by (rule image_cong) (use out in \<open>auto simp: activeOf_def image_iff\<close>)
  moreover have "\<forall>(t, p') \<in> set (timers s). \<exists>tm'. ((theap s)(p \<mapsto> tm)) p' = Some tm' \<and> expiration tm' = t"
    using d(4) out by force
  moreover have "\<forall>p' tm'. ((theap s)(p \<mapsto> tm)) p' = Some tm' \<longrightarrow> p' < UINTPTR_MAX \<and> timer_ok tm'"
    using d(8,9) new ok by simp
  ultimately show ?thesis
    using d(1,2,5-7) out unfolding tq_inv_def by simp
qed

lemma addTimer_spec:
  assumes inv: "tq_inv own s" and clk: "clock_ok clk" and al: "alloc_ok alloc"
    and ok: "time_ok when" "0 \<le> us" "us < 2 ^ 61"
  shows "completes (\<lambda>(s', p, q). keeps own b s s' \<and> p \<notin> dom (theap s) \<and> q = numCreated s + 1
      \<and> theap s' = (theap s)(p \<mapsto> newTimer cb when r us q)
      \<and> timers s' = insort (when, p) (timers s)) (addTimer alloc clk cb when r us s)"
proof (cases "alloc (theap s)")
  case None
  then show ?thesis by (auto simp: completes_def addTimer_def allocTimer_def)
next
  case (Some p)
  let ?q = "numCreated s + 1"
  let ?tm = "newTimer cb when r us ?q"
  let ?s = "s\<lparr>theap := (theap s)(p \<mapsto> ?tm), numCreated := ?q\<rparr>"
  have new: "theap s p = None" "p < UINTPTR_MAX" using al Some by (auto simp: alloc_ok_def)
  have "timer_ok ?tm" using ok by (simp add: timer_ok_def newTimer_def)
  from alloc_inv [OF inv new this] have inv1: "tq_inv (insert p own) ?s" .
  have pn: "p \<notin> own" using tq_invD(7) [OF inv] new(1) by auto
  from addTimerInLoop_spec [OF inv1 _ _ clk, of p ?tm] obtain s' where s':
    "addTimerInLoop clk p ?s = Inr s'" "tq_inv (insert p own - {p}) s'" "theap s' = theap ?s"
    "timers s' = insort (when, p) (timers s)" "callingExpiredTimers s' = callingExpiredTimers s"
    "cancelingTimers s' = cancelingTimers s" "arm_inv b ?s \<longrightarrow> arm_inv b s'"
    by (auto simp: newTimer_def)
  have "addTimer alloc clk cb when r us s = Inr (s', p, ?q)"
    using Some s'(1,3) by (simp add: addTimer_def allocTimer_def timer_deref_def Let_def newTimer_def)
  moreover have "keeps own b s s'"
    using s' pn unfolding keeps_def by (auto simp: arm_inv_def armed_for_def)
  ultimately show ?thesis using s'(3,4) new(1) by (auto simp: completes_def)
qed

lemma cancel_spec:
  assumes inv: "tq_inv own s"
  shows "\<exists>s'. cancelInLoop tid s = Inr s' \<and> keeps own b s s' \<and> tid \<notin> activeTimers s'
     \<and> (callingExpiredTimers s \<and> tid \<notin> activeTimers s \<longrightarrow> tid \<in> cancelingTimers s')"
proof (cases "tid \<in> activeTimers s")
  case True
  obtain p q where tid: "tid = (p, q)" by (cases tid)
  from cancel_active_spec [OF inv] True obtain tm where tm: "theap s p = Some tm" "sequence tm = q"
    "cancelInLoop tid s = Inr (removed p tm s)" "tq_inv own (removed p tm s)" unfolding tid by blast
  have "p \<notin> own" using tq_invD(6) [OF inv] tq_inv_active [OF inv True [unfolded tid]] by force
  then have "keeps own b s (removed p tm s)"
    using tm(4) removed_arm [OF inv, of b] by (auto simp: keeps_def removed_def)
  with tm True tid show ?thesis by (auto simp: removed_def)
next
  case False
  have "keeps own b s (if callingExpiredTimers s
     then s\<lparr>cancelingTimers := insert tid (cancelingTimers s)\<rparr> else s)"
    using inv tq_inv_frame [OF inv] by (auto simp: keeps_def arm_inv_def armed_for_def)
  with cancel_inactive_spec [OF inv False] False show ?thesis by auto
qed

lemma run_cmds_spec:
  assumes "tq_inv own s" "clock_ok clk" "alloc_ok alloc" "list_all cmd_ok cs"
  shows "completes (keeps own b s) (run_cmds alloc clk cs s)"
  using assms
proof (induction alloc clk cs s rule: run_cmds.induct)
  case (1 alloc clk s)
  then show ?case by (simp add: completes_Inr keeps_refl)
next
  case (2 alloc clk cb w r us cs s)
  show ?case unfolding run_cmds.simps
  proof (rule completes_bind)
    show "completes (\<lambda>(s', _). keeps own b s s') (addTimer alloc clk cb w r us s)"
      using addTimer_spec [of own s clk alloc w us b cb r] 2 by (auto simp: completes_def)
  next
    fix x :: "timer_queue \<times> active_timer"
    assume "case x of (s', _) \<Rightarrow> keeps own b s s'"
    then obtain s1 tid where x: "x = (s1, tid)" "keeps own b s s1" by (cases x) auto
    then have "completes (keeps own b s1) (run_cmds alloc clk cs s1)"
      using 2 keeps_inv by (simp add: 2(1))
    then show "completes (keeps own b s) (case x of (s1, _) \<Rightarrow> run_cmds alloc clk cs s1)"
      using x keeps_trans by (fastforce simp: completes_def)
  qed
next
  case (3 alloc clk tid cs s)
  from cancel_spec [OF 3(2), of tid b] obtain s' where s': "cancelInLoop tid s = Inr s'" "keeps own b s s'"
    by blast
  then have "completes (keeps own b s') (run_cmds alloc clk cs s')"
    using 3 keeps_inv by simp
  then show ?case using s' keeps_trans by (fastforce simp: completes_def)
qed

lemma runExpired_spec:
  assumes "tq_inv own s" "clock_ok clk" "alloc_ok alloc" "act_ok act" "snd ` set es \<subseteq> own"
  shows "completes (\<lambda>(s', cbs). keeps own b s s' \<and> cbs = map (\<lambda>e. callback (the (theap s (snd e)))) es)
     (runExpired alloc clk act es s)"
  using assms
proof (induction es arbitrary: s)
  case Nil
  then show ?case by (simp add: completes_Inr keeps_refl)
next
  case (Cons e es)
  obtain t p where e [simp]: "e = (t, p)" by (cases e)
  have "p \<in> dom (theap s)" using Cons.prems(5) tq_invD(7) [OF Cons.prems(1)] by auto
  then obtain tm where tm: "theap s p = Some tm" by auto
  have "completes (keeps own b s) (run_cmds alloc clk (act (callback tm) s) s)"
    using Cons.prems by (intro run_cmds_spec) (auto simp: act_ok_def)
  moreover have "completes (\<lambda>(s', cbs). keeps own b s s' \<and>
        cbs = callback tm # map (\<lambda>e. callback (the (theap s (snd e)))) es)
      (rbind (runExpired alloc clk act es s1) (\<lambda>(s2, cbs). Inr (s2, callback tm # cbs)))"
    if k: "keeps own b s s1" for s1
  proof -
    have same: "map (\<lambda>e. callback (the (theap s1 (snd e)))) es = map (\<lambda>e. callback (the (theap s (snd e)))) es"
      using k Cons.prems(5) by (auto simp: keeps_def)
    have "completes (\<lambda>(s', cbs). keeps own b s1 s' \<and> cbs = map (\<lambda>e. callback (the (theap s1 (snd e)))) es)
        (runExpired alloc clk act es s1)"
      by (rule Cons.IH [OF keeps_inv [OF k]]) (use Cons.prems in auto)
    then show ?thesis
      by (rule completes_bind) (use same keeps_trans [OF k] in \<open>auto intro: completes_Inr\<close>)
  qed
  ultimately have "completes (\<lambda>(s', cbs). keeps own b s s' \<and>
        cbs = callback tm # map (\<lambda>e. callback (the (theap s (snd e)))) es)
      (rbind (run_cmds alloc clk (act (callback tm) s) s) (\<lambda>s1.
       rbind (runExpired alloc clk act es s1) (\<lambda>(s2, cbs). Inr (s2, callback tm # cbs))))"
    by (rule completes_bind)
  then show ?case using tm by (simp add: timer_deref_def)
qed

section \<open>Re-arming the expired timers\<close>

definition rearms :: "active_timer set \<Rightarrow> nat \<Rightarrow> timer \<Rightarrow> bool" where
  "rearms cancelled p tm \<longleftrightarrow> repeat tm \<and> (p, sequence tm) \<notin> cancelled"

definition after_reset :: "active_timer set \<Rightarrow> int \<Rightarrow> nat set \<Rightarrow> (nat \<rightharpoonup> timer) \<Rightarrow> (nat \<rightharpoonup> timer)" where
  "after_reset cancelled now ps h = (\<lambda>p. if p \<notin> ps then h p else
     case h p of None \<Rightarrow> None
     | Some tm \<Rightarrow> if rearms cancelled p tm then Some (tm\<lparr>expiration := now + interval_us tm\<rparr>) else None)"

lemma owned_update_inv:
  assumes inv: "tq_inv own s" and p: "p \<in> own" and ok: "timer_ok tm"
  shows "tq_inv own (s\<lparr>theap := (theap s)(p \<mapsto> tm)\<rparr>)"
proof -
  note d = tq_invD [OF inv]
  have out: "p \<notin> snd ` set (timers s)" using d(6) p by auto
  have lt: "p < UINTPTR_MAX" using d(7,8) p by (metis UnI1 domD)
  have "activeOf ((theap s)(p \<mapsto> tm)) ` set (timers s) = activeOf (theap s) ` set (timers s)"
    by (rule image_cong) (use out in \<open>auto simp: activeOf_def image_iff\<close>)
  moreover have "\<forall>(t, p') \<in> set (timers s). \<exists>tm'. ((theap s)(p \<mapsto> tm)) p' = Some tm' \<and> expiration tm' = t"
    using d(4) out by force
  moreover have "\<forall>p' tm'. ((theap s)(p \<mapsto> tm)) p' = Some tm' \<longrightarrow> p' < UINTPTR_MAX \<and> timer_ok tm'"
    using d(8,9) lt ok by simp
  ultimately show ?thesis
    using d(1,2,5-7) p unfolding tq_inv_def by (simp add: insert_absorb)
qed

lemma owned_delete_inv:
  assumes inv: "tq_inv own s" and p: "p \<in> own"
  shows "tq_inv (own - {p}) (s\<lparr>theap := (theap s)(p := None)\<rparr>)"
proof -
  note d = tq_invD [OF inv]
  have out: "p \<notin> snd ` set (timers s)" using d(6) p by auto
  have "activeOf ((theap s)(p := None)) ` set (timers s) = activeOf (theap s) ` set (timers s)"
    by (rule image_cong) (use out in \<open>auto simp: activeOf_def image_iff\<close>)
  moreover have "\<forall>(t, p') \<in> set (timers s). \<exists>tm'. ((theap s)(p := None)) p' = Some tm' \<and> expiration tm' = t"
    using d(4) out by force
  moreover have "dom ((theap s)(p := None)) = own - {p} \<union> snd ` set (timers s)"
    using d(7) out by auto
  ultimately show ?thesis
    using d(1,2,5,6,8,9) unfolding tq_inv_def by auto
qed

text \<open>One round of the loop of \<open>reset\<close>.\<close>

lemma reset_one:
  assumes inv: "tq_inv own s" and p: "p \<in> own" "theap s p = Some tm" and now: "0 < now" "now < 2 ^ 61"
  shows "\<exists>s1. (if repeat tm \<and> (p, sequence tm) \<notin> cancelingTimers s
        then rbind (restart now tm) (\<lambda>tm'.
             rbind (tq_insert p (s\<lparr>theap := (theap s)(p \<mapsto> tm')\<rparr>)) (\<lambda>(s1, _). Inr s1))
        else timer_delete p s) = Inr s1
     \<and> tq_inv (own - {p}) s1 \<and> theap s1 = after_reset (cancelingTimers s) now {p} (theap s)
     \<and> cancelingTimers s1 = cancelingTimers s \<and> callingExpiredTimers s1 = callingExpiredTimers s
     \<and> (arm_inv False s \<longrightarrow> arm_inv False s1)"
proof (cases "rearms (cancelingTimers s) p tm")
  case True
  let ?tm = "tm\<lparr>expiration := now + interval_us tm\<rparr>"
  let ?s = "s\<lparr>theap := (theap s)(p \<mapsto> ?tm)\<rparr>"
  have us: "0 \<le> interval_us tm" "interval_us tm < 2 ^ 61" using tq_invD(9) [OF inv p(2)] by (auto simp: timer_ok_def)
  then have "restart now tm = Inr ?tm"
    using True now by (simp add: restart_def addTime_def ck64_def in_i64_def rearms_def)
  moreover have ok: "timer_ok ?tm" using us now by (simp add: timer_ok_def time_ok_def)
  note inv1 = owned_update_inv [OF inv p(1) ok]
  note tq_insert_spec [OF inv1 p(1), of ?tm] inserted_inv [OF inv1 p(1), of ?tm]
  moreover have "arm_inv False (inserted p ?tm ?s)" if "arm_inv False s"
    using that now us by (auto simp: arm_inv_def inserted_def hd_insort armed_for_def)
  ultimately show ?thesis
    using True p(2) by (auto simp: rearms_def inserted_def after_reset_def fun_eq_iff)
next
  case False
  have "arm_inv False (s\<lparr>theap := (theap s)(p := None)\<rparr>)" if "arm_inv False s"
    using that by (simp add: arm_inv_def armed_for_def)
  with False owned_delete_inv [OF inv p(1)] p(2) show ?thesis
    by (auto simp: rearms_def timer_delete_def timer_deref_def after_reset_def fun_eq_iff)
qed

lemma after_reset_step:
  "p \<notin> ps \<Longrightarrow> after_reset c now ps (after_reset c now {p} h) = after_reset c now (insert p ps) h"
  by (auto simp: after_reset_def fun_eq_iff)

lemma resetEntries_spec:
  assumes "tq_inv own s" "snd ` set es \<subseteq> own" "distinct (map snd es)" "0 < now" "now < 2 ^ 61"
  shows "\<exists>s'. resetEntries es now s = Inr s' \<and> tq_inv (own - snd ` set es) s'
     \<and> theap s' = after_reset (cancelingTimers s) now (snd ` set es) (theap s)
     \<and> callingExpiredTimers s' = callingExpiredTimers s
     \<and> (arm_inv False s \<longrightarrow> arm_inv False s')"
  using assms
proof (induction es arbitrary: own s)
  case Nil
  then show ?case by (simp add: after_reset_def)
next
  case (Cons e es)
  obtain t p where e [simp]: "e = (t, p)" by (cases e)
  have p: "p \<in> own" "p \<notin> snd ` set es" using Cons.prems(2,3) by auto
  then obtain tm where tm: "theap s p = Some tm" using tq_invD(7) [OF Cons.prems(1)] by blast
  from reset_one [OF Cons.prems(1) p(1) tm Cons.prems(4,5)] obtain s1 where s1:
    "resetEntries (e # es) now s = resetEntries es now s1" "tq_inv (own - {p}) s1"
    "theap s1 = after_reset (cancelingTimers s) now {p} (theap s)" "cancelingTimers s1 = cancelingTimers s"
    "callingExpiredTimers s1 = callingExpiredTimers s" "arm_inv False s \<longrightarrow> arm_inv False s1"
    using tm by (auto simp: timer_deref_def)
  have "snd ` set es \<subseteq> own - {p}" using Cons.prems(2) p(2) by auto
  from Cons.IH [OF s1(2) this] Cons.prems(3-5) obtain s' where s': "resetEntries es now s1 = Inr s'"
    "tq_inv (own - {p} - snd ` set es) s'"
    "theap s' = after_reset (cancelingTimers s1) now (snd ` set es) (theap s1)"
    "callingExpiredTimers s' = callingExpiredTimers s1" "arm_inv False s1 \<longrightarrow> arm_inv False s'" by auto
  have "own - {p} - snd ` set es = own - snd ` set (e # es)" by auto
  with s' s1 p(2) show ?case by (simp add: after_reset_step)
qed

lemma tq_reset_spec:
  assumes inv: "tq_inv (snd ` set es) s" and es: "distinct (map snd es)" and now: "0 < now" "now < 2 ^ 61"
    and clk: "clock_ok clk" and arm: "arm_inv False s"
  shows "\<exists>s'. tq_reset clk es now s = Inr s' \<and> tq_inv {} s' \<and> arm_inv True s'
     \<and> theap s' = after_reset (cancelingTimers s) now (snd ` set es) (theap s)
     \<and> callingExpiredTimers s' = callingExpiredTimers s"
proof -
  from resetEntries_spec [OF inv subset_refl es now] arm obtain s1 where s1:
    "resetEntries es now s = Inr s1" "tq_inv {} s1"
    "theap s1 = after_reset (cancelingTimers s) now (snd ` set es) (theap s)"
    "callingExpiredTimers s1 = callingExpiredTimers s" "arm_inv False s1" by auto
  show ?thesis
  proof (cases "timers s1")
    case Nil
    then show ?thesis
      using s1 by (simp add: tq_reset_def timestamp_invalid_def timestamp_valid_def arm_inv_def)
  next
    case (Cons e es')
    obtain t p where e: "e = (t, p)" by (cases e)
    with Cons tq_invD(4) [OF s1(2), of t p] obtain tm where tm: "theap s1 p = Some tm" "expiration tm = t" by auto
    show ?thesis
    proof (cases "t > 0")
      case True
      have "time_ok t" using tq_invD(9) [OF s1(2) tm(1)] tm(2) by (simp add: timer_ok_def)
      from resetTimerfd_arms [OF clk this, of s1] obtain s' a k where s':
        "resetTimerfd clk t s1 = Inr s'" "armed_for t s'" "s' = s1\<lparr>ticks := k, armed := a\<rparr>" by blast
      have "tq_inv {} s'" by (rule tq_inv_frame [OF s1(2)]) (simp_all add: s'(3))
      with s' True Cons e tm s1 show ?thesis
        by (simp add: tq_reset_def timer_deref_def timestamp_valid_def arm_inv_def)
    next
      case False
      then have "arm_inv True s1" using s1(5) Cons e by (simp add: arm_inv_def)
      with False Cons e tm s1 show ?thesis
        by (simp add: tq_reset_def timer_deref_def timestamp_valid_def)
    qed
  qed
qed

lemma handleRead_spec:
  assumes inv: "tq_inv {} s" and clk: "clock_ok clk" and al: "alloc_ok alloc" and act: "act_ok act"
  defines "now \<equiv> clk (ticks s)"
  shows "completes (\<lambda>(s', cbs). tq_inv {} s' \<and> arm_inv True s' \<and> \<not> callingExpiredTimers s'
       \<and> cbs = map (\<lambda>e. callback (the (theap s (snd e)))) (due now s)
       \<and> (\<exists>s1 s2. s1 = (expired_out now (readTimerfd (s\<lparr>ticks := Suc (ticks s)\<rparr>)))
                \<lparr>callingExpiredTimers := True, cancelingTimers := {}\<rparr>
            \<and> runExpired alloc clk act (due now s) s1 = Inr (s2, cbs)
            \<and> keeps (snd ` set (due now s)) False s1 s2
            \<and> theap s' = after_reset (cancelingTimers s2) now (snd ` set (due now s)) (theap s2)))
     (tq_handleRead alloc clk act s)"
proof -
  have now: "0 < now" "now < 2 ^ 61" using clk by (auto simp: clock_ok_def now_def)
  let ?s0 = "readTimerfd (s\<lparr>ticks := Suc (ticks s)\<rparr>)"
  let ?s1 = "(expired_out now ?s0)\<lparr>callingExpiredTimers := True, cancelingTimers := {}\<rparr>"
  let ?E = "due now s"
  have inv0: "tq_inv {} ?s0" by (rule tq_inv_frame [OF inv]) (simp_all add: readTimerfd_def)
  have E: "due now ?s0 = ?E" "theap ?s1 = theap s"
    by (simp_all add: due_def readTimerfd_def expired_out_def)
  note get = getExpired_spec [OF inv0, of now, unfolded E]
  have inv1: "tq_inv (snd ` set ?E) ?s1"
    by (rule tq_inv_frame [OF expired_out_inv [OF inv0, of now, unfolded E(1) Un_empty_left]]) simp_all
  have dist: "distinct (map snd ?E)"
    unfolding due_def using tq_invD(2) [OF inv] by (rule distinct_map_filter)
  have arm1: "arm_inv False ?s1"
  proof -
    have "now < fst (hd (timers ?s1))" if "timers ?s1 \<noteq> []"
      using hd_in_set [OF that] by (simp add: expired_out_def)
    with now show ?thesis by (fastforce simp: arm_inv_def)
  qed
  note run = runExpired_spec [OF inv1 clk al act subset_refl, of False]
  have step: "completes (\<lambda>(s', cbs). tq_inv {} s' \<and> arm_inv True s' \<and> \<not> callingExpiredTimers s'
       \<and> cbs = map (\<lambda>e. callback (the (theap s (snd e)))) ?E
       \<and> (\<exists>s1 s2. s1 = ?s1 \<and> runExpired alloc clk act ?E s1 = Inr (s2, cbs)
            \<and> keeps (snd ` set ?E) False s1 s2
            \<and> theap s' = after_reset (cancelingTimers s2) now (snd ` set ?E) (theap s2)))
     (rbind (tq_reset clk ?E now (s2\<lparr>callingExpiredTimers := False\<rparr>)) (\<lambda>s3. Inr (s3, cbs)))"
    if r: "runExpired alloc clk act ?E ?s1 = Inr (s2, cbs)" and k: "keeps (snd ` set ?E) False ?s1 s2"
      and c: "cbs = map (\<lambda>e. callback (the (theap s (snd e)))) ?E" for s2 cbs
  proof -
    have "tq_inv (snd ` set ?E) (s2\<lparr>callingExpiredTimers := False\<rparr>)"
      by (rule tq_inv_frame [OF keeps_inv [OF k]]) simp_all
    moreover have "arm_inv False (s2\<lparr>callingExpiredTimers := False\<rparr>)"
      using k arm1 by (simp add: keeps_def arm_inv_def armed_for_def)
    ultimately obtain s' where "tq_reset clk ?E now (s2\<lparr>callingExpiredTimers := False\<rparr>) = Inr s'"
        "tq_inv {} s'" "arm_inv True s'" "\<not> callingExpiredTimers s'"
        "theap s' = after_reset (cancelingTimers s2) now (snd ` set ?E) (theap s2)"
      using tq_reset_spec [OF _ dist now clk, of "s2\<lparr>callingExpiredTimers := False\<rparr>"] by auto
    with r k c show ?thesis by (auto intro!: completes_Inr)
  qed
  have eq: "tq_handleRead alloc clk act s = rbind (runExpired alloc clk act ?E ?s1) (\<lambda>(s2, cbs).
      rbind (tq_reset clk ?E now (s2\<lparr>callingExpiredTimers := False\<rparr>)) (\<lambda>s3. Inr (s3, cbs)))"
    using get by (simp add: tq_handleRead_def Let_def now_def)
  consider (fail) "runExpired alloc clk act ?E ?s1 = Inl (Exception ''bad_alloc'')"
    | (ran) s2 cbs where "runExpired alloc clk act ?E ?s1 = Inr (s2, cbs)" "keeps (snd ` set ?E) False ?s1 s2"
        "cbs = map (\<lambda>e. callback (the (theap s (snd e)))) ?E"
    using run unfolding completes_def E(2) by auto
  then show ?thesis
  proof cases
    case fail
    then show ?thesis unfolding eq by (simp add: completes_def)
  next
    case ran
    then show ?thesis using step [OF ran] unfolding eq by simp
  qed
qed

lemma deleteAll_spec:
  "distinct (map snd es) \<Longrightarrow> snd ` set es \<subseteq> dom (theap s) \<Longrightarrow>
   deleteAll es s = Inr (s\<lparr>theap := (\<lambda>p. if p \<in> snd ` set es then None else theap s p)\<rparr>)"
proof (induction es arbitrary: s)
  case (Cons e es)
  obtain t p where e [simp]: "e = (t, p)" by (cases e)
  let ?s = "s\<lparr>theap := (theap s)(p := None)\<rparr>"
  have "deleteAll es ?s = Inr (?s\<lparr>theap := (\<lambda>q. if q \<in> snd ` set es then None else theap ?s q)\<rparr>)"
  proof (rule Cons.IH)
    show "distinct (map snd es)" using Cons.prems(1) by simp
    show "snd ` set es \<subseteq> dom (theap ?s)" using Cons.prems by (simp add: subset_Diff_insert)
  qed
  moreover have "(\<lambda>q. if q \<in> snd ` set es then None else theap ?s q)
      = (\<lambda>q. if q \<in> snd ` set (e # es) then None else theap s q)" by (simp add: fun_eq_iff)
  moreover have "deleteAll (e # es) s = deleteAll es ?s"
    using Cons.prems by (auto simp: timer_delete_def timer_deref_def)
  ultimately show ?case by simp
qed simp

section \<open>Cancellation from inside the callbacks\<close>

lemma tq_insert_canceling: "tq_insert p s = Inr (s', b) \<Longrightarrow> cancelingTimers s' = cancelingTimers s"
  by (auto simp: tq_insert_def Let_def res_simps)

lemma resetTimerfd_canceling: "resetTimerfd clk t s = Inr s' \<Longrightarrow> cancelingTimers s' = cancelingTimers s"
  by (auto simp: resetTimerfd_def timerfd_settime_def Let_def res_simps split: if_splits)

lemma addTimerInLoop_canceling: "addTimerInLoop clk p s = Inr s' \<Longrightarrow> cancelingTimers s' = cancelingTimers s"
  by (auto simp: addTimerInLoop_def res_simps split: if_splits dest: tq_insert_canceling resetTimerfd_canceling)

lemma addTimer_canceling:
  assumes "addTimer alloc clk cb w r us s = Inr (s', x)"
  shows "cancelingTimers s' = cancelingTimers s"
proof -
  from assms obtain p where "addTimerInLoop clk p (s\<lparr>theap := (theap s)(p \<mapsto> newTimer cb w r us (numCreated s + 1)),
      numCreated := numCreated s + 1\<rparr>) = Inr s'"
    by (auto simp: addTimer_def allocTimer_def Let_def res_simps split: option.splits)
  from addTimerInLoop_canceling [OF this] show ?thesis by simp
qed

lemma cancel_canceling:
  "cancelInLoop tid s = Inr s' \<Longrightarrow> cancelingTimers s' \<subseteq> insert tid (cancelingTimers s)"
  by (auto simp: cancelInLoop_def timer_delete_def Let_def res_simps split: if_splits)

lemma run_cmds_canceling:
  "run_cmds alloc clk cs s = Inr s' \<Longrightarrow>
   cancelingTimers s' \<subseteq> cancelingTimers s \<union> {tid. CancelTimer tid \<in> set cs}"
proof (induction alloc clk cs s rule: run_cmds.induct)
  case (2 alloc clk cb w r us cs s)
  then obtain s1 x where s1: "addTimer alloc clk cb w r us s = Inr (s1, x)" "run_cmds alloc clk cs s1 = Inr s'"
    by (auto simp: res_simps)
  from 2(1) [OF s1(2)] addTimer_canceling [OF s1(1)] show ?case by auto
next
  case (3 alloc clk tid cs s)
  then obtain s1 where s1: "cancelInLoop tid s = Inr s1" "run_cmds alloc clk cs s1 = Inr s'"
    by (auto simp: res_simps)
  from 3(1) [OF s1(2)] cancel_canceling [OF s1(1)] show ?case by auto
qed simp

lemma owned_not_active: "tq_inv own s \<Longrightarrow> fst tid \<in> own \<Longrightarrow> tid \<notin> activeTimers s"
  using tq_inv_active [of own s "fst tid" "snd tid"] tq_invD(6) [of own s] by (cases tid) force

lemma run_cmds_records:
  assumes "tq_inv own s" "clock_ok clk" "alloc_ok alloc" "list_all cmd_ok cs" "callingExpiredTimers s"
    "fst tid \<in> own" "CancelTimer tid \<in> set cs" "run_cmds alloc clk cs s = Inr s'"
  shows "tid \<in> cancelingTimers s'"
  using assms
proof (induction cs arbitrary: s)
  case (Cons c cs)
  have ok: "list_all cmd_ok cs" using Cons.prems(4) by simp
  obtain s1 where s1: "run_cmds alloc clk [c] s = Inr s1" "run_cmds alloc clk cs s1 = Inr s'"
    using Cons.prems(8) by (cases c) (auto simp: res_simps split: prod.splits)
  have k: "keeps own True s s1"
    using run_cmds_spec [OF Cons.prems(1-3), of "[c]" True] Cons.prems(4) s1(1) by (auto simp: completes_def)
  have k': "keeps own True s1 s'"
    using run_cmds_spec [OF keeps_inv [OF k] Cons.prems(2,3) ok, of True] s1(2) by (auto simp: completes_def)
  show ?case
  proof (cases "c = CancelTimer tid")
    case True
    from cancel_spec [OF Cons.prems(1), of tid True] owned_not_active [OF Cons.prems(1,6)] Cons.prems(5) s1(1) True
    have "tid \<in> cancelingTimers s1" by auto
    then show ?thesis using k' by (auto simp: keeps_def)
  next
    case False
    then show ?thesis
      using Cons.IH [OF keeps_inv [OF k] Cons.prems(2,3) ok] Cons.prems(5-7) k s1(2) by (auto simp: keeps_def)
  qed
qed simp

lemma runExpired_cancels:
  assumes "tq_inv own s" "clock_ok clk" "alloc_ok alloc" "act_ok act" "snd ` set es \<subseteq> own"
    "callingExpiredTimers s" "runExpired alloc clk act es s = Inr (s', cbs)"
  shows "(fst tid \<in> own \<and> c \<in> set cbs \<and> (\<forall>s. CancelTimer tid \<in> set (act c s)) \<longrightarrow> tid \<in> cancelingTimers s') \<and>
     (tid \<in> cancelingTimers s' \<longrightarrow> tid \<in> cancelingTimers s \<or> (\<exists>c s. CancelTimer tid \<in> set (act c s)))"
  using assms
proof (induction es arbitrary: s cbs)
  case (Cons e es)
  obtain t p where e [simp]: "e = (t, p)" by (cases e)
  from Cons.prems(7) obtain tm s1 cbs' where r: "theap s p = Some tm"
    "run_cmds alloc clk (act (callback tm) s) s = Inr s1" "runExpired alloc clk act es s1 = Inr (s', cbs')"
    "cbs = callback tm # cbs'"
    by (auto simp: timer_deref_def res_simps split: option.splits)
  have ok: "list_all cmd_ok (act (callback tm) s)" using Cons.prems(4) by (simp add: act_ok_def)
  have k: "keeps own True s s1"
    using run_cmds_spec [OF Cons.prems(1-3) ok, of True] r(2) by (auto simp: completes_def)
  have sub: "snd ` set es \<subseteq> own" using Cons.prems(5) by simp
  have call: "callingExpiredTimers s1" using k Cons.prems(6) by (simp add: keeps_def)
  have k': "keeps own True s1 s'"
    using runExpired_spec [OF keeps_inv [OF k] Cons.prems(2-4) sub, of True] r(3) by (auto simp: completes_def)
  note IH = Cons.IH [OF keeps_inv [OF k] Cons.prems(2-4) sub call r(3)]
  have "tid \<in> cancelingTimers s1" if "fst tid \<in> own" "\<forall>s. CancelTimer tid \<in> set (act (callback tm) s)"
    by (rule run_cmds_records [OF Cons.prems(1-3) ok Cons.prems(6) that(1) _ r(2)]) (use that(2) in simp)
  then have "tid \<in> cancelingTimers s'" if "fst tid \<in> own" "\<forall>s. CancelTimer tid \<in> set (act (callback tm) s)"
    using that k' by (auto simp: keeps_def)
  with IH run_cmds_canceling [OF r(2)] show ?case unfolding r(4) by auto
qed auto

section \<open>Properties\<close>

text \<open>
  A history of the queue: calls of \<open>addTimer\<close> and \<open>cancel\<close> from the loop, and alarms of the
  timer descriptor.
\<close>

datatype tq_event = Call timer_cmd | Alarm

fun run_events ::
  "((nat \<rightharpoonup> timer) \<Rightarrow> nat option) \<Rightarrow> (nat \<Rightarrow> int) \<Rightarrow> (nat \<Rightarrow> timer_queue \<Rightarrow> timer_cmd list)
     \<Rightarrow> tq_event list \<Rightarrow> timer_queue \<Rightarrow> timer_queue res" where
  "run_events alloc clk act [] s = Inr s"
| "run_events alloc clk act (Call c # es) s =
     rbind (run_cmds alloc clk [c] s) (run_events alloc clk act es)"
| "run_events alloc clk act (Alarm # es) s =
     rbind (tq_handleRead alloc clk act s) (\<lambda>(s', _). run_events alloc clk act es s')"

fun event_ok :: "tq_event \<Rightarrow> bool" where
  "event_ok (Call c) = cmd_ok c"
| "event_ok Alarm = True"

definition tq_good :: "timer_queue \<Rightarrow> bool" where
  "tq_good s \<longleftrightarrow> tq_inv {} s \<and> arm_inv True s"

lemma run_events_good:
  assumes "clock_ok clk" "alloc_ok alloc" "act_ok act" "tq_good s" "list_all event_ok es"
  shows "completes tq_good (run_events alloc clk act es s)"
  using assms(4,5)
proof (induction es arbitrary: s)
  case Nil
  then show ?case by (simp add: completes_Inr)
next
  case (Cons e es)
  show ?case
  proof (cases e)
    case (Call c)
    have "completes (keeps {} True s) (run_cmds alloc clk [c] s)"
      using Cons.prems Call assms(1,2) by (intro run_cmds_spec) (auto simp: tq_good_def)
    then have "completes tq_good (run_cmds alloc clk [c] s)"
      using Cons.prems(1) by (auto simp: completes_def keeps_def tq_good_def)
    then show ?thesis using Cons Call unfolding Call run_events.simps
      by (elim completes_bind) simp
  next
    case Alarm
    have "completes (\<lambda>(s', _). tq_good s') (tq_handleRead alloc clk act s)"
      using handleRead_spec [of s clk alloc act] Cons.prems assms(1-3)
      by (auto simp: completes_def tq_good_def)
    then show ?thesis unfolding Alarm run_events.simps
      by (rule completes_bind) (use Cons Alarm in auto)
  qed
qed

text \<open>
  C5. Memory safety and liveness of the timer queue. Any history of \<open>addTimer\<close>, \<open>cancel\<close> and
  alarms on a fresh queue, with callbacks that themselves add and cancel timers, XX: no assertion fails, no freed timer is read or freed again and no time
  overflows. Afterwards the heap holds exactly the timers that are in the queue, the two sets
  describe the same timers, the descriptor is armed no later than the earliest timer (or 100
  microseconds after it was set), and the destructor frees every timer.
\<close>

theorem timer_queue_safe:
  assumes "clock_ok clk" "alloc_ok alloc" "act_ok act" "list_all event_ok es"
    "run_events alloc clk act es newTimerQueue \<noteq> Inl (Exception ''bad_alloc'')"
  shows "\<exists>s. run_events alloc clk act es newTimerQueue = Inr s
     \<and> sorted (timers s)
     \<and> set (timers s) = {(expiration tm, p) | p tm. theap s p = Some tm}
     \<and> activeTimers s = {(p, sequence tm) | p tm. theap s p = Some tm}
     \<and> (timers s \<noteq> [] \<longrightarrow> armed_for (fst (hd (timers s))) s)
     \<and> (\<exists>s'. destroyTimerQueue s = Inr s' \<and> theap s' = Map.empty)"
proof -
  have "tq_good newTimerQueue" using tq_inv_new by (simp add: tq_good_def arm_inv_def newTimerQueue_def)
  from run_events_good [OF assms(1-3) this assms(4)] completes_total assms(5)
  obtain s where s: "run_events alloc clk act es newTimerQueue = Inr s" "tq_inv {} s" "arm_inv True s"
    unfolding tq_good_def by blast
  note d = tq_invD [OF s(2)]
  have T: "(t, p) \<in> set (timers s) \<longleftrightarrow> (\<exists>tm. theap s p = Some tm \<and> expiration tm = t)" for t p
  proof
    assume "\<exists>tm. theap s p = Some tm \<and> expiration tm = t"
    then obtain tm where tm: "theap s p = Some tm" "expiration tm = t" by blast
    then obtain t' where "(t', p) \<in> set (timers s)" using d(7) by force
    with d(4) [of t' p] tm show "(t, p) \<in> set (timers s)" by auto
  qed (rule d(4))
  then have "set (timers s) = {(expiration tm, p) | p tm. theap s p = Some tm}" by auto
  moreover have "activeTimers s = {(p, sequence tm) | p tm. theap s p = Some tm}"
    using tq_inv_active [OF s(2)] tq_inv_member [OF s(2)] T by fastforce
  moreover have "destroyTimerQueue s = Inr (s\<lparr>theap := Map.empty\<rparr>)"
  proof -
    have "(\<lambda>p. if p \<in> snd ` set (timers s) then None else theap s p) = Map.empty"
      using d(7) by (auto simp: fun_eq_iff)
    with deleteAll_spec [OF d(2), of s] d(7) show ?thesis by (simp add: destroyTimerQueue_def)
  qed
  ultimately show ?thesis using s(1,3) d(1) by (simp add: arm_inv_def)
qed

text \<open>
  An alarm runs the callbacks of exactly the timers whose time has come, in the order of
  expiration (ties by address). A repeating timer is queued again at the time of the alarm plus
  its interval, unless a callback of this alarm cancelled it; a timer that does not repeat or was
  cancelled is freed. \<open>cancelled\<close> holds every due timer that one of the callbacks that ran
  cancels, and nothing that no callback cancels.
\<close>

theorem handleRead_expired:
  assumes "clock_ok clk" "alloc_ok alloc" "act_ok act" "tq_inv {} s"
    "tq_handleRead alloc clk act s \<noteq> Inl (Exception ''bad_alloc'')"
  shows "\<exists>s' cbs cancelled. tq_handleRead alloc clk act s = Inr (s', cbs)
     \<and> cbs = map (\<lambda>(t, p). callback (the (theap s p))) (filter (\<lambda>(t, p). t \<le> clk (ticks s)) (timers s))
     \<and> (\<forall>t p tm. (t, p) \<in> set (timers s) \<and> t \<le> clk (ticks s) \<and> theap s p = Some tm \<longrightarrow>
          theap s' p = (if repeat tm \<and> (p, sequence tm) \<notin> cancelled
                        then Some (tm\<lparr>expiration := clk (ticks s) + interval_us tm\<rparr>) else None)
          \<and> (\<forall>c \<in> set cbs. (\<forall>s. CancelTimer (p, sequence tm) \<in> set (act c s)) \<longrightarrow> (p, sequence tm) \<in> cancelled))
     \<and> (\<forall>tid \<in> cancelled. \<exists>c s. CancelTimer tid \<in> set (act c s))"
proof -
  let ?E = "due (clk (ticks s)) s"
  from completes_total [OF handleRead_spec [OF assms(4,1,2,3)] assms(5)] obtain s' cbs s1 s2 where r:
    "tq_handleRead alloc clk act s = Inr (s', cbs)"
    "cbs = map (\<lambda>e. callback (the (theap s (snd e)))) ?E"
    "s1 = (expired_out (clk (ticks s)) (readTimerfd (s\<lparr>ticks := Suc (ticks s)\<rparr>)))
       \<lparr>callingExpiredTimers := True, cancelingTimers := {}\<rparr>"
    "keeps (snd ` set ?E) False s1 s2"
    "theap s' = after_reset (cancelingTimers s2) (clk (ticks s)) (snd ` set ?E) (theap s2)"
    "runExpired alloc clk act ?E s1 = Inr (s2, cbs)" by auto
  have s1: "theap s1 = theap s" "callingExpiredTimers s1" "cancelingTimers s1 = {}"
    using r(3) by (simp_all add: expired_out_def readTimerfd_def)
  then have keep: "theap s2 p = theap s p" if "p \<in> snd ` set ?E" for p
    using r(4) that unfolding keeps_def by metis
  have inv0: "tq_inv {} (readTimerfd (s\<lparr>ticks := Suc (ticks s)\<rparr>))"
    by (rule tq_inv_frame [OF assms(4)]) (simp_all add: readTimerfd_def)
  have "due (clk (ticks s)) (readTimerfd (s\<lparr>ticks := Suc (ticks s)\<rparr>)) = ?E"
    by (simp add: due_def readTimerfd_def)
  with expired_out_inv [OF inv0, of "clk (ticks s)"]
  have "tq_inv (snd ` set ?E) s1" unfolding r(3) by (simp add: tq_inv_def)
  note canc = runExpired_cancels [OF this assms(1-3) subset_refl s1(2) r(6), unfolded s1(3)]
  have "theap s' p = (if repeat tm \<and> (p, sequence tm) \<notin> cancelingTimers s2
        then Some (tm\<lparr>expiration := clk (ticks s) + interval_us tm\<rparr>) else None)
      \<and> (\<forall>c \<in> set cbs. (\<forall>s. CancelTimer (p, sequence tm) \<in> set (act c s)) \<longrightarrow> (p, sequence tm) \<in> cancelingTimers s2)"
    if "(t, p) \<in> set (timers s)" "t \<le> clk (ticks s)" "theap s p = Some tm" for t p tm
  proof -
    have p: "p \<in> snd ` set ?E" using that by (force simp: due_def)
    with keep [OF this] that(3) have "theap s' p = (if repeat tm \<and> (p, sequence tm) \<notin> cancelingTimers s2
        then Some (tm\<lparr>expiration := clk (ticks s) + interval_us tm\<rparr>) else None)"
      by (simp add: r(5) after_reset_def rearms_def)
    moreover have "\<forall>c \<in> set cbs. (\<forall>s. CancelTimer (p, sequence tm) \<in> set (act c s)) \<longrightarrow> (p, sequence tm) \<in> cancelingTimers s2"
      using canc [of "(p, sequence tm)"] p by auto
    ultimately show ?thesis by blast
  qed
  moreover have "cbs = map (\<lambda>(t, p). callback (the (theap s p))) (filter (\<lambda>(t, p). t \<le> clk (ticks s)) (timers s))"
    unfolding r(2) due_def by (simp add: case_prod_beta')
  moreover have "\<forall>tid \<in> cancelingTimers s2. \<exists>c s. CancelTimer tid \<in> set (act c s)"
    using canc by blast
  ultimately show ?thesis using r(1) by blast
qed

text \<open>Concrete parameters: three cells of memory, a clock that stands at 100 microseconds and
  callbacks that cancel the timer at address 1.\<close>

definition small_alloc :: "(nat \<rightharpoonup> timer) \<Rightarrow> nat option" where
  "small_alloc h = (if h 1 = None then Some 1 else if h 2 = None then Some 2
     else if h 3 = None then Some 3 else None)"

lemma small_alloc_ok: "alloc_ok small_alloc"
  by (auto simp: alloc_ok_def small_alloc_def UINTPTR_MAX_def split: if_splits)

lemmas tq_eval = newTimerQueue_def addTimer_def allocTimer_def small_alloc_def addTimerInLoop_def tq_insert_def
  timer_deref_def timer_delete_def resetTimerfd_def howMuchTimeFromNow_def timerfd_settime_def ck64_def in_i64_def
  kMicroSecondsPerSecond_def newTimer_def cancelInLoop_def tq_handleRead_def readTimerfd_def getExpired_def
  tq_reset_def restart_def addTime_def timestamp_invalid_def timestamp_valid_def UINTPTR_MAX_def less_prod_def
  Let_def

definition sample_events :: "tq_event list" where
  "sample_events = [Call (AddTimer 7 50 True 10), Call (AddTimer 8 200 False 0), Alarm, Call (CancelTimer (2, 2))]"

lemma sample_runs:
  "\<exists>s. run_events small_alloc (\<lambda>_. 100) (\<lambda>_ _. [CancelTimer (1, 1)]) sample_events newTimerQueue = Inr s
     \<and> timers s = []"
  by (simp add: tq_eval sample_events_def)

theorem timer_queue_safe_witness:
  "\<exists>s s'. run_events small_alloc (\<lambda>_. 100) (\<lambda>_ _. [CancelTimer (1, 1)]) sample_events newTimerQueue = Inr s
     \<and> destroyTimerQueue s = Inr s' \<and> theap s' = Map.empty"
  using timer_queue_safe [of "\<lambda>_. 100" small_alloc "\<lambda>_ _. [CancelTimer (1, 1)]" sample_events]
    small_alloc_ok sample_runs
  by (auto simp: clock_ok_def act_ok_def sample_events_def time_ok_def)

definition sample_timer :: timer where
  "sample_timer = newTimer 7 50 True 10 1"

definition sample_queue :: timer_queue where
  "sample_queue = newTimerQueue\<lparr>theap := [1 \<mapsto> sample_timer], timers := [(50, 1)], activeTimers := {(1, 1)}\<rparr>"

lemma sample_queue_inv: "tq_inv {} sample_queue"
  by (simp add: tq_inv_def sample_queue_def newTimerQueue_def sample_timer_def newTimer_def activeOf_def
      UINTPTR_MAX_def timer_ok_def time_ok_def)

lemma sample_handleRead:
  "tq_handleRead small_alloc (\<lambda>_. 100) (\<lambda>_ _. []) sample_queue \<noteq> Inl (Exception ''bad_alloc'')"
  by (simp add: tq_eval sample_queue_def sample_timer_def)

theorem handleRead_expired_witness:
  "\<exists>s'. tq_handleRead small_alloc (\<lambda>_. 100) (\<lambda>_ _. []) sample_queue = Inr (s', [7])
     \<and> theap s' 1 = Some (sample_timer\<lparr>expiration := 110\<rparr>)"
  using handleRead_expired [of "\<lambda>_. 100" small_alloc "\<lambda>_ _. []", OF _ small_alloc_ok _ sample_queue_inv sample_handleRead]
  by (auto simp: clock_ok_def act_ok_def sample_queue_def newTimerQueue_def sample_timer_def newTimer_def)

end
