(* ===== verification/EventLoop.thy ===== *)
theory EventLoop
  imports Prelude
begin

text \<open>
  The event loop (\<open>muduo/net/EventLoop.h\<close>, \<open>EventLoop.cc\<close>): the queue of pending functors with
  its wake-up descriptor, and the rounds of \<open>loop()\<close>. What a functor or a channel callback does
  is a parameter (\<open>exec\<close>, \<open>handle\<close>) on the state of the loop, which carries the rest of the
  program in its field \<open>world\<close>; the result of the multiplexer (\<open>poll\<close>) is a parameter, too.
  An operation gets \<open>in_loop\<close>, the value of \<open>isInLoopThread()\<close>.

  The second half models the threads: the loop thread and the other threads take turns at the
  atomic steps of \<open>queueInLoop\<close>, \<open>handleRead\<close> and \<open>doPendingFunctors\<close>.
\<close>

section \<open>State and operations\<close>

record ('f, 'w) event_loop =
  looping :: bool
  quitFlag :: bool
  handlingEvents :: bool
  callingPendingFunctors :: bool
  iteration :: nat
  activeChannels :: "nat list"
  currentActiveChannel :: "nat option"
  pendingFunctors :: "'f list"
  wakeups :: nat
  world :: 'w

text \<open>\<open>wakeups\<close> is the counter of the \<open>eventfd\<close>: readable when positive, reset by a read.\<close>

definition newEventLoop :: "'w \<Rightarrow> ('f, 'w) event_loop" where
  "newEventLoop w = \<lparr>looping = False, quitFlag = False, handlingEvents = False, callingPendingFunctors = False,
     iteration = 0, activeChannels = [], currentActiveChannel = None, pendingFunctors = [], wakeups = 0,
     world = w\<rparr>"

definition assertInLoopThread :: "bool \<Rightarrow> 'a res \<Rightarrow> 'a res" where
  "assertInLoopThread in_loop r = (if in_loop then r else Inl Fatal)"

definition wakeup :: "('f, 'w) event_loop \<Rightarrow> ('f, 'w) event_loop" where
  "wakeup s = s\<lparr>wakeups := wakeups s + 1\<rparr>"

definition loop_handleRead :: "('f, 'w) event_loop \<Rightarrow> ('f, 'w) event_loop" where
  "loop_handleRead s = s\<lparr>wakeups := 0\<rparr>"

definition push_functor :: "'f \<Rightarrow> ('f, 'w) event_loop \<Rightarrow> ('f, 'w) event_loop" where
  "push_functor cb s = s\<lparr>pendingFunctors := pendingFunctors s @ [cb]\<rparr>"

definition queueInLoop :: "bool \<Rightarrow> 'f \<Rightarrow> ('f, 'w) event_loop \<Rightarrow> ('f, 'w) event_loop" where
  "queueInLoop in_loop cb s =
     (let s1 = push_functor cb s
      in if \<not> in_loop \<or> callingPendingFunctors s1 then wakeup s1 else s1)"

definition runInLoop ::
  "('f \<Rightarrow> ('f, 'w) event_loop \<Rightarrow> ('f, 'w) event_loop res) \<Rightarrow> bool \<Rightarrow> 'f \<Rightarrow> ('f, 'w) event_loop
     \<Rightarrow> ('f, 'w) event_loop res" where
  "runInLoop exec in_loop cb s = (if in_loop then exec cb s else Inr (queueInLoop in_loop cb s))"

definition queueSize :: "('f, 'w) event_loop \<Rightarrow> nat" where
  "queueSize s = length (pendingFunctors s)"

definition loop_quit :: "bool \<Rightarrow> ('f, 'w) event_loop \<Rightarrow> ('f, 'w) event_loop" where
  "loop_quit in_loop s = (let s1 = s\<lparr>quitFlag := True\<rparr> in if \<not> in_loop then wakeup s1 else s1)"

fun run_functors ::
  "('f \<Rightarrow> ('f, 'w) event_loop \<Rightarrow> ('f, 'w) event_loop res) \<Rightarrow> 'f list \<Rightarrow> ('f, 'w) event_loop
     \<Rightarrow> ('f, 'w) event_loop res" where
  "run_functors exec [] s = Inr s"
| "run_functors exec (f # fs) s = rbind (exec f s) (run_functors exec fs)"

definition doPendingFunctors ::
  "('f \<Rightarrow> ('f, 'w) event_loop \<Rightarrow> ('f, 'w) event_loop res) \<Rightarrow> ('f, 'w) event_loop
     \<Rightarrow> ('f, 'w) event_loop res" where
  "doPendingFunctors exec s =
     (let s1 = s\<lparr>callingPendingFunctors := True\<rparr>;
          functors = pendingFunctors s1;
          s2 = s1\<lparr>pendingFunctors := []\<rparr>
      in rbind (run_functors exec functors s2) (\<lambda>s3. Inr (s3\<lparr>callingPendingFunctors := False\<rparr>)))"

text \<open>\<open>EventLoop::removeChannel\<close> and \<open>updateChannel\<close>, before they call the multiplexer. \<open>own\<close> is
  \<open>channel->ownerLoop() == this\<close>.\<close>

definition updateChannel_guard :: "bool \<Rightarrow> bool \<Rightarrow> ('f, 'w) event_loop \<Rightarrow> unit res" where
  "updateChannel_guard own in_loop s = c_assert own (assertInLoopThread in_loop (Inr ()))"

definition removeChannel_guard :: "bool \<Rightarrow> bool \<Rightarrow> nat \<Rightarrow> ('f, 'w) event_loop \<Rightarrow> unit res" where
  "removeChannel_guard own in_loop ch s =
     c_assert own (assertInLoopThread in_loop
       (if handlingEvents s
        then c_assert (currentActiveChannel s = Some ch \<or> ch \<notin> set (activeChannels s)) (Inr ())
        else Inr ()))"

fun handle_active ::
  "(nat \<Rightarrow> ('f, 'w) event_loop \<Rightarrow> ('f, 'w) event_loop res) \<Rightarrow> nat list \<Rightarrow> ('f, 'w) event_loop
     \<Rightarrow> ('f, 'w) event_loop res" where
  "handle_active handle [] s = Inr s"
| "handle_active handle (ch # chs) s =
     rbind (handle ch (s\<lparr>currentActiveChannel := Some ch\<rparr>)) (handle_active handle chs)"

definition loop_round ::
  "(('f, 'w) event_loop \<Rightarrow> nat list) \<Rightarrow> (nat \<Rightarrow> ('f, 'w) event_loop \<Rightarrow> ('f, 'w) event_loop res)
     \<Rightarrow> ('f \<Rightarrow> ('f, 'w) event_loop \<Rightarrow> ('f, 'w) event_loop res) \<Rightarrow> ('f, 'w) event_loop
     \<Rightarrow> ('f, 'w) event_loop res" where
  "loop_round poll handle exec s =
     (let active = poll s;
          s1 = s\<lparr>activeChannels := active, iteration := Suc (iteration s), handlingEvents := True\<rparr>
      in rbind (handle_active handle active s1) (\<lambda>s2.
         doPendingFunctors exec (s2\<lparr>currentActiveChannel := None, handlingEvents := False\<rparr>)))"

text \<open>The loop runs until somebody calls \<open>quit\<close>, so it may not return: that is \<^const>\<open>None\<close>.\<close>

partial_function (option) loop_while ::
  "(('f, 'w) event_loop \<Rightarrow> nat list) \<Rightarrow> (nat \<Rightarrow> ('f, 'w) event_loop \<Rightarrow> ('f, 'w) event_loop res)
     \<Rightarrow> ('f \<Rightarrow> ('f, 'w) event_loop \<Rightarrow> ('f, 'w) event_loop res) \<Rightarrow> ('f, 'w) event_loop
     \<Rightarrow> ('f, 'w) event_loop res option" where
  "loop_while poll handle exec s =
     (if quitFlag s then Some (Inr s)
      else case loop_round poll handle exec s of
             Inl e \<Rightarrow> Some (Inl e)
           | Inr s' \<Rightarrow> loop_while poll handle exec s')"

definition loop ::
  "(('f, 'w) event_loop \<Rightarrow> nat list) \<Rightarrow> (nat \<Rightarrow> ('f, 'w) event_loop \<Rightarrow> ('f, 'w) event_loop res)
     \<Rightarrow> ('f \<Rightarrow> ('f, 'w) event_loop \<Rightarrow> ('f, 'w) event_loop res) \<Rightarrow> bool \<Rightarrow> ('f, 'w) event_loop
     \<Rightarrow> ('f, 'w) event_loop res option" where
  "loop poll handle exec in_loop s =
     (if looping s then Some (Inl AssertFail)
      else if \<not> in_loop then Some (Inl Fatal)
      else map_option (\<lambda>r. rbind r (\<lambda>s'. Inr (s'\<lparr>looping := False\<rparr>)))
             (loop_while poll handle exec (s\<lparr>looping := True, quitFlag := False\<rparr>)))"

section \<open>One thread\<close>

text \<open>
  A functor that only queues further functors, from the loop thread: \<open>spawn f\<close> lists them.
\<close>

fun queue_all :: "bool \<Rightarrow> 'f list \<Rightarrow> ('f, 'w) event_loop \<Rightarrow> ('f, 'w) event_loop" where
  "queue_all in_loop [] s = s"
| "queue_all in_loop (f # fs) s = queue_all in_loop fs (queueInLoop in_loop f s)"

text \<open>\<open>exec_spawn\<close> records the functors that ran, in order, in the world.\<close>

definition exec_spawn :: "('f \<Rightarrow> 'f list) \<Rightarrow> 'f \<Rightarrow> ('f, 'f list) event_loop \<Rightarrow> ('f, 'f list) event_loop res" where
  "exec_spawn spawn f s = Inr (queue_all True (spawn f) (s\<lparr>world := world s @ [f]\<rparr>))"

lemma queue_all_fields:
  "pendingFunctors (queue_all b fs s) = pendingFunctors s @ fs"
  "world (queue_all b fs s) = world s" "quitFlag (queue_all b fs s) = quitFlag s"
  "callingPendingFunctors (queue_all b fs s) = callingPendingFunctors s"
  "(\<not> b \<or> callingPendingFunctors s) \<Longrightarrow> wakeups (queue_all b fs s) = wakeups s + length fs"
  by (induction fs arbitrary: s) (simp_all add: queueInLoop_def push_functor_def wakeup_def Let_def)

lemma run_functors_spawn:
  assumes "callingPendingFunctors s"
  shows "\<exists>s'. run_functors (exec_spawn spawn) fs s = Inr s' \<and> world s' = world s @ fs
     \<and> pendingFunctors s' = pendingFunctors s @ concat (map spawn fs)
     \<and> wakeups s' = wakeups s + length (concat (map spawn fs)) \<and> quitFlag s' = quitFlag s"
  using assms
proof (induction fs arbitrary: s)
  case (Cons f fs)
  let ?s = "queue_all True (spawn f) (s\<lparr>world := world s @ [f]\<rparr>)"
  have "callingPendingFunctors ?s" using Cons.prems by (simp add: queue_all_fields)
  from Cons.IH [OF this] Cons.prems show ?case
    by (auto simp: exec_spawn_def queue_all_fields)
qed simp

text \<open>
  \<open>doPendingFunctors\<close> runs exactly the functors that were pending when it was called, once
  each and in the order they were queued. The functors they queue stay for the next round (so a
  functor that queues itself does not starve the channels), and the wake-up descriptor is then
  readable, so that the next poll does not block.
\<close>

theorem doPendingFunctors_rounds:
  "\<exists>s'. doPendingFunctors (exec_spawn spawn) s = Inr s'
     \<and> world s' = world s @ pendingFunctors s
     \<and> pendingFunctors s' = concat (map spawn (pendingFunctors s))
     \<and> wakeups s' = wakeups s + queueSize s'
     \<and> \<not> callingPendingFunctors s'"
proof -
  let ?s = "s\<lparr>callingPendingFunctors := True, pendingFunctors := []\<rparr>"
  from run_functors_spawn [of ?s spawn "pendingFunctors s"] obtain s' where
    "run_functors (exec_spawn spawn) (pendingFunctors s) ?s = Inr s'" "world s' = world s @ pendingFunctors s"
    "pendingFunctors s' = concat (map spawn (pendingFunctors s))"
    "wakeups s' = wakeups s + length (concat (map spawn (pendingFunctors s)))" by auto
  then show ?thesis by (simp add: doPendingFunctors_def Let_def queueSize_def)
qed

text \<open>Rounds until \<open>quit_\<close> is set.\<close>

fun rounds ::
  "(('f, 'w) event_loop \<Rightarrow> nat list) \<Rightarrow> (nat \<Rightarrow> ('f, 'w) event_loop \<Rightarrow> ('f, 'w) event_loop res)
     \<Rightarrow> ('f \<Rightarrow> ('f, 'w) event_loop \<Rightarrow> ('f, 'w) event_loop res) \<Rightarrow> nat \<Rightarrow> ('f, 'w) event_loop
     \<Rightarrow> ('f, 'w) event_loop res" where
  "rounds poll handle exec 0 s = Inr s"
| "rounds poll handle exec (Suc n) s =
     (if quitFlag s then Inr s else rbind (loop_round poll handle exec s) (rounds poll handle exec n))"

lemma loop_while_rounds:
  assumes "rounds poll handle exec n s = Inr s'" "quitFlag s'"
  shows "loop_while poll handle exec s = Some (Inr s')"
  using assms
proof (induction n arbitrary: s)
  case 0
  then show ?case by (subst loop_while.simps) simp
next
  case (Suc n)
  then show ?case
    by (subst loop_while.simps) (auto simp: res_simps split: if_splits sum.splits)
qed

text \<open>
  \<open>loop()\<close> returns as soon as a round has left \<open>quit_\<close> set, with the state of that round
  (every channel callback and every functor of the round has run), and it can be entered again;
  entering a running loop aborts.
\<close>

theorem loop_quits:
  assumes "rounds poll handle exec n (s\<lparr>looping := True, quitFlag := False\<rparr>) = Inr s'" "quitFlag s'" "\<not> looping s"
  shows "loop poll handle exec True s = Some (Inr (s'\<lparr>looping := False\<rparr>))
     \<and> loop poll handle exec True (s\<lparr>looping := True\<rparr>) = Some (Inl AssertFail)"
  using loop_while_rounds [OF assms(1,2)] assms(3) by (simp add: loop_def)

theorem loop_quits_witness:
  "loop (\<lambda>_. [4]) (\<lambda>ch s. Inr (queueInLoop True ch s)) (\<lambda>f s. Inr (loop_quit True s)) True (newEventLoop ())
    = Some (Inr ((newEventLoop ())\<lparr>quitFlag := True, iteration := 1, activeChannels := [4]\<rparr>))
   \<and> loop (\<lambda>_. [4]) (\<lambda>ch s. Inr (queueInLoop True ch s)) (\<lambda>f s. Inr (loop_quit True s)) True
      ((newEventLoop ())\<lparr>looping := True\<rparr>) = Some (Inl AssertFail)"
  using loop_quits [of "\<lambda>_. [4]" "\<lambda>ch s. Inr (queueInLoop True ch s)" "\<lambda>f s. Inr (loop_quit True s)" 1 "newEventLoop ()"
      "(newEventLoop ())\<lparr>looping := True, quitFlag := True, iteration := 1, activeChannels := [4]\<rparr>"]
  by (simp add: newEventLoop_def loop_round_def doPendingFunctors_def queueInLoop_def push_functor_def loop_quit_def
      Let_def)

section \<open>The loop thread and the others\<close>

text \<open>
  \<open>pc\<close> is where the loop thread is: outside of \<open>loop()\<close> (before it or after it has returned), in (or about to enter) \<open>poll\<close>, handling active
  channels, or in \<open>doPendingFunctors\<close> with the swapped-out functors it has still to run.
  \<open>in_flight\<close> counts the other threads that have pushed a functor in \<open>queueInLoop\<close> and not yet
  called \<open>wakeup\<close>. \<open>queued\<close> and \<open>ran\<close> record history: all functors ever queued, in the order they
  got the mutex, and the ones that have been started. \<open>quiet\<close> is history, too: since the last \<open>doPendingFunctors\<close> the loop thread itself has queued a functor outside
  of \<open>loop()\<close>, which \<open>queueInLoop\<close> does without a wake-up.
\<close>

datatype 'f loop_pc = Outside | Polling | Handling | Running "'f list"

record 'f threads =
  lp :: "('f, unit) event_loop"
  pc :: "'f loop_pc"
  in_flight :: nat
  queued :: "'f list"
  ran :: "'f list"
  quiet :: bool

definition newThreads :: "'f threads" where
  "newThreads = \<lparr>lp = newEventLoop (), pc = Outside, in_flight = 0, queued = [], ran = [], quiet = False\<rparr>"

inductive loop_step :: "'f threads \<Rightarrow> 'f threads \<Rightarrow> bool" where
  other_push: "loop_step s (s\<lparr>lp := push_functor f (lp s), in_flight := Suc (in_flight s), queued := queued s @ [f]\<rparr>)"
| other_wakeup: "in_flight s = Suc n \<Longrightarrow> loop_step s (s\<lparr>lp := wakeup (lp s), in_flight := n\<rparr>)"
| outside_queues: "pc s = Outside \<Longrightarrow>
    loop_step s (s\<lparr>lp := queueInLoop True f (lp s), queued := queued s @ [f], quiet := True\<rparr>)"
| loop_enters: "pc s = Outside \<Longrightarrow> loop_step s (s\<lparr>lp := (lp s)\<lparr>looping := True, quitFlag := False\<rparr>, pc := Polling\<rparr>)"
| anyone_quits: "loop_step s (s\<lparr>lp := loop_quit in_loop (lp s)\<rparr>)"
| loop_leaves: "pc s = Polling \<Longrightarrow> quitFlag (lp s) \<Longrightarrow> loop_step s (s\<lparr>lp := (lp s)\<lparr>looping := False\<rparr>, pc := Outside\<rparr>)"
| poll_returns: "pc s = Polling \<Longrightarrow> loop_step s (s\<lparr>pc := Handling\<rparr>)"
| wakeup_read: "pc s = Handling \<Longrightarrow> 0 < wakeups (lp s) \<Longrightarrow> loop_step s (s\<lparr>lp := loop_handleRead (lp s)\<rparr>)"
| callback_queues: "pc s = Handling \<Longrightarrow>
    loop_step s (s\<lparr>lp := queueInLoop True f (lp s), queued := queued s @ [f]\<rparr>)"
| swap_out: "pc s = Handling \<Longrightarrow>
    loop_step s (s\<lparr>lp := (lp s)\<lparr>callingPendingFunctors := True, pendingFunctors := []\<rparr>,
                   pc := Running (pendingFunctors (lp s)), quiet := False\<rparr>)"
| run_next: "pc s = Running (f # fs) \<Longrightarrow> loop_step s (s\<lparr>pc := Running fs, ran := ran s @ [f]\<rparr>)"
| functor_queues: "pc s = Running fs \<Longrightarrow>
    loop_step s (s\<lparr>lp := queueInLoop True f (lp s), queued := queued s @ [f]\<rparr>)"
| functors_done: "pc s = Running [] \<Longrightarrow>
    loop_step s (s\<lparr>lp := (lp s)\<lparr>callingPendingFunctors := False\<rparr>, pc := Polling\<rparr>)"

inductive loop_reach :: "'f threads \<Rightarrow> bool" where
  start: "loop_reach newThreads"
| step: "loop_reach s \<Longrightarrow> loop_step s s' \<Longrightarrow> loop_reach s'"

fun swapped :: "'f loop_pc \<Rightarrow> 'f list" where
  "swapped (Running fs) = fs"
| "swapped _ = []"

definition threads_inv :: "'f threads \<Rightarrow> bool" where
  "threads_inv s \<longleftrightarrow>
     (callingPendingFunctors (lp s) \<longleftrightarrow> (\<exists>fs. pc s = Running fs)) \<and>
     (pc s \<noteq> Handling \<and> pendingFunctors (lp s) \<noteq> [] \<longrightarrow> 0 < wakeups (lp s) \<or> 0 < in_flight s \<or> quiet s) \<and>
     (quiet s \<longrightarrow> (\<forall>fs. pc s \<noteq> Running fs)) \<and>
     ran s @ swapped (pc s) @ pendingFunctors (lp s) = queued s"

lemma threads_inv_step:
  assumes "loop_step s s'" "threads_inv s"
  shows "threads_inv s'"
  using assms
  by cases (auto simp: threads_inv_def push_functor_def wakeup_def loop_handleRead_def queueInLoop_def loop_quit_def Let_def)

lemma threads_inv_reach: "loop_reach s \<Longrightarrow> threads_inv s"
proof (induction rule: loop_reach.induct)
  case start
  then show ?case by (simp add: threads_inv_def newThreads_def newEventLoop_def)
next
  case (step s s')
  then show ?case by (blast intro: threads_inv_step)
qed

text \<open>The exception is real: a functor that the loop thread queues before it enters \<open>loop()\<close>.\<close>

lemma sleeps_on_functor:
  "\<exists>s. loop_reach s \<and> pc s = Polling \<and> wakeups (lp s) = 0 \<and> in_flight s = 0 \<and> pendingFunctors (lp s) = [f]"
proof -
  let ?s1 = "newThreads\<lparr>lp := queueInLoop True f (lp newThreads), queued := queued newThreads @ [f], quiet := True\<rparr>"
  let ?s2 = "?s1\<lparr>lp := (lp ?s1)\<lparr>looping := True, quitFlag := False\<rparr>, pc := Polling\<rparr>"
  have out: "pc newThreads = Outside" by (simp add: newThreads_def)
  have "loop_reach ?s1" by (rule loop_reach.step [OF start outside_queues [OF out]])
  then have "loop_reach ?s2" by (rule loop_reach.step [OF _ loop_enters]) (simp add: out)
  moreover have "pc ?s2 = Polling \<and> wakeups (lp ?s2) = 0 \<and> in_flight ?s2 = 0 \<and> pendingFunctors (lp ?s2) = [f]"
    by (simp add: newThreads_def newEventLoop_def queueInLoop_def push_functor_def Let_def)
  ultimately show ?thesis by blast
qed

text \<open>
  C6. No functor is lost and no wake-up is missed, whatever the interleaving of the loop thread
  with the threads that call \<open>queueInLoop\<close> and \<open>quit\<close>. The functors started so far, the ones swapped out and
  the ones still pending are together all the functors ever queued, in the order they were queued;
  and when the loop thread would block in \<open>poll\<close> with nothing to wake it (the \<open>eventfd\<close> not
  readable and no thread about to call \<open>wakeup\<close>), every functor ever queued has been run, unless the loop thread itself has queued one outside of \<open>loop()\<close> since it
  last ran functors. In that case the loop can indeed go to sleep on a queued functor.
\<close>

theorem no_lost_wakeup:
  assumes "loop_reach s"
  shows "ran s @ swapped (pc s) @ pendingFunctors (lp s) = queued s
     \<and> (pc s = Polling \<and> wakeups (lp s) = 0 \<and> in_flight s = 0 \<and> \<not> quiet s \<longrightarrow> ran s = queued s)
     \<and> (\<exists>s'. loop_reach s' \<and> pc s' = Polling \<and> wakeups (lp s') = 0 \<and> in_flight s' = 0 \<and> pendingFunctors (lp s') = [f])"
  using threads_inv_reach [OF assms] sleeps_on_functor [of f] by (auto simp: threads_inv_def)

definition sample_threads :: "nat threads" where
  "sample_threads = newThreads\<lparr>lp := push_functor 7 (lp newThreads), in_flight := 1, queued := [7]\<rparr>"

theorem no_lost_wakeup_witness:
  "loop_reach sample_threads \<and> ran sample_threads @ pendingFunctors (lp sample_threads) = [7]"
proof -
  have r: "loop_reach sample_threads"
    using loop_reach.step [OF start other_push [of newThreads "7 :: nat"]]
    by (simp add: sample_threads_def newThreads_def)
  with no_lost_wakeup [OF r, of 0, THEN conjunct1] show ?thesis by (simp add: sample_threads_def newThreads_def)
qed

end
