(* ===== verification/Framing.thy ===== *)
theory Framing
  imports Buffer
begin

text \<open>
  Messages on a byte stream. A reader is called with the input buffer of a connection whenever bytes have arrived, and takes the complete
  messages out of it. The locale \<open>framed_reader\<close> states what such a reader promises of one buffer, and shows that
  then the way the stream is cut into pieces does not matter. The sessions of the chat server and the codec of protocol
  buffers are such readers.
\<close>

text \<open>
  \<open>TcpConnection::handleRead\<close> appends what arrived to the input buffer and calls the message callback, once for each chunk.
\<close>

fun feed_chunks :: "('s \<Rightarrow> buffer \<Rightarrow> ('s \<times> buffer) run) \<Rightarrow> string list \<Rightarrow> 's \<Rightarrow> buffer \<Rightarrow> ('s \<times> buffer) run" where
  "feed_chunks reader [] s buf = Some (Inr (s, buf))"
| "feed_chunks reader (c # cs) s buf =
     (case buf_append c buf of
        Inl e \<Rightarrow> Some (Inl e)
      | Inr b \<Rightarrow> obind (reader s b) (\<lambda>(s', b'). feed_chunks reader cs s' b'))"

locale framed_reader =
  fixes frame :: "'m \<Rightarrow> string"
    and incomplete :: "string \<Rightarrow> bool"
    and ok :: "'m \<Rightarrow> bool"
    and reader :: "'s \<Rightarrow> buffer \<Rightarrow> ('s \<times> buffer) run"
    and deliver :: "'s \<Rightarrow> 'm \<Rightarrow> 's"
  assumes incomplete_prefix: "incomplete (u @ v) \<Longrightarrow> incomplete u"
    and frame_prefix: "ok m \<Longrightarrow> frame m @ rest = u @ v \<Longrightarrow> length u < length (frame m) \<Longrightarrow> incomplete u"
    and frame_complete: "ok m \<Longrightarrow> \<not> incomplete (frame m @ rest)"
    and reads: "wf_buffer b \<Longrightarrow> contents b = concat (map frame ms) @ p \<Longrightarrow> incomplete p \<Longrightarrow> list_all ok ms \<Longrightarrow>
      \<exists>b'. reader s b = Some (Inr (foldl deliver s ms, b')) \<and> wf_buffer b' \<and> contents b' = p"
begin

lemma cut_stream:
  assumes "u @ v = concat (map frame ms) @ p" "incomplete p" "list_all ok ms"
  shows "\<exists>ms1 ms2 q. ms = ms1 @ ms2 \<and> u = concat (map frame ms1) @ q \<and> incomplete q
     \<and> q @ v = concat (map frame ms2) @ p"
  using assms(1,3)
proof (induction ms arbitrary: u)
  case Nil
  then have "incomplete u" using incomplete_prefix [of u v] assms(2) by simp
  with Nil show ?case by (intro exI [of _ "[]"] exI [of _ u]) simp
next
  case (Cons m ms)
  show ?case
  proof (cases "length u < length (frame m)")
    case True
    then have "incomplete u"
      using frame_prefix [of m "concat (map frame ms) @ p" u v] Cons.prems by simp
    with Cons.prems show ?thesis by (intro exI [of _ "[]"] exI [of _ "m # ms"] exI [of _ u]) simp
  next
    case False
    then have "take (length (frame m)) u = frame m"
      using arg_cong [OF Cons.prems(1), of "take (length (frame m))"] by simp
    then obtain u' where u: "u = frame m @ u'" by (metis append_take_drop_id)
    with Cons.prems(1) have u': "u = frame m @ u'" "u' @ v = concat (map frame ms) @ p" by simp_all
    from Cons.IH [OF u'(2)] Cons.prems(2) obtain ms1 ms2 q where
      "ms = ms1 @ ms2" "u' = concat (map frame ms1) @ q" "incomplete q" "q @ v = concat (map frame ms2) @ p" by auto
    with u'(1) show ?thesis by (intro exI [of _ "m # ms1"] exI [of _ ms2] exI [of _ q]) simp
  qed
qed

lemma feed_messages:
  assumes "wf_buffer buf" "incomplete (contents buf)" "contents buf @ concat chunks = concat (map frame ms) @ p"
    "incomplete p" "list_all ok ms"
  shows "\<exists>b. feed_chunks reader chunks s buf = Some (Inr (foldl deliver s ms, b)) \<and> wf_buffer b \<and> contents b = p"
  using assms(1,2,3,5)
proof (induction chunks arbitrary: s buf ms)
  case Nil
  have "ms = []"
  proof (rule ccontr)
    assume "ms \<noteq> []"
    then obtain m ms' where ms: "ms = m # ms'" by (cases ms) auto
    with Nil frame_complete [of m "concat (map frame ms') @ p"] show False by simp
  qed
  with Nil show ?case by simp
next
  case (Cons c cs)
  obtain b where b: "buf_append c buf = Inr b" "wf_buffer b" "contents b = contents buf @ c"
    using buf_append_spec [OF Cons.prems(1)] by blast
  obtain ms1 ms2 q where cut: "ms = ms1 @ ms2" "contents b = concat (map frame ms1) @ q" "incomplete q"
    "q @ concat cs = concat (map frame ms2) @ p"
    using cut_stream [of "contents b" "concat cs" ms p] Cons.prems(3,4) assms(4) b(3) by auto
  have oks: "list_all ok ms1" "list_all ok ms2" using Cons.prems(4) cut(1) by simp_all
  obtain b' where b': "reader s b = Some (Inr (foldl deliver s ms1, b'))" "wf_buffer b'" "contents b' = q"
    using reads [OF b(2) cut(2,3) oks(1)] by blast
  have "\<exists>b2. feed_chunks reader cs (foldl deliver s ms1) b' = Some (Inr (foldl deliver (foldl deliver s ms1) ms2, b2))
      \<and> wf_buffer b2 \<and> contents b2 = p"
    by (rule Cons.IH) (use b' cut oks in auto)
  with b(1) b'(1) cut(1) show ?case by auto
qed

end

end
