(* ===== verification/ClientFraming.thy ===== *)
theory ClientFraming
  imports Framing
begin

text \<open>
  How a session cuts the byte stream of a connection into messages: the loop of
  \<open>ClientSession::onRead\<close> (\<open>ClientSession.cpp\<close>). Each message is preceded by its length, a 32-bit integer
  in the byte order of the host (little-endian). The sum \<open>sizeof(int32_t) + packgeSize\<close> and the count
  given to \<open>assign\<close> are of type \<open>size_t\<close>, so a negative length is sign-extended and wraps. What is
  done with a message is the parameter \<open>process\<close>, on a state \<open>'s\<close>; the hex dump the loop prints is left
  out.
\<close>

section \<open>The loop\<close>

definition packgeSize_of :: "buffer \<Rightarrow> i32" where
  "packgeSize_of buf = bytes_word (take 4 (contents buf))"

definition needed_bytes :: "i32 \<Rightarrow> nat" where
  "needed_bytes packgeSize = unat (4 + scast packgeSize :: i64)"

text \<open>\<open>msg.assign(buf->peek(), packgeSize)\<close>.\<close>

definition msg_assign :: "buffer \<Rightarrow> i32 \<Rightarrow> string res" where
  "msg_assign buf packgeSize =
     (if unat (scast packgeSize :: i64) \<ge> 2 ^ 63 - 1 then Inl (Exception ''length_error'')
      else if unat (scast packgeSize :: i64) > readableBytes buf then Inl OutOfBounds
      else Inr (take (unat (scast packgeSize :: i64)) (contents buf)))"

definition take_message :: "buffer \<Rightarrow> (string \<times> buffer) option res" where
  "take_message buf =
     (if readableBytes buf < 4 then Inr None
      else let packgeSize = packgeSize_of buf
           in if readableBytes buf < needed_bytes packgeSize then Inr None
              else rbind (retrieve 4 buf) (\<lambda>b1.
                   rbind (msg_assign b1 packgeSize) (\<lambda>msg.
                   rbind (retrieve (unat (scast packgeSize :: i64)) b1) (\<lambda>b2. Inr (Some (msg, b2))))))"

partial_function (option) onRead ::
  "('s \<Rightarrow> string \<Rightarrow> (bool \<times> 's) run) \<Rightarrow> 's \<Rightarrow> buffer \<Rightarrow> ('s \<times> buffer) run" where
  "onRead process s buf =
     (case take_message buf of
        Inl e \<Rightarrow> Some (Inl e)
      | Inr None \<Rightarrow> Some (Inr (s, buf))
      | Inr (Some (msg, buf')) \<Rightarrow>
          (case process s msg of
             None \<Rightarrow> None
           | Some (Inl e) \<Rightarrow> Some (Inl e)
           | Some (Inr (ok, s')) \<Rightarrow> onRead process s' buf'))"

section \<open>One message\<close>

definition frame :: "string \<Rightarrow> string" where
  "frame msg = word_bytes (of_nat (length msg) :: i32) @ msg"

lemma scast_sint: "scast p = (word_of_int (sint p) :: i64)"
  by (rule of_int_sint [symmetric])

lemma scast_small:
  assumes "n < 2 ^ 31"
  shows "unat (scast (of_nat n :: i32) :: i64) = n" "needed_bytes (of_nat n) = 4 + n"
proof -
  have s: "scast (of_nat n :: i32) = (of_nat n :: i64)" using sint_of_nat_small [OF assms] by (simp add: scast_sint)
  show "unat (scast (of_nat n :: i32) :: i64) = n" unfolding s using assms by (simp add: unat_of_nat)
  have "4 + (of_nat n :: i64) = of_nat (4 + n)" by simp
  then show "needed_bytes (of_nat n) = 4 + n"
    unfolding needed_bytes_def s using assms by (simp only: unat_of_nat) simp
qed

lemma unat_word_of_neg:
  assumes "- (2 ^ 31) \<le> k" "k < 0"
  shows "unat (word_of_int k :: i64) = nat (2 ^ 64 + k)"
proof -
  have "k mod 2 ^ 64 = (2 ^ 64 + k) mod 2 ^ 64" by simp
  also have "\<dots> = 2 ^ 64 + k" using assms by (intro mod_pos_pos_trivial) auto
  finally have "uint (word_of_int k :: i64) = 2 ^ 64 + k" by (simp add: uint_word_of_int)
  then show ?thesis by (simp flip: nat_uint_eq)
qed

lemma scast_negative:
  assumes "sint (p :: i32) < 0"
  shows "unat (scast p :: i64) \<ge> 2 ^ 63"
    "needed_bytes p = (if - 4 \<le> sint p then nat (4 + sint p) else nat (2 ^ 64 + 4 + sint p))"
proof -
  have lo: "- (2 ^ 31) \<le> sint p" using sint_ge [of p] by simp
  then have "(2 :: int) ^ 63 \<le> 2 ^ 64 + sint p" by simp
  then have "int (2 ^ 63) \<le> 2 ^ 64 + sint p" by simp
  then show "unat (scast p :: i64) \<ge> 2 ^ 63"
    unfolding scast_sint unat_word_of_neg [OF lo assms] by (rule nat_mono [of "int (2 ^ 63)", unfolded nat_int])
  have sum: "needed_bytes p = unat (word_of_int (4 + sint p) :: i64)"
    unfolding needed_bytes_def scast_sint by simp
  show "needed_bytes p = (if - 4 \<le> sint p then nat (4 + sint p) else nat (2 ^ 64 + 4 + sint p))"
  proof (cases "- 4 \<le> sint p")
    case True
    then have "word_of_int (4 + sint p) = (of_nat (nat (4 + sint p)) :: i64)" by simp
    moreover have "nat (4 + sint p) < 2 ^ 64" using assms by simp
    ultimately have "needed_bytes p = nat (4 + sint p)" unfolding sum by (simp only: unat_of_nat) (simp add: take_bit_nat_eq_self)
    then show ?thesis using True by simp
  next
    case False
    then have "unat (word_of_int (4 + sint p) :: i64) = nat (2 ^ 64 + (4 + sint p))"
      using lo by (intro unat_word_of_neg) simp_all
    then show ?thesis using False unfolding sum by (simp add: algebra_simps)
  qed
qed

lemma take_frame_length: "take 4 (frame msg @ rest) = word_bytes (of_nat (length msg) :: i32)"
  by (simp add: frame_def)

lemma length_frame: "length (frame msg) = 4 + length msg"
  by (simp add: frame_def)

lemma packgeSize_frame: "contents buf = frame msg @ rest \<Longrightarrow> packgeSize_of buf = of_nat (length msg)"
  unfolding packgeSize_of_def by (simp only: take_frame_length) (simp add: word_bytes_roundtrip)

lemma take_message_frame:
  assumes "wf_buffer buf" "contents buf = frame msg @ rest" "length msg < 2 ^ 31"
  shows "\<exists>b'. take_message buf = Inr (Some (msg, b')) \<and> wf_buffer b' \<and> contents b' = rest"
proof -
  have len: "readableBytes buf = 4 + length msg + length rest"
    using length_contents [OF assms(1)] assms(2) by (simp add: length_frame)
  obtain b1 where b1: "retrieve 4 buf = Inr b1" "wf_buffer b1" "contents b1 = msg @ rest"
    using retrieve_spec [OF assms(1), of 4] len assms(2) by (auto simp: frame_def)
  have len1: "readableBytes b1 = length msg + length rest" using length_contents [OF b1(2)] b1(3) by simp
  obtain b2 where b2: "retrieve (length msg) b1 = Inr b2" "wf_buffer b2" "contents b2 = rest"
    using retrieve_spec [OF b1(2), of "length msg"] len1 b1(3) by auto
  have "msg_assign b1 (of_nat (length msg)) = Inr msg"
    using assms(3) len1 b1(3) by (simp add: msg_assign_def scast_small)
  with len b1 b2 packgeSize_frame [OF assms(2)] assms(3) show ?thesis
    by (simp add: take_message_def Let_def scast_small)
qed

text \<open>The bytes of an incomplete message: the length is not there yet, or less than it announces.\<close>

definition incomplete :: "string \<Rightarrow> bool" where
  "incomplete p \<longleftrightarrow> length p < 4 \<or> le_value (take 4 p) < 2 ^ 31 \<and> length p < 4 + le_value (take 4 p)"

lemma take_message_incomplete:
  assumes "wf_buffer buf" "incomplete (contents buf)"
  shows "take_message buf = Inr None"
proof (cases "readableBytes buf < 4")
  case False
  then have "le_value (take 4 (contents buf)) < 2 ^ 31" "readableBytes buf < 4 + le_value (take 4 (contents buf))"
    using assms by (simp_all add: incomplete_def)
  then show ?thesis
    by (simp add: take_message_def packgeSize_of_def bytes_word_def scast_small)
qed (simp add: take_message_def)

lemma incomplete_prefix:
  assumes "incomplete (u @ v)"
  shows "incomplete u"
  using assms by (cases "length u < 4") (auto simp: incomplete_def)

lemma frame_prefix_incomplete:
  assumes "frame m @ rest = u @ v" "length u < length (frame m)" "length m < 2 ^ 31"
  shows "incomplete u"
proof (cases "length u < 4")
  case False
  then have "take 4 u = word_bytes (of_nat (length m) :: i32)"
    using arg_cong [OF assms(1), of "take 4"] by (simp add: frame_def)
  then have "le_value (take 4 u) = length m" using assms(3) by (simp add: word_bytes_def unat_of_nat)
  then show ?thesis using assms(2,3) by (simp add: incomplete_def length_frame)
qed (simp add: incomplete_def)

section \<open>A stream in chunks\<close>

definition feed :: "('s \<Rightarrow> string \<Rightarrow> (bool \<times> 's) run) \<Rightarrow> string list \<Rightarrow> 's \<Rightarrow> buffer \<Rightarrow> ('s \<times> buffer) run" where
  "feed process = feed_chunks (onRead process)"

definition short_messages :: "string list \<Rightarrow> bool" where
  "short_messages ms \<longleftrightarrow> list_all (\<lambda>m. length m < 2 ^ 31) ms"

lemma short_simps [simp]:
  "short_messages []" "short_messages (m # ms) \<longleftrightarrow> length m < 2 ^ 31 \<and> short_messages ms"
  "short_messages (ms @ ms') \<longleftrightarrow> short_messages ms \<and> short_messages ms'"
  by (simp_all add: short_messages_def)

lemma onRead_frames:
  assumes "wf_buffer buf" "contents buf = concat (map frame ms) @ p" "incomplete p" "short_messages ms"
    "\<And>s m. process s m = Some (Inr (ok s m, f s m))"
  shows "\<exists>b. onRead process s buf = Some (Inr (foldl f s ms, b)) \<and> wf_buffer b \<and> contents b = p"
  using assms(1,2,4)
proof (induction ms arbitrary: s buf)
  case Nil
  then have "take_message buf = Inr None" using take_message_incomplete assms(3) by simp
  then have "onRead process s buf = Some (Inr (s, buf))" by (subst onRead.simps) simp
  with Nil show ?case by simp
next
  case (Cons m ms)
  then obtain b where b: "take_message buf = Inr (Some (m, b))" "wf_buffer b" "contents b = concat (map frame ms) @ p"
    using take_message_frame [of buf m "concat (map frame ms) @ p"] by auto
  have "onRead process s buf = onRead process (f s m) b"
    by (subst onRead.simps) (simp add: b(1) assms(5))
  with Cons.IH [OF b(2,3), of "f s m"] Cons.prems(3) show ?case by simp
qed

text \<open>A session is a reader of framed messages.\<close>

lemma frame_not_incomplete: "length m < 2 ^ 31 \<Longrightarrow> \<not> incomplete (frame m @ rest)"
  by (simp add: incomplete_def length_frame) (simp add: frame_def word_bytes_def unat_of_nat)

interpretation session: framed_reader frame incomplete "\<lambda>m. length m < 2 ^ 31"
  "onRead (\<lambda>s m. Some (Inr (answer s m, f s m)))" f for answer :: "'s \<Rightarrow> string \<Rightarrow> bool" and f
proof
  fix u v :: string
  assume "incomplete (u @ v)"
  then show "incomplete u" by (rule incomplete_prefix)
next
  fix m rest u v :: string
  assume "length m < 2 ^ 31" "frame m @ rest = u @ v" "length u < length (frame m)"
  then show "incomplete u" by (intro frame_prefix_incomplete)
next
  fix m rest :: string
  assume "length m < 2 ^ 31"
  then show "\<not> incomplete (frame m @ rest)" by (rule frame_not_incomplete)
next
  fix b ms p and s :: 's
  assume "wf_buffer b" "contents b = concat (map frame ms) @ p" "incomplete p" "list_all (\<lambda>m. length m < 2 ^ 31) ms"
  then show "\<exists>b'. onRead (\<lambda>s m. Some (Inr (answer s m, f s m))) s b = Some (Inr (foldl f s ms, b')) \<and> wf_buffer b' \<and> contents b' = p"
    by (intro onRead_frames [where ok = answer]) (simp_all add: short_messages_def)
qed

section \<open>Negative lengths\<close>

lemma packgeSize_bytes: "contents buf = word_bytes (p :: i32) @ rest \<Longrightarrow> packgeSize_of buf = p"
  by (simp add: packgeSize_of_def word_bytes_roundtrip)

lemma onRead_negative:
  assumes "wf_buffer buf" "contents buf = word_bytes (p :: i32) @ rest" "sint p < 0" "readableBytes buf < 2 ^ 63"
  shows "onRead process s buf =
     (if - 4 \<le> sint p then Some (Inl (Exception ''length_error'')) else Some (Inr (s, buf)))"
proof -
  have len: "\<not> readableBytes buf < 4" using length_contents [OF assms(1)] assms(2) by simp
  have size: "packgeSize_of buf = p" using packgeSize_bytes [OF assms(2)] .
  have take: "take_message buf = (if - 4 \<le> sint p then Inl (Exception ''length_error'') else Inr None)"
  proof (cases "- 4 \<le> sint p")
    case True
    then have "needed_bytes p \<le> 4" using scast_negative(2) [OF assms(3)] assms(3) by simp
    moreover obtain b1 where "retrieve 4 buf = Inr b1" using retrieve_spec [OF assms(1), of 4] len by auto
    ultimately show ?thesis using True len scast_negative(1) [OF assms(3)]
      by (simp add: take_message_def size msg_assign_def)
  next
    case False
    moreover have "- (2 ^ 31) \<le> sint p" using sint_ge [of p] by simp
    ultimately have "readableBytes buf < needed_bytes p"
      using scast_negative(2) [OF assms(3)] assms(4) by simp
    then show ?thesis using False len by (simp add: take_message_def size)
  qed
  then show ?thesis by (subst onRead.simps) simp
qed

lemma feed_stuck:
  assumes "sint (p :: i32) < - 4"
    "contents buf = word_bytes p @ rest" "wf_buffer buf" "readableBytes buf + length (concat chunks) < 2 ^ 63"
  shows "\<exists>b. feed process chunks s buf = Some (Inr (s, b)) \<and> contents b = contents buf @ concat chunks"
  using assms(2-)
proof (induction chunks arbitrary: buf rest)
  case (Cons c cs)
  obtain b where b: "buf_append c buf = Inr b" "wf_buffer b" "contents b = contents buf @ c"
    using buf_append_spec [OF Cons.prems(2)] by blast
  have len: "readableBytes b = readableBytes buf + length c"
    using length_contents [OF b(2)] length_contents [OF Cons.prems(2)] b(3) by simp
  have cont: "contents b = word_bytes p @ rest @ c" using b(3) Cons.prems(1) by simp
  have "onRead process s b = Some (Inr (s, b))"
    using onRead_negative [OF b(2) cont] len Cons.prems(3) assms(1) by simp
  moreover have "\<exists>b'. feed process cs s b = Some (Inr (s, b')) \<and> contents b' = contents b @ concat cs"
    by (rule Cons.IH [OF cont b(2)]) (use len Cons.prems(3) in simp)
  ultimately show ?case using b by (auto simp: feed_def)
qed (simp add: feed_def)

section \<open>Properties\<close>

text \<open>
  C3. Framing. Whatever the pieces in which a stream of framed messages arrives, \<open>onRead\<close> hands exactly these
  messages to \<open>process\<close>, each once, whole and in order, whatever \<open>process\<close> answers, and it returns each time; the bytes of an unfinished last
  message stay in the buffer.
\<close>

theorem framing:
  assumes "concat chunks = concat (map frame ms) @ p" "incomplete p" "short_messages ms"
  shows "\<exists>b. feed (\<lambda>s m. Some (Inr (ok s m, f s m))) chunks s (newBuffer kInitialSize)
       = Some (Inr (foldl f s ms, b)) \<and> wf_buffer b \<and> contents b = p"
  unfolding feed_def by (rule session.feed_messages) (use assms in \<open>simp_all add: incomplete_def short_messages_def\<close>)

theorem framing_witness:
  "\<exists>b. feed (\<lambda>s m. Some (Inr (True, s @ [m]))) [take 3 (frame ''abc''), drop 3 (frame ''abc'') @ frame [] @ frame ''de'' @ [CHR 0x07]]
      [] (newBuffer kInitialSize) = Some (Inr ([''abc'', [], ''de''], b)) \<and> wf_buffer b \<and> contents b = [CHR 0x07]"
  using framing [of "[take 3 (frame ''abc''), drop 3 (frame ''abc'') @ frame [] @ frame ''de'' @ [CHR 0x07]]"
    "[''abc'', [], ''de'']" "[CHR 0x07]" "\<lambda>s m. True" "\<lambda>s m. s @ [m]" "[]"]
  by (simp add: incomplete_def)

text \<open>
  C38. A negative length is not rejected. -1 to -4 wraps to a sum of at most three, so the check passes, the
  conversion to \<open>size_t\<close> makes the count huge and the exception of \<open>std::string\<close> leaves the
  callback; anything smaller makes the loop wait for about \<open>2 ^ 64\<close> bytes, so nothing that arrives on this
  connection afterwards is processed and the buffer grows.
\<close>

theorem negative_length:
  assumes "contents buf = word_bytes (p :: i32) @ rest" "wf_buffer buf" "sint p < 0"
    "readableBytes buf + length (concat chunks) < 2 ^ 63"
  shows "if - 4 \<le> sint p then onRead process s buf = Some (Inl (Exception ''length_error''))
     else \<exists>b. feed process chunks s buf = Some (Inr (s, b)) \<and> contents b = contents buf @ concat chunks"
proof (cases "- 4 \<le> sint p")
  case True
  then show ?thesis using onRead_negative [OF assms(2,1,3)] assms(4) by simp
next
  case False
  then show ?thesis using feed_stuck [OF _ assms(1,2,4)] by simp
qed

definition bad_buffer :: "i32 \<Rightarrow> buffer" where
  "bad_buffer p = \<lparr>bytes = replicate 8 (CHR 0x00) @ word_bytes p, readerIndex = 8, writerIndex = 12\<rparr>"

lemma bad_buffer_ok: "contents (bad_buffer p) = word_bytes p @ []" "wf_buffer (bad_buffer p)" "readableBytes (bad_buffer p) = 4"
  by (simp_all add: bad_buffer_def contents_def segment_def buffer_sizes)

theorem negative_length_witness:
  "onRead (\<lambda>s m. Some (Inr (True, s))) () (bad_buffer (- 1)) = Some (Inl (Exception ''length_error''))
   \<and> (\<exists>b. feed (\<lambda>s m. Some (Inr (True, s))) [frame ''hello''] () (bad_buffer (- 5)) = Some (Inr ((), b)))"
  using negative_length [OF bad_buffer_ok(1,2), of "- 1" "[]" "\<lambda>s m. Some (Inr (True, s))" "()"]
    negative_length [OF bad_buffer_ok(1,2), of "- 5" "[frame ''hello'']" "\<lambda>s m. Some (Inr (True, s))" "()"]
  by (auto simp: bad_buffer_ok(3) frame_def)

end
