(* ===== verification/BinaryCodec.thy ===== *)
theory BinaryCodec
  imports Prelude
begin

unbundle bit_operations_syntax

text \<open>
  The reader and the writer of the chat protocol's messages (\<open>BinaryWriter.h\<close>,
  \<open>BinaryWriter.cpp\<close>, \<open>BinaryReader.h\<close>, \<open>BinaryReader.cpp\<close>), on a little-endian host.

  \<open>BinaryReader::readData<T>\<close> assigns the bytes it reads to the pointer itself
  (\<open>pData = *(...)\<close>), which has no meaning in C++: which bytes it reads is modelled, and what
  becomes of them is the parameter \<open>load\<close>.
\<close>

section \<open>Writing\<close>

record binary_writer =
  w_msg :: string
  w_index :: i32

definition newBinaryWriter :: binary_writer where
  "newBinaryWriter = \<lparr>w_msg = [], w_index = 0\<rparr>"

definition w_clear :: "binary_writer \<Rightarrow> binary_writer" where
  "w_clear w = w\<lparr>w_msg := [], w_index := 0\<rparr>"

definition w_size :: "binary_writer \<Rightarrow> nat" where
  "w_size w = unat (w_index w)"

text \<open>\<open>std::string::resize\<close>.\<close>

definition resize :: "nat \<Rightarrow> string \<Rightarrow> string" where
  "resize n s = take n s @ replicate (n - length s) (char_of (0 :: nat))"

text \<open>\<open>writeData<T>\<close> on the object representation of its argument: the \<open>memcpy\<close> goes to the start
  of the message.\<close>

definition writeData_obj :: "string \<Rightarrow> binary_writer \<Rightarrow> binary_writer" where
  "writeData_obj obj w =
     (let m = resize (unat (w_index w) + length obj) (w_msg w)
      in w\<lparr>w_msg := write_at 0 obj m, w_index := w_index w + of_nat (length obj)\<rparr>)"

definition writeData_int :: "i32 \<Rightarrow> binary_writer \<Rightarrow> binary_writer" where
  "writeData_int x w = writeData_obj (word_bytes x) w"

definition writeData_size :: "i64 \<Rightarrow> binary_writer \<Rightarrow> binary_writer" where
  "writeData_size x w = writeData_obj (word_bytes x) w"

text \<open>
  \<open>compress\<close>. The counter is a \<open>size_t\<close>, so \<open>i >= 0\<close> is always true; after \<open>i = 0\<close> it wraps and the
  next shift count exceeds the width of \<open>size_t\<close>, which is undefined.
\<close>

partial_function (option) compress_loop :: "i64 \<Rightarrow> i64 \<Rightarrow> string \<Rightarrow> string res option" where
  "compress_loop len i out =
     (if unat (7 * i) \<ge> 64 then Some (Inl UndefinedShift)
      else let c = (unat (drop_bit (unat (7 * i)) len)) mod 128
           in if c = 0 \<and> out = [] then compress_loop len (i - 1) out
              else compress_loop len (i - 1) (out @ [char_of (if i > 0 then c + 128 else c)]))"

definition compress :: "i64 \<Rightarrow> string \<Rightarrow> string res option" where
  "compress len out =
     (if len < 128 then Some (Inr (out @ [char_of (unat len mod 128)]))
      else compress_loop len 4 out)"

definition writeData_string :: "string \<Rightarrow> binary_writer \<Rightarrow> binary_writer res option" where
  "writeData_string data w =
     map_option (\<lambda>r. rbind r (\<lambda>out.
       let w1 = w\<lparr>w_msg := w_msg w @ out, w_index := w_index w + of_nat (length out)\<rparr>
       in Inr (if length data > 0
               then w1\<lparr>w_msg := w_msg w1 @ data, w_index := w_index w1 + of_nat (length data)\<rparr>
               else w1)))
     (compress (of_nat (length data)) [])"

section \<open>Reading\<close>

record binary_reader =
  r_msg :: string
  r_index :: nat

definition newBinaryReader :: "string \<Rightarrow> binary_reader" where
  "newBinaryReader m = \<lparr>r_msg = m, r_index = 0\<rparr>"

definition r_reset :: "binary_reader \<Rightarrow> binary_reader" where
  "r_reset r = r\<lparr>r_index := 0\<rparr>"

definition setMsg :: "string \<Rightarrow> binary_reader \<Rightarrow> binary_reader" where
  "setMsg m r = r\<lparr>r_msg := m, r_index := 0\<rparr>"

text \<open>The offsets read, in order, for an object of \<open>n\<close> bytes: \<open>_index + sizeof(T) - (i - 1)\<close>.\<close>

definition read_offsets :: "nat \<Rightarrow> nat \<Rightarrow> nat list" where
  "read_offsets idx n = map (\<lambda>i. idx + n + 1 - i) [0..<n]"

text \<open>\<open>c_str()\<close> may be read up to and including the terminating zero.\<close>

definition c_str_at :: "string \<Rightarrow> nat \<Rightarrow> char" where
  "c_str_at m k = (m @ [char_of (0 :: nat)]) ! k"

definition readData_obj :: "(string \<Rightarrow> 'v) \<Rightarrow> nat \<Rightarrow> binary_reader \<Rightarrow> ('v option \<times> binary_reader) res" where
  "readData_obj load n r =
     (if r_index r + n > length (r_msg r) then Inr (None, r)
      else if \<exists>k \<in> set (read_offsets (r_index r) n). k > length (r_msg r) then Inl OutOfBounds
      else Inr (Some (load (map (c_str_at (r_msg r)) (read_offsets (r_index r) n))),
                r\<lparr>r_index := r_index r + n\<rparr>))"

text \<open>\<open>readData(std::string&)\<close> fills the string it is given, whatever is left of the message.\<close>

definition readData_string :: "nat \<Rightarrow> binary_reader \<Rightarrow> (string \<times> binary_reader) res" where
  "readData_string n r =
     (if r_index r + n > length (r_msg r) + 1 then Inl OutOfBounds
      else Inr (take n (drop (r_index r) (r_msg r @ [char_of (0 :: nat)])), r\<lparr>r_index := r_index r + n\<rparr>))"

text \<open>\<open>operator=\<close> assigns the index, converted to a character, to the message.\<close>

definition reader_assign :: "binary_reader \<Rightarrow> binary_reader \<Rightarrow> binary_reader" where
  "reader_assign reader r =
     (let r1 = r\<lparr>r_msg := r_msg reader\<rparr> in r1\<lparr>r_msg := [char_of (r_index reader mod 256)]\<rparr>)"

definition hex_digit :: "nat \<Rightarrow> char" where
  "hex_digit n = (if n < 10 then char_of (48 + n) else char_of (55 + n))"

definition CRLF :: string where
  "CRLF = [char_of (13 :: nat), char_of (10 :: nat)]"

definition dump :: "string \<Rightarrow> string" where
  "dump buf = concat (map (\<lambda>i. (if i \<noteq> 0 \<and> i mod 16 = 0 then CRLF else [])
       @ [hex_digit (of_char (buf ! i) div 16), hex_digit (of_char (buf ! i) mod 16), CHR '' '']) [0..<length buf]) @ CRLF"

section \<open>Properties\<close>

lemma compress_loop_diverges: "compress_loop len 4 out = Some (Inl UndefinedShift)"
proof -
  have "compress_loop len (- 1) out = Some (Inl UndefinedShift)" for out
    by (subst compress_loop.simps) simp
  then have "compress_loop len 0 out = Some (Inl UndefinedShift)" for out
    by (subst compress_loop.simps) (simp add: Let_def)
  then have "compress_loop len 1 out = Some (Inl UndefinedShift)" for out
    by (subst compress_loop.simps) (simp add: Let_def)
  then have "compress_loop len 2 out = Some (Inl UndefinedShift)" for out
    by (subst compress_loop.simps) (simp add: Let_def)
  then have "compress_loop len 3 out = Some (Inl UndefinedShift)" for out
    by (subst compress_loop.simps) (simp add: Let_def)
  then show ?thesis
    by (subst compress_loop.simps) (simp add: Let_def)
qed

lemma writeData_string_spec:
  assumes "length data < 2 ^ 64"
  shows "writeData_string data w =
     (if length data < 128
      then Some (Inr (w\<lparr>w_msg := w_msg w @ char_of (length data) # data,
                       w_index := w_index w + of_nat (length data + 1)\<rparr>))
      else Some (Inl UndefinedShift))"
proof -
  have u: "unat (of_nat (length data) :: i64) = length data" using assms by (simp add: unat_of_nat)
  then have "(of_nat (length data) :: i64) < 128 \<longleftrightarrow> length data < 128"
    by (simp add: word_less_nat_alt)
  with u show ?thesis
    by (cases data) (auto simp: writeData_string_def compress_def compress_loop_diverges Let_def)
qed

text \<open>
  The length prefix of a string. A string of fewer than 128 bytes is written as one length
  byte followed by the string. For every longer string (up to \<open>2 ^ 64\<close> bytes) \<open>compress\<close> does not
  produce a length: its loop runs past \<open>i = 0\<close> and ends in an undefined shift, so the message cannot
  be built.
\<close>

theorem string_prefix:
  assumes "length data < 2 ^ 64"
  shows "writeData_string data w =
     (if length data < 128
      then Some (Inr (w\<lparr>w_msg := w_msg w @ char_of (length data) # data,
                       w_index := w_index w + of_nat (length data + 1)\<rparr>))
      else Some (Inl UndefinedShift))"
  using assms by (rule writeData_string_spec)

theorem string_prefix_witness:
  "writeData_string ''ok'' newBinaryWriter =
     Some (Inr (newBinaryWriter\<lparr>w_msg := char_of (2 :: nat) # ''ok'', w_index := 3\<rparr>))
   \<and> writeData_string (replicate 200 (CHR ''x'')) newBinaryWriter = Some (Inl UndefinedShift)"
  using string_prefix [of "''ok''" newBinaryWriter] string_prefix [of "replicate 200 (CHR ''x'')" newBinaryWriter]
  by (simp add: newBinaryWriter_def)

lemma write_obj_first: "w_msg (writeData_obj obj newBinaryWriter) = obj"
  by (simp add: writeData_obj_def newBinaryWriter_def resize_def write_at_def Let_def)

text \<open>
  Integers overwrite each other. \<open>writeData<T>\<close> always copies to the start of the message, so
  of a sequence of integers only the last is legible: after the command and the sequence number
  the message holds the sequence number and four zero bytes, and the command is lost.
\<close>

lemma two_ints:
  "w_msg (writeData_int b (writeData_int a newBinaryWriter)) = word_bytes b @ replicate 4 (char_of (0 :: nat))"
  "w_index (writeData_int b (writeData_int a newBinaryWriter)) = 8"
proof -
  have "w_msg (writeData_int a newBinaryWriter) = word_bytes a" "w_index (writeData_int a newBinaryWriter) = 4"
    by (simp_all add: writeData_int_def write_obj_first) (simp add: writeData_obj_def newBinaryWriter_def Let_def)
  then show "w_msg (writeData_int b (writeData_int a newBinaryWriter)) = word_bytes b @ replicate 4 (char_of (0 :: nat))"
    "w_index (writeData_int b (writeData_int a newBinaryWriter)) = 8"
    by (simp_all add: writeData_int_def [of b] writeData_obj_def resize_def write_at_def Let_def)
qed

lemma int_alone: "w_msg (writeData_int x (w_clear w)) = word_bytes x"
  using write_obj_first [of "word_bytes x"] by (simp add: writeData_int_def writeData_obj_def w_clear_def newBinaryWriter_def Let_def)

lemma read_offsets_rev: "read_offsets k n = rev [k + 2..<k + n + 2]"
proof (induction n)
  case (Suc n)
  have "read_offsets k (Suc n) = (k + n + 2) # read_offsets k n"
    unfolding read_offsets_def by (simp add: upt_conv_Cons map_Suc_upt [symmetric] o_def del: upt_Suc)
  with Suc show ?case by simp
qed (simp add: read_offsets_def)

lemma readData_obj_spec:
  assumes "0 < n"
  shows "readData_obj load n r =
     (if r_index r + n > length (r_msg r) then Inr (None, r)
      else if r_index r + n = length (r_msg r) then Inl OutOfBounds
      else Inr (Some (load (map (c_str_at (r_msg r)) (rev [r_index r + 2..<r_index r + n + 2]))),
                r\<lparr>r_index := r_index r + n\<rparr>))"
proof -
  have "(\<exists>k \<in> set (read_offsets (r_index r) n). k > length (r_msg r)) \<longleftrightarrow> length (r_msg r) < r_index r + n + 1"
    using assms unfolding read_offsets_rev by auto
  then show ?thesis by (auto simp: readData_obj_def read_offsets_rev)
qed

text \<open>
  Reading an integer. A field of \<open>n\<close> bytes at index \<open>k\<close> is refused when the message ends before
  it. Otherwise the bytes \<open>k + n + 1\<close> down to \<open>k + 2\<close> are read, two positions behind the field, and
  when the field is the last one of the message the first access is beyond the terminating zero.
\<close>

theorem readData_reads_behind:
  assumes "0 < n"
  shows "readData_obj load n r =
     (if r_index r + n > length (r_msg r) then Inr (None, r)
      else if r_index r + n = length (r_msg r) then Inl OutOfBounds
      else Inr (Some (load (map (c_str_at (r_msg r)) (rev [r_index r + 2..<r_index r + n + 2]))),
                r\<lparr>r_index := r_index r + n\<rparr>))"
  using assms by (rule readData_obj_spec)

theorem readData_reads_behind_witness:
  "readData_obj id 2 (newBinaryReader ''abcdef'') = Inr (Some ''dc'', \<lparr>r_msg = ''abcdef'', r_index = 2\<rparr>)"
  using readData_reads_behind [of 2 id "newBinaryReader ''abcdef''"]
  by (simp add: newBinaryReader_def c_str_at_def upt_rec)

end
