(* ===== verification/StdMap.thy ===== *)
theory StdMap
  imports Prelude "HOL-Library.Char_ord" "HOL-Library.List_Lexorder"
begin

text \<open>
  \<open>std::map\<close> where the order of its elements is seen: an association list that is sorted by its keys. Strings are ordered as
  \<open>std::string\<close> and \<open>strcmp\<close> order them, by the codes of their characters.
\<close>

text \<open>\<open>std::map\<close>: \<open>ins_key\<close> inserts or overwrites, \<open>del_key\<close> erases.\<close>

fun ins_key :: "'k::linorder \<Rightarrow> 'v \<Rightarrow> ('k \<times> 'v) list \<Rightarrow> ('k \<times> 'v) list" where
  "ins_key k v [] = [(k, v)]"
| "ins_key k v ((a, b) # xs) =
     (if k < a then (k, v) # (a, b) # xs else if k = a then (a, v) # xs else (a, b) # ins_key k v xs)"

definition del_key :: "'k \<Rightarrow> ('k \<times> 'v) list \<Rightarrow> ('k \<times> 'v) list" where
  "del_key k xs = filter (\<lambda>(a, _). a \<noteq> k) xs"

definition ordered :: "('k::linorder \<times> 'v) list \<Rightarrow> bool" where
  "ordered xs \<longleftrightarrow> sorted_wrt (<) (map fst xs)"

lemma map_of_ins_key [simp]: "map_of (ins_key k v xs) = (map_of xs)(k \<mapsto> v)"
  by (induction k v xs rule: ins_key.induct) (auto simp: fun_eq_iff)

lemma set_ins_key: "fst ` set (ins_key k v xs) = insert k (fst ` set xs)"
  by (induction k v xs rule: ins_key.induct) auto

lemma ordered_ins_key: "ordered xs \<Longrightarrow> ordered (ins_key k v xs)"
proof (induction k v xs rule: ins_key.induct)
  case (2 k v a b xs)
  then have "ordered xs" "\<forall>x \<in> fst ` set xs. a < x" by (auto simp: ordered_def)
  with 2 show ?case using set_ins_key [of k v xs] by (auto simp: ordered_def)
qed (simp add: ordered_def)

lemma map_of_del_key: "map_of (del_key k xs) = (map_of xs)(k := None)"
  by (induction xs) (auto simp: del_key_def fun_eq_iff)

lemma ordered_del_key: "ordered xs \<Longrightarrow> ordered (del_key k xs)"
  by (induction xs) (auto simp: ordered_def del_key_def)

lemma ordered_distinct: "ordered xs \<Longrightarrow> distinct (map fst xs)"
  by (induction xs) (auto simp: ordered_def)

lemma ins_key_last: "\<forall>x \<in> fst ` set xs. x < k \<Longrightarrow> ins_key k v xs = xs @ [(k, v)]"
  by (induction xs) auto


end
