(* ===== verification/JsonValue.thy ===== *)
theory JsonValue
  imports StdMap
begin

text \<open>
  The values of the bundled JSON library (\<open>jsoncpp/value.h\<close>, \<open>json_value.cpp\<close>, built without
  \<open>JSON_VALUE_USE_INTERNAL_MAP\<close>). Arrays and objects are ordered maps: association lists sorted by
  index or by member name. Member names and strings are C strings, ordered as \<open>strcmp\<close> orders them.
  A method that returns a reference to a member which is then assigned becomes an update.

  An index is a \<open>UInt\<close> that is stored as an \<open>int\<close>: the indices from \<open>2 ^ 31\<close> on become negative keys
  and stand before the others (\<open>slot\<close>). The sum in \<open>size\<close> is the two's complement one at the key
  \<open>2 ^ 31 - 1\<close>, where the \<open>int\<close> overflows.

  Doubles are an abstract type with the operations the library applies to them (\<open>'d dbl\<close>).
  A value has no comments here, and the null pointer of \<open>Value(stringValue)\<close> is not modelled.
\<close>

section \<open>Data\<close>

datatype 'd json =
    NullV
  | IntV i32
  | UIntV i32
  | RealV 'd
  | StringV string
  | BoolV bool
  | ArrayV "(int \<times> 'd json) list"
  | ObjectV "(string \<times> 'd json) list"

datatype value_type =
    nullValue | intValue | uintValue | realValue | stringValue | booleanValue | arrayValue | objectValue

fun json_type :: "'d json \<Rightarrow> value_type" where
  "json_type NullV = nullValue"
| "json_type (IntV _) = intValue"
| "json_type (UIntV _) = uintValue"
| "json_type (RealV _) = realValue"
| "json_type (StringV _) = stringValue"
| "json_type (BoolV _) = booleanValue"
| "json_type (ArrayV _) = arrayValue"
| "json_type (ObjectV _) = objectValue"

fun type_code :: "value_type \<Rightarrow> int" where
  "type_code nullValue = 0"
| "type_code intValue = 1"
| "type_code uintValue = 2"
| "type_code realValue = 3"
| "type_code stringValue = 4"
| "type_code booleanValue = 5"
| "type_code arrayValue = 6"
| "type_code objectValue = 7"

record 'd dbl =
  d_of_int :: "int \<Rightarrow> 'd"
  d_trunc :: "'d \<Rightarrow> int"
  d_le :: "'d \<Rightarrow> 'd \<Rightarrow> bool"
  d_lt :: "'d \<Rightarrow> 'd \<Rightarrow> bool"
  d_eq :: "'d \<Rightarrow> 'd \<Rightarrow> bool"

definition minInt :: int where "minInt = - (2 ^ 31)"
definition maxInt :: int where "maxInt = 2 ^ 31 - 1"
definition maxUInt :: int where "maxUInt = 2 ^ 32 - 1"

text \<open>What a C function sees of a string.\<close>

definition c_str :: "string \<Rightarrow> string" where
  "c_str s = takeWhile (\<lambda>c. c \<noteq> CHR 0x00) s"

definition value_of_type :: "'d dbl \<Rightarrow> value_type \<Rightarrow> 'd json" where
  "value_of_type D t = (case t of nullValue \<Rightarrow> NullV | intValue \<Rightarrow> IntV 0 | uintValue \<Rightarrow> UIntV 0
     | realValue \<Rightarrow> RealV (d_of_int D 0) | stringValue \<Rightarrow> StringV [] | booleanValue \<Rightarrow> BoolV False
     | arrayValue \<Rightarrow> ArrayV [] | objectValue \<Rightarrow> ObjectV [])"

definition value_of_string :: "string \<Rightarrow> 'd json" where
  "value_of_string s = StringV (c_str s)"

section \<open>Queries and conversions\<close>

definition isNull :: "'d json \<Rightarrow> bool" where "isNull v \<longleftrightarrow> json_type v = nullValue"
definition isBool :: "'d json \<Rightarrow> bool" where "isBool v \<longleftrightarrow> json_type v = booleanValue"
definition isInt :: "'d json \<Rightarrow> bool" where "isInt v \<longleftrightarrow> json_type v = intValue"
definition isUInt :: "'d json \<Rightarrow> bool" where "isUInt v \<longleftrightarrow> json_type v = uintValue"
definition isIntegral :: "'d json \<Rightarrow> bool" where
  "isIntegral v \<longleftrightarrow> json_type v = intValue \<or> json_type v = uintValue \<or> json_type v = booleanValue"
definition isDouble :: "'d json \<Rightarrow> bool" where "isDouble v \<longleftrightarrow> json_type v = realValue"
definition isNumeric :: "'d json \<Rightarrow> bool" where "isNumeric v \<longleftrightarrow> isIntegral v \<or> isDouble v"
definition isString :: "'d json \<Rightarrow> bool" where "isString v \<longleftrightarrow> json_type v = stringValue"
definition isArray :: "'d json \<Rightarrow> bool" where "isArray v \<longleftrightarrow> json_type v = nullValue \<or> json_type v = arrayValue"
definition isObject :: "'d json \<Rightarrow> bool" where "isObject v \<longleftrightarrow> json_type v = nullValue \<or> json_type v = objectValue"

fun asCString :: "'d json \<Rightarrow> string res" where
  "asCString (StringV s) = Inr s"
| "asCString _ = Inl AssertFail"

fun asString :: "'d json \<Rightarrow> string res" where
  "asString NullV = Inr ''''"
| "asString (StringV s) = Inr s"
| "asString (BoolV b) = Inr (if b then ''true'' else ''false'')"
| "asString _ = Inl (Exception ''Type is not convertible to string'')"

fun asInt :: "'d dbl \<Rightarrow> 'd json \<Rightarrow> i32 res" where
  "asInt D NullV = Inr 0"
| "asInt D (IntV i) = Inr i"
| "asInt D (UIntV u) =
     (if uint u < maxInt then Inr u else Inl (Exception ''integer out of signed integer range''))"
| "asInt D (RealV r) =
     (if d_le D (d_of_int D minInt) r \<and> d_le D r (d_of_int D maxInt) then Inr (word_of_int (d_trunc D r))
      else Inl (Exception ''Real out of signed integer range''))"
| "asInt D (BoolV b) = Inr (if b then 1 else 0)"
| "asInt D _ = Inl (Exception ''Type is not convertible to int'')"

fun asUInt :: "'d dbl \<Rightarrow> 'd json \<Rightarrow> i32 res" where
  "asUInt D NullV = Inr 0"
| "asUInt D (IntV i) = (if sint i \<ge> 0 then Inr i
     else Inl (Exception ''Negative integer can not be converted to unsigned integer''))"
| "asUInt D (UIntV u) = Inr u"
| "asUInt D (RealV r) =
     (if d_le D (d_of_int D 0) r \<and> d_le D r (d_of_int D maxUInt) then Inr (word_of_int (d_trunc D r))
      else Inl (Exception ''Real out of unsigned integer range''))"
| "asUInt D (BoolV b) = Inr (if b then 1 else 0)"
| "asUInt D _ = Inl (Exception ''Type is not convertible to uint'')"

fun asDouble :: "'d dbl \<Rightarrow> 'd json \<Rightarrow> 'd res" where
  "asDouble D NullV = Inr (d_of_int D 0)"
| "asDouble D (IntV i) = Inr (d_of_int D (sint i))"
| "asDouble D (UIntV u) = Inr (d_of_int D (uint u))"
| "asDouble D (RealV r) = Inr r"
| "asDouble D (BoolV b) = Inr (d_of_int D (if b then 1 else 0))"
| "asDouble D _ = Inl (Exception ''Type is not convertible to double'')"

fun asBool :: "'d dbl \<Rightarrow> 'd json \<Rightarrow> bool" where
  "asBool D NullV = False"
| "asBool D (IntV i) = (i \<noteq> 0)"
| "asBool D (UIntV u) = (u \<noteq> 0)"
| "asBool D (RealV r) = (\<not> d_eq D r (d_of_int D 0))"
| "asBool D (BoolV b) = b"
| "asBool D (StringV s) = (s \<noteq> [])"
| "asBool D (ArrayV kvs) = (kvs \<noteq> [])"
| "asBool D (ObjectV kvs) = (kvs \<noteq> [])"

fun isConvertibleTo :: "'d dbl \<Rightarrow> 'd json \<Rightarrow> value_type \<Rightarrow> bool" where
  "isConvertibleTo D NullV t = True"
| "isConvertibleTo D (IntV i) t = (t = nullValue \<and> i = 0 \<or> t = intValue \<or> t = uintValue \<and> sint i \<ge> 0
     \<or> t = realValue \<or> t = stringValue \<or> t = booleanValue)"
| "isConvertibleTo D (UIntV u) t = (t = nullValue \<and> u = 0 \<or> t = intValue \<and> uint u \<le> maxInt \<or> t = uintValue
     \<or> t = realValue \<or> t = stringValue \<or> t = booleanValue)"
| "isConvertibleTo D (RealV r) t = (t = nullValue \<and> d_eq D r (d_of_int D 0)
     \<or> t = intValue \<and> d_le D (d_of_int D minInt) r \<and> d_le D r (d_of_int D maxInt)
     \<or> t = uintValue \<and> d_le D (d_of_int D 0) r \<and> d_le D r (d_of_int D maxUInt)
     \<or> t = realValue \<or> t = stringValue \<or> t = booleanValue)"
| "isConvertibleTo D (BoolV b) t = (t = nullValue \<and> \<not> b \<or> t = intValue \<or> t = uintValue
     \<or> t = realValue \<or> t = stringValue \<or> t = booleanValue)"
| "isConvertibleTo D (StringV s) t = (t = stringValue \<or> t = nullValue \<and> s = [])"
| "isConvertibleTo D (ArrayV kvs) t = (t = arrayValue \<or> t = nullValue \<and> kvs = [])"
| "isConvertibleTo D (ObjectV kvs) t = (t = objectValue \<or> t = nullValue \<and> kvs = [])"

text \<open>The key of an element: the constructor of \<open>CZString\<close> takes the \<open>UInt\<close> index as an \<open>int\<close>.\<close>

definition slot :: "nat \<Rightarrow> int" where
  "slot i = sint (of_nat i :: i32)"

fun json_size :: "'d json \<Rightarrow> nat" where
  "json_size (ArrayV kvs) = (if kvs \<noteq> [] then unat (of_int (fst (last kvs) + 1) :: i32) else 0)"
| "json_size (ObjectV kvs) = length kvs"
| "json_size _ = 0"

definition json_empty :: "'d json \<Rightarrow> bool" where
  "json_empty v = (if isNull v \<or> isArray v \<or> isObject v then json_size v = 0 else False)"

section \<open>Members and elements\<close>

fun json_clear :: "'d json \<Rightarrow> 'd json res" where
  "json_clear NullV = Inr NullV"
| "json_clear (ArrayV kvs) = Inr (ArrayV [])"
| "json_clear (ObjectV kvs) = Inr (ObjectV [])"
| "json_clear _ = Inl AssertFail"

text \<open>The element with an index, made null when it is missing (the non-constant \<open>operator[]\<close>).\<close>

fun index_ref :: "nat \<Rightarrow> 'd json \<Rightarrow> ('d json \<times> 'd json) res" where
  "index_ref i NullV = Inr (NullV, ArrayV [(slot i, NullV)])"
| "index_ref i (ArrayV kvs) =
     (case map_of kvs (slot i) of Some v \<Rightarrow> Inr (v, ArrayV kvs) | None \<Rightarrow> Inr (NullV, ArrayV (ins_key (slot i) NullV kvs)))"
| "index_ref i _ = Inl AssertFail"

fun index_get :: "nat \<Rightarrow> 'd json \<Rightarrow> 'd json res" where
  "index_get i NullV = Inr NullV"
| "index_get i (ArrayV kvs) = (case map_of kvs (slot i) of Some v \<Rightarrow> Inr v | None \<Rightarrow> Inr NullV)"
| "index_get i _ = Inl AssertFail"

fun set_index :: "nat \<Rightarrow> 'd json \<Rightarrow> 'd json \<Rightarrow> 'd json res" where
  "set_index i x v = rbind (index_ref i v) (\<lambda>(_, v'). case v' of ArrayV kvs \<Rightarrow> Inr (ArrayV (ins_key (slot i) x kvs)) | _ \<Rightarrow> Inl AssertFail)"

fun resolveReference :: "string \<Rightarrow> 'd json \<Rightarrow> ('d json \<times> 'd json) res" where
  "resolveReference key NullV = Inr (NullV, ObjectV [(c_str key, NullV)])"
| "resolveReference key (ObjectV kvs) =
     (case map_of kvs (c_str key) of Some v \<Rightarrow> Inr (v, ObjectV kvs)
      | None \<Rightarrow> Inr (NullV, ObjectV (ins_key (c_str key) NullV kvs)))"
| "resolveReference key _ = Inl AssertFail"

fun member_get :: "string \<Rightarrow> 'd json \<Rightarrow> 'd json res" where
  "member_get key NullV = Inr NullV"
| "member_get key (ObjectV kvs) = (case map_of kvs (c_str key) of Some v \<Rightarrow> Inr v | None \<Rightarrow> Inr NullV)"
| "member_get key _ = Inl AssertFail"

definition set_member :: "string \<Rightarrow> 'd json \<Rightarrow> 'd json \<Rightarrow> 'd json res" where
  "set_member key x v = rbind (resolveReference key v) (\<lambda>(_, v').
     case v' of ObjectV kvs \<Rightarrow> Inr (ObjectV (ins_key (c_str key) x kvs)) | _ \<Rightarrow> Inl AssertFail)"

fun found_index :: "nat \<Rightarrow> 'd json \<Rightarrow> bool" where
  "found_index i (ArrayV kvs) \<longleftrightarrow> map_of kvs (slot i) \<noteq> None"
| "found_index i _ \<longleftrightarrow> False"

fun found_member :: "string \<Rightarrow> 'd json \<Rightarrow> bool" where
  "found_member key (ObjectV kvs) \<longleftrightarrow> map_of kvs (c_str key) \<noteq> None"
| "found_member key _ \<longleftrightarrow> False"

definition get_index :: "nat \<Rightarrow> 'd json \<Rightarrow> 'd json \<Rightarrow> 'd json res" where
  "get_index i dflt v = rbind (index_get i v) (\<lambda>x. Inr (if found_index i v then x else dflt))"

definition isValidIndex :: "nat \<Rightarrow> 'd json \<Rightarrow> bool" where
  "isValidIndex i v \<longleftrightarrow> i < json_size v"

definition json_append :: "'d json \<Rightarrow> 'd json \<Rightarrow> 'd json res" where
  "json_append x v = set_index (json_size v) x v"

definition get_member :: "string \<Rightarrow> 'd json \<Rightarrow> 'd json \<Rightarrow> 'd json res" where
  "get_member key dflt v = rbind (member_get key v) (\<lambda>x. Inr (if found_member key v then x else dflt))"

fun removeMember :: "string \<Rightarrow> 'd json \<Rightarrow> ('d json \<times> 'd json) res" where
  "removeMember key NullV = Inr (NullV, NullV)"
| "removeMember key (ObjectV kvs) =
     (case map_of kvs (c_str key) of None \<Rightarrow> Inr (NullV, ObjectV kvs)
      | Some v \<Rightarrow> Inr (v, ObjectV (del_key (c_str key) kvs)))"
| "removeMember key _ = Inl AssertFail"

definition isMember :: "string \<Rightarrow> 'd json \<Rightarrow> bool res" where
  "isMember key v = rbind (member_get key v) (\<lambda>_. Inr (found_member key v))"

fun getMemberNames :: "'d json \<Rightarrow> string list res" where
  "getMemberNames NullV = Inr []"
| "getMemberNames (ObjectV kvs) = Inr (map fst kvs)"
| "getMemberNames _ = Inl AssertFail"

fun del_range :: "nat \<Rightarrow> nat \<Rightarrow> (int \<times> 'v) list \<Rightarrow> (int \<times> 'v) list" where
  "del_range i 0 kvs = kvs"
| "del_range i (Suc n) kvs = del_range (Suc i) n (del_key (slot i) kvs)"

definition json_resize :: "nat \<Rightarrow> 'd json \<Rightarrow> 'd json res" where
  "json_resize newSize v =
     (if json_type v \<noteq> nullValue \<and> json_type v \<noteq> arrayValue then Inl AssertFail
      else let v1 = (if json_type v = nullValue then ArrayV [] else v);
               oldSize = json_size v1
           in if newSize = 0 then json_clear v1
              else if newSize > oldSize then rbind (index_ref (newSize - 1) v1) (\<lambda>(_, v2). Inr v2)
              else (case v1 of
                      ArrayV kvs \<Rightarrow>
                        let v2 = ArrayV (del_range newSize (oldSize - newSize) kvs)
                        in c_assert (json_size v2 = newSize) (Inr v2)
                    | _ \<Rightarrow> Inl AssertFail))"

section \<open>Comparison\<close>

function json_eq :: "'d dbl \<Rightarrow> 'd json \<Rightarrow> 'd json \<Rightarrow> bool" where
  "json_eq D a b =
     (case (a, b) of
        (NullV, NullV) \<Rightarrow> True
      | (IntV x, IntV y) \<Rightarrow> x = y
      | (UIntV x, UIntV y) \<Rightarrow> x = y
      | (RealV x, RealV y) \<Rightarrow> d_eq D x y
      | (BoolV x, BoolV y) \<Rightarrow> x = y
      | (StringV x, StringV y) \<Rightarrow> x = y
      | (ArrayV x, ArrayV y) \<Rightarrow> length x = length y \<and>
          list_all (\<lambda>((i, v), (j, w)). i = j \<and> json_eq D v w) (zip x y)
      | (ObjectV x, ObjectV y) \<Rightarrow> length x = length y \<and>
          list_all (\<lambda>((i, v), (j, w)). i = j \<and> json_eq D v w) (zip x y)
      | _ \<Rightarrow> False)"
  by pat_completeness auto

lemma size_member:
  "(k, v) \<in> set kvs \<Longrightarrow> size v < Suc (size_list (size_prod (\<lambda>_. 0) size) kvs)"
  by (induction kvs) auto

lemma size_zip_member:
  assumes "((i, v), (j, w)) \<in> set (zip x y)"
  shows "size v < Suc (size_list (size_prod (\<lambda>_. 0) size) x)"
  using size_member [OF set_zip_leftD [OF assms]] .

termination json_eq
  by (relation "measure (\<lambda>(D, a, b). size a)") (auto dest!: size_zip_member)

declare json_eq.simps [simp del]

section \<open>Indices\<close>

lemma slot_small: "i < 2 ^ 31 \<Longrightarrow> slot i = int i"
  using sint_of_nat_small [of i] by (simp add: slot_def)

lemma slot_unat: "slot (unat i) = sint (i :: i32)"
  by (simp add: slot_def)

lemma slot_eq_iff: "i < 2 ^ 32 \<Longrightarrow> j < 2 ^ 32 \<Longrightarrow> slot i = slot j \<longleftrightarrow> i = j"
  using word_of_nat_eq_iff [where 'a = 32, of i j]
  by (auto simp: slot_def take_bit_nat_eq_self dest!: signed_word_eqI)

lemma slot_i32: "in_i32 (slot i)"
  using sint_ge [of "of_nat i :: i32"] sint_lt [of "of_nat i :: i32"] by (simp add: in_i32_def slot_def)

text \<open>Arrays without holes.\<close>

definition dense :: "(int \<times> 'v) list \<Rightarrow> bool" where
  "dense kvs \<longleftrightarrow> length kvs < 2 ^ 31 \<and> map fst kvs = map int [0..<length kvs]"

lemma dense_fst: "dense kvs \<Longrightarrow> i < length kvs \<Longrightarrow> fst (kvs ! i) = int i"
  by (metis dense_def add_0 length_map length_upt nth_map nth_upt minus_nat.diff_0)

lemma dense_size:
  assumes "dense kvs"
  shows "json_size (ArrayV kvs) = length kvs"
proof (cases "kvs = []")
  case False
  then have "fst (last kvs) + 1 = int (length kvs)" using dense_fst [OF assms, of "length kvs - 1"]
    by (cases "length kvs") (simp_all add: last_conv_nth)
  then show ?thesis using False assms by (simp add: dense_def unat_of_nat del: of_int_add)
qed simp

lemma dense_lookup:
  assumes "dense kvs"
  shows "i < length kvs \<Longrightarrow> map_of kvs (slot i) = Some (snd (kvs ! i))"
    "i \<ge> length kvs \<Longrightarrow> i < 2 ^ 32 \<Longrightarrow> map_of kvs (slot i) = None"
proof -
  have keys: "map fst kvs = map int [0..<length kvs]" "length kvs < 2 ^ 31" using assms by (simp_all add: dense_def)
  show "map_of kvs (slot i) = Some (snd (kvs ! i))" if "i < length kvs"
  proof (rule map_of_is_SomeI)
    show "distinct (map fst kvs)" by (subst keys(1)) (simp add: distinct_map)
    have "slot i = int i" by (rule slot_small) (use that keys(2) in simp)
    then show "(slot i, snd (kvs ! i)) \<in> set kvs" using dense_fst [OF assms that] nth_mem [OF that] by (metis prod.collapse)
  qed
  assume i: "i \<ge> length kvs" "i < 2 ^ 32"
  have "slot i \<notin> set (map fst kvs)"
  proof
    assume "slot i \<in> set (map fst kvs)"
    then obtain j where j: "j < length kvs" "slot i = int j" unfolding keys(1) by auto
    then have "slot i = slot j" using slot_small [of j] keys(2) by simp
    then show False using slot_eq_iff [of i j] i j(1) keys(2) by simp
  qed
  then show "map_of kvs (slot i) = None" by (simp add: map_of_eq_None_iff)
qed

text \<open>The indices from \<open>2 ^ 31\<close> on come first: the size of an array with one such element counts from the negative key.\<close>

lemma large_index: "slot (2 ^ 32 - 1) = - 1" "set_index (2 ^ 32 - 1) x NullV = Inr (ArrayV [(- 1, x)])" "json_size (ArrayV [(- 1, x)]) = 0"
  by (simp_all add: slot_def)

section \<open>Properties\<close>

text \<open>
  Members of an object. After \<open>v[key] = x\<close> the member \<open>key\<close> is \<open>x\<close> and no other member has changed, the
  members stay ordered by name (each name once), the member names are the old ones and \<open>key\<close>, and \<open>removeMember\<close> returns \<open>x\<close> and
  leaves the other members; on a value that is neither null nor an object every access by name
  aborts.
\<close>

theorem member_roundtrip:
  "(isObject v \<longrightarrow> (\<exists>kvs. set_member key x v = Inr (ObjectV kvs)
       \<and> member_get key (ObjectV kvs) = Inr x
       \<and> (c_str k' \<noteq> c_str key \<longrightarrow> member_get k' (ObjectV kvs) = member_get k' v)
       \<and> (\<forall>old. v = ObjectV old \<longrightarrow> ordered old \<longrightarrow> ordered kvs \<and> set (map fst kvs) = insert (c_str key) (set (map fst old)))
       \<and> (\<exists>rest. removeMember key (ObjectV kvs) = Inr (x, rest) \<and> member_get key rest = Inr NullV
            \<and> (c_str k' \<noteq> c_str key \<longrightarrow> member_get k' rest = member_get k' v))))
   \<and> (\<not> isObject v \<longrightarrow> set_member key x v = Inl AssertFail \<and> member_get key v = Inl AssertFail
       \<and> removeMember key v = Inl AssertFail)"
proof (cases v)
  case NullV
  then show ?thesis by (auto simp: isObject_def set_member_def map_of_del_key)
next
  case (ObjectV kvs)
  let ?k = "c_str key"
  have twice: "ins_key ?k x (ins_key ?k NullV kvs) = ins_key ?k x kvs"
    by (induction kvs) auto
  have "set_member key x v = Inr (ObjectV (ins_key ?k x kvs))"
    using ObjectV by (auto simp: set_member_def twice split: option.splits)
  moreover have "ordered kvs \<Longrightarrow> ordered (ins_key ?k x kvs)" by (rule ordered_ins_key)
  moreover have "set (map fst (ins_key ?k x kvs)) = insert ?k (set (map fst kvs))"
    using set_ins_key [of ?k x kvs] by simp
  ultimately show ?thesis using ObjectV
    by (auto simp: isObject_def map_of_del_key)
qed (simp_all add: isObject_def set_member_def)

theorem member_roundtrip_witness:
  "\<exists>kvs. set_member ''code'' (IntV 200) (NullV :: unit json) = Inr (ObjectV kvs)
     \<and> member_get ''code'' (ObjectV kvs) = Inr (IntV 200)"
  using member_roundtrip [of "NullV :: unit json" "''code''" "IntV 200" "[]"] by (auto simp: isObject_def)

text \<open>
  The number of elements of an array is its highest index plus one, so an array with holes does not
  shrink to the size \<open>resize\<close> asks for, and its assertion fails.
\<close>

lemma resize_sparse_aborts:
  "json_resize 3 (ArrayV [(5, NullV)]) = Inl AssertFail"
proof -
  have "del_range 3 (Suc (Suc (Suc 0))) [(5, NullV :: 'a json)] = []" by (simp add: del_key_def slot_small)
  then have "del_range 3 3 [(5, NullV :: 'a json)] = []" by (simp only: numeral_3_eq_3 [symmetric])
  then show ?thesis by (simp add: json_resize_def Let_def)
qed

end
