(* ===== verification/JsonWriter.thy ===== *)
theory JsonWriter
  imports JsonValue
begin

text \<open>
  Printing of JSON values (\<open>jsoncpp/json_writer.cpp\<close>): strings and numbers, the compact
  \<open>FastWriter\<close> and the indenting \<open>StyledWriter\<close>, which the chat server uses for its replies.
  The result of \<open>sprintf("%#.16g")\<close> is the parameter \<open>fmt\<close>. The values here carry no comments (see
  \<open>JsonValue\<close>): the steps of \<open>StyledWriter\<close> that print them (\<open>writeCommentBeforeValue\<close>,
  \<open>writeCommentAfterValueOnSameLine\<close>) and the test \<open>hasCommentForValue\<close> in \<open>isMultineArray\<close> do nothing for such
  values and are left out, so what is shown of the writers is shown for values without comments only.
  Texts are shorter than \<open>2 ^ 31\<close> characters. The writers keep the size of an array in an \<open>int\<close> or an
  \<open>unsigned\<close>; \<open>isMultineArray\<close> multiplies it by 3 as an \<open>int\<close>, which is a fault from 715827883 elements on, also for
  the sizes that would be negative there.
\<close>

section \<open>Scalars\<close>

definition isControlCharacter :: "char \<Rightarrow> bool" where
  "isControlCharacter ch \<longleftrightarrow> 0 < (of_char ch :: nat) \<and> (of_char ch :: nat) \<le> 31"

definition containsControlCharacter :: "string \<Rightarrow> bool" where
  "containsControlCharacter s \<longleftrightarrow> list_ex isControlCharacter (c_str s)"

definition uintToString :: "i32 \<Rightarrow> string" where
  "uintToString value = show_nat (unat value)"

text \<open>Negation of an \<open>Int\<close> wraps at its minimum, as the compiler implements it.\<close>

definition valueToString_int :: "i32 \<Rightarrow> string" where
  "valueToString_int value =
     (if sint value < 0 then CHR ''-'' # uintToString (- value) else uintToString value)"

definition valueToString_uint :: "i32 \<Rightarrow> string" where
  "valueToString_uint value = uintToString value"

definition valueToString_bool :: "bool \<Rightarrow> string" where
  "valueToString_bool b = (if b then ''true'' else ''false'')"

text \<open>Trailing zeros after the decimal point are cut, but one is kept.\<close>

definition trim_zeros :: "string \<Rightarrow> string" where
  "trim_zeros buffer =
     (if buffer = [] \<or> last buffer \<noteq> CHR ''0'' then buffer
      else let kept = rev (dropWhile (\<lambda>c. c = CHR ''0'') (rev (tl buffer)));
               last_nonzero = length kept
           in case dropWhile is_digit (rev (take (last_nonzero + 1) buffer)) of
                c # _ \<Rightarrow> if c = CHR ''.'' then take (last_nonzero + 2) buffer else buffer
              | [] \<Rightarrow> buffer)"

definition valueToString_double :: "('d \<Rightarrow> string) \<Rightarrow> 'd \<Rightarrow> string" where
  "valueToString_double fmt value = trim_zeros (fmt value)"

definition BS :: char where "BS = CHR 0x5C"
definition DQ :: char where "DQ = CHR 0x22"

definition hex_upper :: "nat \<Rightarrow> char" where
  "hex_upper n = (if n < 10 then char_of (48 + n) else char_of (55 + n))"

definition escape_char :: "char \<Rightarrow> string" where
  "escape_char c =
     (if c = DQ then [BS, DQ]
      else if c = BS then [BS, BS]
      else if c = CHR 0x08 then [BS, CHR ''b'']
      else if c = CHR 0x0C then [BS, CHR ''f'']
      else if c = CHR 0x0A then [BS, CHR ''n'']
      else if c = CHR 0x0D then [BS, CHR ''r'']
      else if c = CHR 0x09 then [BS, CHR ''t'']
      else if isControlCharacter c
      then [BS, CHR ''u'', CHR ''0'', CHR ''0'', hex_upper (of_char c div 16), hex_upper (of_char c mod 16)]
      else [c])"

definition needs_escape :: "char \<Rightarrow> bool" where
  "needs_escape c \<longleftrightarrow> c = DQ \<or> c = BS \<or> (of_char c :: nat) \<in> {8, 12, 10, 13, 9}"

definition valueToQuotedString :: "string \<Rightarrow> string" where
  "valueToQuotedString value =
     (if \<not> list_ex needs_escape (c_str value) \<and> \<not> containsControlCharacter value
      then [DQ] @ c_str value @ [DQ]
      else [DQ] @ concat (map escape_char (c_str value)) @ [DQ])"

section \<open>FastWriter\<close>

fun join :: "string \<Rightarrow> string list \<Rightarrow> string" where
  "join sep [] = []"
| "join sep [x] = x"
| "join sep (x # y # ys) = x @ sep @ join sep (y # ys)"

text \<open>The elements \<open>value[0], ..., value[size() - 1]\<close>.\<close>

definition array_elems :: "(int \<times> 'd json) list \<Rightarrow> 'd json list" where
  "array_elems kvs = map (\<lambda>i. case map_of kvs (slot i) of Some v \<Rightarrow> v | None \<Rightarrow> NullV) [0..<json_size (ArrayV kvs)]"

lemma size_array_elem:
  assumes "x \<in> set (array_elems kvs)"
  shows "size x < Suc (size_list (size_prod (\<lambda>_. 0) size) kvs)"
proof -
  from assms obtain i where "x = (case map_of kvs (slot i) of Some v \<Rightarrow> v | None \<Rightarrow> NullV)"
    by (auto simp: array_elems_def)
  moreover have "kvs \<noteq> []" using assms by (auto simp: array_elems_def)
  then have "size (NullV :: 'a json) < Suc (size_list (size_prod (\<lambda>_. 0) size) kvs)" by (cases kvs) auto
  moreover have "map_of kvs (slot i) = Some v \<Longrightarrow> size v < Suc (size_list (size_prod (\<lambda>_. 0) size) kvs)" for v
    by (rule size_member [OF map_of_SomeD])
  ultimately show ?thesis by (simp split: option.splits)
qed

function fw_value :: "bool \<Rightarrow> ('d \<Rightarrow> string) \<Rightarrow> 'd json \<Rightarrow> string" where
  "fw_value y fmt NullV = ''null''"
| "fw_value y fmt (IntV i) = valueToString_int i"
| "fw_value y fmt (UIntV u) = valueToString_uint u"
| "fw_value y fmt (RealV r) = valueToString_double fmt r"
| "fw_value y fmt (StringV s) = valueToQuotedString s"
| "fw_value y fmt (BoolV b) = valueToString_bool b"
| "fw_value y fmt (ArrayV kvs) = ''['' @ join '','' (map (fw_value y fmt) (array_elems kvs)) @ '']''"
| "fw_value y fmt (ObjectV kvs) =
     ''{'' @ join '','' (map (\<lambda>(k, v). valueToQuotedString k @ (if y then '': '' else '':'') @ fw_value y fmt v) kvs) @ ''}''"
  by pat_completeness auto
termination fw_value
  by (relation "measure (\<lambda>(y, fmt, v). size v)") (auto dest: size_array_elem size_member)

definition fast_write :: "bool \<Rightarrow> ('d \<Rightarrow> string) \<Rightarrow> 'd json \<Rightarrow> string" where
  "fast_write y fmt root = fw_value y fmt root @ [CHR 0x0A]"

section \<open>StyledWriter\<close>

record styled =
  document :: string
  childValues :: "string list"
  addChildValues :: bool
  indentString :: string

definition rightMargin :: nat where "rightMargin = 74"
definition indentSize :: nat where "indentSize = 3"

definition pushValue :: "string \<Rightarrow> styled \<Rightarrow> styled" where
  "pushValue value s =
     (if addChildValues s then s\<lparr>childValues := childValues s @ [value]\<rparr>
      else s\<lparr>document := document s @ value\<rparr>)"

definition writeIndent :: "styled \<Rightarrow> styled" where
  "writeIndent s =
     (if document s \<noteq> []
      then if last (document s) = CHR '' '' then s
           else if last (document s) \<noteq> CHR 0x0A
           then s\<lparr>document := document s @ [CHR 0x0A] @ indentString s\<rparr>
           else s\<lparr>document := document s @ indentString s\<rparr>
      else s\<lparr>document := document s @ indentString s\<rparr>)"

definition writeWithIndent :: "string \<Rightarrow> styled \<Rightarrow> styled" where
  "writeWithIndent value s = (let s1 = writeIndent s in s1\<lparr>document := document s1 @ value\<rparr>)"

definition indent :: "styled \<Rightarrow> styled" where
  "indent s = s\<lparr>indentString := indentString s @ replicate indentSize (CHR '' '')\<rparr>"

definition unindent :: "styled \<Rightarrow> styled res" where
  "unindent s = c_assert (length (indentString s) \<ge> indentSize)
     (Inr (s\<lparr>indentString := take (length (indentString s) - indentSize) (indentString s)\<rparr>))"

definition put :: "string \<Rightarrow> styled \<Rightarrow> styled" where
  "put t s = s\<lparr>document := document s @ t\<rparr>"

fun rfold :: "('a \<Rightarrow> 's \<Rightarrow> 's res) \<Rightarrow> 'a list \<Rightarrow> 's \<Rightarrow> 's res" where
  "rfold f [] s = Inr s"
| "rfold f (x # xs) s = rbind (f x s) (rfold f xs)"

lemma rfold_cong [fundef_cong]:
  assumes "xs = ys" "s = t" "\<And>x s. x \<in> set ys \<Longrightarrow> f x s = g x s"
  shows "rfold f xs s = rfold g ys t"
proof -
  have "rfold f ys t = rfold g ys t" if "\<And>x s. x \<in> set ys \<Longrightarrow> f x s = g x s" for ys t
    using that by (induction ys arbitrary: t) (auto simp: rbind_def split: sum.splits)
  with assms show ?thesis by blast
qed

definition child_nonempty :: "'d json \<Rightarrow> bool" where
  "child_nonempty c \<longleftrightarrow> (isArray c \<or> isObject c) \<and> json_size c > 0"

definition nth_child :: "nat \<Rightarrow> styled \<Rightarrow> string res" where
  "nth_child i s = (if i < length (childValues s) then Inr (childValues s ! i) else Inl OutOfBounds)"

text \<open>
  \<open>writeValue\<close>, with \<open>writeArrayValue\<close> and \<open>isMultineArray\<close> in the case of an array. The last element
  of a list is not followed by a comma.
\<close>

definition commas :: "'a list \<Rightarrow> (nat \<times> bool \<times> 'a) list" where
  "commas xs = map (\<lambda>i. (i, i + 1 < length xs, xs ! i)) [0..<length xs]"

lemma set_commas: "(i, b, x) \<in> set (commas xs) \<Longrightarrow> x \<in> set xs"
  by (auto simp: commas_def)

definition isMultineArray_pre :: "'d json list \<Rightarrow> bool" where
  "isMultineArray_pre xs \<longleftrightarrow> length xs * 3 \<ge> rightMargin \<or> list_ex child_nonempty xs"

definition lineLength :: "nat \<Rightarrow> string list \<Rightarrow> nat" where
  "lineLength n childs = 4 + (n - 1) * 2 + sum_list (map length (take n childs))"

function sw_value :: "('d \<Rightarrow> string) \<Rightarrow> 'd json \<Rightarrow> styled \<Rightarrow> styled res" where
  "sw_value fmt NullV s = Inr (pushValue ''null'' s)"
| "sw_value fmt (IntV i) s = Inr (pushValue (valueToString_int i) s)"
| "sw_value fmt (UIntV u) s = Inr (pushValue (valueToString_uint u) s)"
| "sw_value fmt (RealV r) s = Inr (pushValue (valueToString_double fmt r) s)"
| "sw_value fmt (StringV t) s = Inr (pushValue (valueToQuotedString t) s)"
| "sw_value fmt (BoolV b) s = Inr (pushValue (valueToString_bool b) s)"
| "sw_value fmt (ArrayV kvs) s =
     (let xs = array_elems kvs; size = length xs
      in if size = 0 then Inr (pushValue ''[]'' s)
         else if size * 3 \<ge> 2 ^ 31 then Inl Overflow
         else
           rbind
             (if isMultineArray_pre xs then Inr (True, s\<lparr>childValues := []\<rparr>)
              else rbind (rfold (\<lambda>x. sw_value fmt x) xs (s\<lparr>childValues := [], addChildValues := True\<rparr>)) (\<lambda>s1.
                   if length (childValues s1) < size then Inl OutOfBounds
                   else Inr (lineLength size (childValues s1) \<ge> rightMargin, s1\<lparr>addChildValues := False\<rparr>)))
             (\<lambda>(isArrayMultiLine, s2).
              if isArrayMultiLine
              then let hasChildValue = (childValues s2 \<noteq> []);
                       s3 = indent (writeWithIndent ''['' s2)
                   in rbind (rfold (\<lambda>(i, comma, x) s4.
                          rbind (if hasChildValue then rbind (nth_child i s4) (\<lambda>t. Inr (writeWithIndent t s4))
                                 else sw_value fmt x (writeIndent s4)) (\<lambda>s5.
                          Inr (if comma then put '','' s5 else s5)))
                        (commas xs) s3) (\<lambda>s6.
                      rbind (unindent s6) (\<lambda>s7. Inr (writeWithIndent '']'' s7)))
              else c_assert (length (childValues s2) = size)
                   (Inr (put ('' ]'') (put (join '', '' (childValues s2)) (put ''[ '' s2))))))"
| "sw_value fmt (ObjectV kvs) s =
     (if kvs = [] then Inr (pushValue ''{}'' s)
      else rbind (rfold (\<lambda>(i, comma, (k, v)) s4.
              rbind (sw_value fmt v (put '' : '' (writeWithIndent (valueToQuotedString k) s4))) (\<lambda>s5.
              Inr (if comma then put '','' s5 else s5)))
             (commas kvs) (indent (writeWithIndent ''{'' s))) (\<lambda>s6.
           rbind (unindent s6) (\<lambda>s7. Inr (writeWithIndent ''}'' s7))))"
  by pat_completeness auto
lemma size_commas_elem:
  "(i, b, x) \<in> set (commas (array_elems kvs)) \<Longrightarrow> size x < Suc (size_list (size_prod (\<lambda>_. 0) size) kvs)"
  by (rule size_array_elem [OF set_commas])

lemma size_commas_member:
  "(i, b, k, v) \<in> set (commas kvs) \<Longrightarrow> size v < Suc (size_list (size_prod (\<lambda>_. 0) size) kvs)"
  by (rule size_member [OF set_commas])

termination sw_value
  by (relation "measure (\<lambda>(fmt, v, s). size v)") (auto dest: size_commas_elem size_commas_member size_array_elem)

definition styled_write :: "('d \<Rightarrow> string) \<Rightarrow> 'd json \<Rightarrow> string res" where
  "styled_write fmt root =
     rbind (sw_value fmt root \<lparr>document = [], childValues = [], addChildValues = False, indentString = []\<rparr>) (\<lambda>s.
     Inr (document s @ [CHR 0x0A]))"

definition toStyledString :: "('d \<Rightarrow> string) \<Rightarrow> 'd json \<Rightarrow> string res" where
  "toStyledString fmt v = styled_write fmt v"

end
