(* ===== verification/JsonReader.thy ===== *)
theory JsonReader
  imports JsonWriter
begin

text \<open>
  The JSON parser (\<open>jsoncpp/reader.h\<close>, \<open>json_reader.cpp\<close>). The document from \<open>current_\<close> to \<open>end_\<close> is
  the remaining string; a token carries its type and its text. An error is its message; the
  locations and the attachment of comments to values are not modelled. \<open>sscanf("%lf")\<close> is the
  parameter \<open>scan\<close>. Documents are shorter than \<open>2 ^ 31\<close> bytes, so that the \<open>int\<close> counter of \<open>readArray\<close> does not overflow.

  The recursive functions of the parser take fuel, and \<^const>\<open>None\<close> is running out of it; \<open>parse\<close>
  gives them enough for every document, which is a theorem below.
\<close>

section \<open>Tokens\<close>

datatype token_type =
    tokenEndOfStream | tokenObjectBegin | tokenObjectEnd | tokenArrayBegin | tokenArrayEnd | tokenString
  | tokenNumber | tokenTrue | tokenFalse | tokenNull | tokenArraySeparator | tokenMemberSeparator
  | tokenComment | tokenError

record features =
  allowComments :: bool
  strictRoot :: bool

definition features_all :: features where
  "features_all = \<lparr>allowComments = True, strictRoot = False\<rparr>"

definition features_strict :: features where
  "features_strict = \<lparr>allowComments = False, strictRoot = True\<rparr>"

definition is_space :: "char \<Rightarrow> bool" where
  "is_space c \<longleftrightarrow> c = CHR '' '' \<or> (of_char c :: nat) \<in> {9, 13, 10}"

definition skipSpaces :: "string \<Rightarrow> string" where
  "skipSpaces r = dropWhile is_space r"

fun getNextChar :: "string \<Rightarrow> char \<times> string" where
  "getNextChar [] = (CHR 0x00, [])"
| "getNextChar (c # cs) = (c, cs)"

definition match :: "string \<Rightarrow> string \<Rightarrow> bool \<times> string" where
  "match pattern r =
     (if length r < length pattern then (False, r)
      else if take (length pattern) r = pattern then (True, drop (length pattern) r) else (False, r))"

fun skip_c_comment :: "string \<Rightarrow> string" where
  "skip_c_comment [] = []"
| "skip_c_comment (c # cs) = (if c = CHR ''*'' \<and> fst (getNextChar cs) = CHR ''/'' then cs else skip_c_comment cs)"

definition readCStyleComment :: "string \<Rightarrow> bool \<times> string" where
  "readCStyleComment r = (case getNextChar (skip_c_comment r) of (c, r') \<Rightarrow> (c = CHR ''/'', r'))"

fun readCppStyleComment :: "string \<Rightarrow> string" where
  "readCppStyleComment [] = []"
| "readCppStyleComment (c # cs) = (if (of_char c :: nat) \<in> {13, 10} then cs else readCppStyleComment cs)"

definition readComment :: "string \<Rightarrow> bool \<times> string" where
  "readComment r =
     (case getNextChar r of (c, r') \<Rightarrow>
        if c = CHR ''*'' then readCStyleComment r'
        else if c = CHR ''/'' then (True, readCppStyleComment r')
        else (False, r'))"

definition number_char :: "char \<Rightarrow> bool" where
  "number_char c \<longleftrightarrow> is_digit c \<or> c \<in> set ''.eE+-''"

definition readNumber :: "string \<Rightarrow> string" where
  "readNumber r = dropWhile number_char r"

fun readString :: "string \<Rightarrow> bool \<times> string" where
  "readString [] = (False, [])"
| "readString (c # cs) =
     (if c = BS then (case cs of [] \<Rightarrow> (False, []) | _ # ds \<Rightarrow> readString ds)
      else if c = DQ then (True, cs)
      else readString cs)"

text \<open>The type, whether it holds, and the rest, for a token that starts with \<open>c\<close>.\<close>

definition classify :: "char \<Rightarrow> string \<Rightarrow> token_type \<times> bool \<times> string" where
  "classify c cs =
     (if c = CHR ''{'' then (tokenObjectBegin, True, cs)
      else if c = CHR ''}'' then (tokenObjectEnd, True, cs)
      else if c = CHR ''['' then (tokenArrayBegin, True, cs)
      else if c = CHR '']'' then (tokenArrayEnd, True, cs)
      else if c = DQ then (tokenString, readString cs)
      else if c = CHR ''/'' then (tokenComment, readComment cs)
      else if is_digit c \<or> c = CHR ''-'' then (tokenNumber, True, readNumber cs)
      else if c = CHR ''t'' then (tokenTrue, match ''rue'' cs)
      else if c = CHR ''f'' then (tokenFalse, match ''alse'' cs)
      else if c = CHR ''n'' then (tokenNull, match ''ull'' cs)
      else if c = CHR '','' then (tokenArraySeparator, True, cs)
      else if c = CHR '':'' then (tokenMemberSeparator, True, cs)
      else if c = CHR 0x00 then (tokenEndOfStream, True, cs)
      else (tokenError, False, cs))"

definition readToken :: "string \<Rightarrow> token_type \<times> string \<times> string" where
  "readToken r0 =
     (let r = skipSpaces r0
      in case r of
           [] \<Rightarrow> (tokenEndOfStream, [], [])
         | c # cs \<Rightarrow>
             (case classify c cs of (t, ok, r') \<Rightarrow>
                (if ok then t else tokenError, take (length r - length r') r, r')))"

lemma length_skip_c: "length (skip_c_comment r) \<le> length r"
  by (induction r) auto

lemma length_cpp: "length (readCppStyleComment r) \<le> length r"
  by (induction r) auto

lemma length_getNextChar: "getNextChar r = (c, r') \<Longrightarrow> length r' \<le> length r"
  by (cases r) auto

lemma length_readString: "readString r = (b, r') \<Longrightarrow> length r' \<le> length r"
  by (induction r rule: readString.induct) (force split: if_splits list.splits)+

lemma length_readComment: "readComment r = (b, r') \<Longrightarrow> length r' \<le> length r"
  using length_skip_c length_cpp
  by (auto simp: readComment_def readCStyleComment_def split: prod.splits if_splits dest!: length_getNextChar)
     (meson le_trans)+

lemma length_readNumber: "length (readNumber r) \<le> length r"
  by (simp add: readNumber_def length_dropWhile_le)

lemma length_match: "match p r = (b, r') \<Longrightarrow> length r' \<le> length r"
  by (auto simp: match_def split: if_splits)

lemma length_classify: "classify c cs = (t, b, r') \<Longrightarrow> length r' \<le> length cs"
  using length_readNumber
  by (auto simp: classify_def split: if_splits dest: length_readString length_readComment length_match)

lemma readToken_less:
  assumes "readToken r = (t, x, r')" "t \<noteq> tokenEndOfStream"
  shows "length r' < length r"
proof (cases "skipSpaces r")
  case Nil
  then show ?thesis using assms by (simp add: readToken_def)
next
  case (Cons c cs)
  have "length (skipSpaces r) \<le> length r" by (simp add: skipSpaces_def length_dropWhile_le)
  moreover obtain t' b where "classify c cs = (t', b, r')"
    using assms(1) Cons by (auto simp: readToken_def Let_def split: prod.splits)
  ultimately show ?thesis using Cons length_classify [of c cs t' b r'] by simp
qed

lemma readToken_le: "readToken r = (t, x, r') \<Longrightarrow> length r' \<le> length r"
proof (cases "skipSpaces r")
  case (Cons c cs)
  assume a: "readToken r = (t, x, r')"
  have "length (skipSpaces r) \<le> length r" by (simp add: skipSpaces_def length_dropWhile_le)
  moreover obtain t' b where "classify c cs = (t', b, r')"
    using a Cons by (auto simp: readToken_def Let_def split: prod.splits)
  ultimately show ?thesis using Cons length_classify [of c cs t' b r'] by simp
qed (simp add: readToken_def)

text \<open>The next token that is not a comment: the loops of \<open>skipCommentTokens\<close>, \<open>readObject\<close> and \<open>readArray\<close>.\<close>

function next_token :: "string \<Rightarrow> token_type \<times> string \<times> string" where
  "next_token r = (case readToken r of (t, x, r') \<Rightarrow> if t = tokenComment then next_token r' else (t, x, r'))"
  by pat_completeness auto
termination next_token
  by (relation "measure length") (auto dest: readToken_less [OF sym])

declare next_token.simps [simp del]

definition skipCommentTokens :: "features \<Rightarrow> string \<Rightarrow> token_type \<times> string \<times> string" where
  "skipCommentTokens F r = (if allowComments F then next_token r else readToken r)"

function recoverFromError :: "token_type \<Rightarrow> string \<Rightarrow> string" where
  "recoverFromError skipUntil r =
     (case readToken r of (t, x, r') \<Rightarrow>
        if t = skipUntil \<or> t = tokenEndOfStream then r' else recoverFromError skipUntil r')"
  by pat_completeness auto
termination recoverFromError
  by (relation "measure (\<lambda>(t, r). length r)") (auto dest: readToken_less [OF sym])

declare recoverFromError.simps [simp del]

section \<open>Decoding\<close>

datatype num_scan = NumValue nat | NumBad | NumDouble

fun scan_digits :: "nat \<Rightarrow> nat \<Rightarrow> string \<Rightarrow> num_scan" where
  "scan_digits threshold value [] = NumValue value"
| "scan_digits threshold value (c # cs) =
     (if \<not> is_digit c then NumBad
      else if value \<ge> threshold then NumDouble
      else scan_digits threshold ((value * 10 + digit_val c) mod 2 ^ 32) cs)"

text \<open>The local buffer has 32 characters; the terminating zero is stored behind the copied text.\<close>

definition decodeDouble :: "(string \<Rightarrow> 'd option) \<Rightarrow> string \<Rightarrow> 'd json option res" where
  "decodeDouble scan text =
     (if length text \<le> 32
      then if length text = 32 then Inl OutOfBounds else Inr (map_option RealV (scan text))
      else Inr (map_option RealV (scan text)))"

definition is_double_text :: "string \<Rightarrow> bool" where
  "is_double_text text \<longleftrightarrow> list_ex (\<lambda>c. c \<in> set ''.eE+'') text \<or> list_ex (\<lambda>c. c = CHR ''-'') (tl text)"

text \<open>
  For a negative integer the threshold is made from \<open>-Value::minInt\<close>, a negation that overflows the \<open>int\<close>. With \<open>ub\<close> this is the
  fault \<open>Overflow\<close>; without it the negation has its two's complement value, as compilers give it, and the \<open>UInt\<close> made from it is \<open>2 ^ 31\<close>.
\<close>

definition neg_minInt :: "bool \<Rightarrow> nat res" where
  "neg_minInt ub = (if ub then Inl Overflow else Inr (unat (- (of_int minInt) :: i32)))"

definition decodeNumber :: "bool \<Rightarrow> (string \<Rightarrow> 'd option) \<Rightarrow> string \<Rightarrow> 'd json option res" where
  "decodeNumber ub scan text =
     (if is_double_text text then decodeDouble scan text
      else let isNegative = (text \<noteq> [] \<and> hd text = CHR ''-'');
               digits = (if isNegative then tl text else text)
           in rbind (if isNegative then neg_minInt ub else Inr (nat maxUInt)) (\<lambda>limit.
              let threshold = limit div 10
              in case scan_digits threshold 0 digits of
                NumBad \<Rightarrow> Inr None
              | NumDouble \<Rightarrow> decodeDouble scan text
              | NumValue value \<Rightarrow>
                  Inr (Some (if isNegative then IntV (- of_nat value)
                             else if int value \<le> maxInt then IntV (of_nat value)
                             else UIntV (of_nat value)))))"

fun hex_val :: "char \<Rightarrow> nat option" where
  "hex_val c =
     (let n = of_char c
      in if 48 \<le> n \<and> n \<le> 57 then Some (n - 48)
         else if 97 \<le> n \<and> n \<le> 102 then Some (n - 97 + 10)
         else if 65 \<le> n \<and> n \<le> 70 then Some (n - 65 + 10)
         else None)"

fun hex_digits :: "nat \<Rightarrow> nat \<Rightarrow> string \<Rightarrow> (nat \<times> string) option" where
  "hex_digits 0 u r = Some (u, r)"
| "hex_digits (Suc k) u [] = None"
| "hex_digits (Suc k) u (c # cs) = (case hex_val c of None \<Rightarrow> None | Some d \<Rightarrow> hex_digits k (u * 16 + d) cs)"

definition decodeUnicodeEscapeSequence :: "string \<Rightarrow> string + nat \<times> string" where
  "decodeUnicodeEscapeSequence r =
     (if length r < 4 then Inl ''Bad unicode escape sequence in string: four digits expected.''
      else case hex_digits 4 0 r of
             None \<Rightarrow> Inl ''Bad unicode escape sequence in string: hexadecimal digit expected.''
           | Some res \<Rightarrow> Inr res)"

definition decodeUnicodeCodePoint :: "string \<Rightarrow> string + nat \<times> string" where
  "decodeUnicodeCodePoint r =
     (case decodeUnicodeEscapeSequence r of
        Inl e \<Rightarrow> Inl e
      | Inr (u, r1) \<Rightarrow>
          if 0xD800 \<le> u \<and> u \<le> 0xDBFF
          then if length r1 < 6
               then Inl ''additional six characters expected to parse unicode surrogate pair.''
               else if hd r1 = BS \<and> hd (tl r1) = CHR ''u''
               then (case decodeUnicodeEscapeSequence (drop 2 r1) of
                       Inl e \<Rightarrow> Inl e
                     | Inr (s, r2) \<Rightarrow> Inr (0x10000 + (u mod 1024) * 1024 + s mod 1024, r2))
               else Inl (''expecting another '' @ [BS] @ ''u token to begin the second half of a unicode surrogate pair'')
          else Inr (u, r1))"

definition codePointToUTF8 :: "nat \<Rightarrow> string" where
  "codePointToUTF8 cp =
     (if cp \<le> 0x7f then [char_of cp]
      else if cp \<le> 0x7FF then [char_of (192 + (cp div 64) mod 32), char_of (128 + cp mod 64)]
      else if cp \<le> 0xFFFF
      then [char_of (224 + (cp div 4096) mod 16), char_of (128 + (cp div 64) mod 64), char_of (128 + cp mod 64)]
      else if cp \<le> 0x10FFFF
      then [char_of (240 + (cp div 262144) mod 8), char_of (128 + (cp div 4096) mod 64),
            char_of (128 + (cp div 64) mod 64), char_of (128 + cp mod 64)]
      else [])"

definition simple_escape :: "char \<Rightarrow> string option" where
  "simple_escape e =
     (if e = DQ then Some [DQ] else if e = CHR ''/'' then Some ''/'' else if e = BS then Some [BS]
      else if e = CHR ''b'' then Some [CHR 0x08] else if e = CHR ''f'' then Some [CHR 0x0C]
      else if e = CHR ''n'' then Some [CHR 0x0A] else if e = CHR ''r'' then Some [CHR 0x0D]
      else if e = CHR ''t'' then Some [CHR 0x09] else None)"

lemma length_hex_digits: "hex_digits k u r = Some (v, r') \<Longrightarrow> length r' \<le> length r"
  by (induction k u r rule: hex_digits.induct) (auto split: option.splits simp del: hex_val.simps)

lemma length_escape: "decodeUnicodeEscapeSequence r = Inr (u, r') \<Longrightarrow> length r' \<le> length r"
  by (auto simp: decodeUnicodeEscapeSequence_def split: if_splits option.splits dest: length_hex_digits)

lemma length_codepoint: "decodeUnicodeCodePoint r = Inr (u, r') \<Longrightarrow> length r' \<le> length r"
  by (fastforce simp: decodeUnicodeCodePoint_def split: sum.splits prod.splits if_splits dest: length_escape)

text \<open>The characters between the quotes of a string token.\<close>

function decode_chars :: "string \<Rightarrow> string \<Rightarrow> string + string" where
  "decode_chars [] acc = Inr acc"
| "decode_chars (c # cs) acc =
     (if c = DQ then Inr acc
      else if c = BS
      then (case cs of
              [] \<Rightarrow> Inl ''Empty escape sequence in string''
            | e # ds \<Rightarrow>
                if e = CHR ''u''
                then (case decodeUnicodeCodePoint ds of
                        Inl m \<Rightarrow> Inl m
                      | Inr (u, r) \<Rightarrow> decode_chars r (acc @ codePointToUTF8 u))
                else (case simple_escape e of
                        None \<Rightarrow> Inl ''Bad escape sequence in string''
                      | Some t \<Rightarrow> decode_chars ds (acc @ t)))
      else decode_chars cs (acc @ [c]))"
  by pat_completeness auto
termination decode_chars
  by (relation "measure (\<lambda>(r, acc). length r)") (auto dest!: length_codepoint)

definition decodeString :: "string \<Rightarrow> string + string" where
  "decodeString text = decode_chars (butlast (tl text)) []"

section \<open>The parser\<close>

text \<open>The rest of the document and the messages collected.\<close>

type_synonym pstate = "string \<times> string list"

definition not_a_number :: "string \<Rightarrow> string" where
  "not_a_number text = [CHR 0x27] @ text @ [CHR 0x27] @ '' is not a number.''"

text \<open>\<open>recoverFromError\<close> discards the errors of the tokens it skips; there are none to record.\<close>

definition fail_recover :: "token_type \<Rightarrow> 'v \<Rightarrow> pstate \<Rightarrow> (bool \<times> 'v \<times> pstate) run" where
  "fail_recover t v st = Some (Inr (False, v, recoverFromError t (fst st), snd st))"

definition addErrorAndRecover :: "string \<Rightarrow> token_type \<Rightarrow> 'v \<Rightarrow> pstate \<Rightarrow> (bool \<times> 'v \<times> pstate) run" where
  "addErrorAndRecover msg t v st = fail_recover t v (fst st, snd st @ [msg])"

text \<open>A member of the object under construction, and the object with the member replaced.\<close>

fun obj_member :: "string \<Rightarrow> 'd json \<Rightarrow> 'd json" where
  "obj_member name (ObjectV kvs) = (case map_of kvs (c_str name) of Some v \<Rightarrow> v | None \<Rightarrow> NullV)"
| "obj_member name _ = NullV"

fun obj_put :: "string \<Rightarrow> 'd json \<Rightarrow> 'd json \<Rightarrow> 'd json" where
  "obj_put name x (ObjectV kvs) = ObjectV (ins_key (c_str name) x kvs)"
| "obj_put name x v = v"

fun arr_put :: "nat \<Rightarrow> 'd json \<Rightarrow> 'd json \<Rightarrow> 'd json" where
  "arr_put i x (ArrayV kvs) = ArrayV (ins_key (slot i) x kvs)"
| "arr_put i x v = v"

text \<open>
  The three mutually recursive functions, each over \<open>rec\<close>, which stands for their recursive calls;
  \<open>run_parser\<close> ties the knot, one unit of fuel per call.
\<close>

datatype 'd call = CallValue "'d json" | CallObject string "'d json" | CallArray nat "'d json"

type_synonym 'd parser = "'d call \<Rightarrow> pstate \<Rightarrow> (bool \<times> 'd json \<times> pstate) run"

definition readValue :: "bool \<Rightarrow> features \<Rightarrow> (string \<Rightarrow> 'd option) \<Rightarrow> 'd parser \<Rightarrow> 'd json \<Rightarrow> string \<Rightarrow> string list \<Rightarrow> (bool \<times> 'd json \<times> pstate) run" where
  "readValue ub F scan rec cur r errs =
     (case skipCommentTokens F r of (t, text, r1) \<Rightarrow>
        (case t of
           tokenObjectBegin \<Rightarrow> rec (CallObject [] (ObjectV [])) (r1, errs)
         | tokenArrayBegin \<Rightarrow>
             (let r2 = skipSpaces r1
              in if fst (getNextChar r2) = CHR '']''
                 then (case readToken r2 of (_, _, r3) \<Rightarrow> Some (Inr (True, ArrayV [], r3, errs)))
                 else rec (CallArray 0 (ArrayV [])) (r2, errs))
         | tokenNumber \<Rightarrow>
             (case decodeNumber ub scan text of
                Inl e \<Rightarrow> Some (Inl e)
              | Inr None \<Rightarrow> Some (Inr (False, cur, r1, errs @ [not_a_number text]))
              | Inr (Some v) \<Rightarrow> Some (Inr (True, v, r1, errs)))
         | tokenString \<Rightarrow>
             (case decodeString text of
                Inl m \<Rightarrow> Some (Inr (False, cur, r1, errs @ [m]))
              | Inr s \<Rightarrow> Some (Inr (True, value_of_string s, r1, errs)))
         | tokenTrue \<Rightarrow> Some (Inr (True, BoolV True, r1, errs))
         | tokenFalse \<Rightarrow> Some (Inr (True, BoolV False, r1, errs))
         | tokenNull \<Rightarrow> Some (Inr (True, NullV, r1, errs))
         | _ \<Rightarrow> Some (Inr (False, cur, r1, errs @ [''Syntax error: value, object or array expected.'']))))"

definition quoted :: "string \<Rightarrow> string" where
  "quoted s = [CHR 0x27] @ s @ [CHR 0x27]"

text \<open>What follows a member of an object.\<close>

definition readObject_next :: "'d parser \<Rightarrow> string \<Rightarrow> 'd json \<Rightarrow> string \<Rightarrow> string list \<Rightarrow> (bool \<times> 'd json \<times> pstate) run" where
  "readObject_next rec nm cur r errs =
     (case readToken r of (tm, _, r1) \<Rightarrow>
        if tm \<noteq> tokenObjectEnd \<and> tm \<noteq> tokenArraySeparator \<and> tm \<noteq> tokenComment
        then addErrorAndRecover (''Missing '' @ quoted '','' @ '' or '' @ quoted ''}'' @ '' in object declaration'')
               tokenObjectEnd cur (r1, errs)
        else (case (if tm = tokenComment then next_token r1 else (tm, [], r1)) of (tm', _, r2) \<Rightarrow>
                if tm' = tokenObjectEnd then Some (Inr (True, cur, r2, errs))
                else rec (CallObject nm cur) (r2, errs)))"

definition readObject :: "'d parser \<Rightarrow> string \<Rightarrow> 'd json \<Rightarrow> string \<Rightarrow> string list \<Rightarrow> (bool \<times> 'd json \<times> pstate) run" where
  "readObject rec name cur r errs =
     (case next_token r of (t, text, r1) \<Rightarrow>
        if t = tokenObjectEnd \<and> name = [] then Some (Inr (True, cur, r1, errs))
        else if t \<noteq> tokenString
        then addErrorAndRecover (''Missing '' @ quoted ''}'' @ '' or object member name'') tokenObjectEnd cur (r1, errs)
        else (case decodeString text of
                Inl m \<Rightarrow> fail_recover tokenObjectEnd cur (r1, errs @ [m])
              | Inr nm \<Rightarrow>
                  (case readToken r1 of (tc, _, r2) \<Rightarrow>
                     if tc \<noteq> tokenMemberSeparator
                     then addErrorAndRecover (''Missing '' @ quoted '':'' @ '' after object member name'')
                            tokenObjectEnd cur (r2, errs)
                     else obind (rec (CallValue (obj_member nm cur)) (r2, errs)) (\<lambda>(ok, v, r3, errs3).
                          let cur1 = obj_put nm v cur
                          in if \<not> ok then fail_recover tokenObjectEnd cur1 (r3, errs3)
                             else readObject_next rec nm cur1 r3 errs3))))"

definition readArray :: "'d parser \<Rightarrow> nat \<Rightarrow> 'd json \<Rightarrow> string \<Rightarrow> string list \<Rightarrow> (bool \<times> 'd json \<times> pstate) run" where
  "readArray rec i cur r errs =
     obind (rec (CallValue NullV) (r, errs)) (\<lambda>(ok, v, r1, errs1).
     let cur1 = arr_put i v cur
     in if \<not> ok then fail_recover tokenArrayEnd cur1 (r1, errs1)
        else (case next_token r1 of (t, _, r2) \<Rightarrow>
                if t = tokenArrayEnd then Some (Inr (True, cur1, r2, errs1))
                else rec (CallArray (Suc i) cur1) (r2, errs1)))"

primrec run_parser :: "bool \<Rightarrow> features \<Rightarrow> (string \<Rightarrow> 'd option) \<Rightarrow> nat \<Rightarrow> 'd parser" where
  "run_parser ub F scan 0 = (\<lambda>_ _. None)"
| "run_parser ub F scan (Suc n) = (\<lambda>c (r, errs). case c of
       CallValue cur \<Rightarrow> readValue ub F scan (run_parser ub F scan n) cur r errs
     | CallObject name cur \<Rightarrow> readObject (run_parser ub F scan n) name cur r errs
     | CallArray i cur \<Rightarrow> readArray (run_parser ub F scan n) i cur r errs)"

definition parse_fuel :: "string \<Rightarrow> nat" where
  "parse_fuel doc = 2 * length doc + 2"

text \<open>
  \<open>parse\<close> returns its result, the root and the error messages: \<open>parse\<close> with the two's complement value of \<open>-Value::minInt\<close>,
  \<open>parse_strict\<close> with its overflow as a fault.
\<close>

definition parse_with :: "bool \<Rightarrow> features \<Rightarrow> (string \<Rightarrow> 'd option) \<Rightarrow> string \<Rightarrow> (bool \<times> 'd json \<times> string list) run" where
  "parse_with ub F scan doc =
     obind (run_parser ub F scan (parse_fuel doc) (CallValue NullV) (doc, [])) (\<lambda>(successful, root, r, errs).
     if strictRoot F \<and> \<not> isArray root \<and> \<not> isObject root
     then Some (Inr (False, root,
            errs @ [''A valid JSON document must be either an array or an object value.'']))
     else Some (Inr (successful, root, errs)))"

definition parse :: "features \<Rightarrow> (string \<Rightarrow> 'd option) \<Rightarrow> string \<Rightarrow> (bool \<times> 'd json \<times> string list) run" where
  "parse F scan doc = parse_with False F scan doc"

definition parse_strict :: "features \<Rightarrow> (string \<Rightarrow> 'd option) \<Rightarrow> string \<Rightarrow> (bool \<times> 'd json \<times> string list) run" where
  "parse_strict F scan doc = parse_with True F scan doc"

section \<open>The parser returns\<close>

lemma next_token_less:
  "next_token r = (t, x, r') \<Longrightarrow> t \<noteq> tokenEndOfStream \<Longrightarrow> length r' < length r"
proof (induction r rule: next_token.induct)
  case (1 r)
  obtain t1 x1 r1 where t1: "readToken r = (t1, x1, r1)" by (cases "readToken r")
  show ?case
  proof (cases "t1 = tokenComment")
    case True
    then have "length r1 < length r" using readToken_less [OF t1] by simp
    moreover have "length r' < length r1"
      using 1 t1 True by (simp add: next_token.simps [of r])
    ultimately show ?thesis by simp
  next
    case False
    then show ?thesis using 1 t1 readToken_less [OF t1] by (simp add: next_token.simps [of r])
  qed
qed

lemma next_token_le: "next_token r = (t, x, r') \<Longrightarrow> length r' \<le> length r"
proof (induction r rule: next_token.induct)
  case (1 r)
  obtain t1 x1 r1 where t1: "readToken r = (t1, x1, r1)" by (cases "readToken r")
  then have le: "length r1 \<le> length r" by (rule readToken_le)
  show ?case
  proof (cases "t1 = tokenComment")
    case True
    then have "length r' \<le> length r1" using 1 t1 by (simp add: next_token.simps [of r])
    with le show ?thesis by simp
  next
    case False
    then show ?thesis using 1 t1 le by (simp add: next_token.simps [of r])
  qed
qed

lemma recover_le: "length (recoverFromError t r) \<le> length r"
proof (induction t r rule: recoverFromError.induct)
  case (1 t r)
  obtain t1 x1 r1 where t1: "readToken r = (t1, x1, r1)" by (cases "readToken r")
  then have "length r1 \<le> length r" by (rule readToken_le)
  with 1 [OF t1 [symmetric] refl] t1 show ?case by (subst recoverFromError.simps) auto
qed

lemma skipComment_less:
  "skipCommentTokens F r = (t, x, r') \<Longrightarrow> t \<noteq> tokenEndOfStream \<Longrightarrow> length r' < length r"
  by (auto simp: skipCommentTokens_def split: if_splits dest: next_token_less readToken_less)

lemma skipComment_le: "skipCommentTokens F r = (t, x, r') \<Longrightarrow> length r' \<le> length r"
  by (auto simp: skipCommentTokens_def split: if_splits dest: next_token_le readToken_le)

lemma skipSpaces_le: "length (skipSpaces r) \<le> length r"
  by (simp add: skipSpaces_def length_dropWhile_le)

lemma readToken_text: "readToken r = (t, x, r') \<Longrightarrow> length x \<le> length r"
  using skipSpaces_le [of r] by (auto simp: readToken_def Let_def split: list.splits prod.splits)

lemma next_token_text: "next_token r = (t, x, r') \<Longrightarrow> length x \<le> length r"
proof (induction r rule: next_token.induct)
  case (1 r)
  obtain t1 x1 r1 where t1: "readToken r = (t1, x1, r1)" by (cases "readToken r")
  show ?case
  proof (cases "t1 = tokenComment")
    case True
    then have "length x \<le> length r1" using 1 t1 by (simp add: next_token.simps [of r])
    with readToken_le [OF t1] show ?thesis by simp
  next
    case False
    then show ?thesis using 1(2) t1 readToken_text [OF t1] by (simp add: next_token.simps [of r])
  qed
qed

lemma skipComment_text: "skipCommentTokens F r = (t, x, r') \<Longrightarrow> length x \<le> length r"
  by (auto simp: skipCommentTokens_def split: if_splits dest: next_token_text readToken_text)

lemma decodeNumber_fault: "decodeNumber False scan x = Inl e \<Longrightarrow> e = OutOfBounds \<and> length x = 32"
  by (auto simp: decodeNumber_def decodeDouble_def neg_minInt_def Let_def split: if_splits num_scan.splits)

text \<open>A call returns, with no more of the document left than before; a value that was read took at least
  one character. The fault is the decoding of a number of 32 characters.\<close>

definition returns :: "bool \<Rightarrow> string \<Rightarrow> (bool \<times> 'v \<times> pstate) run \<Rightarrow> bool" where
  "returns strict r m \<longleftrightarrow> (case m of None \<Rightarrow> False | Some (Inl e) \<Rightarrow> e = OutOfBounds \<and> 32 \<le> length r
     | Some (Inr (ok, v, r', errs)) \<Rightarrow> length r' \<le> length r \<and> (strict \<and> ok \<longrightarrow> length r' < length r))"

lemma returns_simps [simp]:
  "returns s r (Some (Inl e)) \<longleftrightarrow> e = OutOfBounds \<and> 32 \<le> length r"
  "returns s r (Some (Inr (ok, v, r', errs))) \<longleftrightarrow> length r' \<le> length r \<and> (s \<and> ok \<longrightarrow> length r' < length r)"
  "\<not> returns s r None"
  by (simp_all add: returns_def)

lemma returns_weaken: "returns b r' m \<Longrightarrow> length r' < length r \<Longrightarrow> returns c r m"
  by (auto simp: returns_def split: option.splits sum.splits)

lemma returns_le: "returns b r' m \<Longrightarrow> length r' \<le> length r \<Longrightarrow> returns False r m"
  by (auto simp: returns_def split: option.splits sum.splits)

lemma returns_bind:
  assumes "returns True r m"
    "\<And>ok v r' errs. length r' \<le> length r \<Longrightarrow> (ok \<Longrightarrow> length r' < length r) \<Longrightarrow> returns False r (f (ok, v, r', errs))"
  shows "returns False r (obind m f)"
proof -
  consider (fault) "m = Some (Inl OutOfBounds)" "32 \<le> length r" | (val) ok v r' errs where "m = Some (Inr (ok, v, r', errs))"
    "length r' \<le> length r" "ok \<Longrightarrow> length r' < length r"
    using assms(1) unfolding returns_def by (auto split: option.splits sum.splits)
  then show ?thesis
  proof cases
    case val
    then show ?thesis using assms(2) [OF val(2,3)] by simp
  qed simp
qed

lemma returns_recover [simp]: "length (fst st) \<le> length r \<Longrightarrow> returns False r (fail_recover t v st)"
  using recover_le [of t "fst st"] by (simp add: fail_recover_def)

lemma returns_add_recover [simp]: "length (fst st) \<le> length r \<Longrightarrow> returns False r (addErrorAndRecover m t v st)"
  by (simp add: addErrorAndRecover_def)

fun fuel_for :: "'d call \<Rightarrow> string \<Rightarrow> nat" where
  "fuel_for (CallValue cur) r = 2 * length r + 2"
| "fuel_for (CallObject nm cur) r = 2 * length r + 3"
| "fuel_for (CallArray i cur) r = 2 * length r + 3"

definition is_value_call :: "'d call \<Rightarrow> bool" where
  "is_value_call c \<longleftrightarrow> (\<exists>cur. c = CallValue cur)"

lemma readValue_returns:
  assumes rec: "\<And>c r' errs. fuel_for c r' \<le> n \<Longrightarrow> returns (is_value_call c) r' (rec c (r', errs))"
    and fuel: "2 * length r + 2 \<le> Suc n"
  shows "returns True r (readValue False F scan rec cur r errs)"
proof -
  obtain t x r1 where t: "skipCommentTokens F r = (t, x, r1)" by (cases "skipCommentTokens F r")
  have le: "length r1 \<le> length r" using skipComment_le [OF t] .
  have less: "t \<noteq> tokenEndOfStream \<Longrightarrow> length r1 < length r" using skipComment_less [OF t] .
  have obj: "returns True r (rec (CallObject [] (ObjectV [])) (r1, errs))" if "length r1 < length r"
    by (rule returns_weaken [OF rec [of "CallObject [] (ObjectV [])" r1 errs] that]) (use fuel that in simp)
  have sp: "length (skipSpaces r1) < length r" if "length r1 < length r" using skipSpaces_le [of r1] that by simp
  have arr: "returns True r (rec (CallArray 0 (ArrayV [])) (skipSpaces r1, errs))" if "length r1 < length r"
    by (rule returns_weaken [OF rec [of "CallArray 0 (ArrayV [])" "skipSpaces r1" errs] sp [OF that]])
       (use fuel sp [OF that] in simp)
  have tok: "length r3 < length r" if "readToken (skipSpaces r1) = (t3, x3, r3)" "length r1 < length r" for t3 x3 r3
    using readToken_le [OF that(1)] sp [OF that(2)] by simp
  show ?thesis
    using le less obj arr tok skipComment_text [OF t] unfolding readValue_def t
    by (cases t) (auto simp: Let_def split: option.splits sum.splits prod.splits dest: decodeNumber_fault)
qed

lemma readArray_returns:
  assumes rec: "\<And>c r' errs. fuel_for c r' \<le> n \<Longrightarrow> returns (is_value_call c) r' (rec c (r', errs))"
    and fuel: "2 * length r + 3 \<le> Suc n"
  shows "returns False r (readArray rec i cur r errs)"
  unfolding readArray_def
proof (rule returns_bind)
  show "returns True r (rec (CallValue NullV) (r, errs))"
    using rec [of "CallValue NullV" r errs] fuel by (simp add: is_value_call_def)
  fix ok v errs1 and r1 :: string
  assume le: "length r1 \<le> length r" and less: "ok \<Longrightarrow> length r1 < length r"
  obtain t x r2 where t: "next_token r1 = (t, x, r2)" by (cases "next_token r1")
  have r2: "length r2 \<le> length r1" using next_token_le [OF t] .
  have "returns False r (rec (CallArray (Suc i) (arr_put i v cur)) (r2, errs1))" if ok
    by (rule returns_le [OF rec [of "CallArray (Suc i) (arr_put i v cur)" r2 errs1]])
       (use fuel r2 less [OF that] in simp_all)
  then show "returns False r (case (ok, v, r1, errs1) of (ok, v, r1, errs1) \<Rightarrow>
      let cur1 = arr_put i v cur in if \<not> ok then fail_recover tokenArrayEnd cur1 (r1, errs1)
      else case next_token r1 of (t, _, r2) \<Rightarrow> if t = tokenArrayEnd then Some (Inr (True, cur1, r2, errs1))
           else rec (CallArray (Suc i) cur1) (r2, errs1))"
    using le less r2 by (simp add: t Let_def)
qed

lemma readObject_next_returns:
  assumes rec: "\<And>c r' errs. fuel_for c r' \<le> n \<Longrightarrow> returns (is_value_call c) r' (rec c (r', errs))"
    and fuel: "2 * length r + 3 \<le> n"
  shows "returns False r (readObject_next rec nm cur r errs)"
proof -
  obtain t x r1 where t: "readToken r = (t, x, r1)" by (cases "readToken r")
  obtain t2 x2 r2 where t2: "(if t = tokenComment then next_token r1 else (t, [], r1)) = (t2, x2, r2)"
    by (cases "if t = tokenComment then next_token r1 else (t, [], r1)")
  have r1: "length r1 \<le> length r" using readToken_le [OF t] .
  have r2: "length r2 \<le> length r" using t2 next_token_le [of r1] r1 by (fastforce split: if_splits)
  have "returns False r (rec (CallObject nm cur) (r2, errs))"
    by (rule returns_le [OF rec [of "CallObject nm cur" r2 errs]]) (use fuel r2 in simp_all)
  then show ?thesis using r1 r2 unfolding readObject_next_def t by (simp add: t2)
qed

lemma readObject_returns:
  assumes rec: "\<And>c r' errs. fuel_for c r' \<le> n \<Longrightarrow> returns (is_value_call c) r' (rec c (r', errs))"
    and fuel: "2 * length r + 3 \<le> Suc n"
  shows "returns False r (readObject rec nm cur r errs)"
proof -
  obtain t x r1 where t: "next_token r = (t, x, r1)" by (cases "next_token r")
  obtain t2 x2 r2 where t2: "readToken r1 = (t2, x2, r2)" by (cases "readToken r1")
  have le: "length r1 \<le> length r" "length r2 \<le> length r" using next_token_le [OF t] readToken_le [OF t2] by simp_all
  have val: "returns False r (obind (rec (CallValue (obj_member nm' cur)) (r2, errs)) (\<lambda>(ok, v, r3, errs3).
      let cur1 = obj_put nm' v cur in if \<not> ok then fail_recover tokenObjectEnd cur1 (r3, errs3)
      else readObject_next rec nm' cur1 r3 errs3))" if "t = tokenString" for nm'
  proof (rule returns_le [OF returns_bind le(2)])
    have less: "length r2 < length r" using next_token_less [OF t] readToken_le [OF t2] that by simp
    show "returns True r2 (rec (CallValue (obj_member nm' cur)) (r2, errs))"
      using rec [of "CallValue (obj_member nm' cur)" r2 errs] fuel less by (simp add: is_value_call_def)
    fix ok v errs3 and r3 :: string
    assume r3: "length r3 \<le> length r2" "ok \<Longrightarrow> length r3 < length r2"
    have "returns False r3 (readObject_next rec nm' (obj_put nm' v cur) r3 errs3)"
      by (rule readObject_next_returns [where n = n]) (erule rec, use fuel less r3(1) in linarith)
    from returns_le [OF this r3(1)]
    have "returns False r2 (readObject_next rec nm' (obj_put nm' v cur) r3 errs3)" .
    then show "returns False r2 (case (ok, v, r3, errs3) of (ok, v, r3, errs3) \<Rightarrow>
        let cur1 = obj_put nm' v cur in if \<not> ok then fail_recover tokenObjectEnd cur1 (r3, errs3)
        else readObject_next rec nm' cur1 r3 errs3)"
      using r3(1) by (simp add: Let_def)
  qed
  show ?thesis using val le unfolding readObject_def t by (simp add: t2 split: sum.splits)
qed

lemma parser_returns:
  "fuel_for c r \<le> n \<Longrightarrow> returns (is_value_call c) r (run_parser False F scan n c (r, errs))"
proof (induction n arbitrary: c r errs)
  case 0
  then show ?case by (cases c) simp_all
next
  case (Suc n)
  note rec = Suc.IH
  show ?case
  proof (cases c)
    case (CallValue cur)
    then show ?thesis using readValue_returns [OF rec, where r = r and F = F and scan = scan and cur = cur and errs = errs] Suc.prems by (simp add: is_value_call_def)
  next
    case (CallObject nm cur)
    then show ?thesis using readObject_returns [OF rec, where r = r and nm = nm and cur = cur and errs = errs] Suc.prems by (simp add: is_value_call_def)
  next
    case (CallArray i cur)
    then show ?thesis using readArray_returns [OF rec, where r = r and i = i and cur = cur and errs = errs] Suc.prems by (simp add: is_value_call_def)
  qed
qed

section \<open>The overflow\<close>

text \<open>Two runs of the parser that agree unless the first meets the overflow.\<close>

definition up_to_overflow :: "'v run \<Rightarrow> 'v run \<Rightarrow> bool" where
  "up_to_overflow a b \<longleftrightarrow> a = b \<or> a = Some (Inl Overflow)"

lemma up_to_overflow_refl [simp]: "up_to_overflow a a"
  by (simp add: up_to_overflow_def)

lemma up_to_overflow_bind:
  assumes "up_to_overflow a b" "\<And>x. up_to_overflow (f x) (g x)"
  shows "up_to_overflow (obind a f) (obind b g)"
  using assms by (auto simp: up_to_overflow_def obind_def split: option.splits sum.splits)

lemma decodeNumber_strict: "decodeNumber True scan x = decodeNumber False scan x \<or> decodeNumber True scan x = Inl Overflow"
  by (simp add: decodeNumber_def neg_minInt_def Let_def)

lemma parser_strict: "up_to_overflow (run_parser True F scan n c st) (run_parser False F scan n c st)"
proof (induction n arbitrary: c st)
  case (Suc n)
  obtain r errs where st: "st = (r, errs)" by (cases st)
  note rec = Suc.IH
  show ?case
  proof (cases c)
    case (CallValue cur)
    obtain t x r1 where t: "skipCommentTokens F r = (t, x, r1)" by (cases "skipCommentTokens F r")
    consider "decodeNumber True scan x = decodeNumber False scan x" | "decodeNumber True scan x = Inl Overflow"
      using decodeNumber_strict [of scan x] by blast
    then have "up_to_overflow (readValue True F scan (run_parser True F scan n) cur r errs) (readValue False F scan (run_parser False F scan n) cur r errs)"
    proof cases
      case same: 1
      then show ?thesis
        by (cases t) (simp_all add: readValue_def t rec Let_def split: prod.splits)
    next
      case over: 2
      then show ?thesis
        by (cases t) (simp_all add: readValue_def t rec Let_def up_to_overflow_def [of "Some (Inl Overflow)"] split: prod.splits)
    qed
    then show ?thesis by (simp add: CallValue st)
  next
    case (CallObject nm cur)
    have more: "up_to_overflow (readObject_next (run_parser True F scan n) k v r e) (readObject_next (run_parser False F scan n) k v r e)" for k v r e
      using rec by (auto simp: readObject_next_def split: prod.splits)
    show ?thesis using rec more by (auto simp: CallObject st readObject_def Let_def intro!: up_to_overflow_bind split: prod.splits sum.splits)
  next
    case (CallArray i cur)
    show ?thesis using rec by (auto simp: CallArray st readArray_def Let_def intro!: up_to_overflow_bind split: prod.splits)
  qed
qed simp

lemma parse_strict_cases: "parse_strict F scan doc = parse F scan doc \<or> parse_strict F scan doc = Some (Inl Overflow)"
proof -
  have "up_to_overflow (parse_strict F scan doc) (parse F scan doc)"
    unfolding parse_def parse_strict_def parse_with_def by (intro up_to_overflow_bind parser_strict) simp
  then show ?thesis by (simp add: up_to_overflow_def)
qed

lemma readToken_negative:
  assumes "list_all is_digit ds"
  shows "skipCommentTokens F (CHR ''-'' # ds) = (tokenNumber, CHR ''-'' # ds, [])"
proof -
  have "readNumber ds = []" using assms by (auto simp: readNumber_def number_char_def list_all_iff)
  then have "readToken (CHR ''-'' # ds) = (tokenNumber, CHR ''-'' # ds, [])"
    by (simp add: readToken_def skipSpaces_def is_space_def classify_def DQ_def)
  then show ?thesis by (simp add: skipCommentTokens_def next_token.simps)
qed

lemma negative_overflows:
  assumes "list_all is_digit ds"
  shows "parse_strict F scan (CHR ''-'' # ds) = Some (Inl Overflow)"
proof -
  have "\<not> is_double_text (CHR ''-'' # ds)" using assms by (auto simp: is_double_text_def list_all_iff list_ex_iff is_digit_def)
  then have "decodeNumber True scan (CHR ''-'' # ds) = Inl Overflow" by (simp add: decodeNumber_def neg_minInt_def)
  then show ?thesis
    by (simp add: parse_strict_def parse_with_def parse_fuel_def readValue_def readToken_negative [OF assms])
qed

section \<open>Properties of the reader\<close>

text \<open>
  C9. Parsing ends on every document. With the fuel it is given, which depends on the length of the
  document only, \<open>parse\<close> comes to a result on every document, well-formed or not, with any
  features: it never runs out, so the recursive functions and the loops of the reader terminate. When the negation \<open>-Value::minInt\<close>
  in \<open>decodeNumber\<close> is given its two's complement value, the only fault is the access outside the local buffer of \<open>decodeDouble\<close>, and only in a
  document of at least 32 characters. By the letter of the language that negation overflows: then the reader still returns, with the same result or
  with the overflow, and every document that is a minus sign and digits meets the overflow.
\<close>

theorem parse_returns:
  "(\<exists>r. parse F scan doc = Some r \<and> (case r of Inl e \<Rightarrow> e = OutOfBounds \<and> 32 \<le> length doc | Inr _ \<Rightarrow> True))
   \<and> (parse_strict F scan doc = parse F scan doc \<or> parse_strict F scan doc = Some (Inl Overflow))
   \<and> (list_all is_digit ds \<longrightarrow> parse_strict F scan (CHR ''-'' # ds) = Some (Inl Overflow))"
proof -
  have "returns True doc (run_parser False F scan (parse_fuel doc) (CallValue NullV) (doc, []))"
    using parser_returns [of "CallValue NullV" doc "parse_fuel doc"] by (simp add: parse_fuel_def is_value_call_def)
  then consider (fault) "run_parser False F scan (parse_fuel doc) (CallValue NullV) (doc, []) = Some (Inl OutOfBounds)" "32 \<le> length doc"
    | (val) ok root r errs where "run_parser False F scan (parse_fuel doc) (CallValue NullV) (doc, []) = Some (Inr (ok, root, r, errs))"
    unfolding returns_def by (auto split: option.splits sum.splits)
  then have "\<exists>r. parse F scan doc = Some r \<and> (case r of Inl e \<Rightarrow> e = OutOfBounds \<and> 32 \<le> length doc | Inr _ \<Rightarrow> True)"
    by cases (simp_all add: parse_def parse_with_def)
  then show ?thesis using parse_strict_cases negative_overflows by blast
qed

theorem parse_returns_witness:
  "(\<exists>r. parse features_all (\<lambda>_. None :: unit option) ''{x'' = Some r) \<and> parse_strict features_all (\<lambda>_. None :: unit option) ''-17'' = Some (Inl Overflow)"
  using parse_returns [of features_all "\<lambda>_. None :: unit option" "''{x''" "''17''"] by (auto simp: is_digit_def)

end
