(* ===== verification/JsonRoundtrip.thy ===== *)
theory JsonRoundtrip
  imports JsonReader
begin

text \<open>
  What the parser makes of printed values: escaped strings are decoded to the original, integers are read
  exactly within their bounds, and the output of the compact writer is read back as the same value. The
  lemmas go from tokens through numbers and single values to arrays and objects, each saying what is
  read from a text that is followed by anything else.
\<close>

section \<open>Tokens of printed values\<close>

lemma special_chars [simp]:
  "BS \<noteq> DQ" "DQ \<noteq> BS"
  by (simp_all add: BS_def DQ_def)

lemma quoted_string: "valueToQuotedString s = DQ # concat (map escape_char (c_str s)) @ [DQ]"
proof (cases "\<not> list_ex needs_escape (c_str s) \<and> \<not> containsControlCharacter s")
  case True
  have "escape_char c = [c]" if "c \<in> set (c_str s)" for c
  proof -
    have n: "\<not> needs_escape c" "\<not> isControlCharacter c"
      using True that by (auto simp: list_ex_iff containsControlCharacter_def)
    have "c \<noteq> CHR 0x08" "c \<noteq> CHR 0x0C" "c \<noteq> CHR 0x0A" "c \<noteq> CHR 0x0D" "c \<noteq> CHR 0x09"
      using n(1) by (auto simp: needs_escape_def of_char_of)
    with n show ?thesis by (simp add: escape_char_def needs_escape_def)
  qed
  then have "concat (map escape_char (c_str s)) = c_str s" by (induction "c_str s") (auto simp: map_idI concat_map_singleton cong: map_cong)
  with True show ?thesis by (simp add: valueToQuotedString_def)
qed (auto simp: valueToQuotedString_def)

lemma escape_simple:
  "escape_char DQ = [BS, DQ]" "escape_char BS = [BS, BS]" "escape_char (CHR 0x08) = [BS, CHR ''b'']"
  "escape_char (CHR 0x0C) = [BS, CHR ''f'']" "escape_char (CHR 0x0A) = [BS, CHR ''n'']"
  "escape_char (CHR 0x0D) = [BS, CHR ''r'']" "escape_char (CHR 0x09) = [BS, CHR ''t'']"
  "simple_escape DQ = Some [DQ]" "simple_escape BS = Some [BS]" "simple_escape (CHR ''b'') = Some [CHR 0x08]"
  "simple_escape (CHR ''f'') = Some [CHR 0x0C]" "simple_escape (CHR ''n'') = Some [CHR 0x0A]"
  "simple_escape (CHR ''r'') = Some [CHR 0x0D]" "simple_escape (CHR ''t'') = Some [CHR 0x09]"
  "DQ \<noteq> CHR ''u''" "BS \<noteq> CHR ''u''"
  by (simp_all add: escape_char_def simple_escape_def BS_def DQ_def)

lemma escape_cases:
  obtains (plain) "escape_char c = [c]" "c \<noteq> BS" "c \<noteq> DQ"
  | (simple) e where "escape_char c = [BS, e]" "simple_escape e = Some [c]" "e \<noteq> CHR ''u''"
  | (unicode) a b where "escape_char c = [BS, CHR ''u'', CHR ''0'', CHR ''0'', a, b]"
      "a = hex_upper (of_char c div 16)" "b = hex_upper (of_char c mod 16)" "(of_char c :: nat) \<le> 31"
proof (cases "c = DQ \<or> c = BS \<or> c = CHR 0x08 \<or> c = CHR 0x0C \<or> c = CHR 0x0A \<or> c = CHR 0x0D \<or> c = CHR 0x09")
  case True
  then show ?thesis by (elim disjE) (rule simple, (simp add: escape_simple)+)+
next
  case False
  then have n: "c \<noteq> DQ" "c \<noteq> BS" "c \<noteq> CHR 0x08" "c \<noteq> CHR 0x0C" "c \<noteq> CHR 0x0A"
    "c \<noteq> CHR 0x0D" "c \<noteq> CHR 0x09" by auto
  show ?thesis
  proof (cases "isControlCharacter c")
    case True
    with n show ?thesis by (intro unicode) (simp_all add: escape_char_def isControlCharacter_def)
  next
    case False
    with n show ?thesis by (intro plain) (simp_all add: escape_char_def)
  qed
qed

lemma hex_upper_val: "n < 16 \<Longrightarrow> hex_val (hex_upper n) = Some n"
  by (simp add: hex_upper_def Let_def of_char_of)

lemma hex_upper_plain: "n < 16 \<Longrightarrow> hex_upper n \<noteq> BS \<and> hex_upper n \<noteq> DQ"
  by (auto simp: hex_upper_def BS_def DQ_def char_of_eq_iff take_bit_nat_eq_self)

lemma readString_escaped: "readString (concat (map escape_char s) @ DQ # t) = (True, t)"
proof (induction s)
  case (Cons c s)
  show ?case
  proof (cases c rule: escape_cases)
    case (unicode a b)
    have "a \<noteq> BS \<and> a \<noteq> DQ" "b \<noteq> BS \<and> b \<noteq> DQ"
      using unicode(2-4) hex_upper_plain [of "of_char c div 16"] hex_upper_plain [of "of_char c mod 16"] by simp_all
    with unicode(1) Cons show ?thesis by (simp add: BS_def DQ_def)
  qed (use Cons in simp_all)
qed simp

lemma unicode_escape:
  assumes "(of_char c :: nat) \<le> 31"
  shows "decodeUnicodeCodePoint (CHR ''0'' # CHR ''0'' # hex_upper (of_char c div 16) # hex_upper (of_char c mod 16) # r)
     = Inr (of_char c, r)"
proof -
  have "hex_digits 4 0 (CHR ''0'' # CHR ''0'' # hex_upper (of_char c div 16) # hex_upper (of_char c mod 16) # r)
      = Some (of_char c, r)"
  proof -
    have z: "hex_val (CHR ''0'') = Some 0" by (simp add: Let_def)
    have "hex_val (hex_upper (of_char c div 16)) = Some (of_char c div 16)"
      "hex_val (hex_upper (of_char c mod 16)) = Some (of_char c mod 16)"
      using assms by (intro hex_upper_val, simp)+
    moreover have "(4 :: nat) = Suc (Suc (Suc (Suc 0)))" by simp
    ultimately show ?thesis using z by (simp only: hex_digits.simps option.case) simp
  qed
  then show ?thesis using assms by (simp add: decodeUnicodeCodePoint_def decodeUnicodeEscapeSequence_def)
qed

lemma decode_escaped:
  "decode_chars (concat (map escape_char s)) acc = Inr (acc @ s)"
proof (induction s arbitrary: acc)
  case (Cons c s)
  show ?case
  proof (cases c rule: escape_cases)
    case (simple e)
    with Cons show ?thesis by simp
  next
    case (unicode a b)
    then have "codePointToUTF8 (of_char c) = [c]" by (simp add: codePointToUTF8_def)
    with unicode Cons unicode_escape [OF unicode(4)] show ?thesis by simp
  qed (use Cons in simp)
qed simp

lemma decodeString_quoted: "decodeString (valueToQuotedString s) = Inr (c_str s)"
  by (simp add: decodeString_def quoted_string decode_escaped)

lemma not_space [simp]: "\<not> is_space DQ" "\<not> is_space CHR ''{''" "\<not> is_space CHR ''}''" "\<not> is_space CHR ''[''" "\<not> is_space CHR '']''"
  "\<not> is_space CHR '',''" "\<not> is_space CHR '':''" "\<not> is_space CHR ''n''" "\<not> is_space CHR ''t''" "\<not> is_space CHR ''f''"
  "\<not> is_space CHR ''-''"
  by (simp_all add: is_space_def DQ_def of_char_of)

lemma readToken_string: "readToken (valueToQuotedString s @ t) = (tokenString, valueToQuotedString s, t)"
proof -
  have "classify DQ (concat (map escape_char (c_str s)) @ DQ # t) = (tokenString, True, t)"
    by (simp add: classify_def readString_escaped) (simp add: DQ_def)
  then show ?thesis by (simp add: readToken_def skipSpaces_def quoted_string)
qed

section \<open>Numbers\<close>

lemma digit_number_char: "is_digit c \<Longrightarrow> number_char c"
  by (simp add: number_char_def)

lemma readNumber_digits:
  assumes "\<forall>c \<in> set ds. is_digit c" "t = [] \<or> \<not> number_char (hd t)"
  shows "readNumber (ds @ t) = t"
  using assms(1)
proof (induction ds)
  case Nil
  then show ?case using assms(2) by (cases t) (simp_all add: readNumber_def)
qed (simp add: readNumber_def digit_number_char)

lemma digit_not_special:
  assumes "is_digit c"
  shows "\<not> is_space c" "c \<notin> set ''{}[]/tfn,:.eE+-''" "c \<noteq> DQ" "c \<noteq> CHR 0x00"
  using assms by (auto simp: is_digit_def is_space_def DQ_def)

lemma readToken_nat:
  assumes "t = [] \<or> \<not> number_char (hd t)"
  shows "readToken (show_nat n @ t) = (tokenNumber, show_nat n, t)"
proof -
  obtain c cs where c: "show_nat n = c # cs" using show_nat_nonempty by (meson neq_Nil_conv)
  then have d: "is_digit c" "\<forall>x \<in> set cs. is_digit x" using show_nat_digits [of n] by auto
  have "classify c (cs @ t) = (tokenNumber, True, t)"
    using digit_not_special [OF d(1)] readNumber_digits [OF d(2) assms] d(1) by (simp add: classify_def)
  then show ?thesis using c digit_not_special(1) [OF d(1)] by (simp add: readToken_def skipSpaces_def)
qed

lemma readToken_neg:
  assumes "t = [] \<or> \<not> number_char (hd t)"
  shows "readToken (CHR ''-'' # show_nat n @ t) = (tokenNumber, CHR ''-'' # show_nat n, t)"
proof -
  have "classify (CHR ''-'') (show_nat n @ t) = (tokenNumber, True, t)"
    using readNumber_digits [OF show_nat_digits assms] by (simp add: classify_def is_digit_def DQ_def)
  then show ?thesis by (simp add: readToken_def skipSpaces_def)
qed

lemma scan_digits_append:
  "scan_digits th v (xs @ ys) = (case scan_digits th v xs of NumValue u \<Rightarrow> scan_digits th u ys | x \<Rightarrow> x)"
  by (induction th v xs rule: scan_digits.induct) auto

lemma scan_show_nat:
  assumes "n div 10 < th" "n < 2 ^ 32"
  shows "scan_digits th 0 (show_nat n) = NumValue n"
  using assms
proof (induction n rule: show_nat.induct)
  case (1 n)
  show ?case
  proof (cases "n < 10")
    case True
    then show ?thesis using 1 by (subst show_nat.simps) simp
  next
    case False
    have "n div 10 div 10 \<le> n div 10" by (rule div_le_dividend)
    then have "n div 10 div 10 < th" "n div 10 < 2 ^ 32" using 1(2,3) by linarith+
    then have "scan_digits th 0 (show_nat (n div 10)) = NumValue (n div 10)" using 1(1) False by simp
    moreover have "(n div 10 * 10 + n mod 10) mod 2 ^ 32 = n" using 1(3) by simp
    ultimately show ?thesis using False 1(2)
      by (subst show_nat.simps) (simp add: scan_digits_append)
  qed
qed

lemma scan_show_nat_big:
  assumes "th \<le> n div 10" "0 < th" "10 * th \<le> 2 ^ 32"
  shows "scan_digits th 0 (show_nat n) = NumDouble"
  using assms(1)
proof (induction n rule: show_nat.induct)
  case (1 n)
  have n: "\<not> n < 10" using 1(2) assms(2) by auto
  then have split: "show_nat n = show_nat (n div 10) @ [digit_char (n mod 10)]" by (subst show_nat.simps) simp
  show ?case
  proof (cases "th \<le> n div 10 div 10")
    case True
    then have "scan_digits th 0 (show_nat (n div 10)) = NumDouble" using 1(1) n by blast
    then show ?thesis unfolding split scan_digits_append by simp
  next
    case False
    then have "n div 10 < 10 * th" by linarith
    then have "n div 10 < 2 ^ 32" using assms(3) by linarith
    with False have "scan_digits th 0 (show_nat (n div 10)) = NumValue (n div 10)" by (intro scan_show_nat) simp_all
    then show ?thesis using 1(2) unfolding split scan_digits_append by simp
  qed
qed

lemma digits_not_double:
  assumes "\<forall>c \<in> set ds. is_digit c"
  shows "\<not> is_double_text ds" "\<not> is_double_text (CHR ''-'' # ds)"
proof -
  have "c \<notin> set ''.eE+''" "c \<noteq> CHR ''-''" if "c \<in> set ds" for c
    using digit_not_special(2) [of c] assms that by auto
  moreover have "set (tl ds) \<subseteq> set ds" by (cases ds) auto
  ultimately show "\<not> is_double_text ds" "\<not> is_double_text (CHR ''-'' # ds)"
    unfolding is_double_text_def list_ex_iff by auto
qed

lemma decodeNumber_nat:
  assumes "n \<le> 4294967289"
  shows "decodeNumber False scan (show_nat n) =
    Inr (Some (if int n \<le> maxInt then IntV (word_of_nat n) else UIntV (word_of_nat n)))"
proof -
  have "scan_digits 429496729 0 (show_nat n) = NumValue n"
    using assms by (intro scan_show_nat) (simp_all add: div_less_iff_less_mult)
  then show ?thesis
    using digits_not_double(1) [OF show_nat_digits [of n]] show_nat_hd [of n]
    by (simp add: decodeNumber_def neg_minInt_def minInt_def maxUInt_def)
qed

lemma decodeNumber_neg:
  assumes "n \<le> 2147483639"
  shows "decodeNumber False scan (CHR ''-'' # show_nat n) = Inr (Some (IntV (- word_of_nat n)))"
proof -
  have "scan_digits 214748364 0 (show_nat n) = NumValue n"
    using assms by (intro scan_show_nat) (simp_all add: div_less_iff_less_mult)
  then show ?thesis
    using digits_not_double(2) [OF show_nat_digits [of n]] by (simp add: decodeNumber_def neg_minInt_def minInt_def maxUInt_def)
qed

lemma decodeNumber_nat_big:
  assumes "4294967289 < n"
  shows "decodeNumber False scan (show_nat n) = decodeDouble scan (show_nat n)"
proof -
  have "429496729 \<le> n div 10" using div_le_mono [of 4294967290 n 10] assms by simp
  then have "scan_digits 429496729 0 (show_nat n) = NumDouble" by (rule scan_show_nat_big) simp_all
  then show ?thesis
    using digits_not_double(1) [OF show_nat_digits [of n]] show_nat_hd [of n] by (simp add: decodeNumber_def neg_minInt_def minInt_def maxUInt_def)
qed

lemma decodeNumber_neg_big:
  assumes "2147483639 < n"
  shows "decodeNumber False scan (CHR ''-'' # show_nat n) = decodeDouble scan (CHR ''-'' # show_nat n)"
proof -
  have "214748364 \<le> n div 10" using div_le_mono [of 2147483640 n 10] assms by simp
  then have "scan_digits 214748364 0 (show_nat n) = NumDouble" by (rule scan_show_nat_big) simp_all
  then show ?thesis
    using digits_not_double(2) [OF show_nat_digits [of n]] by (simp add: decodeNumber_def neg_minInt_def minInt_def maxUInt_def)
qed

lemma sint_unat:
  fixes i :: i32
  shows "0 \<le> sint i \<Longrightarrow> int (unat i) = sint i" "sint i < 0 \<Longrightarrow> int (unat (- i)) = - sint i"
proof -
  have lt: "unat i < 4294967296" using unsigned_less [of i] by simp
  have small: "unat i < 2147483648 \<Longrightarrow> sint i = int (unat i)" using sint_of_nat_small [of "unat i"] by simp
  have big: "2147483648 \<le> unat i \<Longrightarrow> sint i = int (unat i) - 4294967296" using sint_of_nat_big [of "unat i"] lt by simp
  show "int (unat i) = sint i" if "0 \<le> sint i"
  proof (rule ccontr)
    assume "int (unat i) \<noteq> sint i"
    then have "sint i = int (unat i) - 4294967296" using small big by linarith
    with that lt show False by linarith
  qed
  assume neg: "sint i < 0"
  then have ge: "2147483648 \<le> unat i" using small by (cases "unat i < 2147483648") linarith+
  have "- i = word_of_nat (4294967296 - unat i)" using lt by (simp add: of_nat_diff)
  then have "unat (- i) = 4294967296 - unat i" using ge by (simp add: unat_of_nat)
  then show "int (unat (- i)) = - sint i" using big [OF ge] lt by linarith
qed

lemma decodeNumber_int:
  assumes "- 2147483639 \<le> sint i"
  shows "decodeNumber False scan (valueToString_int i) = Inr (Some (IntV i))"
proof (cases "sint i < 0")
  case True
  then have "unat (- i) \<le> 2147483639" using sint_unat(2) [of i] assms by linarith
  from decodeNumber_neg [OF this] True show ?thesis by (simp add: valueToString_int_def uintToString_def)
next
  case False
  then have "int (unat i) = sint i" using sint_unat(1) [of i] by simp
  moreover have m: "sint i \<le> 2147483647" using sint_less [of i] by simp
  ultimately have n: "unat i \<le> 4294967289" and "int (unat i) \<le> 2147483647" by linarith+
  then have "int (unat i) \<le> maxInt" by (simp add: maxInt_def)
  note n = n this
  from decodeNumber_nat [OF n(1), of scan] n(2) False show ?thesis by (simp add: valueToString_int_def uintToString_def)
qed

lemma decodeNumber_uint:
  assumes "maxInt < uint u" "uint u \<le> 4294967289"
  shows "decodeNumber False scan (valueToString_uint u) = Inr (Some (UIntV u))"
proof -
  have "unat u \<le> 4294967289" "\<not> int (unat u) \<le> maxInt" using assms unfolding uint_nat by linarith+
  from decodeNumber_nat [OF this(1), of scan] this(2) show ?thesis
    by (simp add: valueToString_uint_def uintToString_def)
qed

section \<open>Reading back what was printed\<close>

lemma token_not_comment:
  assumes "readToken r = (t, x, r')" "t \<noteq> tokenComment"
  shows "next_token r = (t, x, r')" "skipCommentTokens F r = (t, x, r')"
  using assms by (simp_all add: next_token.simps skipCommentTokens_def)

lemma readToken_punct [simp]:
  "readToken (CHR ''{'' # t) = (tokenObjectBegin, ''{'', t)"
  "readToken (CHR ''}'' # t) = (tokenObjectEnd, ''}'', t)"
  "readToken (CHR ''['' # t) = (tokenArrayBegin, ''['', t)"
  "readToken (CHR '']'' # t) = (tokenArrayEnd, '']'', t)"
  "readToken (CHR '','' # t) = (tokenArraySeparator, '','', t)"
  "readToken (CHR '':'' # t) = (tokenMemberSeparator, '':'', t)"
  by (simp_all add: readToken_def skipSpaces_def classify_def DQ_def is_digit_def)

lemma readToken_words:
  "readToken (''null'' @ t) = (tokenNull, ''null'', t)"
  "readToken (''true'' @ t) = (tokenTrue, ''true'', t)"
  "readToken (''false'' @ t) = (tokenFalse, ''false'', t)"
  by (simp_all add: readToken_def skipSpaces_def classify_def DQ_def is_digit_def match_def)

definition blank :: "string \<Rightarrow> bool" where
  "blank w \<longleftrightarrow> list_all is_space w"

lemma blank_simps [simp]:
  "blank []" "blank (c # w) \<longleftrightarrow> is_space c \<and> blank w" "is_space CHR '' ''" "is_space CHR 0x0A"
  by (simp_all add: blank_def is_space_def)

lemma readToken_blank: "blank w \<Longrightarrow> readToken (w @ r) = readToken r"
  by (induction w) (simp_all add: readToken_def skipSpaces_def)

lemma next_token_blank: "blank w \<Longrightarrow> next_token (w @ r) = next_token r"
  by (simp add: readToken_blank next_token.simps [of "w @ r"] next_token.simps [of r])

lemma value_after_blank: "blank w \<Longrightarrow> run_parser False F scan n (CallValue cur) (w @ r, errs) = run_parser False F scan n (CallValue cur) (r, errs)"
  by (cases n) (simp_all add: readValue_def skipCommentTokens_def readToken_blank next_token_blank)

lemma space_not_number: "is_space c \<Longrightarrow> \<not> number_char c"
  by (auto simp: is_space_def number_char_def is_digit_def)

text \<open>
  The values that survive printing and parsing unchanged: no doubles, strings without a zero
  character, integers the reader does not turn into doubles, unsigned ones that do not fit an
  \<open>Int\<close>, arrays without holes.
\<close>

function plain :: "'d json \<Rightarrow> bool" where
  "plain NullV = True"
| "plain (IntV i) = (- 2147483639 \<le> sint i)"
| "plain (UIntV u) = (maxInt < uint u \<and> uint u \<le> 4294967289)"
| "plain (RealV r) = False"
| "plain (StringV s) = (CHR 0x00 \<notin> set s)"
| "plain (BoolV b) = True"
| "plain (ArrayV kvs) = (dense kvs \<and> list_all (\<lambda>(i, v). plain v) kvs)"
| "plain (ObjectV kvs) = (ordered kvs \<and> list_all (\<lambda>(k, v). CHR 0x00 \<notin> set k \<and> plain v) kvs)"
  by pat_completeness auto
termination plain
  by (relation "measure size") (auto dest: size_member)

lemma c_str_id: "CHR 0x00 \<notin> set s \<Longrightarrow> c_str s = s"
  unfolding c_str_def takeWhile_eq_all_conv by blast

lemma array_elems_dense: "dense kvs \<Longrightarrow> array_elems kvs = map snd kvs"
  unfolding array_elems_def dense_size by (intro nth_equalityI) (simp_all add: dense_lookup(1))

text \<open>No printed value starts with a space or a closing bracket.\<close>

lemma show_nat_Cons: obtains c cs where "show_nat n = c # cs" "is_digit c"
  using show_nat_nonempty [of n] show_nat_digits [of n] by (cases "show_nat n") auto

lemma fw_head:
  assumes "plain v"
  obtains c cs where "fw_value y fmt v = c # cs" "\<not> is_space c" "c \<noteq> CHR '']''"
proof (cases v)
  case (IntV i)
  obtain c cs where c: "uintToString (if sint i < 0 then - i else i) = c # cs" "is_digit c"
    unfolding uintToString_def by (rule show_nat_Cons)
  then show ?thesis using IntV digit_not_special(1,2) [OF c(2)] that
    by (cases "sint i < 0") (auto simp: valueToString_int_def)
next
  case (UIntV u)
  obtain c cs where c: "uintToString u = c # cs" "is_digit c"
    unfolding uintToString_def by (rule show_nat_Cons)
  then show ?thesis using UIntV digit_not_special(1,2) [OF c(2)] that by (auto simp: valueToString_uint_def)
next
  case (StringV s)
  have "DQ \<noteq> CHR '']''" by (simp add: DQ_def)
  with StringV that show ?thesis by (simp add: quoted_string)
next
  case (BoolV b)
  with that show ?thesis by (cases b) (auto simp: valueToString_bool_def)
qed (use assms that in \<open>auto simp: is_space_def\<close>)

text \<open>The text \<open>x\<close> is read as the value \<open>v\<close>, whatever follows that cannot continue a number.\<close>

definition reads_back :: "features \<Rightarrow> (string \<Rightarrow> 'd option) \<Rightarrow> string \<Rightarrow> 'd json \<Rightarrow> bool" where
  "reads_back F scan x v \<longleftrightarrow> (\<forall>n cur t errs. 2 * length x + 2 \<le> n \<longrightarrow> t = [] \<or> \<not> number_char (hd t) \<longrightarrow>
     run_parser False F scan n (CallValue cur) (x @ t, errs) = Some (Inr (True, v, t, errs)))"

lemma reads_backD:
  assumes "reads_back F scan x v" "2 * length x + 2 \<le> n" "t = [] \<or> \<not> number_char (hd t)"
  shows "run_parser False F scan n (CallValue cur) (x @ t, errs) = Some (Inr (True, v, t, errs))"
  using assms unfolding reads_back_def by blast

lemma reads_backI:
  assumes "\<And>n cur t errs. 2 * length x + 1 \<le> n \<Longrightarrow> t = [] \<or> \<not> number_char (hd t) \<Longrightarrow>
    readValue False F scan (run_parser False F scan n) cur (x @ t) errs = Some (Inr (True, v, t, errs))"
  shows "reads_back F scan x v"
  unfolding reads_back_def
proof (intro allI impI)
  fix n cur t errs
  assume "2 * length x + 2 \<le> n" and t: "t = [] \<or> \<not> number_char (hd t)"
  then obtain m where "n = Suc m" "2 * length x + 1 \<le> m" by (cases n) auto
  with assms t show "run_parser False F scan n (CallValue cur) (x @ t, errs) = Some (Inr (True, v, t, errs))" by simp
qed

lemma not_number_punct [simp]:
  "\<not> number_char CHR '',''" "\<not> number_char CHR '']''" "\<not> number_char CHR ''}''" "\<not> number_char CHR 0x0A"
  by (simp_all add: number_char_def is_digit_def)

lemma token_cases:
  assumes "readToken r = (t, x, r')" "t \<noteq> tokenComment"
  shows "readValue False F scan rec cur r errs = (case t of
           tokenObjectBegin \<Rightarrow> rec (CallObject [] (ObjectV [])) (r', errs)
         | tokenArrayBegin \<Rightarrow>
             (let r2 = skipSpaces r'
              in if fst (getNextChar r2) = CHR '']''
                 then (case readToken r2 of (_, _, r3) \<Rightarrow> Some (Inr (True, ArrayV [], r3, errs)))
                 else rec (CallArray 0 (ArrayV [])) (r2, errs))
         | tokenNumber \<Rightarrow>
             (case decodeNumber False scan x of
                Inl e \<Rightarrow> Some (Inl e)
              | Inr None \<Rightarrow> Some (Inr (False, cur, r', errs @ [not_a_number x]))
              | Inr (Some v) \<Rightarrow> Some (Inr (True, v, r', errs)))
         | tokenString \<Rightarrow>
             (case decodeString x of
                Inl m \<Rightarrow> Some (Inr (False, cur, r', errs @ [m]))
              | Inr s \<Rightarrow> Some (Inr (True, value_of_string s, r', errs)))
         | tokenTrue \<Rightarrow> Some (Inr (True, BoolV True, r', errs))
         | tokenFalse \<Rightarrow> Some (Inr (True, BoolV False, r', errs))
         | tokenNull \<Rightarrow> Some (Inr (True, NullV, r', errs))
         | _ \<Rightarrow> Some (Inr (False, cur, r', errs @ [''Syntax error: value, object or array expected.''])))"
  unfolding readValue_def token_not_comment(2) [OF assms] by simp

lemma reads_words:
  "reads_back F scan ''null'' NullV" "reads_back F scan ''true'' (BoolV True)" "reads_back F scan ''false'' (BoolV False)"
  by (rule reads_backI, subst token_cases, rule readToken_words, simp, simp)+

lemma reads_string: "CHR 0x00 \<notin> set s \<Longrightarrow> reads_back F scan (valueToQuotedString s) (StringV s)"
  by (rule reads_backI, subst token_cases, rule readToken_string, simp)
     (simp add: decodeString_quoted value_of_string_def c_str_id)

lemma reads_number:
  assumes "\<And>t. t = [] \<or> \<not> number_char (hd t) \<Longrightarrow> readToken (x @ t) = (tokenNumber, x, t)"
    "decodeNumber False scan x = Inr (Some v)"
  shows "reads_back F scan x v"
  by (rule reads_backI, subst token_cases, erule assms(1)) (simp_all add: assms(2))

lemma readToken_int: "t = [] \<or> \<not> number_char (hd t) \<Longrightarrow>
    readToken (valueToString_int i @ t) = (tokenNumber, valueToString_int i, t)"
  by (simp add: valueToString_int_def uintToString_def readToken_nat readToken_neg)

lemma readToken_uint: "t = [] \<or> \<not> number_char (hd t) \<Longrightarrow>
    readToken (valueToString_uint i @ t) = (tokenNumber, valueToString_uint i, t)"
  by (simp add: valueToString_uint_def uintToString_def readToken_nat)

lemma array_reads:
  assumes "list_all (\<lambda>(x, v). reads_back F scan x v) ps" "ps \<noteq> []" "\<forall>k \<in> fst ` set pre. k < int i"
    "2 * length (join '','' (map fst ps)) + 3 \<le> n" "i + length ps \<le> 2 ^ 31"
  shows "run_parser False F scan n (CallArray i (ArrayV pre)) (join '','' (map fst ps) @ CHR '']'' # t, errs) =
     Some (Inr (True, ArrayV (pre @ zip (map int [i..<i + length ps]) (map snd ps)), t, errs))"
  using assms
proof (induction ps arbitrary: i pre n)
  case (Cons p ps)
  obtain x v where p: "p = (x, v)" by fastforce
  obtain m where n: "n = Suc m" using Cons.prems(4) by (cases n) auto
  have put: "arr_put i v (ArrayV pre) = ArrayV (pre @ [(int i, v)])"
    using Cons.prems(3,5) by (simp add: ins_key_last slot_small)
  show ?case
  proof (cases ps)
    case Nil
    have "run_parser False F scan m (CallValue NullV) (x @ CHR '']'' # t, errs) = Some (Inr (True, v, CHR '']'' # t, errs))"
      by (rule reads_backD) (use Cons.prems(1,4) p n Nil in auto)
    moreover have "next_token (CHR '']'' # t) = (tokenArrayEnd, '']'', t)" by (rule token_not_comment(1)) simp_all
    ultimately show ?thesis using Nil p n put by (simp add: readArray_def Let_def)
  next
    case (Cons q qs)
    let ?rest = "join '','' (map fst ps) @ CHR '']'' # t"
    have "run_parser False F scan m (CallValue NullV) (x @ CHR '','' # ?rest, errs) = Some (Inr (True, v, CHR '','' # ?rest, errs))"
      by (rule reads_backD) (use Cons.prems(1,4) p n Cons in auto)
    moreover have "next_token (CHR '','' # ?rest) = (tokenArraySeparator, '','', ?rest)"
      by (rule token_not_comment(1)) simp_all
    moreover have "run_parser False F scan m (CallArray (Suc i) (ArrayV (pre @ [(int i, v)]))) (?rest, errs) =
        Some (Inr (True, ArrayV ((pre @ [(int i, v)]) @ zip (map int [Suc i..<Suc i + length ps]) (map snd ps)), t, errs))"
      by (rule Cons.IH) (use Cons.prems p n Cons in \<open>auto simp: less_Suc_eq\<close>)
    moreover have "[i..<i + length (p # ps)] = i # [Suc i..<Suc i + length ps]" by (simp add: upt_rec)
    ultimately show ?thesis using p n put Cons by (simp add: readArray_def Let_def)
  qed
qed simp

text \<open>The text of a member, with blanks before the name and around the colon.\<close>

definition member_text :: "string \<Rightarrow> string \<Rightarrow> string \<Rightarrow> string \<Rightarrow> string \<Rightarrow> string" where
  "member_text a b c k x = a @ valueToQuotedString k @ b @ '':'' @ c @ x"

lemma member_reads:
  assumes "reads_back F scan x v" "CHR 0x00 \<notin> set k" "2 * length (member_text a b c k x) \<le> m"
    "r \<noteq> [] \<longrightarrow> \<not> number_char (hd r)" "\<forall>a \<in> fst ` set pre. a < k" "blank a" "blank b" "blank c"
  shows "readObject (run_parser False F scan m) nm (ObjectV pre) (member_text a b c k x @ r) errs =
     readObject_next (run_parser False F scan m) k (ObjectV (pre @ [(k, v)])) r errs"
proof -
  have "readToken (member_text a b c k x @ r) = (tokenString, valueToQuotedString k, b @ CHR '':'' # c @ x @ r)"
    using assms(6) by (simp add: member_text_def readToken_blank readToken_string)
  then have name: "next_token (member_text a b c k x @ r) = (tokenString, valueToQuotedString k, b @ CHR '':'' # c @ x @ r)"
    by (rule token_not_comment(1)) simp
  have colon: "readToken (b @ CHR '':'' # c @ x @ r) = (tokenMemberSeparator, '':'', c @ x @ r)"
    using assms(7) by (simp add: readToken_blank)
  have len: "2 * length x + 2 \<le> m" using assms(3) by (simp add: member_text_def quoted_string)
  have "run_parser False F scan m (CallValue cur) (x @ r, errs) = Some (Inr (True, v, r, errs))" for cur
    by (rule reads_backD [OF assms(1) len]) (use assms(4) in blast)
  then have "run_parser False F scan m (CallValue cur) (c @ x @ r, errs) = Some (Inr (True, v, r, errs))" for cur
    using assms(8) by (simp add: value_after_blank)
  moreover have "obj_put k v (ObjectV pre) = ObjectV (pre @ [(k, v)])"
    using assms(2,5) by (simp add: c_str_id ins_key_last)
  ultimately show ?thesis
    unfolding readObject_def name
    by (simp add: decodeString_quoted c_str_id [OF assms(2)] colon Let_def del: obj_put.simps)
qed

lemma hd_blank: "blank z \<Longrightarrow> \<not> number_char ch \<Longrightarrow> \<not> number_char (hd (z @ ch # t))"
  by (cases z) (auto dest: space_not_number)

lemma object_reads:
  assumes "list_all (\<lambda>(k, x, v). CHR 0x00 \<notin> set k \<and> reads_back F scan x v) ps" "ps \<noteq> []"
    "ordered (pre @ map (\<lambda>(k, x, v). (k, v)) ps)" "blank a" "blank b" "blank c" "blank z"
    "2 * length (join '','' (map (\<lambda>(k, x, v). member_text a b c k x) ps)) + 3 \<le> n"
  shows "run_parser False F scan n (CallObject nm (ObjectV pre))
       (join '','' (map (\<lambda>(k, x, v). member_text a b c k x) ps) @ z @ CHR ''}'' # t, errs) =
     Some (Inr (True, ObjectV (pre @ map (\<lambda>(k, x, v). (k, v)) ps), t, errs))"
  using assms(1-3,8)
proof (induction ps arbitrary: nm pre n)
  case (Cons p ps)
  obtain k x v where p: "p = (k, x, v)" by (cases p)
  obtain m where n: "n = Suc m" using Cons.prems(4) by (cases n) auto
  have pre: "\<forall>a \<in> fst ` set pre. a < k" using Cons.prems(3) p by (auto simp: ordered_def sorted_wrt_append)
  show ?case
  proof (cases ps)
    case Nil
    have "readObject (run_parser False F scan m) nm (ObjectV pre) (member_text a b c k x @ z @ CHR ''}'' # t) errs =
        readObject_next (run_parser False F scan m) k (ObjectV (pre @ [(k, v)])) (z @ CHR ''}'' # t) errs"
      by (rule member_reads) (use Cons.prems pre p n Nil assms(4-7) hd_blank [of z "CHR ''}''"] in auto)
    then show ?thesis using Nil p n assms(7) by (simp add: readObject_next_def readToken_blank)
  next
    case (Cons q qs)
    let ?rest = "join '','' (map (\<lambda>(k, x, v). member_text a b c k x) ps) @ z @ CHR ''}'' # t"
    have "readObject (run_parser False F scan m) nm (ObjectV pre) (member_text a b c k x @ CHR '','' # ?rest) errs =
        readObject_next (run_parser False F scan m) k (ObjectV (pre @ [(k, v)])) (CHR '','' # ?rest) errs"
      by (rule member_reads) (use Cons.prems pre p n Cons assms(4-7) in auto)
    also have "\<dots> = run_parser False F scan m (CallObject k (ObjectV (pre @ [(k, v)]))) (?rest, errs)"
      by (simp add: readObject_next_def)
    also have "\<dots> = Some (Inr (True, ObjectV ((pre @ [(k, v)]) @ map (\<lambda>(k, x, v). (k, v)) ps), t, errs))"
      by (rule Cons.IH) (use Cons.prems p n Cons in auto)
    finally show ?thesis using p n Cons by simp
  qed
qed simp

lemma join_head: "xs \<noteq> [] \<Longrightarrow> \<exists>r. join sep xs = hd xs @ r"
  by (induction sep xs rule: join.induct) auto

lemma reads_array:
  assumes all: "list_all (\<lambda>(x, v). reads_back F scan x v) ps"
    and head: "list_all (\<lambda>(x, v). \<exists>c cs. x = c # cs \<and> \<not> is_space c \<and> c \<noteq> CHR '']'') ps"
    and len: "length ps < 2 ^ 31"
  shows "reads_back F scan (''['' @ join '','' (map fst ps) @ '']'') (ArrayV (zip (map int [0..<length ps]) (map snd ps)))"
proof (rule reads_backI)
  fix n cur t errs
  assume n: "2 * length (''['' @ join '','' (map fst ps) @ '']'') + 1 \<le> n"
  let ?rest = "join '','' (map fst ps) @ CHR '']'' # t"
  have "readValue False F scan (run_parser False F scan n) cur (CHR ''['' # ?rest) errs
      = Some (Inr (True, ArrayV (zip (map int [0..<length ps]) (map snd ps)), t, errs))"
  proof (cases "ps = []")
    case True
    have "readValue False F scan (run_parser False F scan n) cur (CHR ''['' # CHR '']'' # t) errs = Some (Inr (True, ArrayV [], t, errs))"
      by (subst token_cases, rule readToken_punct(3)) (simp_all add: skipSpaces_def)
    with True show ?thesis by simp
  next
    case False
    then obtain c cs where c: "join '','' (map fst ps) = c # cs" "\<not> is_space c" "c \<noteq> CHR '']''"
      using join_head [of "map fst ps" "'',''"] head by (cases ps) auto
    have "run_parser False F scan n (CallArray 0 (ArrayV [])) (?rest, errs)
        = Some (Inr (True, ArrayV ([] @ zip (map int [0..<0 + length ps]) (map snd ps)), t, errs))"
      by (rule array_reads [OF all False]) (use n len in simp_all)
    moreover have "readValue False F scan (run_parser False F scan n) cur (CHR ''['' # ?rest) errs
        = run_parser False F scan n (CallArray 0 (ArrayV [])) (?rest, errs)"
      by (subst token_cases, rule readToken_punct(3)) (use c in \<open>simp_all add: skipSpaces_def\<close>)
    ultimately show ?thesis by simp
  qed
  then show "readValue False F scan (run_parser False F scan n) cur ((''['' @ join '','' (map fst ps) @ '']'') @ t) errs
      = Some (Inr (True, ArrayV (zip (map int [0..<length ps]) (map snd ps)), t, errs))" by simp
qed

lemma reads_object:
  assumes all: "list_all (\<lambda>(k, x, v). CHR 0x00 \<notin> set k \<and> reads_back F scan x v) ps"
    and ord: "ordered (map (\<lambda>(k, x, v). (k, v)) ps)" and bl: "blank a" "blank b" "blank c" "blank z"
  shows "reads_back F scan (''{'' @ join '','' (map (\<lambda>(k, x, v). member_text a b c k x) ps) @ z @ ''}'')
     (ObjectV (map (\<lambda>(k, x, v). (k, v)) ps))"
proof (rule reads_backI)
  fix n cur t errs
  let ?ms = "join '','' (map (\<lambda>(k, x, v). member_text a b c k x) ps)"
  assume n: "2 * length (''{'' @ ?ms @ z @ ''}'') + 1 \<le> n"
  have tok: "readToken (CHR ''{'' # ?ms @ z @ CHR ''}'' # t) = (tokenObjectBegin, ''{'', ?ms @ z @ CHR ''}'' # t)" by simp
  have "run_parser False F scan n (CallObject [] (ObjectV [])) (?ms @ z @ CHR ''}'' # t, errs)
      = Some (Inr (True, ObjectV ([] @ map (\<lambda>(k, x, v). (k, v)) ps), t, errs))"
  proof (cases "ps = []")
    case True
    have "next_token (z @ CHR ''}'' # t) = (tokenObjectEnd, ''}'', t)"
      by (rule token_not_comment(1)) (use bl in \<open>simp_all add: readToken_blank\<close>)
    moreover obtain m where "n = Suc m" using n by (cases n) auto
    ultimately show ?thesis using True by (simp add: readObject_def)
  next
    case False
    show ?thesis by (rule object_reads [OF all False]) (use n ord bl in simp_all)
  qed
  then show "readValue False F scan (run_parser False F scan n) cur ((''{'' @ ?ms @ z @ ''}'') @ t) errs
      = Some (Inr (True, ObjectV (map (\<lambda>(k, x, v). (k, v)) ps), t, errs))"
    by (simp add: token_cases [OF tok])
qed

lemma fw_head_ex: "plain v \<Longrightarrow> \<exists>c cs. fw_value y fmt v = c # cs \<and> \<not> is_space c \<and> c \<noteq> CHR '']''"
  by (rule fw_head) blast+

lemma fw_reads: "plain v \<Longrightarrow> reads_back F scan (fw_value y fmt v) v"
proof (induction y fmt v rule: fw_value.induct)
  case (2 y fmt i)
  then show ?case by (auto intro!: reads_number readToken_int decodeNumber_int)
next
  case (3 y fmt u)
  then show ?case by (auto intro!: reads_number readToken_uint decodeNumber_uint)
next
  case (7 y fmt kvs)
  let ?ps = "map (\<lambda>(i, v). (fw_value y fmt v, v)) kvs"
  have "dense kvs" and pl: "list_all (\<lambda>(i, v). plain v) kvs" using 7 by simp_all
  then have dense: "map fst kvs = map int [0..<length kvs]" and short: "length kvs < 2 ^ 31" by (simp_all add: dense_def)
  have el: "array_elems kvs = map snd kvs" using array_elems_dense [OF \<open>dense kvs\<close>] .
  have rec: "reads_back F scan (fw_value y fmt v) v" if "(i, v) \<in> set kvs" "plain v" for i v
    using that by (intro 7(1)) (auto simp: el intro: rev_image_eqI)
  have "reads_back F scan (''['' @ join '','' (map fst ?ps) @ '']'') (ArrayV (zip (map int [0..<length ?ps]) (map snd ?ps)))"
  proof (rule reads_array)
    show "list_all (\<lambda>(x, v). reads_back F scan x v) ?ps"
      using pl rec by (auto simp: list_all_iff)
    show "list_all (\<lambda>(x, v). \<exists>c cs. x = c # cs \<and> \<not> is_space c \<and> c \<noteq> CHR '']'') ?ps"
      using pl unfolding list_all_iff by (auto intro!: fw_head_ex [unfolded ex_simps(1)])
  qed (use short in simp)
  moreover have "zip (map int [0..<length ?ps]) (map snd ?ps) = kvs"
    using zip_map_fst_snd [of kvs] by (simp add: dense comp_def case_prod_unfold)
  moreover have "map fst ?ps = map (fw_value y fmt) (array_elems kvs)"
    by (simp add: el comp_def case_prod_unfold)
  ultimately show ?case by simp
next
  case (8 y fmt kvs)
  let ?ps = "map (\<lambda>(k, v). (k, fw_value y fmt v, v)) kvs"
  have ord: "ordered kvs" and pl: "list_all (\<lambda>(k, v). CHR 0x00 \<notin> set k \<and> plain v) kvs" using 8 by simp_all
  have rec: "reads_back F scan (fw_value y fmt v) v" if "(k, v) \<in> set kvs" "plain v" for k v
    using that by (intro 8(1)) auto
  have id: "map (\<lambda>(k, x, v). (k, v)) ?ps = kvs" by (simp add: comp_def case_prod_unfold)
  let ?b = "if y then '' '' else []"
  have "reads_back F scan (''{'' @ join '','' (map (\<lambda>(k, x, v). member_text [] [] ?b k x) ?ps) @ [] @ ''}'')
      (ObjectV (map (\<lambda>(k, x, v). (k, v)) ?ps))"
  proof (rule reads_object)
    show "list_all (\<lambda>(k, x, v). CHR 0x00 \<notin> set k \<and> reads_back F scan x v) ?ps"
      using pl rec by (auto simp: list_all_iff)
  qed (use ord id in simp_all)
  moreover have "(if y then '': '' else '':'') = '':'' @ ?b" by simp
  ultimately show ?case unfolding id by (simp add: comp_def case_prod_unfold member_text_def)
qed (simp_all add: reads_words reads_string valueToString_bool_def)

section \<open>Properties\<close>

lemma fast_parses:
  assumes "plain v"
  shows "parse features_all scan (fast_write y fmt v) = Some (Inr (True, v, []))"
proof -
  have "run_parser False features_all scan (parse_fuel (fast_write y fmt v)) (CallValue NullV) (fast_write y fmt v, [])
      = Some (Inr (True, v, [CHR 0x0A], []))"
    unfolding fast_write_def
    by (rule reads_backD [OF fw_reads [OF assms]]) (simp_all add: parse_fuel_def)
  then show ?thesis by (simp add: parse_def parse_with_def features_all_def)
qed

text \<open>
  C7. Printing and parsing. A plain value written by \<open>FastWriter\<close>, with or without YAML compatibility, is
  parsed back to the same value without an error message. Plain means: no doubles, strings and member
  names without a zero character, arrays without holes and with less than \<open>2 ^ 31\<close> elements, members in the order of their names, signed
  integers from -2147483639 and unsigned ones between 2147483648 and 4294967289; outside these bounds the
  reader makes an integer a double.
\<close>

theorem fast_roundtrip:
  assumes "plain v"
  shows "parse features_all scan (fast_write y fmt v) = Some (Inr (True, v, []))"
  using assms by (rule fast_parses)

definition sample_json :: "unit json" where
  "sample_json = ObjectV [(''code'', IntV 200), (''list'', ArrayV [(0, IntV (- 5)), (1, BoolV True), (2, NullV)]),
     (''msg'', StringV [DQ, CHR 0x0A, CHR 0x01, BS]), (''sub'', ObjectV [])]"

theorem fast_roundtrip_witness:
  "plain sample_json
   \<and> parse features_all (\<lambda>_. None) (fast_write False (\<lambda>_. ''0.0'') sample_json) = Some (Inr (True, sample_json, []))"
proof -
  have "plain sample_json" by (simp add: sample_json_def ordered_def dense_def DQ_def BS_def upt_rec)
  with fast_roundtrip [OF this] show ?thesis by blast
qed

text \<open>
  Integers. Decimal digits without a leading zero are read exactly: up to 2147483647 as an \<open>Int\<close>, from
  there to 4294967289 as a \<open>UInt\<close>, with a minus sign down to -2147483639 as an \<open>Int\<close>. Every larger magnitude goes
  to \<open>decodeDouble\<close>, so the numbers from 4294967290 to \<open>maxUInt\<close> and from -2147483640 to \<open>minInt\<close>, which the
  types can hold, become doubles; and a number of exactly 32 characters that goes there writes the terminating
  zero behind the local buffer.
\<close>

theorem integer_ranges:
  "decodeNumber False scan (show_nat n) =
     (if n \<le> 2147483647 then Inr (Some (IntV (word_of_nat n)))
      else if n \<le> 4294967289 then Inr (Some (UIntV (word_of_nat n)))
      else if length (show_nat n) = 32 then Inl OutOfBounds
      else Inr (map_option RealV (scan (show_nat n))))
   \<and> decodeNumber False scan (CHR ''-'' # show_nat n) =
     (if n \<le> 2147483639 then Inr (Some (IntV (- word_of_nat n)))
      else if length (show_nat n) = 31 then Inl OutOfBounds
      else Inr (map_option RealV (scan (CHR ''-'' # show_nat n))))"
  using decodeNumber_nat [of n scan] decodeNumber_nat_big [of n scan] decodeNumber_neg [of n scan]
    decodeNumber_neg_big [of n scan]
  by (auto simp: maxInt_def decodeDouble_def not_le)

end
