(* ===== verification/JsonStyled.thy ===== *)
theory JsonStyled
  imports JsonRoundtrip
begin

text \<open>
  The styled writer on flat objects, whose members are scalars. The replies of the chat server are of this
  kind. The writer's state machine of indentation and pushed-back values is reduced to a closed form of
  its output, which the parser reads back.
\<close>

section \<open>Closed form\<close>

fun scalar :: "'d json \<Rightarrow> bool" where
  "scalar (RealV r) = False"
| "scalar (ArrayV kvs) = False"
| "scalar (ObjectV kvs) = False"
| "scalar _ = True"

definition LF :: char where "LF = CHR 0x0A"

definition ends_plain :: "string \<Rightarrow> bool" where
  "ends_plain d \<longleftrightarrow> d \<noteq> [] \<and> last d \<noteq> CHR '' '' \<and> last d \<noteq> LF"

lemma digit_ends: "is_digit c \<Longrightarrow> c \<noteq> CHR '' '' \<and> c \<noteq> LF"
  by (auto simp: is_digit_def LF_def)

lemma show_nat_ends: "ends_plain (show_nat n)"
  using show_nat_digits [of n] digit_ends [of "last (show_nat n)"] by (simp add: ends_plain_def)

lemma scalar_ends: "scalar v \<Longrightarrow> ends_plain (fw_value y fmt v)"
  using show_nat_ends
  by (cases v) (auto simp: ends_plain_def valueToString_int_def valueToString_uint_def uintToString_def
      valueToString_bool_def quoted_string DQ_def LF_def)

lemma ends_append: "ends_plain x \<Longrightarrow> ends_plain (d @ x)"
  by (simp add: ends_plain_def)

lemma sw_scalar: "scalar v \<Longrightarrow> \<not> addChildValues s \<Longrightarrow> sw_value fmt v s = Inr (put (fw_value y fmt v) s)"
  by (cases v) (simp_all add: pushValue_def put_def)

lemma writeWithIndent_plain:
  "ends_plain (document s) \<Longrightarrow> writeWithIndent x s = s\<lparr>document := document s @ LF # indentString s @ x\<rparr>"
  by (simp add: writeWithIndent_def writeIndent_def ends_plain_def LF_def Let_def)

lemma commas_Cons: "commas (x # xs) = (0, xs \<noteq> [], x) # map (\<lambda>(i, c, y). (Suc i, c, y)) (commas xs)"
  by (simp add: commas_def upt_conv_Cons map_Suc_upt [symmetric] del: upt_Suc)

lemma rfold_map: "rfold f (map g xs) s = rfold (f \<circ> g) xs s"
proof (induction xs arbitrary: s)
  case (Cons x xs)
  then show ?case by (cases "f (g x) s") simp_all
qed simp

definition styled_member :: "('d \<Rightarrow> string) \<Rightarrow> nat \<times> bool \<times> string \<times> 'd json \<Rightarrow> styled \<Rightarrow> styled res" where
  "styled_member fmt = (\<lambda>(i, comma, (k, v)) s4.
     rbind (sw_value fmt v (put '' : '' (writeWithIndent (valueToQuotedString k) s4))) (\<lambda>s5.
     Inr (if comma then put '','' s5 else s5)))"

definition styled_text :: "('d \<Rightarrow> string) \<Rightarrow> string \<Rightarrow> string \<Rightarrow> 'd json \<Rightarrow> string" where
  "styled_text fmt ind k v = member_text (LF # ind) '' '' '' '' k (fw_value False fmt v)"

lemma styled_member_spec:
  assumes "scalar v" "ends_plain (document s)" "\<not> addChildValues s"
  shows "styled_member fmt (i, comma, k, v) s =
     Inr (s\<lparr>document := document s @ styled_text fmt (indentString s) k v @ (if comma then '','' else [])\<rparr>)"
  using assms
  by (simp add: styled_member_def writeWithIndent_plain put_def sw_scalar [of v _ fmt False] styled_text_def member_text_def)

lemma styled_members:
  assumes "list_all (\<lambda>(k, v). scalar v) kvs" "ends_plain (document s)" "\<not> addChildValues s"
  shows "rfold (styled_member fmt) (commas kvs) s =
       Inr (s\<lparr>document := document s @ join '','' (map (\<lambda>(k, v). styled_text fmt (indentString s) k v) kvs)\<rparr>)
     \<and> ends_plain (document s @ join '','' (map (\<lambda>(k, v). styled_text fmt (indentString s) k v) kvs))"
  using assms
proof (induction kvs arbitrary: s)
  case (Cons kv kvs)
  obtain k v where kv: "kv = (k, v)" by fastforce
  let ?t = "styled_text fmt (indentString s) k v"
  let ?c = "if kvs \<noteq> [] then '','' else []"
  let ?s = "s\<lparr>document := document s @ ?t @ ?c\<rparr>"
  have "?t = (LF # indentString s @ valueToQuotedString k @ '' : '') @ fw_value False fmt v"
    by (simp add: styled_text_def member_text_def)
  moreover have "scalar v" using Cons.prems(1) kv by simp
  ultimately have t: "ends_plain ?t" by (simp only: ends_append scalar_ends)
  have "styled_member fmt (0, kvs \<noteq> [], kv) s = Inr ?s"
    unfolding kv by (rule styled_member_spec) (use Cons.prems kv in simp_all)
  moreover have "styled_member fmt \<circ> (\<lambda>(i, c, y). (Suc i, c, y)) = styled_member fmt"
    by (rule ext) (auto simp: styled_member_def)
  ultimately have step: "rfold (styled_member fmt) (commas (kv # kvs)) s = rfold (styled_member fmt) (commas kvs) ?s"
    by (simp add: commas_Cons rfold_map)
  have "ends_plain (document s @ ?t @ ?c)"
    using ends_append [OF t, of "document s"] by (cases "kvs = []") (simp_all add: ends_plain_def LF_def)
  with Cons.IH [of ?s] Cons.prems kv show ?case
    unfolding step by (cases kvs) (auto simp: commas_def)
qed (simp add: commas_def)

lemma styled_flat:
  assumes "list_all (\<lambda>(k, v). scalar v) kvs" "kvs \<noteq> []"
  shows "toStyledString fmt (ObjectV kvs) =
     Inr (''{'' @ join '','' (map (\<lambda>(k, v). styled_text fmt ''   '' k v) kvs) @ [LF] @ ''}'' @ [LF])"
proof -
  let ?s = "\<lparr>document = ''{'', childValues = [], addChildValues = False, indentString = ''   ''\<rparr>"
  let ?d = "''{'' @ join '','' (map (\<lambda>(k, v). styled_text fmt ''   '' k v) kvs)"
  have start: "indent (writeWithIndent ''{'' \<lparr>document = [], childValues = [], addChildValues = False, indentString = []\<rparr>) = ?s"
    by (simp add: indent_def writeWithIndent_def writeIndent_def indentSize_def Let_def eval_nat_numeral)
  have "rfold (styled_member fmt) (commas kvs) ?s = Inr (?s\<lparr>document := ?d\<rparr>) \<and> ends_plain ?d"
    using styled_members [OF assms(1), of ?s fmt] by (simp add: ends_plain_def LF_def)
  then have m: "rfold (styled_member fmt) (commas kvs) ?s = Inr (?s\<lparr>document := ?d\<rparr>)" "ends_plain ?d" by blast+
  have "sw_value fmt (ObjectV kvs) \<lparr>document = [], childValues = [], addChildValues = False, indentString = []\<rparr>
      = rbind (rfold (styled_member fmt) (commas kvs) ?s) (\<lambda>s6. rbind (unindent s6) (\<lambda>s7. Inr (writeWithIndent ''}'' s7)))"
    using assms(2) by (simp add: start styled_member_def case_prod_unfold)
  also have "\<dots> = Inr (?s\<lparr>document := ?d @ LF # ''}'', indentString := []\<rparr>)"
    unfolding m(1) using m(2) by (simp add: unindent_def indentSize_def writeWithIndent_plain)
  finally show ?thesis by (simp add: toStyledString_def styled_write_def LF_def)
qed

section \<open>Properties\<close>

lemma styled_reads:
  assumes "plain (ObjectV kvs)" "list_all (\<lambda>(k, v). scalar v) kvs" "kvs \<noteq> []"
  shows "reads_back F scan (''{'' @ join '','' (map (\<lambda>(k, v). styled_text fmt ''   '' k v) kvs) @ [LF] @ ''}'') (ObjectV kvs)"
proof -
  let ?ps = "map (\<lambda>(k, v). (k, fw_value False fmt v, v)) kvs"
  have id: "map (\<lambda>(k, x, v). (k, v)) ?ps = kvs" by (simp add: comp_def case_prod_unfold)
  have "reads_back F scan (''{'' @ join '','' (map (\<lambda>(k, x, v). member_text (LF # ''   '') '' '' '' '' k x) ?ps) @ [LF] @ ''}'')
      (ObjectV (map (\<lambda>(k, x, v). (k, v)) ?ps))"
  proof (rule reads_object)
    show "list_all (\<lambda>(k, x, v). CHR 0x00 \<notin> set k \<and> reads_back F scan x v) ?ps"
      using assms(1) by (auto simp: list_all_iff intro!: fw_reads)
  qed (use assms(1) id in \<open>simp_all add: LF_def\<close>)
  then show ?thesis unfolding id by (simp add: comp_def case_prod_unfold styled_text_def)
qed

lemma styled_parses:
  assumes "plain (ObjectV kvs)" "list_all (\<lambda>(k, v). scalar v) kvs" "kvs \<noteq> []" "toStyledString fmt (ObjectV kvs) = Inr doc"
  shows "parse features_all scan doc = Some (Inr (True, ObjectV kvs, []))"
proof -
  let ?t = "''{'' @ join '','' (map (\<lambda>(k, v). styled_text fmt ''   '' k v) kvs) @ [LF] @ ''}''"
  have doc: "doc = ?t @ [LF]" using assms(4) styled_flat [OF assms(2,3), of fmt] by simp
  have "run_parser False features_all scan (parse_fuel doc) (CallValue NullV) (?t @ [LF], [])
      = Some (Inr (True, ObjectV kvs, [LF], []))"
    by (rule reads_backD [OF styled_reads [OF assms(1-3)]]) (simp_all add: doc parse_fuel_def LF_def)
  then show ?thesis unfolding doc by (simp add: parse_def parse_with_def features_all_def)
qed

end
