(* ===== verification/Database.thy ===== *)
theory Database
  imports Prelude
begin

text \<open>
  The database layer of the chat server (\<open>MysqlTool.h\<close>, \<open>MysqlTool.cpp\<close>, \<open>MysqlBusiness.h\<close>,
  \<open>MysqlBusiness.cpp\<close>, and the conversions of \<open>Field.h\<close>). The MySQL C library is the parameter \<open>api\<close>,
  which acts on the state \<open>'m\<close> of the server and the connection. A result set is the list of its rows, each
  the values \<open>Field::getValue\<close> gives (an SQL null gives the empty string).
\<close>

section \<open>The C library\<close>

text \<open>
  \<open>api_connect\<close>: host, user, password, database and port; whether \<open>mysql_real_connect\<close> gives a handle.
  \<open>api_query\<close>: the error number of a statement, 0 on success. \<open>api_result\<close>: the rows of the last result, the number of affected rows
  (for a result set, the number of its rows) and of columns.
\<close>

record 'm mysql_api =
  api_connect :: "string \<Rightarrow> string \<Rightarrow> string \<Rightarrow> string \<Rightarrow> nat \<Rightarrow> 'm \<Rightarrow> bool \<times> 'm"
  api_query :: "string \<Rightarrow> 'm \<Rightarrow> nat \<times> 'm"
  api_result :: "'m \<Rightarrow> string list list \<times> nat \<times> nat"

definition CR_SERVER_GONE_ERROR :: nat where "CR_SERVER_GONE_ERROR = 2006"

section \<open>MysqlTool\<close>

record 'm mysql_tool =
  t_open :: bool
  t_host :: string
  t_user :: string
  t_pwd :: string
  t_dbname :: string
  t_port :: string
  t_server :: 'm

record query_result =
  q_rows :: "string list list"
  q_rowCount :: nat
  q_columnCount :: nat

definition newMysqlTool :: "'m \<Rightarrow> 'm mysql_tool" where
  "newMysqlTool m = \<lparr>t_open = False, t_host = [], t_user = [], t_pwd = [], t_dbname = [], t_port = [], t_server = m\<rparr>"

definition closeDB :: "'m mysql_tool \<Rightarrow> 'm mysql_tool" where
  "closeDB t = (if t_open t then t\<lparr>t_open := False\<rparr> else t)"

definition getDBName :: "'m mysql_tool \<Rightarrow> string" where
  "getDBName t = t_dbname t"

text \<open>\<open>_port = port\<close> assigns a number to a string, which stores one character.\<close>

definition mysql_connect ::
  "'m mysql_api \<Rightarrow> string \<Rightarrow> string \<Rightarrow> string \<Rightarrow> string \<Rightarrow> nat \<Rightarrow> 'm mysql_tool \<Rightarrow> bool \<times> 'm mysql_tool" where
  "mysql_connect api host usr pwd dbName port t =
     (let t0 = closeDB t
      in case api_connect api host usr pwd dbName port (t_server t0) of
           (True, m) \<Rightarrow>
             (case api_query api ''set names utf8'' m of (_, m') \<Rightarrow>
                (True, t0\<lparr>t_open := True, t_host := host, t_user := usr, t_pwd := pwd, t_dbname := dbName,
                          t_port := [char_of (port mod 256)], t_server := m'\<rparr>))
         | (False, m) \<Rightarrow> (False, t0\<lparr>t_server := m\<rparr>))"

definition reconnect :: "'m mysql_api \<Rightarrow> 'm mysql_tool \<Rightarrow> bool \<times> 'm mysql_tool" where
  "reconnect api t = mysql_connect api (t_host t) (t_user t) (t_pwd t) (t_dbname t) 3306 t"

definition send_sql :: "'m mysql_api \<Rightarrow> string \<Rightarrow> 'm mysql_tool \<Rightarrow> nat \<times> 'm mysql_tool" where
  "send_sql api sql t = (case api_query api sql (t_server t) of (e, m) \<Rightarrow> (e, t\<lparr>t_server := m\<rparr>))"

text \<open>The part \<open>query\<close> and \<open>execute\<close> share: connect when there is no handle, and try again once
  after a reconnection when the server has gone away.\<close>

definition run_sql :: "'m mysql_api \<Rightarrow> string \<Rightarrow> 'm mysql_tool \<Rightarrow> bool \<times> 'm mysql_tool" where
  "run_sql api sql t =
     (case (if \<not> t_open t then reconnect api t else (True, t)) of
        (False, t1) \<Rightarrow> (False, t1)
      | (True, t1) \<Rightarrow>
          (case send_sql api sql t1 of (ret, t2) \<Rightarrow>
             if ret \<noteq> 0
             then if ret = CR_SERVER_GONE_ERROR
                  then (case reconnect api t2 of
                          (False, t3) \<Rightarrow> (False, t3)
                        | (True, t3) \<Rightarrow> (case send_sql api sql t3 of (ret', t4) \<Rightarrow> (ret' = 0, t4)))
                  else (False, t2)
             else (True, t2)))"

definition mysql_query :: "'m mysql_api \<Rightarrow> string \<Rightarrow> 'm mysql_tool \<Rightarrow> query_result option \<times> 'm mysql_tool" where
  "mysql_query api sql t =
     (case run_sql api sql t of
        (False, t1) \<Rightarrow> (None, t1)
      | (True, t1) \<Rightarrow>
          (case api_result api (t_server t1) of (rows, rowCount, columnCount) \<Rightarrow>
             (if rowCount = 0 then None
              else Some \<lparr>q_rows = rows, q_rowCount = rowCount, q_columnCount = columnCount\<rparr>, t1)))"

text \<open>\<open>nAffectedRowCount\<close> is set only when the statement succeeds.\<close>

definition mysql_execute :: "'m mysql_api \<Rightarrow> string \<Rightarrow> nat \<Rightarrow> 'm mysql_tool \<Rightarrow> bool \<times> nat \<times> 'm mysql_tool" where
  "mysql_execute api sql affected t =
     (case run_sql api sql t of
        (False, t1) \<Rightarrow> (False, affected, t1)
      | (True, t1) \<Rightarrow> (case api_result api (t_server t1) of (_, rowCount, _) \<Rightarrow> (True, rowCount, t1)))"

section \<open>Fields\<close>

definition c_isspace :: "char \<Rightarrow> bool" where
  "c_isspace c \<longleftrightarrow> c = CHR '' '' \<or> 9 \<le> (of_char c :: nat) \<and> (of_char c :: nat) \<le> 13"

definition atoi :: "string \<Rightarrow> int" where
  "atoi s =
     (case dropWhile c_isspace s of
        [] \<Rightarrow> 0
      | c # cs \<Rightarrow>
          if c = CHR ''-'' then - int (read_nat 0 cs)
          else if c = CHR ''+'' then int (read_nat 0 cs)
          else int (read_nat 0 (c # cs)))"

text \<open>A number outside the range of \<open>long\<close> gives its bounds, and the conversion to \<open>int\<close> keeps the low bits.\<close>

definition clamp_long :: "int \<Rightarrow> int" where
  "clamp_long k = max (- (2 ^ 63)) (min (2 ^ 63 - 1) k)"

definition toInt32 :: "string \<Rightarrow> i32" where
  "toInt32 v = word_of_int (clamp_long (atoi v))"

definition toInt64 :: "string \<Rightarrow> i64" where
  "toInt64 v = word_of_int (clamp_long (atoi v))"

definition toInt8 :: "string \<Rightarrow> 8 word" where
  "toInt8 v = word_of_int (clamp_long (atoi v))"

definition toBool :: "string \<Rightarrow> bool" where
  "toBool v \<longleftrightarrow> toInt32 v \<noteq> 0"

section \<open>MysqlManager\<close>

record table_info =
  sName :: string
  sKey :: string
  mFields :: "(string \<times> string \<times> string) list"

text \<open>
  A field is its key in the ordered map with its \<open>sName\<close> and \<open>sType\<close>. The tables the constructor lists are data and
  a parameter here.
\<close>

record 'm mysql_manager =
  mTables :: "table_info list"
  mysqlTool :: "'m mysql_tool option"

definition newMysqlManager :: "table_info list \<Rightarrow> 'm mysql_manager" where
  "newMysqlManager tables = \<lparr>mTables = tables, mysqlTool = None\<rparr>"

definition Query :: "'m mysql_api \<Rightarrow> string \<Rightarrow> 'm mysql_manager \<Rightarrow> query_result option \<times> 'm mysql_manager" where
  "Query api sql g =
     (case mysqlTool g of
        None \<Rightarrow> (None, g)
      | Some t \<Rightarrow> (case mysql_query api sql t of (r, t') \<Rightarrow> (r, g\<lparr>mysqlTool := Some t'\<rparr>)))"

definition excute :: "'m mysql_api \<Rightarrow> string \<Rightarrow> 'm mysql_manager \<Rightarrow> bool \<times> 'm mysql_manager" where
  "excute api sql g =
     (case mysqlTool g of
        None \<Rightarrow> (False, g)
      | Some t \<Rightarrow> (case mysql_execute api sql 0 t of (ok, _, t') \<Rightarrow> (ok, g\<lparr>mysqlTool := Some t'\<rparr>)))"

text \<open>The loop of \<open>checkDatabase\<close>: one row after the other, comparing the first field.\<close>

fun find_db :: "string \<Rightarrow> string list list \<Rightarrow> bool res" where
  "find_db dbName [] = Inr False"
| "find_db dbName (row # rows) =
     (case row of [] \<Rightarrow> Inl OutOfBounds | v # _ \<Rightarrow> if dbName = v then Inr True else find_db dbName rows)"

definition checkDatabase :: "'m mysql_api \<Rightarrow> 'm mysql_manager \<Rightarrow> bool res \<times> 'm mysql_manager" where
  "checkDatabase api g =
     (case mysqlTool g of
        None \<Rightarrow> (Inr False, g)
      | Some t \<Rightarrow>
          (case mysql_query api ''show databases;'' t of
             (None, t') \<Rightarrow> (Inr False, g\<lparr>mysqlTool := Some t'\<rparr>)
           | (Some r, t') \<Rightarrow>
               (if q_columnCount r = 0 then Inr False else find_db (getDBName t') (q_rows r),
                g\<lparr>mysqlTool := Some t'\<rparr>)))"

definition checkTable :: "'m mysql_api \<Rightarrow> string \<Rightarrow> 'm mysql_manager \<Rightarrow> bool \<times> 'm mysql_manager" where
  "checkTable api tableName g =
     (case mysqlTool g of
        None \<Rightarrow> (False, g)
      | Some t \<Rightarrow>
          (case mysql_query api (''desc '' @ tableName @ '';'') t of
             (r, t') \<Rightarrow> (r \<noteq> None, g\<lparr>mysqlTool := Some t'\<rparr>)))"

definition createDataBase :: "'m mysql_api \<Rightarrow> 'm mysql_manager \<Rightarrow> bool \<times> 'm mysql_manager" where
  "createDataBase api g =
     (case mysqlTool g of
        None \<Rightarrow> (False, g)
      | Some t \<Rightarrow>
          (case mysql_execute api (''create database '' @ getDBName t @ '';'') 0 t of
             (_, affectRow, t') \<Rightarrow> (affectRow = 1, g\<lparr>mysqlTool := Some t'\<rparr>)))"

fun field_list :: "(string \<times> string \<times> string) list \<Rightarrow> string" where
  "field_list [] = []"
| "field_list [(k, n, ty)] = n @ '' '' @ ty"
| "field_list ((k, n, ty) # f # fs) = n @ '' '' @ ty @ '','' @ field_list (f # fs)"

definition create_table_sql :: "table_info \<Rightarrow> string" where
  "create_table_sql info =
     ''create table if not exists '' @ sName info @ ''('' @ field_list (mFields info)
       @ (if length (sKey info) > 0 then '','' @ sKey info else []) @ '') default charset=utf-8,ENGINE=InnoDB;''"

definition createTable :: "'m mysql_api \<Rightarrow> table_info \<Rightarrow> 'm mysql_manager \<Rightarrow> bool \<times> 'm mysql_manager" where
  "createTable api info g =
     (case mysqlTool g of
        None \<Rightarrow> (False, g)
      | Some t \<Rightarrow>
          if mFields info = [] then (False, g)
          else (case mysql_execute api (create_table_sql info) 0 t of
                  (ok, _, t') \<Rightarrow> (ok, g\<lparr>mysqlTool := Some t'\<rparr>)))"

fun check_tables :: "'m mysql_api \<Rightarrow> table_info list \<Rightarrow> 'm mysql_manager \<Rightarrow> bool \<times> 'm mysql_manager" where
  "check_tables api [] g = (True, g)"
| "check_tables api (info # infos) g =
     (case checkTable api (sName info) g of
        (True, g1) \<Rightarrow> check_tables api infos g1
      | (False, g1) \<Rightarrow>
          (case createTable api info g1 of
             (True, g2) \<Rightarrow> check_tables api infos g2
           | (False, g2) \<Rightarrow> (False, g2)))"

definition mysql_init ::
  "'m mysql_api \<Rightarrow> string \<Rightarrow> string \<Rightarrow> string \<Rightarrow> string \<Rightarrow> nat \<Rightarrow> 'm \<Rightarrow> 'm mysql_manager \<Rightarrow> (bool \<times> 'm mysql_manager) res" where
  "mysql_init api host usr pwd dbname port m g =
     (case mysql_connect api host usr pwd dbname port (newMysqlTool m) of
        (False, t) \<Rightarrow> Inr (False, g\<lparr>mysqlTool := Some t\<rparr>)
      | (True, t) \<Rightarrow>
          (case checkDatabase api (g\<lparr>mysqlTool := Some t\<rparr>) of
             (Inl e, g1) \<Rightarrow> Inl e
           | (Inr True, g1) \<Rightarrow> Inr (check_tables api (mTables g1) g1)
           | (Inr False, g1) \<Rightarrow>
               (case createDataBase api g1 of
                  (True, g2) \<Rightarrow> Inr (check_tables api (mTables g2) g2)
                | (False, g2) \<Rightarrow> Inr (False, g2))))"

end
