(* ===== verification/UserManager.thy ===== *)
theory UserManager
  imports Database
begin

text \<open>
  The users of the chat server (\<open>UserManager.h\<close>, \<open>UserManager.cpp\<close>): the cache of users, which is
  filled from the database at the start, and registration. The fields \<open>_birthDay\<close> and \<open>_ownerid\<close> of
  a new \<open>User\<close> are not initialised; their values are the parameter \<open>junk\<close>.
\<close>

section \<open>Users\<close>

record user =
  userId :: i32
  userName :: string
  passWord :: string
  nickName :: string
  signature :: string
  faceType :: i32
  customFace :: string
  customFaceFmt :: string
  gender :: i32
  birthDay :: i32
  adress :: string
  pthone :: string
  mail :: string
  ownerid :: i32
  friends :: "i32 set"

definition newUser :: "i32 \<Rightarrow> user" where
  "newUser junk = \<lparr>userId = 0, userName = [], passWord = [], nickName = [], signature = [], faceType = - 1,
     customFace = [], customFaceFmt = [], gender = 0, birthDay = junk, adress = [], pthone = [], mail = [],
     ownerid = junk, friends = {}\<rparr>"

record user_manager =
  cachedUsers :: "user list"
  currentUserId :: i32

definition newUserManager :: user_manager where
  "newUserManager = \<lparr>cachedUsers = [], currentUserId = 10000\<rparr>"

section \<open>Loading\<close>

definition select_users :: string where
  "select_users = ''SELECT user_id, username, nickname, password,  facetype, customface, gender, birthday, signature, address, phonenumber, mail FROM user ORDER BY  user_id DESC''"

definition row_user :: "i32 \<Rightarrow> string list \<Rightarrow> user res" where
  "row_user junk row =
     (if length row < 12 then Inl OutOfBounds
      else Inr ((newUser junk)\<lparr>userId := toInt32 (row ! 0), userName := row ! 1, nickName := row ! 2, passWord := row ! 3,
             faceType := toInt32 (row ! 4), customFace := row ! 5, gender := toInt32 (row ! 6),
             birthDay := toInt32 (row ! 7), signature := row ! 8, adress := row ! 9, pthone := row ! 10,
             mail := row ! 11\<rparr>))"

fun load_rows :: "i32 \<Rightarrow> string list list \<Rightarrow> user_manager \<Rightarrow> user_manager res" where
  "load_rows junk [] um = Inr um"
| "load_rows junk (row # rows) um =
     rbind (row_user junk row) (\<lambda>u.
     let um1 = (if sint (userId u) > sint (currentUserId um) then um\<lparr>currentUserId := userId u\<rparr> else um)
     in load_rows junk rows (um1\<lparr>cachedUsers := cachedUsers um1 @ [u]\<rparr>))"

definition loadUsers ::
  "'m mysql_api \<Rightarrow> i32 \<Rightarrow> user_manager \<Rightarrow> 'm mysql_manager \<Rightarrow> (bool \<times> user_manager \<times> 'm mysql_manager) res" where
  "loadUsers api junk um g =
     (case Query api select_users g of
        (None, g') \<Rightarrow> Inr (False, um, g')
      | (Some r, g') \<Rightarrow> rbind (load_rows junk (q_rows r) um) (\<lambda>um'. Inr (True, um', g')))"

definition relation_sql :: "i32 \<Rightarrow> string" where
  "relation_sql uid = ''SELECT user_id1, user_id2 FROM user_relationship WHERE user_id1='' @ show_int (sint uid)
     @ '' OR user_id2='' @ show_int (sint uid) @ '' ;''"

fun relation_rows :: "i32 \<Rightarrow> string list list \<Rightarrow> i32 set \<Rightarrow> i32 set res" where
  "relation_rows uid [] fs = Inr fs"
| "relation_rows uid (row # rows) fs =
     (if length row < 2 then Inl OutOfBounds
      else let id1 = toInt32 (row ! 0); id2 = toInt32 (row ! 1)
           in relation_rows uid rows (if id1 = uid then insert id2 fs else insert id1 fs))"

definition loadRelation ::
  "'m mysql_api \<Rightarrow> i32 \<Rightarrow> i32 set \<Rightarrow> 'm mysql_manager \<Rightarrow> (bool \<times> i32 set \<times> 'm mysql_manager) res" where
  "loadRelation api uid fs g =
     (case Query api (relation_sql uid) g of
        (None, g') \<Rightarrow> Inr (False, fs, g')
      | (Some r, g') \<Rightarrow> rbind (relation_rows uid (q_rows r) fs) (\<lambda>fs'. Inr (True, fs', g')))"

fun load_relations :: "'m mysql_api \<Rightarrow> user list \<Rightarrow> 'm mysql_manager \<Rightarrow> (user list \<times> 'm mysql_manager) res" where
  "load_relations api [] g = Inr ([], g)"
| "load_relations api (u # us) g =
     rbind (loadRelation api (userId u) (friends u) g) (\<lambda>(_, fs, g1).
     rbind (load_relations api us g1) (\<lambda>(us', g2). Inr (u\<lparr>friends := fs\<rparr> # us', g2)))"

definition um_init ::
  "'m mysql_api \<Rightarrow> i32 \<Rightarrow> user_manager \<Rightarrow> 'm mysql_manager \<Rightarrow> (bool \<times> user_manager \<times> 'm mysql_manager) res" where
  "um_init api junk um g =
     rbind (loadUsers api junk um g) (\<lambda>(ok, um1, g1).
     if \<not> ok then Inr (False, um1, g1)
     else rbind (load_relations api (cachedUsers um1) g1) (\<lambda>(us, g2). Inr (True, um1\<lparr>cachedUsers := us\<rparr>, g2)))"

section \<open>Lookup and registration\<close>

text \<open>The two overloads; the user found replaces the argument \<open>user\<close>.\<close>

definition getUserInfoFromCached_name :: "string \<Rightarrow> user_manager \<Rightarrow> user \<Rightarrow> bool \<times> user" where
  "getUserInfoFromCached_name nm um u =
     (case find (\<lambda>it. userName it = nm) (cachedUsers um) of None \<Rightarrow> (False, u) | Some it \<Rightarrow> (True, it))"

definition getUserInfoFromCached_id :: "i32 \<Rightarrow> user_manager \<Rightarrow> user \<Rightarrow> bool \<times> user" where
  "getUserInfoFromCached_id uid um u =
     (case find (\<lambda>it. userId it = uid) (cachedUsers um) of None \<Rightarrow> (False, u) | Some it \<Rightarrow> (True, it))"

definition getUserInfoFromDB_name :: "string \<Rightarrow> user_manager \<Rightarrow> user \<Rightarrow> bool \<times> user" where
  "getUserInfoFromDB_name nm um u = (True, u)"

definition getUserInfoFromDB_id :: "i32 \<Rightarrow> user_manager \<Rightarrow> user \<Rightarrow> bool \<times> user" where
  "getUserInfoFromDB_id uid um u = (True, u)"

text \<open>The statement of \<open>addUser\<close> gives the nickname in the place of the password.\<close>

definition insert_sql :: "int \<Rightarrow> string \<Rightarrow> string \<Rightarrow> string \<Rightarrow> string" where
  "insert_sql uid nm nick pw =
     ''INSERT INTO user(user_id,username,nickname,password,register_time)VALUES('' @ show_int uid @ '','' @ [CHR 0x27] @ nm
       @ [CHR 0x27] @ '','' @ [CHR 0x27] @ nick @ [CHR 0x27] @ '','' @ [CHR 0x27] @ pw @ [CHR 0x27] @ '',NOW())''"

definition addUser ::
  "'m mysql_api \<Rightarrow> user \<Rightarrow> user_manager \<Rightarrow> 'm mysql_manager \<Rightarrow> (bool \<times> user \<times> user_manager \<times> 'm mysql_manager) res" where
  "addUser api u um g =
     (if sint (currentUserId um) + 1 \<ge> 2 ^ 31 then Inl Overflow
      else case excute api (insert_sql (sint (currentUserId um) + 1) (userName u) (nickName u) (nickName u)) g of
             (False, g') \<Rightarrow> Inr (False, u, um, g')
           | (True, g') \<Rightarrow>
               let uid = currentUserId um + 1;
                   u' = u\<lparr>userId := uid, faceType := 0, birthDay := 20000101, gender := 0, ownerid := 0\<rparr>
               in Inr (True, u', um\<lparr>currentUserId := uid, cachedUsers := cachedUsers um @ [u']\<rparr>, g'))"

section \<open>Identifiers\<close>

text \<open>No user in the cache has an identifier above the current one, so the next one is new.\<close>

definition um_inv :: "user_manager \<Rightarrow> bool" where
  "um_inv um \<longleftrightarrow> list_all (\<lambda>u. sint (userId u) \<le> sint (currentUserId um)) (cachedUsers um)"

lemma um_inv_new: "um_inv newUserManager"
  by (simp add: um_inv_def newUserManager_def)

lemma load_rows_inv: "load_rows junk rows um = Inr um' \<Longrightarrow> um_inv um \<Longrightarrow> um_inv um'"
proof (induction rows arbitrary: um)
  case (Cons row rows)
  then obtain u where u: "row_user junk row = Inr u" by (cases "row_user junk row") simp_all
  define um1 where "um1 = (if sint (userId u) > sint (currentUserId um) then um\<lparr>currentUserId := userId u\<rparr> else um)"
  have "um_inv (um1\<lparr>cachedUsers := cachedUsers um1 @ [u]\<rparr>)"
    using Cons.prems(2) by (auto simp: um1_def um_inv_def list_all_iff)
  moreover have "load_rows junk rows (um1\<lparr>cachedUsers := cachedUsers um1 @ [u]\<rparr>) = Inr um'"
    using Cons.prems(1) u by (simp add: um1_def Let_def)
  ultimately show ?case using Cons.IH by blast
qed simp

lemma load_relations_ids:
  "load_relations api us g = Inr (us', g') \<Longrightarrow> map userId us' = map userId us"
  by (induction us arbitrary: us' g) (auto simp: res_simps split: prod.splits)

lemma um_inv_ids: "um_inv um \<longleftrightarrow> list_all (\<lambda>i. sint i \<le> sint (currentUserId um)) (map userId (cachedUsers um))"
  by (simp add: um_inv_def list_all_iff)

lemma um_init_inv: "um_init api junk um g = Inr (ok, um', g') \<Longrightarrow> um_inv um \<Longrightarrow> um_inv um'"
  by (auto simp: um_init_def loadUsers_def res_simps um_inv_ids [of "um'"] split: prod.splits option.splits if_splits
      dest!: load_relations_ids dest: load_rows_inv) (auto simp: um_inv_ids dest: load_rows_inv)

lemma sint_Suc:
  assumes "sint (w :: i32) + 1 < 2 ^ 31"
  shows "sint (w + 1) = sint w + 1"
  using assms sint_ge [of w] by (simp add: sint_word_ariths signed_take_bit_int_eq_self)

text \<open>
  Starting with users. When the rows the database returns are complete, \<open>loadUsers\<close> caches exactly
  one user for each, in the order of the rows and with the columns in their fields, and leaves the counter at the highest identifier (at
  least 10000), so that registrations continue after it.
\<close>

lemma load_rows_spec:
  assumes "list_all (\<lambda>row. 12 \<le> length row) rows"
  shows "\<exists>um'. load_rows junk rows um = Inr um'
     \<and> cachedUsers um' = cachedUsers um @ map (\<lambda>row. projr (row_user junk row)) rows
     \<and> sint (currentUserId um') = Max (insert (sint (currentUserId um)) ((\<lambda>row. sint (toInt32 (row ! 0))) ` set rows))"
  using assms
proof (induction rows arbitrary: um)
  case (Cons row rows)
  then obtain u where u: "row_user junk row = Inr u" "userId u = toInt32 (row ! 0)"
    by (simp add: row_user_def)
  define um1 where "um1 = (if sint (userId u) > sint (currentUserId um) then um\<lparr>currentUserId := userId u\<rparr> else um)"
  let ?um = "um1\<lparr>cachedUsers := cachedUsers um1 @ [u]\<rparr>"
  have "list_all (\<lambda>row. 12 \<le> length row) rows" using Cons.prems by simp
  from Cons.IH [OF this, of ?um] obtain um' where um': "load_rows junk rows ?um = Inr um'"
    "cachedUsers um' = cachedUsers ?um @ map (\<lambda>row. projr (row_user junk row)) rows"
    "sint (currentUserId um') = Max (insert (sint (currentUserId ?um)) ((\<lambda>row. sint (toInt32 (row ! 0))) ` set rows))" by blast
  have "sint (currentUserId ?um) = max (sint (currentUserId um)) (sint (toInt32 (row ! 0)))"
    using u(2) by (simp add: um1_def max_def)
  then have "sint (currentUserId um')
      = Max (insert (sint (currentUserId um)) (insert (sint (toInt32 (row ! 0))) ((\<lambda>row. sint (toInt32 (row ! 0))) ` set rows)))"
    unfolding um'(3) by (cases "set rows = {}") (simp_all add: max.assoc)
  with um'(1,2) u(1) show ?case by (auto simp: um1_def Let_def split: if_splits)
qed simp

section \<open>Properties\<close>

text \<open>
  C36. Registration. When the database accepts the statement, \<open>addUser\<close> gives the user an identifier no cached user
  has, finds the user under it in the cache afterwards and changes the lookup of no other identifier;
  identifiers stay distinct and below the counter, so this holds for every sequence of registrations. When the
  database refuses, nothing changes. The cached password is the one given, but the statement stores the nickname as the password.
\<close>

theorem addUser_fresh:
  assumes inv: "um_inv um" and room: "sint (currentUserId um) + 1 < 2 ^ 31"
    and db: "excute api (insert_sql (sint (currentUserId um) + 1) (userName u) (nickName u) (nickName u)) g = (ok, g')"
  shows "if ok
     then \<exists>u' um'. addUser api u um g = Inr (True, u', um', g') \<and> um_inv um'
       \<and> userId u' \<notin> set (map userId (cachedUsers um)) \<and> (distinct (map userId (cachedUsers um)) \<longrightarrow> distinct (map userId (cachedUsers um')))
       \<and> userName u' = userName u \<and> passWord u' = passWord u
       \<and> getUserInfoFromCached_id (userId u') um' x = (True, u')
       \<and> (i \<noteq> userId u' \<longrightarrow> getUserInfoFromCached_id i um' x = getUserInfoFromCached_id i um x)
     else addUser api u um g = Inr (False, u, um, g')"
proof (cases ok)
  case False
  then show ?thesis using room db by (simp add: addUser_def)
next
  case True
  let ?id = "currentUserId um + 1"
  let ?u = "u\<lparr>userId := ?id, faceType := 0, birthDay := 20000101, gender := 0, ownerid := 0\<rparr>"
  let ?um = "um\<lparr>currentUserId := ?id, cachedUsers := cachedUsers um @ [?u]\<rparr>"
  have add: "addUser api u um g = Inr (True, ?u, ?um, g')" using room db True by (simp add: addUser_def Let_def)
  have up: "sint ?id = sint (currentUserId um) + 1" using sint_Suc [OF room] .
  have fresh: "userId v \<noteq> ?id" if "v \<in> set (cachedUsers um)" for v
    using inv that up by (auto simp: um_inv_def list_all_iff)
  then have none: "find (\<lambda>it. userId it = ?id) (cachedUsers um) = None" by (simp add: find_None_iff)
  have "um_inv ?um" using inv up by (auto simp: um_inv_def list_all_iff)
  moreover have "getUserInfoFromCached_id ?id ?um x = (True, ?u)"
    using none by (simp add: getUserInfoFromCached_id_def find_append)
  moreover have "i \<noteq> ?id \<longrightarrow> getUserInfoFromCached_id i ?um x = getUserInfoFromCached_id i um x"
    by (auto simp: getUserInfoFromCached_id_def find_append split: option.splits)
  moreover have new: "?id \<notin> set (map userId (cachedUsers um))" 
  proof
    assume "?id \<in> set (map userId (cachedUsers um))"
    then obtain v where "v \<in> set (cachedUsers um)" "userId v = ?id" unfolding set_map by (metis imageE)
    with fresh show False by blast
  qed
  moreover have "distinct (map userId (cachedUsers um)) \<longrightarrow> distinct (map userId (cachedUsers ?um))" using new by simp
  ultimately show ?thesis using add unfolding if_P [OF True] by (intro exI [of _ ?u] exI [of _ ?um]) simp
qed

text \<open>A library that accepts everything and has one result set.\<close>

definition yes_api :: "string list list \<Rightarrow> unit mysql_api" where
  "yes_api rows = \<lparr>api_connect = (\<lambda>_ _ _ _ _ m. (True, m)), api_query = (\<lambda>_ m. (0, m)),
     api_result = (\<lambda>_. (rows, length rows, 12))\<rparr>"

definition sample_db :: "unit mysql_manager" where
  "sample_db = \<lparr>mTables = [], mysqlTool = Some ((newMysqlTool ())\<lparr>t_open := True\<rparr>)\<rparr>"

lemma yes_excute: "excute (yes_api rows) sql sample_db = (True, sample_db)"
  by (simp add: excute_def sample_db_def yes_api_def mysql_execute_def run_sql_def send_sql_def newMysqlTool_def)

theorem addUser_fresh_witness:
  "\<exists>u' um'. addUser (yes_api []) (newUser 7) newUserManager sample_db = Inr (True, u', um', sample_db)
     \<and> getUserInfoFromCached_id (userId u') um' (newUser 0) = (True, u')"
proof -
  have "sint (currentUserId newUserManager) + 1 < 2 ^ 31" by (simp add: newUserManager_def)
  from addUser_fresh [OF um_inv_new this yes_excute, where u = "newUser 7" and x = "newUser 0" and i = 0, of "[]"] show ?thesis by auto
qed

text \<open>
  Starting with an empty table. \<open>MysqlTool::query\<close> returns no result object when a result has no rows, which
  \<open>loadUsers\<close> takes for a failure: as long as nobody is registered, \<open>UserManager::init\<close> fails although
  the statement succeeded.
\<close>

theorem empty_user_table:
  assumes "mysqlTool g = Some t" "run_sql api select_users t = (True, t')" "api_result api (t_server t') = ([], 0, k)"
  shows "um_init api junk um g = Inr (False, um, g\<lparr>mysqlTool := Some t'\<rparr>)"
  using assms by (simp add: um_init_def loadUsers_def Query_def mysql_query_def)

theorem empty_user_table_witness:
  "um_init (yes_api []) 0 newUserManager sample_db = Inr (False, newUserManager, sample_db)"
proof -
  let ?t = "(newMysqlTool ())\<lparr>t_open := True\<rparr>"
  have "run_sql (yes_api []) select_users ?t = (True, ?t)"
    by (simp add: run_sql_def send_sql_def yes_api_def newMysqlTool_def)
  from empty_user_table [of sample_db ?t, OF _ this, of 12 0 newUserManager] show ?thesis
    by (simp add: sample_db_def yes_api_def)
qed

end
