(* ===== verification/TcpConnection.thy ===== *)
theory TcpConnection
  imports Buffer Channel
begin

text \<open>
  A TCP connection (\<open>muduo/net/TcpConnection.h\<close>, \<open>TcpConnection.cc\<close>): its state machine, the two
  buffers, and the path of outgoing bytes through \<open>sendInLoop\<close> and \<open>handleWrite\<close>.

  \<open>write(2)\<close> is a parameter \<open>wr\<close>: the result of the k-th call, given whether the write side was
  shut down and the number of bytes offered. The functors a connection queues in its loop are
  kept in \<open>fqueue\<close>; the user's callbacks are a parameter \<open>u\<close>, the list of calls each of them makes
  on the connection. The fields \<open>wire\<close> (bytes the kernel took), \<open>accepted\<close> (bytes of messages the
  connection took responsibility for) and \<open>cblog\<close> (the value of \<open>connected()\<close> at each call of the
  connection callback) record history and are never read.
\<close>

section \<open>State\<close>

datatype tcp_state = kDisconnected | kConnecting | kConnected | kDisconnecting

datatype conn_functor =
    WriteCompleteF | HighWaterMarkF nat | SendF string | ShutdownF | StopReadF | ForceCloseF | ConnectDestroyedF

datatype write_result = Wrote nat | WouldBlock | BrokenPipe | WriteFailed

type_synonym writer = "nat \<Rightarrow> bool \<Rightarrow> nat \<Rightarrow> write_result"

record tcp_conn =
  conn_name :: string
  state :: tcp_state
  reading :: bool
  chan :: channel
  highWaterMark :: nat
  writeCompleteSet :: bool
  highWaterSet :: bool
  inputBuffer :: buffer
  outputBuffer :: buffer
  shutWr :: bool
  writes :: nat
  fqueue :: "conn_functor list"
  delayed :: nat
  wire :: string
  accepted :: string
  cblog :: "bool list"

definition newTcpConnection :: "string \<Rightarrow> int \<Rightarrow> bool \<Rightarrow> tcp_conn" where
  "newTcpConnection nameArg sockfd wc = \<lparr>conn_name = nameArg, state = kConnecting, reading = True,
     chan = newChannel sockfd, highWaterMark = 64 * 1024 * 1024, writeCompleteSet = wc, highWaterSet = False,
     inputBuffer = newBuffer kInitialSize, outputBuffer = newBuffer kInitialSize, shutWr = False, writes = 0,
     fqueue = [], delayed = 0, wire = [], accepted = [], cblog = []\<rparr>"

definition destroyTcpConnection :: "tcp_conn \<Rightarrow> unit res" where
  "destroyTcpConnection c = c_assert (state c = kDisconnected) (Inr ())"

definition connected :: "tcp_conn \<Rightarrow> bool" where
  "connected c \<longleftrightarrow> state c = kConnected"

definition setState :: "tcp_state \<Rightarrow> tcp_conn \<Rightarrow> tcp_conn" where
  "setState s c = c\<lparr>state := s\<rparr>"

definition setHighWaterMarkCallback :: "nat \<Rightarrow> tcp_conn \<Rightarrow> tcp_conn" where
  "setHighWaterMarkCallback mark c = c\<lparr>highWaterSet := True, highWaterMark := mark\<rparr>"

fun stateToString :: "tcp_state \<Rightarrow> string" where
  "stateToString kDisconnected = ''kDisconnected''"
| "stateToString kConnecting = ''kConnecting''"
| "stateToString kConnected = ''kConnected''"
| "stateToString kDisconnecting = ''kDisconnecting''"

definition conn_queue :: "conn_functor \<Rightarrow> tcp_conn \<Rightarrow> tcp_conn" where
  "conn_queue f c = c\<lparr>fqueue := fqueue c @ [f]\<rparr>"

definition on_chan :: "(channel \<Rightarrow> channel) \<Rightarrow> tcp_conn \<Rightarrow> tcp_conn" where
  "on_chan f c = c\<lparr>chan := f (chan c)\<rparr>"

section \<open>Sending\<close>

text \<open>\<open>sockets::write\<close>, and what it puts on the wire.\<close>

definition sock_write :: "writer \<Rightarrow> string \<Rightarrow> tcp_conn \<Rightarrow> write_result \<times> tcp_conn" where
  "sock_write wr data c =
     (let r = wr (writes c) (shutWr c) (length data)
      in (r, c\<lparr>writes := Suc (writes c),
               wire := wire c @ (case r of Wrote n \<Rightarrow> take n data | _ \<Rightarrow> [])\<rparr>))"

text \<open>
  The part of \<open>sendInLoop\<close> after the direct write. The subtraction \<open>len - nwrote\<close> is on \<open>size_t\<close>.
\<close>

definition size_sub :: "nat \<Rightarrow> nat \<Rightarrow> nat" where
  "size_sub a b = (if b \<le> a then a - b else 2 ^ 64 + a - b)"

definition sendInLoop_rest :: "string \<Rightarrow> nat \<Rightarrow> nat \<Rightarrow> bool \<Rightarrow> tcp_conn \<Rightarrow> tcp_conn res" where
  "sendInLoop_rest data nwrote remaining faultError c =
     c_assert (remaining \<le> length data)
     (if \<not> faultError \<and> remaining > 0
      then let oldLen = readableBytes (outputBuffer c);
               c1 = (if oldLen + remaining \<ge> highWaterMark c \<and> oldLen < highWaterMark c \<and> highWaterSet c
                     then conn_queue (HighWaterMarkF (oldLen + remaining)) c else c)
           in rbind (buf_append (take remaining (drop nwrote data)) (outputBuffer c1)) (\<lambda>b.
              let c2 = c1\<lparr>outputBuffer := b, accepted := accepted c1 @ data\<rparr>
              in Inr (if \<not> isWriting (chan c2) then on_chan enableWriting c2 else c2))
      else Inr (if faultError then c else c\<lparr>accepted := accepted c @ data\<rparr>))"

definition sendInLoop :: "writer \<Rightarrow> string \<Rightarrow> tcp_conn \<Rightarrow> tcp_conn res" where
  "sendInLoop wr data c =
     (if state c = kDisconnected then Inr c
      else if \<not> isWriting (chan c) \<and> readableBytes (outputBuffer c) = 0
      then (case sock_write wr data c of
              (Wrote n, c1) \<Rightarrow>
                 let remaining = size_sub (length data) n;
                     c2 = (if remaining = 0 \<and> writeCompleteSet c1 then conn_queue WriteCompleteF c1 else c1)
                 in sendInLoop_rest data n remaining False c2
            | (WouldBlock, c1) \<Rightarrow> sendInLoop_rest data 0 (length data) False c1
            | (BrokenPipe, c1) \<Rightarrow> sendInLoop_rest data 0 (length data) True c1
            | (WriteFailed, c1) \<Rightarrow> sendInLoop_rest data 0 (length data) False c1)
      else sendInLoop_rest data 0 (length data) False c)"

definition send :: "writer \<Rightarrow> bool \<Rightarrow> string \<Rightarrow> tcp_conn \<Rightarrow> tcp_conn res" where
  "send wr in_loop message c =
     (if state c = kConnected
      then if in_loop then sendInLoop wr message c else Inr (conn_queue (SendF message) c)
      else Inr c)"

text \<open>\<open>send(Buffer*)\<close> also empties the caller's buffer.\<close>

definition send_buffer :: "writer \<Rightarrow> bool \<Rightarrow> buffer \<Rightarrow> tcp_conn \<Rightarrow> (buffer \<times> tcp_conn) res" where
  "send_buffer wr in_loop buf c =
     (if state c = kConnected
      then if in_loop
           then rbind (sendInLoop wr (contents buf) c) (\<lambda>c'. Inr (retrieveAll buf, c'))
           else rbind (retrieveAllAsString buf) (\<lambda>(m, buf'). Inr (buf', conn_queue (SendF m) c))
      else Inr (buf, c))"

definition shutdownInLoop :: "tcp_conn \<Rightarrow> tcp_conn" where
  "shutdownInLoop c = (if \<not> isWriting (chan c) then c\<lparr>shutWr := True\<rparr> else c)"

definition shutdown :: "bool \<Rightarrow> tcp_conn \<Rightarrow> tcp_conn" where
  "shutdown in_loop c =
     (if state c = kConnected
      then let c1 = setState kDisconnecting c
           in if in_loop then shutdownInLoop c1 else conn_queue ShutdownF c1
      else c)"

definition forceClose :: "tcp_conn \<Rightarrow> tcp_conn" where
  "forceClose c =
     (if state c = kConnected \<or> state c = kDisconnecting
      then conn_queue ForceCloseF (setState kDisconnecting c) else c)"

text \<open>\<open>delayed\<close> counts the timers whose weak callback will call \<open>forceClose\<close>.\<close>

definition forceCloseWithDelay :: "tcp_conn \<Rightarrow> tcp_conn" where
  "forceCloseWithDelay c =
     (if state c = kConnected \<or> state c = kDisconnecting
      then (setState kDisconnecting c)\<lparr>delayed := Suc (delayed c)\<rparr> else c)"

definition startReadInLoop :: "tcp_conn \<Rightarrow> tcp_conn" where
  "startReadInLoop c =
     (if \<not> reading c \<or> \<not> isReading (chan c) then (on_chan enableReading c)\<lparr>reading := True\<rparr> else c)"

definition stopReadInLoop :: "tcp_conn \<Rightarrow> tcp_conn" where
  "stopReadInLoop c =
     (if reading c \<or> isReading (chan c) then (on_chan disableReading c)\<lparr>reading := False\<rparr> else c)"

section \<open>Callbacks\<close>

text \<open>
  The calls a user makes, in a callback or elsewhere in the loop thread. There is one rule of use: \<open>startRead\<close> is for a connection that is
  up (\<open>live\<close>); a call that breaks it is not part of a history, and \<open>connection_life\<close> says what it would lead to.
\<close>

definition live :: "tcp_conn \<Rightarrow> bool" where
  "live c \<longleftrightarrow> state c = kConnected \<or> state c = kDisconnecting"

datatype user_cmd = USend string | UShutdown | UForceClose | UForceCloseDelayed | UStartRead | UStopRead | URetrieve nat | URetrieveAll

record conn_user =
  onConnection :: "tcp_conn \<Rightarrow> user_cmd list"
  onMessage :: "tcp_conn \<Rightarrow> user_cmd list"

fun user_call :: "writer \<Rightarrow> user_cmd \<Rightarrow> tcp_conn \<Rightarrow> tcp_conn res" where
  "user_call wr (USend m) c = send wr True m c"
| "user_call wr UShutdown c = Inr (shutdown True c)"
| "user_call wr UForceClose c = Inr (forceClose c)"
| "user_call wr UForceCloseDelayed c = Inr (forceCloseWithDelay c)"
| "user_call wr UStartRead c = Inr (if live c then startReadInLoop c else c)"
| "user_call wr UStopRead c = Inr (stopReadInLoop c)"
| "user_call wr (URetrieve n) c =
     (if n \<le> readableBytes (inputBuffer c)
      then rbind (retrieve n (inputBuffer c)) (\<lambda>b. Inr (c\<lparr>inputBuffer := b\<rparr>)) else Inr c)"
| "user_call wr URetrieveAll c = Inr (c\<lparr>inputBuffer := retrieveAll (inputBuffer c)\<rparr>)"

fun user_calls :: "writer \<Rightarrow> user_cmd list \<Rightarrow> tcp_conn \<Rightarrow> tcp_conn res" where
  "user_calls wr [] c = Inr c"
| "user_calls wr (x # xs) c = rbind (user_call wr x c) (user_calls wr xs)"

definition connectionCallback :: "writer \<Rightarrow> conn_user \<Rightarrow> tcp_conn \<Rightarrow> tcp_conn res" where
  "connectionCallback wr u c =
     (let c1 = c\<lparr>cblog := cblog c @ [connected c]\<rparr> in user_calls wr (onConnection u c1) c1)"

text \<open>The close callback is \<open>TcpServer::removeConnection\<close>, which queues \<open>connectDestroyed\<close>.\<close>

definition closeCallback :: "tcp_conn \<Rightarrow> tcp_conn" where
  "closeCallback c = conn_queue ConnectDestroyedF c"

definition connectEstablished :: "writer \<Rightarrow> conn_user \<Rightarrow> tcp_conn \<Rightarrow> tcp_conn res" where
  "connectEstablished wr u c =
     c_assert (state c = kConnecting)
     (connectionCallback wr u (on_chan enableReading (on_chan tie (setState kConnected c))))"

definition conn_removeChannel :: "tcp_conn \<Rightarrow> tcp_conn res" where
  "conn_removeChannel c =
     c_assert (isNoneEvent (chan c)) (Inr (c\<lparr>chan := (chan c)\<lparr>addedToLoop := False\<rparr>\<rparr>))"

definition connectDestroyed :: "writer \<Rightarrow> conn_user \<Rightarrow> tcp_conn \<Rightarrow> tcp_conn res" where
  "connectDestroyed wr u c =
     rbind (if state c = kConnected
            then connectionCallback wr u (on_chan disableAll (setState kDisconnected c))
            else Inr c)
       conn_removeChannel"

definition handleClose :: "writer \<Rightarrow> conn_user \<Rightarrow> tcp_conn \<Rightarrow> tcp_conn res" where
  "handleClose wr u c =
     c_assert (state c = kConnected \<or> state c = kDisconnecting)
     (rbind (connectionCallback wr u (on_chan disableAll (setState kDisconnected c))) (\<lambda>c'.
      Inr (closeCallback c')))"

definition forceCloseInLoop :: "writer \<Rightarrow> conn_user \<Rightarrow> tcp_conn \<Rightarrow> tcp_conn res" where
  "forceCloseInLoop wr u c =
     (if state c = kConnected \<or> state c = kDisconnecting then handleClose wr u c else Inr c)"

text \<open>\<open>handleError\<close> only logs the socket error.\<close>

definition conn_handleRead :: "writer \<Rightarrow> conn_user \<Rightarrow> (nat \<Rightarrow> read_result) \<Rightarrow> tcp_conn \<Rightarrow> tcp_conn res" where
  "conn_handleRead wr u readv c =
     rbind (readFd readv (inputBuffer c)) (\<lambda>(n, err, b).
     let c1 = c\<lparr>inputBuffer := b\<rparr>
     in if n > 0 then user_calls wr (onMessage u c1) c1
        else if n = 0 then handleClose wr u c1
        else Inr c1)"

definition handleWrite :: "writer \<Rightarrow> tcp_conn \<Rightarrow> tcp_conn res" where
  "handleWrite wr c =
     (if isWriting (chan c)
      then (case sock_write wr (contents (outputBuffer c)) c of
              (Wrote n, c1) \<Rightarrow>
                 if n > 0
                 then rbind (retrieve n (outputBuffer c1)) (\<lambda>b.
                      let c2 = c1\<lparr>outputBuffer := b\<rparr>
                      in if readableBytes b = 0
                         then let c3 = on_chan disableWriting c2;
                                  c4 = (if writeCompleteSet c3 then conn_queue WriteCompleteF c3 else c3)
                              in Inr (if state c4 = kDisconnecting then shutdownInLoop c4 else c4)
                         else Inr c2)
                 else Inr c1
            | (_, c1) \<Rightarrow> Inr c1)
      else Inr c)"

section \<open>Runs\<close>

text \<open>
  Everything that can happen to a connection: the loop establishes it and runs its queued
  functors and delayed closes, the poller reports its descriptor readable, writable or hung up, and the user calls it from the loop thread
  or from another thread. The poller reports only what the channel is registered for.
\<close>

datatype conn_event =
    Establish | Readable "nat \<Rightarrow> read_result" | Writable | Hangup | User user_cmd
  | OtherSend string | OtherShutdown | OtherStopRead | RunFunctor | DelayedClose

fun run_functor :: "writer \<Rightarrow> conn_user \<Rightarrow> conn_functor \<Rightarrow> tcp_conn \<Rightarrow> tcp_conn res" where
  "run_functor wr u WriteCompleteF c = Inr c"
| "run_functor wr u (HighWaterMarkF n) c = Inr c"
| "run_functor wr u (SendF m) c = sendInLoop wr m c"
| "run_functor wr u ShutdownF c = Inr (shutdownInLoop c)"
| "run_functor wr u StopReadF c = Inr (stopReadInLoop c)"
| "run_functor wr u ForceCloseF c = forceCloseInLoop wr u c"
| "run_functor wr u ConnectDestroyedF c = connectDestroyed wr u c"

fun conn_step :: "writer \<Rightarrow> conn_user \<Rightarrow> conn_event \<Rightarrow> tcp_conn \<Rightarrow> tcp_conn res" where
  "conn_step wr u Establish c = (if cblog c = [] then connectEstablished wr u c else Inr c)"
| "conn_step wr u (Readable readv) c =
     (if isReading (chan c) then conn_handleRead wr u readv c else Inr c)"
| "conn_step wr u Writable c = (if isWriting (chan c) then handleWrite wr c else Inr c)"
| "conn_step wr u Hangup c = (if \<not> isNoneEvent (chan c) then handleClose wr u c else Inr c)"
| "conn_step wr u (User x) c = user_call wr x c"
| "conn_step wr u (OtherSend m) c = send wr False m c"
| "conn_step wr u OtherShutdown c = Inr (shutdown False c)"
| "conn_step wr u OtherStopRead c = Inr (if cblog c = [] then c else conn_queue StopReadF c)"
| "conn_step wr u RunFunctor c =
     (case fqueue c of [] \<Rightarrow> Inr c | f # fs \<Rightarrow> run_functor wr u f (c\<lparr>fqueue := fs\<rparr>))"
| "conn_step wr u DelayedClose c =
     (case delayed c of 0 \<Rightarrow> Inr c | Suc n \<Rightarrow> Inr (forceClose (c\<lparr>delayed := n\<rparr>)))"

fun conn_run :: "writer \<Rightarrow> conn_user \<Rightarrow> conn_event list \<Rightarrow> tcp_conn \<Rightarrow> tcp_conn res" where
  "conn_run wr u [] c = Inr c"
| "conn_run wr u (e # es) c = rbind (conn_step wr u e c) (conn_run wr u es)"

section \<open>The invariant\<close>

text \<open>
  What is documented of \<open>write(2)\<close> on a connected socket: at most the bytes offered are taken, and
  after the write side was shut down every call fails with \<open>EPIPE\<close>.
\<close>

definition writer_ok :: "writer \<Rightarrow> bool" where
  "writer_ok wr \<longleftrightarrow> (\<forall>k len. wr k True len = BrokenPipe) \<and> (\<forall>k sh len n. wr k sh len = Wrote n \<longrightarrow> n \<le> len)"

definition conn_inv :: "tcp_conn \<Rightarrow> bool" where
  "conn_inv c \<longleftrightarrow>
     wf_buffer (inputBuffer c) \<and> wf_buffer (outputBuffer c) \<and>
     (live c \<longrightarrow> (isWriting (chan c) \<longleftrightarrow> contents (outputBuffer c) \<noteq> []) \<and> cblog c = [True]) \<and>
     (live c \<longrightarrow> ConnectDestroyedF \<notin> set (fqueue c)) \<and> (state c = kConnected \<longrightarrow> ShutdownF \<notin> set (fqueue c)) \<and>
     (state c = kConnecting \<longrightarrow> isNoneEvent (chan c) \<and> contents (outputBuffer c) = [] \<and> \<not> shutWr c \<and> fqueue c = [] \<and> cblog c = []) \<and>
     (state c = kDisconnected \<longrightarrow> isNoneEvent (chan c) \<and> cblog c = [True, False]) \<and>
     (shutWr c \<longrightarrow> state c = kDisconnected \<or> state c = kDisconnecting \<and> contents (outputBuffer c) = []) \<and>
     wire c @ contents (outputBuffer c) = accepted c"

lemma conn_inv_new: "conn_inv (newTcpConnection n f wc)"
  by (simp add: conn_inv_def newTcpConnection_def live_def isNoneEvent_def newChannel_def kNoneEvent_def)

lemma conn_inv_live:
  assumes "live c"
  shows "conn_inv c \<longleftrightarrow> wf_buffer (inputBuffer c) \<and> wf_buffer (outputBuffer c) \<and>
     (isWriting (chan c) \<longleftrightarrow> contents (outputBuffer c) \<noteq> []) \<and> cblog c = [True] \<and>
     ConnectDestroyedF \<notin> set (fqueue c) \<and> (state c = kConnected \<longrightarrow> ShutdownF \<notin> set (fqueue c)) \<and>
     (shutWr c \<longrightarrow> state c = kDisconnecting \<and> contents (outputBuffer c) = []) \<and>
     wire c @ contents (outputBuffer c) = accepted c"
  using assms by (cases "state c") (simp_all add: conn_inv_def live_def)

lemma live_cong: "state c' = state c \<Longrightarrow> live c' = live c"
  by (simp add: live_def)

lemma isNoneEvent_idle: "isNoneEvent c \<Longrightarrow> \<not> isWriting c" "isNoneEvent c \<Longrightarrow> \<not> isReading c"
  by (simp_all add: isNoneEvent_def isWriting_def isReading_def kNoneEvent_def)

lemma isNoneEvent_setters [simp]:
  "isNoneEvent (disableAll c)" "isNoneEvent c \<Longrightarrow> isNoneEvent (disableReading c)"
  "isNoneEvent (c\<lparr>addedToLoop := b\<rparr>) = isNoneEvent c"
  by (simp_all add: isNoneEvent_def interest_defs kNoneEvent_def)

lemma chan_frame [simp]:
  "isWriting (c\<lparr>addedToLoop := b\<rparr>) = isWriting c" "isWriting (tie c) = isWriting c"
  by (simp_all add: isWriting_def tie_def)

text \<open>What is left of the interface of the buffer here.\<close>

lemma readable_contents: "wf_buffer b \<Longrightarrow> readableBytes b = 0 \<longleftrightarrow> contents b = []"
  by (metis length_contents length_0_conv)

section \<open>The output path\<close>

text \<open>\<open>stream c\<close>: what the peer has received or will receive.\<close>

definition stream :: "tcp_conn \<Rightarrow> string" where
  "stream c = wire c @ contents (outputBuffer c)"

lemma sendInLoop_rest_spec:
  assumes inv: "wf_buffer (outputBuffer c)" and n: "n \<le> length data" and r: "remaining = length data - n"
    and f: "faultError \<Longrightarrow> n = 0"
  shows "\<exists>c'. sendInLoop_rest data n remaining faultError c = Inr c'
     \<and> wf_buffer (outputBuffer c')
     \<and> contents (outputBuffer c') = contents (outputBuffer c) @ (if faultError then [] else drop n data)
     \<and> accepted c' = accepted c @ (if faultError then [] else data)
     \<and> (isWriting (chan c') \<longleftrightarrow> isWriting (chan c) \<or> \<not> faultError \<and> n < length data)
     \<and> wire c' = wire c \<and> shutWr c' = shutWr c \<and> state c' = state c \<and> cblog c' = cblog c
     \<and> inputBuffer c' = inputBuffer c \<and> set (fqueue c') \<subseteq> set (fqueue c) \<union> range HighWaterMarkF"
proof (cases "\<not> faultError \<and> n < length data")
  case True
  obtain b where b: "buf_append (drop n data) (outputBuffer c) = Inr b" "wf_buffer b"
      "contents b = contents (outputBuffer c) @ drop n data"
    using buf_append_spec [OF inv] by blast
  have "take remaining (drop n data) = drop n data" using r by simp
  with True b r show ?thesis
    by (auto simp: sendInLoop_rest_def Let_def conn_queue_def on_chan_def)
next
  case False
  with inv n r f show ?thesis by (auto simp: sendInLoop_rest_def)
qed

lemma sendInLoop_spec:
  assumes inv: "conn_inv c" and wr: "writer_ok wr" and live: "live c"
  shows "\<exists>c'. sendInLoop wr data c = Inr c' \<and> conn_inv c' \<and> state c' = state c \<and> shutWr c' = shutWr c
     \<and> set (fqueue c') \<subseteq> insert WriteCompleteF (set (fqueue c) \<union> range HighWaterMarkF)
     \<and> (stream c' = stream c @ data \<or> stream c' = stream c \<and> wr (writes c) (shutWr c) (length data) = BrokenPipe)"
proof (cases "\<not> isWriting (chan c) \<and> readableBytes (outputBuffer c) = 0")
  case False
  have wf: "wf_buffer (outputBuffer c)" using inv by (simp add: conn_inv_def)
  have ne: "contents (outputBuffer c) \<noteq> []" "isWriting (chan c)" "\<not> shutWr c"
    using False inv live readable_contents [OF wf] by (auto simp: conn_inv_def live_def)
  from sendInLoop_rest_spec [OF wf, of 0 data "length data" False] obtain c' where c':
    "sendInLoop_rest data 0 (length data) False c = Inr c'"
     "wf_buffer (outputBuffer c')" "contents (outputBuffer c') = contents (outputBuffer c) @ data"
     "accepted c' = accepted c @ data" "isWriting (chan c')"
     "wire c' = wire c \<and> shutWr c' = shutWr c \<and> state c' = state c \<and> cblog c' = cblog c
     \<and> inputBuffer c' = inputBuffer c \<and> set (fqueue c') \<subseteq> set (fqueue c) \<union> range HighWaterMarkF"
    using ne by auto
  have "sendInLoop wr data c = Inr c'"
    using False live c'(1) by (auto simp: sendInLoop_def live_def)
  moreover have "conn_inv c'"
  proof -
    have l: "live c'" using live c'(6) by (simp add: live_def)
    have "ConnectDestroyedF \<notin> set (fqueue c')" "ShutdownF \<in> set (fqueue c') \<Longrightarrow> ShutdownF \<in> set (fqueue c)"
      using inv c'(6) unfolding conn_inv_live [OF live] by auto
    with inv ne c' show ?thesis unfolding conn_inv_live [OF live] conn_inv_live [OF l] by force
  qed
  ultimately show ?thesis using c' by (auto simp: stream_def)
next
  case True
  let ?r = "wr (writes c) (shutWr c) (length data)"
  let ?c1 = "c\<lparr>writes := Suc (writes c), wire := wire c @ (case ?r of Wrote n \<Rightarrow> take n data | _ \<Rightarrow> [])\<rparr>"
  have wf: "wf_buffer (outputBuffer c)" using inv by (simp add: conn_inv_def)
  have emp: "contents (outputBuffer c) = []" "\<not> isWriting (chan c)"
    using True readable_contents [OF wf] by auto
  have sh: "shutWr c \<Longrightarrow> ?r = BrokenPipe" and le: "?r = Wrote n \<Longrightarrow> n \<le> length data" for n
    using wr by (auto simp: writer_ok_def)
  define n where "n = (case ?r of Wrote n \<Rightarrow> n | _ \<Rightarrow> 0)"
  define f where "f = (?r = BrokenPipe)"
  define c2 where "c2 = (if (\<exists>m. ?r = Wrote m \<and> size_sub (length data) m = 0) \<and> writeCompleteSet c
       then conn_queue WriteCompleteF ?c1 else ?c1)"
  have nle: "n \<le> length data" using le by (auto simp: n_def split: write_result.splits)
  have eq: "sendInLoop wr data c = sendInLoop_rest data n (length data - n) f c2"
    using True live le
    by (auto simp: sendInLoop_def sock_write_def Let_def live_def n_def f_def c2_def size_sub_def
        split: write_result.split)
  have c2: "wf_buffer (outputBuffer c2)" "contents (outputBuffer c2) = []" "\<not> isWriting (chan c2)"
    "wire c2 = wire c @ take n data" "state c2 = state c" "shutWr c2 = shutWr c" "accepted c2 = accepted c"
    "cblog c2 = cblog c" "inputBuffer c2 = inputBuffer c" "set (fqueue c2) \<subseteq> insert WriteCompleteF (set (fqueue c))"
    using wf emp by (auto simp: c2_def conn_queue_def n_def split: write_result.splits)
  have fn: "f \<Longrightarrow> n = 0" by (simp add: f_def n_def)
  from sendInLoop_rest_spec [OF c2(1) nle refl, of f] fn obtain c' where c0:
    "sendInLoop_rest data n (length data - n) f c2 = Inr c'" "wf_buffer (outputBuffer c')"
    "contents (outputBuffer c') = contents (outputBuffer c2) @ (if f then [] else drop n data)"
    "accepted c' = accepted c2 @ (if f then [] else data)"
    "isWriting (chan c') \<longleftrightarrow> isWriting (chan c2) \<or> \<not> f \<and> n < length data"
    "wire c' = wire c2" "shutWr c' = shutWr c2" "state c' = state c2" "cblog c' = cblog c2"
    "inputBuffer c' = inputBuffer c2" "set (fqueue c') \<subseteq> set (fqueue c2) \<union> range HighWaterMarkF"
    by blast
  then have c':
    "sendInLoop_rest data n (length data - n) f c2 = Inr c'"
     "wf_buffer (outputBuffer c')" "contents (outputBuffer c') = (if f then [] else drop n data)"
     "accepted c' = accepted c @ (if f then [] else data)" "isWriting (chan c') \<longleftrightarrow> \<not> f \<and> n < length data"
     "wire c' = wire c @ take n data \<and> shutWr c' = shutWr c \<and> state c' = state c \<and> cblog c' = cblog c
     \<and> inputBuffer c' = inputBuffer c"
     "set (fqueue c') \<subseteq> insert WriteCompleteF (set (fqueue c) \<union> range HighWaterMarkF)"
    unfolding c0(3-10) c2(2-9) using c2(10) by (simp_all add: c2(3)) blast
  have acc: "wire c = accepted c" using inv emp by (simp add: conn_inv_def)
  have "conn_inv c'"
  proof -
    have l: "live c'" using live c'(6) by (simp add: live_def)
    have "ConnectDestroyedF \<notin> set (fqueue c')" "ShutdownF \<in> set (fqueue c') \<Longrightarrow> ShutdownF \<in> set (fqueue c)"
      using inv c'(7) unfolding conn_inv_live [OF live] by auto
    moreover have "shutWr c \<Longrightarrow> f" using sh by (simp add: f_def)
    ultimately show ?thesis
      using inv c' acc fn unfolding conn_inv_live [OF live] conn_inv_live [OF l] by (cases f) auto
  qed
  moreover have "stream c' = stream c @ data \<or> stream c' = stream c \<and> wr (writes c) (shutWr c) (length data) = BrokenPipe"
    using c' emp fn by (auto simp: stream_def f_def)
  ultimately show ?thesis using eq c' by auto
qed

section \<open>Every operation keeps the invariant\<close>

lemma dead_sendInLoop: "state c = kDisconnected \<Longrightarrow> sendInLoop wr m c = Inr c"
  by (simp add: sendInLoop_def)

lemma shutdownInLoop_inv:
  assumes "conn_inv c" "state c = kDisconnecting \<or> state c = kDisconnected"
  shows "conn_inv (shutdownInLoop c)"
  using assms by (auto simp: conn_inv_def shutdownInLoop_def live_def)

lemma setState_inv: "conn_inv c \<Longrightarrow> live c \<Longrightarrow> conn_inv (setState kDisconnecting c)"
  by (auto simp: conn_inv_def setState_def live_def)

lemma conn_queue_inv:
  "conn_inv c \<Longrightarrow> f \<noteq> ConnectDestroyedF \<or> state c = kDisconnected \<Longrightarrow> f \<noteq> ShutdownF \<or> state c \<noteq> kConnected \<Longrightarrow>
   state c \<noteq> kConnecting \<Longrightarrow> conn_inv (conn_queue f c)"
  by (auto simp: conn_inv_def conn_queue_def live_def)

lemma delayed_inv [simp]: "conn_inv (c\<lparr>delayed := n\<rparr>) = conn_inv c"
  by (simp add: conn_inv_def live_def)

lemma shutdown_inv: "conn_inv c \<Longrightarrow> conn_inv (shutdown b c)"
  using setState_inv [of c]
  by (auto simp: shutdown_def Let_def live_def intro!: shutdownInLoop_inv conn_queue_inv)
     (simp_all add: setState_def)

lemma forceClose_inv: "conn_inv c \<Longrightarrow> conn_inv (forceClose c)"
  using setState_inv [of c] by (auto simp: forceClose_def live_def intro!: conn_queue_inv) (simp_all add: setState_def)

lemma forceCloseWithDelay_inv: "conn_inv c \<Longrightarrow> conn_inv (forceCloseWithDelay c)"
  using setState_inv [of c] by (auto simp: forceCloseWithDelay_def live_def)

lemma stopReadInLoop_inv: "conn_inv c \<Longrightarrow> conn_inv (stopReadInLoop c)"
  by (auto simp: conn_inv_def stopReadInLoop_def on_chan_def live_def)

lemma startReadInLoop_inv: "conn_inv c \<Longrightarrow> live c \<Longrightarrow> conn_inv (startReadInLoop c)"
  by (auto simp: conn_inv_def startReadInLoop_def on_chan_def live_def)

lemma inputBuffer_inv: "conn_inv c \<Longrightarrow> wf_buffer b \<Longrightarrow> conn_inv (c\<lparr>inputBuffer := b\<rparr>)"
  by (auto simp: conn_inv_def live_def)

lemma send_inv:
  assumes "conn_inv c" "writer_ok wr"
  shows "\<exists>c'. send wr b m c = Inr c' \<and> conn_inv c' \<and> state c' = state c"
proof (cases "state c = kConnected")
  case True
  then have "live c" by (simp add: live_def)
  from sendInLoop_spec [OF assms this, of m] conn_queue_inv [OF assms(1), of "SendF m"] True
  show ?thesis by (auto simp: send_def) (auto simp: conn_queue_def)
qed (simp add: send_def assms)

lemma user_call_inv:
  assumes "conn_inv c" "writer_ok wr"
  shows "\<exists>c'. user_call wr x c = Inr c' \<and> conn_inv c' \<and> (state c = kDisconnected \<longrightarrow> state c' = kDisconnected)"
proof (cases x)
  case (USend m)
  then show ?thesis using send_inv [OF assms, of True m] by auto
next
  case (URetrieve n)
  have "wf_buffer (inputBuffer c)" using assms(1) by (simp add: conn_inv_def)
  from retrieve_spec [OF this, of n] show ?thesis
    using URetrieve assms(1) inputBuffer_inv by fastforce
next
  case URetrieveAll
  then show ?thesis using assms(1) inputBuffer_inv [OF assms(1), of "retrieveAll (inputBuffer c)"]
    by (simp add: conn_inv_def)
next
  case UStopRead
  then show ?thesis using stopReadInLoop_inv [OF assms(1)] by (simp add: stopReadInLoop_def on_chan_def)
next
  case UStartRead
  then show ?thesis using startReadInLoop_inv [OF assms(1)] assms(1) by (simp add: startReadInLoop_def on_chan_def)
qed (use assms(1) shutdown_inv [OF assms(1), of True] forceClose_inv [OF assms(1)] forceCloseWithDelay_inv [OF assms(1)]
    in \<open>auto simp: shutdown_def forceClose_def forceCloseWithDelay_def\<close>)

lemma user_calls_inv:
  assumes "conn_inv c" "writer_ok wr"
  shows "\<exists>c'. user_calls wr xs c = Inr c' \<and> conn_inv c' \<and> (state c = kDisconnected \<longrightarrow> state c' = kDisconnected)"
  using assms(1)
proof (induction xs arbitrary: c)
  case (Cons x xs)
  from user_call_inv [OF Cons.prems assms(2), of x] obtain c1 where c1: "user_call wr x c = Inr c1"
    "conn_inv c1" "state c = kDisconnected \<longrightarrow> state c1 = kDisconnected" by blast
  from Cons.IH [OF c1(2)] c1 show ?case by auto
qed simp

lemma connectEstablished_inv:
  assumes "conn_inv c" "writer_ok wr" "state c = kConnecting"
  shows "\<exists>c'. connectEstablished wr u c = Inr c' \<and> conn_inv c'"
proof -
  let ?c = "on_chan enableReading (on_chan tie (setState kConnected c))"
  let ?c1 = "?c\<lparr>cblog := cblog ?c @ [connected ?c]\<rparr>"
  have "conn_inv ?c1"
    using assms isNoneEvent_idle(1) [of "chan c"]
    by (auto simp: conn_inv_def live_def on_chan_def setState_def connected_def)
  from user_calls_inv [OF this assms(2)] assms(3) show ?thesis
    by (auto simp: connectEstablished_def connectionCallback_def Let_def)
qed

text \<open>The common part of \<open>handleClose\<close> and of \<open>connectDestroyed\<close> on a connected socket.\<close>

lemma down_inv:
  assumes "conn_inv c" "writer_ok wr" "live c"
  shows "\<exists>c'. connectionCallback wr u (on_chan disableAll (setState kDisconnected c)) = Inr c'
     \<and> conn_inv c' \<and> state c' = kDisconnected"
proof -
  let ?c = "on_chan disableAll (setState kDisconnected c)"
  let ?c1 = "?c\<lparr>cblog := cblog ?c @ [connected ?c]\<rparr>"
  have "conn_inv ?c1"
    using assms by (auto simp: conn_inv_def live_def on_chan_def setState_def connected_def)
  from user_calls_inv [OF this assms(2)] show ?thesis
    by (auto simp: connectionCallback_def Let_def on_chan_def setState_def)
qed

lemma handleClose_inv:
  assumes "conn_inv c" "writer_ok wr" "live c"
  shows "\<exists>c'. handleClose wr u c = Inr c' \<and> conn_inv c' \<and> state c' = kDisconnected"
proof -
  from down_inv [OF assms, of u] obtain c' where c': "conn_inv c'" "state c' = kDisconnected"
    "connectionCallback wr u (on_chan disableAll (setState kDisconnected c)) = Inr c'" by blast
  moreover have "conn_inv (conn_queue ConnectDestroyedF c')" using c' by (intro conn_queue_inv) auto
  ultimately show ?thesis
    using assms(3) by (auto simp: handleClose_def closeCallback_def live_def conn_queue_def)
qed

lemma connectDestroyed_inv:
  assumes "conn_inv c" "writer_ok wr" "state c \<noteq> kDisconnecting"
  shows "\<exists>c'. connectDestroyed wr u c = Inr c' \<and> conn_inv c' \<and> (state c \<noteq> kConnecting \<longrightarrow> state c' = kDisconnected)"
proof -
  have rem: "\<exists>c'. conn_removeChannel d = Inr c' \<and> conn_inv c' \<and> state c' = state d"
    if "conn_inv d" "\<not> live d" for d
  proof -
    have "isNoneEvent (chan d)" using that by (cases "state d") (auto simp: conn_inv_def live_def)
    moreover from this that have "conn_inv (d\<lparr>chan := (chan d)\<lparr>addedToLoop := False\<rparr>\<rparr>)"
      by (auto simp: conn_inv_def live_def)
    ultimately show ?thesis by (simp add: conn_removeChannel_def)
  qed
  show ?thesis
  proof (cases "state c = kConnected")
    case True
    with down_inv [OF assms(1,2), of u] obtain d where
      "connectionCallback wr u (on_chan disableAll (setState kDisconnected c)) = Inr d" "conn_inv d" "state d = kDisconnected"
      by (auto simp: live_def)
    with rem [of d] True show ?thesis by (auto simp: connectDestroyed_def live_def)
  next
    case False
    with rem [OF assms(1)] assms(3) show ?thesis
      by (cases "state c") (auto simp: connectDestroyed_def live_def)
  qed
qed

lemma forceCloseInLoop_inv:
  assumes "conn_inv c" "writer_ok wr"
  shows "\<exists>c'. forceCloseInLoop wr u c = Inr c' \<and> conn_inv c'"
  using handleClose_inv [OF assms] assms(1) by (auto simp: forceCloseInLoop_def live_def)

lemma conn_handleRead_inv:
  assumes "conn_inv c" "writer_ok wr" "live c" "readv_bounded readv"
  shows "\<exists>c'. conn_handleRead wr u readv c = Inr c' \<and> conn_inv c'"
proof -
  have wf: "wf_buffer (inputBuffer c)" using assms(1) by (simp add: conn_inv_def)
  obtain n e b where r: "readFd readv (inputBuffer c) = Inr (n, e, b)" "wf_buffer b"
    using readFd_spec [OF wf assms(4)] wf by (auto split: read_result.splits)
  let ?c = "c\<lparr>inputBuffer := b\<rparr>"
  have c: "conn_inv ?c" "live ?c" using assms(1,3) inputBuffer_inv r(2) by (auto simp: live_def)
  show ?thesis
    using r(1) user_calls_inv [OF c(1) assms(2)] handleClose_inv [OF c(1) assms(2) c(2), of u] c(1)
    by (auto simp: conn_handleRead_def Let_def)
qed

lemma handleWrite_inv:
  assumes inv: "conn_inv c" and wr: "writer_ok wr"
  shows "\<exists>c'. handleWrite wr c = Inr c' \<and> conn_inv c' \<and> state c' = state c \<and> stream c' = stream c"
proof (cases "isWriting (chan c)")
  case True
  let ?d = "contents (outputBuffer c)"
  let ?r = "wr (writes c) (shutWr c) (length ?d)"
  have live: "live c" using True inv isNoneEvent_idle(1) [of "chan c"]
    by (cases "state c") (auto simp: conn_inv_def live_def)
  have wf: "wf_buffer (outputBuffer c)" using inv by (simp add: conn_inv_def)
  show ?thesis
  proof (cases "\<exists>n. ?r = Wrote n \<and> n > 0")
    case False
    define c1 where "c1 = c\<lparr>writes := Suc (writes c)\<rparr>"
    have "handleWrite wr c = Inr c1"
      using True False by (auto simp: handleWrite_def sock_write_def Let_def c1_def split: write_result.splits)
    moreover have "conn_inv c1" using inv unfolding c1_def conn_inv_def live_def by simp
    ultimately show ?thesis by (simp add: c1_def stream_def)
  next
    case Wrote: True
    then obtain n where n: "?r = Wrote n" "n > 0" by blast
    have le: "n \<le> length ?d" using wr n(1) by (auto simp: writer_ok_def)
    then have "n \<le> readableBytes (outputBuffer c)" using wf by simp
    from retrieve_spec [OF wf this] obtain b where b: "retrieve n (outputBuffer c) = Inr b" "wf_buffer b"
      "contents b = drop n ?d" by blast
    define c2 where "c2 = c\<lparr>writes := Suc (writes c), wire := wire c @ take n ?d, outputBuffer := b\<rparr>"
    define c4 where "c4 = (if writeCompleteSet c then conn_queue WriteCompleteF (on_chan disableWriting c2)
       else on_chan disableWriting c2)"
    have st: "stream c2 = stream c" "stream c4 = stream c"
      by (simp_all add: c2_def c4_def stream_def b(3) on_chan_def conn_queue_def)
    have eq: "handleWrite wr c = Inr (if readableBytes b = 0
        then if state c = kDisconnecting then shutdownInLoop c4 else c4 else c2)"
      using True n b(1) by (simp add: handleWrite_def sock_write_def Let_def c2_def c4_def on_chan_def conn_queue_def)
    show ?thesis
    proof (cases "readableBytes b = 0")
      case fin: True
      then have "contents b = []" using readable_contents [OF b(2)] by simp
      moreover have c4: "live c4" "state c4 = state c"
        using live by (simp_all add: c4_def c2_def live_def on_chan_def conn_queue_def)
      ultimately have c4i: "conn_inv c4"
        using inv b unfolding conn_inv_live [OF live] conn_inv_live [OF c4(1)]
        by (simp add: c4_def c2_def on_chan_def conn_queue_def flip: append_assoc)
      with shutdownInLoop_inv [OF c4i] c4(2) fin eq st show ?thesis
        by (auto simp: shutdownInLoop_def stream_def)
    next
      case False
      then have "contents b \<noteq> []" using readable_contents [OF b(2)] by simp
      moreover have l: "live c2" using live by (simp add: c2_def live_def)
      ultimately have "conn_inv c2"
        using inv b True unfolding conn_inv_live [OF live] conn_inv_live [OF l]
        by (auto simp: c2_def)
      with False eq st show ?thesis by (simp add: c2_def)
    qed
  qed
qed (simp add: handleWrite_def inv)

fun conn_event_ok :: "conn_event \<Rightarrow> bool" where
  "conn_event_ok (Readable readv) = readv_bounded readv"
| "conn_event_ok _ = True"

lemma events_live: "conn_inv c \<Longrightarrow> \<not> isNoneEvent (chan c) \<Longrightarrow> live c"
  by (cases "state c") (auto simp: conn_inv_def live_def)

lemma run_functor_inv:
  assumes inv: "conn_inv c" and wr: "writer_ok wr" and q: "fqueue c = f # fs"
  shows "\<exists>c'. run_functor wr u f (c\<lparr>fqueue := fs\<rparr>) = Inr c' \<and> conn_inv c'"
proof -
  let ?c = "c\<lparr>fqueue := fs\<rparr>"
  have inv1: "conn_inv ?c" using inv q by (auto simp: conn_inv_def live_def)
  have st: "live ?c \<or> state ?c = kDisconnected" using inv q by (cases "state c") (auto simp: conn_inv_def live_def)
  have cd: "f = ConnectDestroyedF \<Longrightarrow> \<not> live c" using inv q by (auto simp: conn_inv_def)
  show ?thesis
  proof (cases f)
    case (SendF m)
    then show ?thesis using sendInLoop_spec [OF inv1 wr, of m] dead_sendInLoop [of ?c wr m] inv1 st by auto
  next
    case ShutdownF
    have "conn_inv (shutdownInLoop ?c)"
      using shutdownInLoop_inv [OF inv1] st inv q ShutdownF by (auto simp: live_def conn_inv_def)
    then show ?thesis using ShutdownF by simp
  next
    case ForceCloseF
    then show ?thesis using forceCloseInLoop_inv [OF inv1 wr] by simp
  next
    case ConnectDestroyedF
    then show ?thesis using connectDestroyed_inv [OF inv1 wr, of u] cd by (auto simp: live_def)
  next
    case StopReadF
    then show ?thesis using stopReadInLoop_inv [OF inv1] by simp
  qed (use inv1 in auto)
qed

lemma conn_step_inv:
  assumes inv: "conn_inv c" and wr: "writer_ok wr" and ok: "conn_event_ok e"
  shows "\<exists>c'. conn_step wr u e c = Inr c' \<and> conn_inv c'"
proof (cases e)
  case Establish
  have "state c = kConnecting" if "cblog c = []"
    using inv that by (cases "state c") (auto simp: conn_inv_def live_def)
  with connectEstablished_inv [OF inv wr, of u] inv show ?thesis by (simp add: Establish)
next
  case (Readable readv)
  have "live c" if "isReading (chan c)"
    using events_live [OF inv] isNoneEvent_idle(2) that by blast
  with conn_handleRead_inv [OF inv wr, of readv u] ok inv show ?thesis by (simp add: Readable)
next
  case Hangup
  with handleClose_inv [OF inv wr events_live [OF inv], of u] inv show ?thesis by auto
next
  case RunFunctor
  then show ?thesis using run_functor_inv [OF inv wr] inv by (cases "fqueue c") auto
next
  case DelayedClose
  then show ?thesis using forceClose_inv [of "c\<lparr>delayed := n\<rparr>" for n] inv by (cases "delayed c") auto
next
  case (User x)
  then show ?thesis using user_call_inv [OF inv wr, of x] by auto
next
  case (OtherSend m)
  then show ?thesis using send_inv [OF inv wr, of False m] by auto
next
  case Writable
  then show ?thesis using handleWrite_inv [OF inv wr] inv by auto
next
  case OtherStopRead
  have "conn_inv (conn_queue StopReadF c)" if "cblog c \<noteq> []" using inv that by (intro conn_queue_inv) (auto simp: conn_inv_def)
  with OtherStopRead inv show ?thesis by auto
qed (use shutdown_inv [OF inv, of False] in auto)

lemma conn_run_inv:
  assumes "conn_inv c" "writer_ok wr" "list_all conn_event_ok es"
  shows "\<exists>c'. conn_run wr u es c = Inr c' \<and> conn_inv c'"
  using assms(1,3)
proof (induction es arbitrary: c)
  case (Cons e es)
  from conn_step_inv [OF Cons.prems(1) assms(2)] Cons.prems(2) obtain c1 where
    "conn_step wr u e c = Inr c1" "conn_inv c1" by auto
  with Cons.IH [of c1] Cons.prems(2) show ?case by auto
qed simp

text \<open>Starting to read on a closed connection registers its channel again, so that the removal of the channel fails.\<close>

lemma destroy_reading:
  assumes "state c = kDisconnected" "isNoneEvent (chan c)"
  shows "connectDestroyed wr u (startReadInLoop c) = Inl AssertFail"
proof -
  have "isReading (chan (startReadInLoop c)) \<and> state (startReadInLoop c) = state c"
    using isNoneEvent_idle(2) [OF assms(2)] by (simp add: startReadInLoop_def on_chan_def)
  then have "\<not> isNoneEvent (chan (startReadInLoop c))" "state (startReadInLoop c) \<noteq> kConnected"
    using isNoneEvent_idle(2) assms(1) by auto
  then show ?thesis by (simp add: connectDestroyed_def conn_removeChannel_def)
qed

section \<open>Properties\<close>

text \<open>
  C4. The life of a connection. Whatever the poller reports, the user's callbacks do, other
  threads send and in whatever order the queued functors run, no assertion of the connection
  fails, as long as \<open>startRead\<close> is only called in the loop thread and on a connection that is up; on a closed connection it makes the queued \<open>connectDestroyed\<close> fail
  its assertion. The connection callback is called once when the connection comes up and once when it goes
  down, in this order, and agrees with the state; a connection waits for writability exactly when
  it has bytes to write, and a closed one waits for nothing.
\<close>

theorem connection_life:
  assumes "writer_ok wr" "list_all conn_event_ok es"
  shows "\<exists>c. conn_run wr u es (newTcpConnection n f wc) = Inr c
     \<and> cblog c = (case state c of kConnecting \<Rightarrow> [] | kConnected \<Rightarrow> [True] | kDisconnecting \<Rightarrow> [True]
                   | kDisconnected \<Rightarrow> [True, False])
     \<and> (state c = kDisconnected \<longrightarrow> isNoneEvent (chan c))
     \<and> (state c = kConnected \<or> state c = kDisconnecting \<longrightarrow>
          isWriting (chan c) = (contents (outputBuffer c) \<noteq> []))
     \<and> (state c = kDisconnected \<longrightarrow> connectDestroyed wr u (startReadInLoop c) = Inl AssertFail)"
proof -
  from conn_run_inv [OF conn_inv_new assms] obtain c where c:
    "conn_run wr u es (newTcpConnection n f wc) = Inr c" "conn_inv c" by blast
  moreover have "connectDestroyed wr u (startReadInLoop c) = Inl AssertFail" if "state c = kDisconnected"
    using destroy_reading [OF that] c(2) that by (simp add: conn_inv_def)
  ultimately show ?thesis by (cases "state c") (auto simp: conn_inv_def live_def)
qed

definition two_bytes :: writer where
  "two_bytes k sh len = (if sh then BrokenPipe else Wrote (min 2 len))"

lemma two_bytes_ok: "writer_ok two_bytes"
  by (auto simp: writer_ok_def two_bytes_def split: if_splits)

definition echo_user :: conn_user where
  "echo_user = \<lparr>onConnection = \<lambda>c. if connected c then [USend ''hello''] else [], onMessage = \<lambda>c. [USend (contents (inputBuffer c)), URetrieveAll, UShutdown]\<rparr>"

definition sample_life :: "conn_event list" where
  "sample_life = [Establish, Readable (\<lambda>k. ReadBytes (take k ''ping'')), Writable, Writable, Hangup, RunFunctor]"

lemma sample_life_ok: "list_all conn_event_ok sample_life"
  by (simp add: sample_life_def readv_bounded_def)

theorem connection_life_witness:
  "\<exists>c. conn_run two_bytes echo_user sample_life (newTcpConnection ''c'' 5 False) = Inr c
     \<and> (state c = kDisconnected \<longrightarrow> cblog c = [True, False])"
  using connection_life [OF two_bytes_ok sample_life_ok, of echo_user "''c''" 5 False] by auto

text \<open>
  C1. The byte stream. Throughout the life of a connection the bytes the kernel took, followed by
  the bytes still in the output buffer, are the messages the connection accepted, in order and
  without loss, duplication or reordering, however partial the writes were. The write side of an
  open connection is shut down only when every accepted byte is on the wire.
\<close>

theorem stream_integrity:
  assumes "writer_ok wr" "list_all conn_event_ok es"
  shows "\<exists>c. conn_run wr u es (newTcpConnection n f wc) = Inr c
     \<and> wire c @ contents (outputBuffer c) = accepted c
     \<and> (shutWr c \<and> state c \<noteq> kDisconnected \<longrightarrow> state c = kDisconnecting \<and> wire c = accepted c)"
proof -
  from conn_run_inv [OF conn_inv_new assms] obtain c where c:
    "conn_run wr u es (newTcpConnection n f wc) = Inr c" "conn_inv c" by blast
  then show ?thesis by (auto simp: conn_inv_def)
qed

theorem stream_integrity_witness:
  "\<exists>c. conn_run two_bytes echo_user sample_life (newTcpConnection ''c'' 5 False) = Inr c
     \<and> wire c @ contents (outputBuffer c) = accepted c"
  using stream_integrity [OF two_bytes_ok sample_life_ok, of echo_user "''c''" 5 False] by auto

text \<open>
  \<open>send\<close> on a connected socket takes the whole message: it appends it to the stream, whatever
  part of it could be written at once, unless \<open>write\<close> reported that the peer is gone (\<open>EPIPE\<close> or
  \<open>ECONNRESET\<close>), and then nothing of it is sent. On a connection that is not connected it does
  nothing.
\<close>

theorem send_takes_message:
  assumes "conn_inv c" "writer_ok wr"
  shows "\<exists>c'. send wr True m c = Inr c' \<and> state c' = state c
     \<and> (if state c = kConnected \<and> wr (writes c) (shutWr c) (length m) \<noteq> BrokenPipe
        then wire c' @ contents (outputBuffer c') = wire c @ contents (outputBuffer c) @ m
        else wire c' @ contents (outputBuffer c') \<in> {wire c @ contents (outputBuffer c), wire c @ contents (outputBuffer c) @ m})
     \<and> (state c \<noteq> kConnected \<longrightarrow> c' = c)"
proof (cases "state c = kConnected")
  case True
  then have "live c" by (simp add: live_def)
  from sendInLoop_spec [OF assms this, of m] True show ?thesis
    by (auto simp: send_def stream_def)
qed (simp add: send_def)

definition open_conn :: tcp_conn where
  "open_conn = (newTcpConnection ''c'' 5 False)\<lparr>state := kConnected, cblog := [True]\<rparr>"

lemma open_conn_inv: "conn_inv open_conn"
  by (simp add: conn_inv_def open_conn_def newTcpConnection_def live_def isWriting_def newChannel_def)

theorem send_takes_message_witness:
  "\<exists>c'. send two_bytes True ''abc'' open_conn = Inr c' \<and> wire c' @ contents (outputBuffer c') = ''abc''"
  using send_takes_message [OF open_conn_inv two_bytes_ok, of "''abc''"]
  by (auto simp: open_conn_def newTcpConnection_def two_bytes_def)

section \<open>Answering\<close>

text \<open>A peer that has not gone: writes on an open write side are not refused for good.\<close>

definition pipe_open :: "writer \<Rightarrow> bool" where
  "pipe_open wr \<longleftrightarrow> (\<forall>k len. wr k False len \<noteq> BrokenPipe)"

lemma sendInLoop_rest_input: "sendInLoop_rest d n r f c = Inr c' \<Longrightarrow> inputBuffer c' = inputBuffer c"
  by (auto simp: sendInLoop_rest_def Let_def res_simps conn_queue_def on_chan_def split: if_splits)

lemma sendInLoop_input: "sendInLoop wr d c = Inr c' \<Longrightarrow> inputBuffer c' = inputBuffer c"
  by (auto simp: sendInLoop_def sock_write_def Let_def conn_queue_def split: if_splits write_result.splits
      dest!: sendInLoop_rest_input)

lemma shutdown_frame: "stream (shutdown b c) = stream c" "inputBuffer (shutdown b c) = inputBuffer c"
    "state c = kConnected \<Longrightarrow> state (shutdown b c) = kDisconnecting"
  by (auto simp: shutdown_def shutdownInLoop_def setState_def conn_queue_def stream_def Let_def)

lemma sendInLoop_answer:
  assumes "conn_inv c" "writer_ok wr" "pipe_open wr" "state c = kConnected"
  shows "\<exists>c'. sendInLoop wr m c = Inr c' \<and> conn_inv c' \<and> state c' = kConnected \<and> stream c' = stream c @ m
    \<and> inputBuffer c' = inputBuffer c"
proof -
  have l: "live c" using assms(4) by (simp add: live_def)
  have "\<not> shutWr c" using assms(1,4) by (auto simp: conn_inv_def)
  with sendInLoop_spec [OF assms(1,2) l, of m] assms(3,4) sendInLoop_input [of wr m c] show ?thesis
    by (auto simp: pipe_open_def)
qed

text \<open>
  Two misuses that abort. Destroying a connection that is shutting down but not yet closed by
  the peer (\<open>TcpServer\<close>'s destructor calls \<open>connectDestroyed\<close> for every connection it still has)
  fails the assertion in \<open>Channel::remove\<close>, because \<open>connectDestroyed\<close> disables the channel only
  in the state \<open>kConnected\<close>; and \<open>startRead\<close> on a closed connection registers its channel again, so that
  the queued \<open>connectDestroyed\<close> fails in the same place.
\<close>

theorem destroy_aborts:
  "(state c = kDisconnecting \<and> isReading (chan c) \<longrightarrow> connectDestroyed wr u c = Inl AssertFail)
   \<and> (state c = kDisconnected \<and> isNoneEvent (chan c) \<longrightarrow> connectDestroyed wr u (startReadInLoop c) = Inl AssertFail)"
proof -
  have "\<not> isNoneEvent (chan c)" if "isReading (chan c)" using that isNoneEvent_idle(2) by blast
  then show ?thesis using destroy_reading by (auto simp: connectDestroyed_def conn_removeChannel_def)
qed

definition half_closed :: tcp_conn where
  "half_closed = (on_chan enableReading (newTcpConnection ''c'' 5 False))\<lparr>state := kDisconnecting\<rparr>"

theorem destroy_aborts_witness:
  "state half_closed = kDisconnecting \<and> connectDestroyed two_bytes echo_user half_closed = Inl AssertFail"
  using destroy_aborts [of half_closed two_bytes echo_user] by (simp add: half_closed_def on_chan_def)

end
