(* ===== verification/TcpServer.thy ===== *)
theory TcpServer
  imports TcpConnection
begin

text \<open>
  The server side of the library: the pool of I/O loops (\<open>muduo/net/EventLoopThreadPool.cc\<close>), the
  acceptor (\<open>Acceptor.cc\<close>) and the table of connections of a server (\<open>TcpServer.h\<close>,
  \<open>TcpServer.cc\<close>). Loops are numbers, loop 0 is the one the server was created in; a call handed to
  a loop with \<open>runInLoop\<close> or \<open>queueInLoop\<close> is recorded in \<open>posted\<close>. A connection object is found
  through its number in \<open>conns\<close>, the order of creation.
\<close>

section \<open>The pool of loops\<close>

record loop_pool =
  baseLoop :: nat
  pool_name :: string
  pool_started :: bool
  numThreads :: nat
  pool_next :: nat
  loops :: "nat list"

definition newEventLoopThreadPool :: "nat \<Rightarrow> string \<Rightarrow> loop_pool" where
  "newEventLoopThreadPool base nm = \<lparr>baseLoop = base, pool_name = nm, pool_started = False, numThreads = 0,
     pool_next = 0, loops = []\<rparr>"

definition setThreadNum :: "nat \<Rightarrow> loop_pool \<Rightarrow> loop_pool" where
  "setThreadNum n p = p\<lparr>numThreads := n\<rparr>"

text \<open>\<open>startLoop i\<close> is the loop the i-th \<open>EventLoopThread\<close> reports.\<close>

definition pool_start :: "(nat \<Rightarrow> nat) \<Rightarrow> loop_pool \<Rightarrow> loop_pool res" where
  "pool_start startLoop p =
     c_assert (\<not> pool_started p)
     (Inr (p\<lparr>pool_started := True, loops := loops p @ map startLoop [0..<numThreads p]\<rparr>))"

definition getNextLoop :: "loop_pool \<Rightarrow> (nat \<times> loop_pool) res" where
  "getNextLoop p =
     c_assert (pool_started p)
     (if loops p \<noteq> []
      then if pool_next p < length (loops p)
           then let loop = loops p ! pool_next p;
                    n = pool_next p + 1
                in Inr (loop, p\<lparr>pool_next := (if n \<ge> length (loops p) then 0 else n)\<rparr>)
           else Inl OutOfBounds
      else Inr (baseLoop p, p))"

definition getLoopForHash :: "nat \<Rightarrow> loop_pool \<Rightarrow> nat" where
  "getLoopForHash hashCode p =
     (if loops p \<noteq> [] then loops p ! (hashCode mod length (loops p)) else baseLoop p)"

definition getAllLoops :: "loop_pool \<Rightarrow> nat list res" where
  "getAllLoops p = c_assert (pool_started p) (Inr (if loops p = [] then [baseLoop p] else loops p))"

fun next_loops :: "nat \<Rightarrow> loop_pool \<Rightarrow> (nat list \<times> loop_pool) res" where
  "next_loops 0 p = Inr ([], p)"
| "next_loops (Suc k) p =
     rbind (getNextLoop p) (\<lambda>(l, p1). rbind (next_loops k p1) (\<lambda>(ls, p2). Inr (l # ls, p2)))"

lemma getNextLoop_spec:
  assumes "pool_started p" "loops p \<noteq> []" "pool_next p < length (loops p)"
  shows "getNextLoop p = Inr (loops p ! pool_next p, p\<lparr>pool_next := (pool_next p + 1) mod length (loops p)\<rparr>)"
proof (cases "pool_next p + 1 = length (loops p)")
  case True
  then have "(pool_next p + 1) mod length (loops p) = 0" by simp
  then show ?thesis using assms True by (simp add: getNextLoop_def Let_def)
qed (use assms in \<open>simp add: getNextLoop_def Let_def\<close>)

lemma next_loops_spec:
  assumes "pool_started p" "loops p \<noteq> []" "pool_next p < length (loops p)"
  shows "\<exists>p'. next_loops k p = Inr (map (\<lambda>i. loops p ! ((pool_next p + i) mod length (loops p))) [0..<k], p')"
  using assms
proof (induction k arbitrary: p)
  case (Suc k)
  let ?n = "length (loops p)"
  let ?p = "p\<lparr>pool_next := (pool_next p + 1) mod ?n\<rparr>"
  have "pool_next ?p < length (loops ?p)" using Suc.prems(2) by simp
  with Suc.IH [of ?p] Suc.prems(1,2) obtain p' where "next_loops k ?p
      = Inr (map (\<lambda>i. loops p ! (((pool_next p + 1) mod ?n + i) mod ?n)) [0..<k], p')" by auto
  moreover have "map (\<lambda>i. loops p ! (((pool_next p + 1) mod ?n + i) mod ?n)) [0..<k]
      = map (\<lambda>i. loops p ! ((pool_next p + i) mod ?n)) [1..<Suc k]"
    unfolding map_Suc_upt [symmetric] One_nat_def by (simp add: mod_add_left_eq)
  moreover have "[0..<Suc k] = 0 # [1..<Suc k]" using upt_conv_Cons [of 0 "Suc k"] by simp
  ultimately show ?case using getNextLoop_spec [OF Suc.prems] Suc.prems(3) by simp
qed simp

text \<open>
  Connections are spread over the I/O loops round-robin: the k-th connection after the start
  of the pool goes to loop \<open>k mod n\<close>, so that n connections in a row go to n different threads; without I/O threads
  all of them stay in the loop of the server.
\<close>

theorem round_robin:
  assumes "pool_start startLoop (setThreadNum n (newEventLoopThreadPool base nm)) = Inr p"
  shows "\<exists>p'. next_loops k p = Inr (if n = 0 then replicate k base else map (\<lambda>i. startLoop (i mod n)) [0..<k], p')"
proof (cases "n = 0")
  case True
  have "next_loops k p = Inr (replicate k base, p)"
    using assms True by (induction k) (auto simp: pool_start_def setThreadNum_def newEventLoopThreadPool_def getNextLoop_def)
  with True show ?thesis by simp
next
  case False
  have p: "pool_started p" "loops p = map startLoop [0..<n]" "pool_next p = 0"
    using assms by (auto simp: pool_start_def setThreadNum_def newEventLoopThreadPool_def)
  with False next_loops_spec [of p k] have "\<exists>p'. next_loops k p = Inr (map (\<lambda>i. map startLoop [0..<n] ! (i mod n)) [0..<k], p')"
    by simp
  moreover have "map (\<lambda>i. map startLoop [0..<n] ! (i mod n)) [0..<k] = map (\<lambda>i. startLoop (i mod n)) [0..<k]"
    using False by simp
  ultimately show ?thesis using False by simp
qed

theorem round_robin_witness:
  "\<exists>p p'. pool_start (\<lambda>i. i + 10) (setThreadNum 2 (newEventLoopThreadPool 0 ''IM'')) = Inr p
     \<and> next_loops 3 p = Inr ([10, 11, 10], p')"
proof -
  obtain p where p: "pool_start (\<lambda>i. i + 10) (setThreadNum 2 (newEventLoopThreadPool 0 ''IM'')) = Inr p"
    by (simp add: pool_start_def setThreadNum_def newEventLoopThreadPool_def)
  from round_robin [OF p, of 3] p show ?thesis by (simp add: upt_rec)
qed

section \<open>The server\<close>

datatype server_call = CallEstablished | CallDestroyed

record tcp_server =
  ipPort :: string
  srv_name :: string
  srv_started :: bool
  listening :: bool
  pool :: loop_pool
  nextConnId :: int
  connections :: "string \<rightharpoonup> nat"
  conns :: "nat \<rightharpoonup> tcp_conn"
  conn_loop :: "nat \<rightharpoonup> nat"
  created :: nat
  posted :: "(nat \<times> nat \<times> server_call) list"

definition newTcpServer :: "string \<Rightarrow> string \<Rightarrow> tcp_server" where
  "newTcpServer addr nm = \<lparr>ipPort = addr, srv_name = nm, srv_started = False, listening = False,
     pool = newEventLoopThreadPool 0 nm, nextConnId = 1, connections = Map.empty, conns = Map.empty,
     conn_loop = Map.empty, created = 0, posted = []\<rparr>"

definition srv_start :: "(nat \<Rightarrow> nat) \<Rightarrow> tcp_server \<Rightarrow> tcp_server res" where
  "srv_start startLoop s =
     (if \<not> srv_started s
      then rbind (pool_start startLoop (pool s)) (\<lambda>p.
           c_assert (\<not> listening s) (Inr (s\<lparr>srv_started := True, pool := p, listening := True\<rparr>)))
      else Inr s)"

text \<open>\<open>snprintf(buf, 64, "-%s#%d", ...)\<close> keeps 63 characters.\<close>

definition connName :: "string \<Rightarrow> string \<Rightarrow> int \<Rightarrow> string" where
  "connName nm addr k = nm @ take 63 (''-'' @ addr @ ''#'' @ show_int k)"

definition newConnection :: "int \<Rightarrow> tcp_server \<Rightarrow> (nat \<times> tcp_server) res" where
  "newConnection sockfd s =
     rbind (getNextLoop (pool s)) (\<lambda>(ioLoop, p).
     let nm = connName (srv_name s) (ipPort s) (nextConnId s)
     in if nextConnId s + 1 \<ge> 2 ^ 31 then Inl Overflow
        else let cid = created s
             in Inr (cid, s\<lparr>pool := p, nextConnId := nextConnId s + 1, created := Suc cid,
                  conns := (conns s)(cid \<mapsto> newTcpConnection nm sockfd False),
                  conn_loop := (conn_loop s)(cid \<mapsto> ioLoop),
                  connections := (connections s)(nm \<mapsto> cid),
                  posted := posted s @ [(ioLoop, cid, CallEstablished)]\<rparr>))"

definition removeConnectionInLoop :: "nat \<Rightarrow> tcp_server \<Rightarrow> tcp_server res" where
  "removeConnectionInLoop cid s =
     (case (conns s cid, conn_loop s cid) of
        (Some c, Some ioLoop) \<Rightarrow>
          c_assert (connections s (conn_name c) \<noteq> None)
          (Inr (s\<lparr>connections := (connections s)(conn_name c := None),
                  posted := posted s @ [(ioLoop, cid, CallDestroyed)]\<rparr>))
      | _ \<Rightarrow> Inl OutOfBounds)"

text \<open>\<open>accept(2)\<close> gives a descriptor or an error. On \<open>EMFILE\<close> the acceptor takes and drops the connection with its spare descriptor, which leaves the server as it was.\<close>

datatype accept_result = Accepted int | AcceptError | AcceptEMFILE

definition acceptor_handleRead :: "accept_result \<Rightarrow> tcp_server \<Rightarrow> (nat option \<times> tcp_server) res" where
  "acceptor_handleRead r s =
     (case r of
        Accepted connfd \<Rightarrow> rbind (newConnection connfd s) (\<lambda>(cid, s'). Inr (Some cid, s'))
      | AcceptError \<Rightarrow> Inr (None, s)
      | AcceptEMFILE \<Rightarrow> Inr (None, s))"

section \<open>A registry of connections\<close>

text \<open>
  What the rest of the program relies on: objects are added and removed one by one, adding makes a
  new one, removing one that is not there aborts. \<open>room n s\<close>: n more can be added.
\<close>

datatype 'x reg_op = Add 'x | Del nat

fun reg_run ::
  "('x \<Rightarrow> 's \<Rightarrow> (nat \<times> 's) res) \<Rightarrow> (nat \<Rightarrow> 's \<Rightarrow> 's res) \<Rightarrow> 'x reg_op list \<Rightarrow> 's \<Rightarrow> 's res" where
  "reg_run add del [] s = Inr s"
| "reg_run add del (Add x # ops) s = rbind (add x s) (\<lambda>(_, s'). reg_run add del ops s')"
| "reg_run add del (Del i # ops) s = rbind (del i s) (reg_run add del ops)"

text \<open>The registered objects after the operations when objects are numbered from \<open>k\<close>, and whether every \<open>Del\<close> names one.\<close>

fun reg_spec :: "'x reg_op list \<Rightarrow> nat \<Rightarrow> nat set \<Rightarrow> nat set option" where
  "reg_spec [] k L = Some L"
| "reg_spec (Add x # ops) k L = reg_spec ops (Suc k) (insert k L)"
| "reg_spec (Del i # ops) k L = (if i \<in> L then reg_spec ops k (L - {i}) else None)"

fun adds :: "'x reg_op list \<Rightarrow> nat" where
  "adds [] = 0"
| "adds (Add x # ops) = Suc (adds ops)"
| "adds (Del i # ops) = adds ops"

locale registry =
  fixes inv :: "'s \<Rightarrow> bool"
    and members :: "'s \<Rightarrow> nat set"
    and fresh :: "'s \<Rightarrow> nat"
    and room :: "nat \<Rightarrow> 's \<Rightarrow> bool"
    and add :: "'x \<Rightarrow> 's \<Rightarrow> (nat \<times> 's) res"
    and del :: "nat \<Rightarrow> 's \<Rightarrow> 's res"
  assumes add_spec: "inv s \<Longrightarrow> room (Suc n) s \<Longrightarrow>
      \<exists>s'. add x s = Inr (fresh s, s') \<and> inv s' \<and> room n s' \<and> fresh s' = Suc (fresh s)
        \<and> members s' = insert (fresh s) (members s)"
    and del_spec: "inv s \<Longrightarrow> room n s \<Longrightarrow> i \<in> members s \<Longrightarrow>
      \<exists>s'. del i s = Inr s' \<and> inv s' \<and> room n s' \<and> fresh s' = fresh s \<and> members s' = members s - {i}"
    and del_missing: "inv s \<Longrightarrow> i \<notin> members s \<Longrightarrow> i < fresh s \<Longrightarrow> del i s = Inl AssertFail"
begin

lemma run_spec:
  "inv s \<Longrightarrow> room (adds ops) s \<Longrightarrow> reg_spec ops (fresh s) (members s) = Some L \<Longrightarrow>
   \<exists>s'. reg_run add del ops s = Inr s' \<and> inv s' \<and> members s' = L"
proof (induction ops arbitrary: s)
  case (Cons op ops)
  show ?case
  proof (cases op)
    case (Add x)
    with Cons.prems add_spec [of s "adds ops" x] obtain s' where s': "add x s = Inr (fresh s, s')" "inv s'"
      "room (adds ops) s'" "fresh s' = Suc (fresh s)" "members s' = insert (fresh s) (members s)" by auto
    with Cons.IH [of s'] Cons.prems(3) Add show ?thesis by simp
  next
    case (Del i)
    with Cons.prems have i: "i \<in> members s" "reg_spec ops (fresh s) (members s - {i}) = Some L"
      by (auto split: if_splits)
    with Cons.prems Del del_spec [of s "adds ops" i] obtain s' where s': "del i s = Inr s'" "inv s'"
      "room (adds ops) s'" "fresh s' = fresh s" "members s' = members s - {i}" by auto
    with Cons.IH [of s'] i(2) Del show ?thesis by simp
  qed
qed simp

lemma del_twice:
  assumes "inv s" "room n s" "i \<in> members s" "i < fresh s"
  shows "rbind (del i s) (del i) = Inl AssertFail"
proof -
  from del_spec [OF assms(1-3)] obtain s' where "del i s = Inr s'" "inv s'" "fresh s' = fresh s"
    "members s' = members s - {i}" by blast
  with del_missing [of s' i] assms(4) show ?thesis by simp
qed

end

section \<open>The server is one\<close>

definition srv_inv :: "tcp_server \<Rightarrow> bool" where
  "srv_inv s \<longleftrightarrow> pool_started (pool s) \<and> (loops (pool s) = [] \<or> pool_next (pool s) < length (loops (pool s)))
     \<and> length (ipPort s) \<le> 50 \<and> nextConnId s = int (created s) + 1 \<and> nextConnId s < 2 ^ 31
     \<and> (\<forall>nm cid. connections s nm = Some cid \<longrightarrow> cid < created s \<and> nm = connName (srv_name s) (ipPort s) (int cid + 1))
     \<and> (\<forall>cid < created s. \<exists>c l. conns s cid = Some c \<and> conn_loop s cid = Some l
           \<and> conn_name c = connName (srv_name s) (ipPort s) (int cid + 1))"

definition srv_room :: "nat \<Rightarrow> tcp_server \<Rightarrow> bool" where
  "srv_room n s \<longleftrightarrow> nextConnId s + int n < 2 ^ 31"

lemma connName_inj:
  assumes "connName nm addr a = connName nm addr b" "length addr \<le> 50" "0 \<le> a" "a < 2 ^ 31" "0 \<le> b" "b < 2 ^ 31"
  shows "a = b"
proof -
  have short: "length (show_int k) \<le> 10" if "0 \<le> k" "k < 2 ^ 31" for k :: int
    using length_show_nat [of "nat k" 10] that by (simp add: show_int_def nat_less_iff)
  have "take 63 (''-'' @ addr @ ''#'' @ show_int k) = ''-'' @ addr @ ''#'' @ show_int k"
    if "0 \<le> k" "k < 2 ^ 31" for k :: int
    using short [OF that] assms(2) by (intro take_all) simp
  from this [OF assms(3,4)] this [OF assms(5,6)] have "show_int a = show_int b"
    using assms(1) unfolding connName_def by (metis append_same_eq same_append_eq)
  then show ?thesis by (rule show_int_inj)
qed

lemma getNextLoop_ok:
  assumes "pool_started p" "loops p = [] \<or> pool_next p < length (loops p)"
  shows "\<exists>l p'. getNextLoop p = Inr (l, p') \<and> pool_started p' \<and> (loops p' = [] \<or> pool_next p' < length (loops p'))"
  using assms getNextLoop_spec [of p] by (cases "loops p = []") (auto simp: getNextLoop_def)

lemma newConnection_spec:
  assumes inv: "srv_inv s" and room: "srv_room (Suc n) s"
  shows "\<exists>s'. newConnection fd' s = Inr (created s, s') \<and> srv_inv s' \<and> srv_room n s'
     \<and> created s' = Suc (created s) \<and> ran (connections s') = insert (created s) (ran (connections s))"
proof -
  obtain l p where p: "getNextLoop (pool s) = Inr (l, p)" "pool_started p" "loops p = [] \<or> pool_next p < length (loops p)"
    using getNextLoop_ok [of "pool s"] inv unfolding srv_inv_def by blast
  let ?nm = "connName (srv_name s) (ipPort s) (int (created s) + 1)"
  have id: "nextConnId s = int (created s) + 1" using inv by (simp add: srv_inv_def)
  let ?s = "s\<lparr>pool := p, nextConnId := nextConnId s + 1, created := Suc (created s),
      conns := (conns s)(created s \<mapsto> newTcpConnection ?nm fd' False), conn_loop := (conn_loop s)(created s \<mapsto> l),
      connections := (connections s)(?nm \<mapsto> created s), posted := posted s @ [(l, created s, CallEstablished)]\<rparr>"
  have new: "newConnection fd' s = Inr (created s, ?s)"
    using p(1) room id by (simp add: newConnection_def Let_def srv_room_def)
  have free: "connections s ?nm = None"
  proof (rule ccontr)
    assume "connections s ?nm \<noteq> None"
    then obtain cid where "cid < created s" "?nm = connName (srv_name s) (ipPort s) (int cid + 1)"
      using inv by (auto simp: srv_inv_def)
    with connName_inj [of _ _ "int (created s) + 1" "int cid + 1"] inv room id show False
      by (auto simp: srv_inv_def srv_room_def)
  qed
  have "srv_inv ?s"
    using inv p(2,3) id room unfolding srv_inv_def srv_room_def by (auto simp: newTcpConnection_def less_Suc_eq)
  with new free room id show ?thesis by (auto simp: srv_room_def ran_map_upd)
qed

lemma removeConnection_spec:
  assumes inv: "srv_inv s" and i: "i \<in> ran (connections s)"
  shows "\<exists>s' l. removeConnectionInLoop i s = Inr s' \<and> srv_inv s' \<and> created s' = created s \<and> nextConnId s' = nextConnId s
     \<and> ran (connections s') = ran (connections s) - {i}
     \<and> conn_loop s i = Some l \<and> posted s' = posted s @ [(l, i, CallDestroyed)]"
proof -
  from i obtain nm where nm: "connections s nm = Some i" by (auto simp: ran_def)
  with inv have lt: "i < created s" "nm = connName (srv_name s) (ipPort s) (int i + 1)" by (auto simp: srv_inv_def)
  with inv obtain c l where c: "conns s i = Some c" "conn_loop s i = Some l" "conn_name c = nm"
    unfolding srv_inv_def by blast
  let ?s = "s\<lparr>connections := (connections s)(nm := None), posted := posted s @ [(l, i, CallDestroyed)]\<rparr>"
  have "removeConnectionInLoop i s = Inr ?s"
    using c nm by (simp add: removeConnectionInLoop_def)
  moreover have "srv_inv ?s" using inv unfolding srv_inv_def by (simp split: if_split)
  moreover have "ran ((connections s)(nm := None)) = ran (connections s) - {i}"
  proof -
    have uniq: "nm' = nm" if "connections s nm' = Some i" for nm'
    proof -
      have "nm' = connName (srv_name s) (ipPort s) (int i + 1)" using inv that unfolding srv_inv_def by blast
      with lt(2) show ?thesis by simp
    qed
    show ?thesis
    proof (intro subset_antisym subsetI)
      fix j assume "j \<in> ran ((connections s)(nm := None))"
      then obtain nm' where "connections s nm' = Some j" "nm' \<noteq> nm" by (auto simp: ran_def split: if_splits)
      with uniq show "j \<in> ran (connections s) - {i}" by (auto simp: ran_def)
    next
      fix j assume "j \<in> ran (connections s) - {i}"
      then obtain nm' where "connections s nm' = Some j" "j \<noteq> i" by (auto simp: ran_def)
      with nm have "((connections s)(nm := None)) nm' = Some j" by auto
      then show "j \<in> ran ((connections s)(nm := None))" by (rule ranI)
    qed
  qed
  ultimately show ?thesis using c(2) by auto
qed

lemma removeConnection_missing:
  assumes inv: "srv_inv s" and i: "i \<notin> ran (connections s)" "i < created s"
  shows "removeConnectionInLoop i s = Inl AssertFail"
proof -
  from inv i(2) obtain c l where c: "conns s i = Some c" "conn_loop s i = Some l"
    "conn_name c = connName (srv_name s) (ipPort s) (int i + 1)" unfolding srv_inv_def by blast
  have "connections s (conn_name c) = None"
  proof (rule ccontr)
    assume "connections s (conn_name c) \<noteq> None"
    then obtain j where j: "connections s (conn_name c) = Some j" by auto
    with inv have "j < created s" "conn_name c = connName (srv_name s) (ipPort s) (int j + 1)"
      unfolding srv_inv_def by blast+
    moreover have "length (ipPort s) \<le> 50" "int (created s) + 1 < 2 ^ 31" using inv by (auto simp: srv_inv_def)
    ultimately have "i = j"
      using connName_inj [of "srv_name s" "ipPort s" "int i + 1" "int j + 1"] c(3) i(2) by simp
    with i(1) j show False by (auto simp: ran_def)
  qed
  with c show ?thesis by (simp add: removeConnectionInLoop_def)
qed

interpretation server: registry srv_inv "\<lambda>s. ran (connections s)" created srv_room newConnection removeConnectionInLoop
proof
  show "\<exists>s'. newConnection x s = Inr (created s, s') \<and> srv_inv s' \<and> srv_room n s' \<and> created s' = Suc (created s)
      \<and> ran (connections s') = insert (created s) (ran (connections s))"
    if "srv_inv s" "srv_room (Suc n) s" for s n x
    using newConnection_spec [OF that] by blast
  show "\<exists>s'. removeConnectionInLoop i s = Inr s' \<and> srv_inv s' \<and> srv_room n s' \<and> created s' = created s
      \<and> ran (connections s') = ran (connections s) - {i}"
    if "srv_inv s" "srv_room n s" "i \<in> ran (connections s)" for s n i
    using removeConnection_spec [OF that(1,3)] that(2) by (auto simp: srv_room_def)
qed (rule removeConnection_missing)

lemma srv_inv_started:
  assumes "srv_start startLoop (newTcpServer addr nm) = Inr s" "length addr \<le> 50"
  shows "srv_inv s" "connections s = Map.empty" "created s = 0" "nextConnId s = 1"
  using assms by (auto simp: srv_start_def newTcpServer_def newEventLoopThreadPool_def pool_start_def srv_inv_def)

text \<open>
  C12. The connection table. On a started server, any number of accepted connections below
  \<open>2 ^ 31\<close> get pairwise different names, so that no entry of \<open>connections_\<close> is overwritten; after any
  sequence of accepts and removals the table holds exactly the connections that were accepted and
  not removed, and neither aborts.
\<close>

theorem server_registry:
  assumes "srv_start startLoop (newTcpServer addr nm) = Inr s" "length addr \<le> 50"
    "int (adds ops) < 2 ^ 31 - 1" "reg_spec ops 0 {} = Some L"
  shows "\<exists>s'. reg_run newConnection removeConnectionInLoop ops s = Inr s' \<and> ran (connections s') = L"
proof -
  note st = srv_inv_started [OF assms(1,2)]
  have "srv_room (adds ops) s" using assms(3) st(4) by (simp add: srv_room_def)
  with server.run_spec [OF st(1)] assms(4) st(2,3) show ?thesis by auto
qed

lemma start_sample: "\<exists>s. srv_start (\<lambda>i. i) (newTcpServer ''0.0.0.0:9000'' ''IMServer'') = Inr s"
  by (simp add: srv_start_def newTcpServer_def newEventLoopThreadPool_def pool_start_def)

theorem server_registry_witness:
  "\<exists>s s'. srv_start (\<lambda>i. i) (newTcpServer ''0.0.0.0:9000'' ''IMServer'') = Inr s
     \<and> reg_run newConnection removeConnectionInLoop [Add 5, Add 6, Del 0] s = Inr s' \<and> ran (connections s') = {1}"
proof -
  obtain s where s: "srv_start (\<lambda>i. i) (newTcpServer ''0.0.0.0:9000'' ''IMServer'') = Inr s"
    using start_sample by blast
  from server_registry [OF s, of "[Add 5, Add 6, Del 0]" "{1}"] s show ?thesis by auto
qed

end
