(* ===== verification/ClientSession.thy ===== *)
theory ClientSession
  imports ClientFraming BinaryCodec JsonStyled UserManager TcpServer
begin

text \<open>
  A client's session (\<open>ClientSession.h\<close>, \<open>ClientSession.cpp\<close>): the dispatch of a message to its handler, and
  the handlers of heartbeat, registration and login with their replies. A session sends on its connection
  (\<open>TcpConnection\<close>), and registration and login use the users (\<open>UserManager\<close>) and the database behind them.
  The handlers run in the loop of the connection.

  The parameters of the layers below are collected in \<open>env\<close>: the conversions of doubles, the MySQL
  library, uninitialised memory, \<open>write(2)\<close>, and what the two instances of \<open>BinaryReader::readData<T>\<close> make of the bytes they
  read (see \<open>BinaryCodec\<close>).
\<close>

section \<open>Constants\<close>

definition MSG_TYPE_HEARTBEAT :: i32 where "MSG_TYPE_HEARTBEAT = 1000"
definition MSG_TYPE_REGISTER :: i32 where "MSG_TYPE_REGISTER = 1001"
definition MSG_TYPE_LOGIN :: i32 where "MSG_TYPE_LOGIN = 1002"

definition RES_PARSE_FAILED :: i32 where "RES_PARSE_FAILED = 400"
definition RES_JOSNTYPE_ERROR :: i32 where "RES_JOSNTYPE_ERROR = 401"
definition RES_REGISTER_FAIED :: i32 where "RES_REGISTER_FAIED = 402"
definition RES_LOGIN_NOREGISTER :: i32 where "RES_LOGIN_NOREGISTER = 403"
definition RES_LOGIN_NOPASSWORD :: i32 where "RES_LOGIN_NOPASSWORD = 404"
definition RES_REGISTER_SUCCESS :: i32 where "RES_REGISTER_SUCCESS = 200"
definition RES_LOGIN_SUCCESS :: i32 where "RES_LOGIN_SUCCESS = 201"

section \<open>State\<close>

record ('d, 'm) env =
  e_scan :: "string \<Rightarrow> 'd option"
  e_fmt :: "'d \<Rightarrow> string"
  e_dbl :: "'d dbl"
  e_api :: "'m mysql_api"
  e_junk :: i32
  e_wr :: writer
  e_ld32 :: "string \<Rightarrow> i32"
  e_ld64 :: "string \<Rightarrow> i64"

record client_session =
  sessionId :: string
  seq :: i32

record 'm session_ctx =
  sess :: client_session
  conn :: tcp_conn
  users :: user_manager
  database :: "'m mysql_manager"

definition set_seq :: "i32 \<Rightarrow> 'm session_ctx \<Rightarrow> 'm session_ctx" where
  "set_seq q s = s\<lparr>sess := (sess s)\<lparr>seq := q\<rparr>\<rparr>"

section \<open>Replies\<close>

definition getJsonString :: "('d, 'm) env \<Rightarrow> i32 \<Rightarrow> string \<Rightarrow> string res" where
  "getJsonString E code msg =
     rbind (set_member ''code'' (IntV code) NullV) (\<lambda>v1.
     rbind (set_member ''msg'' (value_of_string msg) v1) (\<lambda>v2.
     toStyledString (e_fmt E) v2))"

definition conn_send :: "('d, 'm) env \<Rightarrow> string \<Rightarrow> 'm session_ctx \<Rightarrow> 'm session_ctx res" where
  "conn_send E out s = rbind (send (e_wr E) True out (conn s)) (\<lambda>c. Inr (s\<lparr>conn := c\<rparr>))"

definition session_send :: "('d, 'm) env \<Rightarrow> binary_writer \<Rightarrow> 'm session_ctx \<Rightarrow> 'm session_ctx res" where
  "session_send E writer s =
     (let out = w_msg writer;
          writer1 = writeData_int (of_nat (length out)) (w_clear writer)
      in conn_send E (w_msg writer1 @ out) s)"

text \<open>The last steps of every branch of a handler: the text is written behind the header and sent.\<close>

definition send_text :: "('d, 'm) env \<Rightarrow> binary_writer \<Rightarrow> string res \<Rightarrow> 'm session_ctx \<Rightarrow> 'm session_ctx run" where
  "send_text E writer text s =
     (case text of
        Inl e \<Rightarrow> Some (Inl e)
      | Inr t \<Rightarrow> obind (writeData_string t writer) (\<lambda>writer'. Some (session_send E writer' s)))"

definition reply_header :: "i32 \<Rightarrow> 'm session_ctx \<Rightarrow> binary_writer" where
  "reply_header cmd s = writeData_int (seq (sess s)) (writeData_int cmd newBinaryWriter)"

section \<open>Handlers\<close>

definition onHeartbeatResponse :: "('d, 'm) env \<Rightarrow> string \<Rightarrow> 'm session_ctx \<Rightarrow> 'm session_ctx run" where
  "onHeartbeatResponse E data s =
     obind (writeData_string [] (reply_header MSG_TYPE_HEARTBEAT s)) (\<lambda>writer.
     let out = w_msg writer;
         writer1 = writeData_size (of_nat (length out)) (w_clear writer)
     in Some (conn_send E (w_msg writer1 @ out) s))"

text \<open>\<open>root[key]\<close> makes the member when it is missing; the conditions are evaluated from left to right and
  stop at the first one that decides.\<close>

definition register_type_error :: "'d json \<Rightarrow> (bool \<times> 'd json) res" where
  "register_type_error root =
     rbind (resolveReference ''username'' root) (\<lambda>(v, r1).
     if \<not> isString v then Inr (True, r1)
     else rbind (resolveReference ''nickname'' r1) (\<lambda>(v, r2).
          if \<not> isString v then Inr (True, r2)
          else rbind (resolveReference ''password'' r2) (\<lambda>(v, r3). Inr (isString v, r3))))"

definition member_string :: "string \<Rightarrow> 'd json \<Rightarrow> (string \<times> 'd json) res" where
  "member_string key root =
     rbind (resolveReference key root) (\<lambda>(v, root'). rbind (asString v) (\<lambda>t. Inr (t, root')))"

definition register_user :: "('d, 'm) env \<Rightarrow> 'd json \<Rightarrow> user res" where
  "register_user E root =
     rbind (member_string ''username'' root) (\<lambda>(nm, r1).
     rbind (member_string ''nicknime'' r1) (\<lambda>(nick, r2).
     rbind (member_string ''password'' r2) (\<lambda>(pw, _).
     Inr ((newUser (e_junk E))\<lparr>userName := nm, nickName := nick, passWord := pw\<rparr>))))"

definition onRegisterResponse :: "('d, 'm) env \<Rightarrow> string \<Rightarrow> 'm session_ctx \<Rightarrow> 'm session_ctx run" where
  "onRegisterResponse E data s =
     (let writer = reply_header MSG_TYPE_REGISTER s
      in obind (parse features_all (e_scan E) data) (\<lambda>(ok, root, _).
         if \<not> ok then send_text E writer (getJsonString E RES_PARSE_FAILED ''json parse faied'') s
         else obind (Some (register_type_error root)) (\<lambda>(bad, root1).
              if bad then send_text E writer (getJsonString E RES_JOSNTYPE_ERROR ''json type error'') s
              else obind (Some (register_user E root1)) (\<lambda>u.
                   obind (Some (addUser (e_api E) u (users s) (database s))) (\<lambda>(added, _, um, g).
                   let s1 = s\<lparr>users := um, database := g\<rparr>
                   in if \<not> added then send_text E writer (getJsonString E RES_REGISTER_FAIED ''register failed'') s1
                      else send_text E writer (getJsonString E RES_REGISTER_SUCCESS ''register success'') s1)))))"

definition login_type_error :: "'d json \<Rightarrow> (bool \<times> 'd json) res" where
  "login_type_error v0 =
     rbind (resolveReference ''password'' v0) (\<lambda>(v, r1).
     if \<not> isString v then Inr (True, r1)
     else rbind (resolveReference ''stastus'' r1) (\<lambda>(v, r2). Inr (\<not> isInt v, r2)))"

text \<open>The user with the account in \<open>value["user"]\<close>, by name or by identifier: from the cache or, failing that, the database.\<close>

definition login_user :: "('d, 'm) env \<Rightarrow> user_manager \<Rightarrow> 'd json \<Rightarrow> (bool \<times> user) res" where
  "login_user E um v0 =
     rbind (resolveReference ''user'' v0) (\<lambda>(v, _).
     if isString v
     then rbind (asString v) (\<lambda>sAccount.
          Inr (case getUserInfoFromCached_name sAccount um (newUser (e_junk E)) of
                 (True, u) \<Rightarrow> (True, u)
               | (False, u) \<Rightarrow> getUserInfoFromDB_name sAccount um u))
     else rbind (asInt (e_dbl E) v) (\<lambda>iAccount.
          Inr (case getUserInfoFromCached_id iAccount um (newUser (e_junk E)) of
                 (True, u) \<Rightarrow> (True, u)
               | (False, u) \<Rightarrow> getUserInfoFromDB_id iAccount um u)))"

definition login_message :: string where
  "login_message = ''user is not exist or password is incorrecr!''"

fun set_members :: "(string \<times> 'd json) list \<Rightarrow> 'd json \<Rightarrow> 'd json res" where
  "set_members [] v = Inr v"
| "set_members ((k, x) # kvs) v = rbind (set_member k x v) (set_members kvs)"

definition login_response :: "user \<Rightarrow> 'd json res" where
  "login_response u = set_members
     [(''code'', IntV RES_LOGIN_SUCCESS), (''msg'', value_of_string login_message), (''userid'', IntV (userId u)),
      (''username'', value_of_string (userName u)), (''nickname'', value_of_string (nickName u)),
      (''facetype'', IntV (faceType u)), (''customface'', value_of_string (customFace u)), (''gender'', IntV (gender u)),
      (''birthday'', IntV (birthDay u)), (''_signature'', value_of_string (signature u)),
      (''_adress'', value_of_string (adress u)), (''_pthone'', value_of_string (pthone u)),
      (''_mail'', value_of_string (mail u))] NullV"

definition onLoginResponse :: "('d, 'm) env \<Rightarrow> string \<Rightarrow> 'm session_ctx \<Rightarrow> 'm session_ctx run" where
  "onLoginResponse E data s =
     (let writer = reply_header MSG_TYPE_LOGIN s
      in obind (parse features_all (e_scan E) data) (\<lambda>(ok, v0, _).
         if \<not> ok then send_text E writer (getJsonString E RES_PARSE_FAILED ''json parse faied'') s
         else obind (Some (login_type_error v0)) (\<lambda>(bad, v1).
              if bad then send_text E writer (getJsonString E RES_JOSNTYPE_ERROR ''json josn type error'') s
              else obind (Some (member_string ''password'' v1)) (\<lambda>(password, v2).
                   obind (Some (resolveReference ''status'' v2)) (\<lambda>(st, v3).
                   obind (Some (asInt (e_dbl E) st)) (\<lambda>status.
                   obind (Some (login_user E (users s) v3)) (\<lambda>(bRet, u).
                   if \<not> bRet then send_text E writer (getJsonString E RES_LOGIN_NOREGISTER login_message) s
                   else if passWord u \<noteq> password
                   then send_text E writer (getJsonString E RES_LOGIN_NOPASSWORD login_message) s
                   else send_text E writer (rbind (login_response u) (toStyledString (e_fmt E))) s)))))))"

section \<open>Dispatch\<close>

text \<open>\<open>data.resize(dataLen)\<close> throws for lengths a string cannot have.\<close>

definition process :: "('d, 'm) env \<Rightarrow> 'm session_ctx \<Rightarrow> string \<Rightarrow> (bool \<times> 'm session_ctx) run" where
  "process E s msg =
     obind (Some (readData_obj (e_ld32 E) 4 (newBinaryReader msg))) (\<lambda>(ocmd, r1).
     case ocmd of
       None \<Rightarrow> Some (Inr (False, s))
     | Some cmd \<Rightarrow>
         obind (Some (readData_obj (e_ld32 E) 4 r1)) (\<lambda>(oseq, r2).
         case oseq of
           None \<Rightarrow> Some (Inr (False, s))
         | Some q \<Rightarrow>
             (let s1 = set_seq q s
              in obind (Some (readData_obj (e_ld64 E) 8 r2)) (\<lambda>(olen, r3).
                 case olen of
                   None \<Rightarrow> Some (Inr (False, s1))
                 | Some dataLen \<Rightarrow>
                     if unat dataLen \<ge> 2 ^ 63 - 1 then Some (Inl (Exception ''length_error''))
                     else obind (Some (readData_string (unat dataLen) r3)) (\<lambda>(data, _).
                          obind (if cmd = MSG_TYPE_HEARTBEAT then onHeartbeatResponse E data s1
                                 else if cmd = MSG_TYPE_REGISTER then onRegisterResponse E data s1
                                 else if cmd = MSG_TYPE_LOGIN then onLoginResponse E data s1
                                 else Some (Inr s1)) (\<lambda>s2.
                          Some (Inr (True, s2))))))))"

definition session_onRead :: "('d, 'm) env \<Rightarrow> 'm session_ctx \<Rightarrow> buffer \<Rightarrow> ('m session_ctx \<times> buffer) run" where
  "session_onRead E s buf = onRead (process E) s buf"

section \<open>What a reply looks like\<close>

text \<open>
  The frame of a reply on the wire: the length of the rest, the sequence number where the command should be, four zero bytes,
  and the text with its length in one byte.
\<close>

definition reply_body :: "i32 \<Rightarrow> string \<Rightarrow> string" where
  "reply_body q t = word_bytes q @ replicate 4 (char_of (0 :: nat)) @ char_of (length t) # t"

lemma send_text_reply:
  assumes "length t < 2 ^ 64"
  shows "send_text E (reply_header cmd s0) (Inr t) s =
     (if length t < 128 then Some (conn_send E (frame (reply_body (seq (sess s0)) t)) s) else Some (Inl UndefinedShift))"
  using writeData_string_spec [OF assms, of "reply_header cmd s0"]
  by (simp add: send_text_def session_send_def reply_header_def two_ints int_alone frame_def reply_body_def Let_def)

definition reply_json :: "i32 \<Rightarrow> string \<Rightarrow> 'd json" where
  "reply_json code msg = ObjectV [(''code'', IntV code), (''msg'', StringV msg)]"

definition reply_text :: "i32 \<Rightarrow> string \<Rightarrow> string" where
  "reply_text code msg =
     ''{'' @ LF # ''   '' @ [DQ] @ ''code'' @ [DQ] @ '' : '' @ valueToString_int code @ '','' @ LF # ''   '' @ [DQ] @ ''msg'' @ [DQ] @ '' : ''
       @ valueToQuotedString msg @ LF # ''}'' @ [LF]"

lemma quoted_plain: "list_all (\<lambda>c. 32 \<le> (of_char c :: nat) \<and> c \<noteq> DQ \<and> c \<noteq> BS) s \<Longrightarrow> valueToQuotedString s = [DQ] @ s @ [DQ]"
proof -
  assume a: "list_all (\<lambda>c. 32 \<le> (of_char c :: nat) \<and> c \<noteq> DQ \<and> c \<noteq> BS) s"
  then have "CHR 0x00 \<notin> set s" by (auto simp: list_all_iff)
  moreover have "\<not> needs_escape c \<and> \<not> isControlCharacter c" if "c \<in> set s" for c
    using a that by (auto simp: list_all_iff needs_escape_def isControlCharacter_def)
  ultimately show ?thesis
    by (auto simp: valueToQuotedString_def c_str_id containsControlCharacter_def list_ex_iff)
qed

lemma key_quotes: "valueToQuotedString ''code'' = [DQ] @ ''code'' @ [DQ]" "valueToQuotedString ''msg'' = [DQ] @ ''msg'' @ [DQ]"
  by (rule quoted_plain, simp add: DQ_def BS_def)+

lemma code_before_msg: "''code'' < ''msg''" by (simp add: less_char_def)

lemma getJsonString_text:
  assumes "CHR 0x00 \<notin> set msg"
  shows "getJsonString E code msg = Inr (reply_text code msg)"
proof -
  have "getJsonString E code msg = toStyledString (e_fmt E) (reply_json code msg)"
    using assms by (simp add: getJsonString_def set_member_def value_of_string_def c_str_id reply_json_def)
  also have "\<dots> = Inr (reply_text code msg)"
    unfolding reply_json_def
    by (subst styled_flat) (simp_all add: styled_text_def member_text_def key_quotes reply_text_def)
  finally show ?thesis .
qed

lemma reply_text_parses:
  assumes "CHR 0x00 \<notin> set msg" "- 2147483639 \<le> sint code"
  shows "parse features_all scan (reply_text code msg) = Some (Inr (True, reply_json code msg, []))"
  unfolding reply_json_def
proof (rule styled_parses)
  show "toStyledString fmt (ObjectV [(''code'', IntV code), (''msg'', StringV msg)]) = Inr (reply_text code msg)" for fmt :: "'a \<Rightarrow> string"
    by (subst styled_flat) (simp_all add: styled_text_def member_text_def key_quotes reply_text_def)
qed (use assms in \<open>simp_all add: ordered_def\<close>)

section \<open>Registration and login\<close>

lemma ref_member: "CHR 0x00 \<notin> set key \<Longrightarrow> map_of kvs key = Some v \<Longrightarrow> resolveReference key (ObjectV kvs) = Inr (v, ObjectV kvs)"
  by (simp add: c_str_id)

lemma ref_missing:
  "CHR 0x00 \<notin> set key \<Longrightarrow> map_of kvs key = None \<Longrightarrow> resolveReference key (ObjectV kvs) = Inr (NullV, ObjectV (ins_key key NullV kvs))"
  by (simp add: c_str_id)

lemma reply_sent:
  assumes "CHR 0x00 \<notin> set msg" "length (reply_text code msg) < 128"
  shows "send_text E (reply_header cmd s0) (getJsonString E code msg) s
     = Some (conn_send E (frame (reply_body (seq (sess s0)) (reply_text code msg))) s)"
proof -
  have "length (reply_text code msg) < 2 ^ 64" using assms(2) by simp
  from send_text_reply [OF this] show ?thesis using assms by (simp add: getJsonString_text)
qed

lemma register_replies:
  "length (reply_text RES_REGISTER_FAIED ''register failed'') < 128"
  "length (reply_text RES_REGISTER_SUCCESS ''register success'') < 128"
proof -
  have "valueToQuotedString ''register failed'' = [DQ] @ ''register failed'' @ [DQ]"
    "valueToQuotedString ''register success'' = [DQ] @ ''register success'' @ [DQ]"
    by (rule quoted_plain, simp add: DQ_def BS_def)+
  then show "length (reply_text RES_REGISTER_FAIED ''register failed'') < 128"
    "length (reply_text RES_REGISTER_SUCCESS ''register success'') < 128"
    by (simp_all add: reply_text_def valueToString_int_def uintToString_def RES_REGISTER_FAIED_def RES_REGISTER_SUCCESS_def show_nat.simps)
qed

lemma quoted_length:
  assumes "CHR 0x00 \<notin> set s"
  shows "length s + 2 \<le> length (valueToQuotedString s)"
proof -
  have one: "1 \<le> length (escape_char c)" for c by (cases c rule: escape_cases) simp_all
  have "length s \<le> length (concat (map escape_char s))"
  proof (induction s)
    case (Cons c s)
    then show ?case using one [of c] by simp
  qed simp
  then show ?thesis by (simp add: quoted_string c_str_id [OF assms])
qed

lemma length_join: "sum_list (map length xs) \<le> length (join sep xs)"
  by (induction sep xs rule: join.induct) auto

lemma styled_text_length: "CHR 0x00 \<notin> set k \<Longrightarrow> length ind + length k + 6 \<le> length (styled_text fmt ind k v)"
  using quoted_length [of k] by (simp add: styled_text_def member_text_def)

definition login_members :: "user \<Rightarrow> (string \<times> 'd json) list" where
  "login_members u =
     [(''_adress'', value_of_string (adress u)), (''_mail'', value_of_string (mail u)), (''_pthone'', value_of_string (pthone u)),
      (''_signature'', value_of_string (signature u)), (''birthday'', IntV (birthDay u)), (''code'', IntV RES_LOGIN_SUCCESS),
      (''customface'', value_of_string (customFace u)), (''facetype'', IntV (faceType u)), (''gender'', IntV (gender u)),
      (''msg'', value_of_string login_message), (''nickname'', value_of_string (nickName u)), (''userid'', IntV (userId u)),
      (''username'', value_of_string (userName u))]"

lemma set_member_object:
  assumes "CHR 0x00 \<notin> set key"
  shows "set_member key x (ObjectV kvs) = Inr (ObjectV (ins_key key x kvs))"
proof -
  have "ins_key key x (ins_key key NullV kvs) = ins_key key x kvs" by (induction kvs) auto
  then show ?thesis using assms by (auto simp: set_member_def c_str_id split: option.splits)
qed

lemma login_response_members: "login_response u = Inr (ObjectV (login_members u))"
proof -
  have "set_member ''code'' x NullV = Inr (ObjectV [(''code'', x)])" for x :: "'a json"
    by (simp add: set_member_def c_str_id)
  then show ?thesis by (simp add: login_response_def set_member_object login_members_def)
qed

definition login_text :: "('d \<Rightarrow> string) \<Rightarrow> user \<Rightarrow> string" where
  "login_text fmt u = ''{'' @ join '','' (map (\<lambda>(k, v). styled_text fmt ''   '' k v) (login_members u)) @ [LF] @ ''}'' @ [LF]"

lemma login_styled: "rbind (login_response u) (toStyledString fmt) = Inr (login_text fmt u)"
  unfolding login_response_members rbind_Inr login_text_def
  by (rule styled_flat) (simp_all add: login_members_def value_of_string_def)

lemma login_text_long:
  fixes fmt :: "'d \<Rightarrow> string"
  shows "128 \<le> length (login_text fmt u)"
proof -
  let ?m = "login_members u :: (string \<times> 'd json) list"
  let ?xs = "map (\<lambda>(k, v). styled_text fmt ''   '' k v) ?m"
  have ok: "list_all (\<lambda>(k, v). CHR 0x00 \<notin> set k) ?m" by (simp add: login_members_def)
  have "sum_list (map (\<lambda>(k, v). length k + 9) ?m) \<le> sum_list (map (\<lambda>(k, v). length (styled_text fmt ''   '' k v)) ?m)"
  proof (rule sum_list_mono)
    fix kv assume "kv \<in> set ?m"
    then show "(case kv of (k, v) \<Rightarrow> length k + 9) \<le> (case kv of (k, v) \<Rightarrow> length (styled_text fmt ''   '' k v))"
      using ok styled_text_length [of "fst kv" "''   ''" fmt "snd kv"] by (auto simp: list_all_iff)
  qed
  also have "\<dots> = sum_list (map length ?xs)" by (simp add: comp_def case_prod_unfold)
  also have "\<dots> \<le> length (join '','' ?xs)" by (rule length_join)
  finally show ?thesis by (simp add: login_text_def login_members_def)
qed

section \<open>Properties\<close>

text \<open>
  C37. Short messages. A message of at most 16 bytes never reaches a handler. It is refused unless its length is 4, 8 or 16: then the last field of the header that
  fits ends the message and reading it accesses memory behind the message. A refused message changes nothing, except that one of more than 8 bytes
  has already replaced the sequence number of the session. A message of a header only (command, sequence number and the length 0), as a heartbeat without data is,
  has 16 bytes and accesses memory behind it.
\<close>

theorem process_short:
  assumes "length msg \<le> 16"
  shows "(if length msg \<in> {4, 8, 16} then process E s msg = Some (Inl OutOfBounds)
      else if length msg \<le> 8 then process E s msg = Some (Inr (False, s))
      else \<exists>q. process E s msg = Some (Inr (False, set_seq q s)))
    \<and> process E s (word_bytes (cmd :: i32) @ word_bytes (q :: i32) @ word_bytes (0 :: i64)) = Some (Inl OutOfBounds)"
proof -
  have short: "if length m \<in> {4, 8, 16} then process E s m = Some (Inl OutOfBounds)
      else if length m \<le> 8 then process E s m = Some (Inr (False, s))
      else \<exists>q. process E s m = Some (Inr (False, set_seq q s))" if "length m \<le> 16" for m
    using that by (auto simp: process_def readData_obj_spec newBinaryReader_def Let_def not_less)
  have len: "length (word_bytes cmd @ word_bytes q @ word_bytes (0 :: i64)) = 16" by simp
  with short [OF assms] short [of "word_bytes cmd @ word_bytes q @ word_bytes (0 :: i64)"] show ?thesis by (simp only: len) simp
qed

definition sample_env :: "(unit, unit) env" where
  "sample_env = \<lparr>e_scan = (\<lambda>_. None), e_fmt = (\<lambda>_. ''0.0''),
     e_dbl = \<lparr>d_of_int = (\<lambda>_. ()), d_trunc = (\<lambda>_. 0), d_le = (\<lambda>_ _. True), d_lt = (\<lambda>_ _. False), d_eq = (\<lambda>_ _. True)\<rparr>,
     e_api = yes_api [], e_junk = 0, e_wr = two_bytes, e_ld32 = bytes_word, e_ld64 = bytes_word\<rparr>"

definition sample_ctx :: "unit session_ctx" where
  "sample_ctx = \<lparr>sess = \<lparr>sessionId = ''id'', seq = 7\<rparr>, conn = open_conn, users = newUserManager, database = sample_db\<rparr>"

theorem process_short_witness:
  "process sample_env sample_ctx (replicate 16 (CHR 0x00)) = Some (Inl OutOfBounds)
   \<and> process sample_env sample_ctx ''abc'' = Some (Inr (False, sample_ctx))"
  using process_short [of "replicate 16 (CHR 0x00)" sample_env sample_ctx] process_short [of "''abc''" sample_env sample_ctx]
  by auto

text \<open>
  C24. Replies. The text of every reply is a JSON document from which the client reads exactly the code and
  the message. It is sent as one frame, as long as it is shorter than 128 bytes; a longer one is never sent.
\<close>

theorem reply_roundtrip:
  assumes "CHR 0x00 \<notin> set msg" "- 2147483639 \<le> sint code" "length (reply_text code msg) < 2 ^ 64"
  shows "\<exists>t. getJsonString E code msg = Inr t \<and> parse features_all scan t = Some (Inr (True, reply_json code msg, []))
     \<and> send_text E (reply_header cmd s) (getJsonString E code msg) s =
         (if length t < 128 then Some (conn_send E (frame (reply_body (seq (sess s)) t)) s) else Some (Inl UndefinedShift))"
  using getJsonString_text [OF assms(1), of E code] reply_text_parses [OF assms(1,2)]
    send_text_reply [OF assms(3), of E cmd s s] by simp

lemma fixed_replies:
  "length (reply_text RES_JOSNTYPE_ERROR ''json type error'') < 128"
  "length (reply_text RES_LOGIN_NOPASSWORD login_message) < 128"
proof -
  have show3: "length (valueToString_int RES_JOSNTYPE_ERROR) = 3" "length (valueToString_int RES_LOGIN_NOPASSWORD) = 3"
    by (simp_all add: valueToString_int_def uintToString_def RES_JOSNTYPE_ERROR_def RES_LOGIN_NOPASSWORD_def show_nat.simps)
  have "valueToQuotedString ''json type error'' = [DQ] @ ''json type error'' @ [DQ]"
    "valueToQuotedString login_message = [DQ] @ login_message @ [DQ]"
    by (rule quoted_plain, simp add: login_message_def DQ_def BS_def)+
  then show "length (reply_text RES_JOSNTYPE_ERROR ''json type error'') < 128"
    "length (reply_text RES_LOGIN_NOPASSWORD login_message) < 128"
    by (simp_all add: reply_text_def show3) (simp add: login_message_def)
qed

theorem reply_roundtrip_witness:
  "\<exists>t. getJsonString sample_env RES_JOSNTYPE_ERROR ''json type error'' = Inr t
     \<and> parse features_all (\<lambda>_. None :: unit option) t = Some (Inr (True, reply_json RES_JOSNTYPE_ERROR ''json type error'', []))"
proof -
  have "CHR 0x00 \<notin> set ''json type error''" "- 2147483639 \<le> sint RES_JOSNTYPE_ERROR"
    "length (reply_text RES_JOSNTYPE_ERROR ''json type error'') < 2 ^ 64"
    using fixed_replies(1) by (simp_all add: RES_JOSNTYPE_ERROR_def)
  from reply_roundtrip [OF this, of sample_env "\<lambda>_. None" MSG_TYPE_REGISTER sample_ctx] show ?thesis by blast
qed

text \<open>
  C23. Registration rejects passwords. A registration in which username, nickname and password are strings, as
  the protocol asks, is always answered with a type error and registers nobody. One without a password is accepted: the user gets the
  empty password, and an empty nickname, since the nickname is looked up under another name than the one checked.
\<close>

theorem register_outcome:
  assumes "parse features_all (e_scan E) data = Some (Inr (True, ObjectV kvs, errs))"
    "map_of kvs ''username'' = Some (StringV n)" "map_of kvs ''nickname'' = Some (StringV k)" "map_of kvs ''nicknime'' = None"
  shows "(map_of kvs ''password'' = Some (StringV p) \<longrightarrow> onRegisterResponse E data s =
       Some (conn_send E (frame (reply_body (seq (sess s)) (reply_text RES_JOSNTYPE_ERROR ''json type error''))) s))
   \<and> (map_of kvs ''password'' = None \<longrightarrow> onRegisterResponse E data s =
       obind (Some (addUser (e_api E) ((newUser (e_junk E))\<lparr>userName := n, nickName := [], passWord := []\<rparr>) (users s) (database s)))
         (\<lambda>(added, _, um, g). Some (conn_send E (frame (reply_body (seq (sess s))
              (if added then reply_text RES_REGISTER_SUCCESS ''register success''
               else reply_text RES_REGISTER_FAIED ''register failed''))) (s\<lparr>users := um, database := g\<rparr>))))"
proof (intro conjI impI)
  assume pw: "map_of kvs ''password'' = Some (StringV p)"
  have "register_type_error (ObjectV kvs) = Inr (True, ObjectV kvs)"
    unfolding register_type_error_def using assms(2,3) pw
    by (simp add: ref_member isString_def del: resolveReference.simps)
  then show "onRegisterResponse E data s =
       Some (conn_send E (frame (reply_body (seq (sess s)) (reply_text RES_JOSNTYPE_ERROR ''json type error''))) s)"
    using assms(1) fixed_replies(1) by (simp add: onRegisterResponse_def reply_sent)
next
  assume pw: "map_of kvs ''password'' = None"
  let ?r = "ObjectV (ins_key ''password'' NullV kvs)"
  let ?u = "(newUser (e_junk E))\<lparr>userName := n, nickName := [], passWord := []\<rparr>"
  have "register_type_error (ObjectV kvs) = Inr (False, ?r)"
    unfolding register_type_error_def using assms(2,3) pw
    by (simp add: ref_member ref_missing isString_def del: resolveReference.simps)
  moreover have "register_user E ?r = Inr ?u"
    unfolding register_user_def member_string_def using assms(2,4)
    by (simp add: ref_member ref_missing newUser_def del: resolveReference.simps)
  ultimately show "onRegisterResponse E data s =
       obind (Some (addUser (e_api E) ?u (users s) (database s)))
         (\<lambda>(added, _, um, g). Some (conn_send E (frame (reply_body (seq (sess s))
              (if added then reply_text RES_REGISTER_SUCCESS ''register success''
               else reply_text RES_REGISTER_FAIED ''register failed''))) (s\<lparr>users := um, database := g\<rparr>)))"
    using assms(1)
    by (cases "addUser (e_api E) ?u (users s) (database s)")
       (auto simp: onRegisterResponse_def Let_def reply_sent register_replies split: prod.splits)
qed

definition register_request :: "unit json" where
  "register_request = ObjectV [(''nickname'', StringV ''bob''), (''password'', StringV ''secret''), (''username'', StringV ''139'')]"

theorem register_outcome_witness:
  "onRegisterResponse sample_env (fast_write False (\<lambda>_. ''0.0'') register_request) sample_ctx =
     Some (conn_send sample_env (frame (reply_body 7 (reply_text RES_JOSNTYPE_ERROR ''json type error''))) sample_ctx)"
proof -
  let ?kvs = "[(''nickname'', StringV ''bob''), (''password'', StringV ''secret''), (''username'', StringV ''139'')] :: (string \<times> unit json) list"
  have "plain register_request" by (simp add: register_request_def ordered_def)
  from fast_parses [OF this, of "e_scan sample_env" False "\<lambda>_. ''0.0''"]
  have "parse features_all (e_scan sample_env) (fast_write False (\<lambda>_. ''0.0'') register_request) = Some (Inr (True, ObjectV ?kvs, []))"
    by (simp only: register_request_def)
  from register_outcome [OF this, of "''139''" "''bob''" "''secret''" sample_ctx] show ?thesis by (simp add: sample_ctx_def)
qed

text \<open>
  C22. Login. For a well-formed login by name the password is compared with the one of the cached user or, when nobody
  has the name, with the empty password of a fresh user, because the lookup in the database always
  reports success: the answer that the user does not exist is never given, and an unknown name with an
  empty password is let in. But no login is ever confirmed: the confirmation is longer than 127 bytes and writing its length is
  undefined.
\<close>

theorem login_outcome:
  assumes "parse features_all (e_scan E) data = Some (Inr (True, ObjectV kvs, errs))"
    "map_of kvs ''password'' = Some (StringV p)" "map_of kvs ''stastus'' = Some (IntV i)"
    "map_of kvs ''status'' = Some (IntV j)" "map_of kvs ''user'' = Some (StringV nm)"
    "u = (case find (\<lambda>it. userName it = nm) (cachedUsers (users s)) of Some it \<Rightarrow> it | None \<Rightarrow> newUser (e_junk E))"
    "length (login_text (e_fmt E) u) < 2 ^ 64"
  shows "onLoginResponse E data s =
     (if passWord u \<noteq> p
      then Some (conn_send E (frame (reply_body (seq (sess s)) (reply_text RES_LOGIN_NOPASSWORD login_message))) s)
      else Some (Inl UndefinedShift))"
proof -
  have "login_type_error (ObjectV kvs) = Inr (False, ObjectV kvs)"
    unfolding login_type_error_def using assms(2,3) by (simp add: ref_member isString_def isInt_def del: resolveReference.simps)
  moreover have "member_string ''password'' (ObjectV kvs) = Inr (p, ObjectV kvs)"
    unfolding member_string_def using assms(2) by (simp add: ref_member del: resolveReference.simps)
  moreover have "resolveReference ''status'' (ObjectV kvs) = Inr (IntV j, ObjectV kvs)"
    using assms(4) by (simp add: ref_member del: resolveReference.simps)
  moreover have "login_user E (users s) (ObjectV kvs) = Inr (True, u)"
    unfolding login_user_def using assms(5,6)
    by (simp add: ref_member isString_def getUserInfoFromCached_name_def getUserInfoFromDB_name_def
        del: resolveReference.simps split: option.splits)
  moreover have "send_text E (reply_header MSG_TYPE_LOGIN s) (rbind (login_response u) (toStyledString (e_fmt E))) s = Some (Inl UndefinedShift)"
    unfolding login_styled send_text_reply [OF assms(7)] using login_text_long [of "e_fmt E" u] by simp
  moreover have "CHR 0x00 \<notin> set login_message" by (simp add: login_message_def)
  ultimately show ?thesis
    using assms(1) fixed_replies(2) by (simp add: onLoginResponse_def reply_sent del: resolveReference.simps)
qed

definition login_request :: "unit json" where
  "login_request = ObjectV [(''password'', StringV []), (''stastus'', IntV 1), (''status'', IntV 1), (''user'', StringV ''nobody'')]"

theorem login_outcome_witness:
  "onLoginResponse sample_env (fast_write False (\<lambda>_. ''0.0'') login_request) sample_ctx = Some (Inl UndefinedShift)"
proof -
  let ?kvs = "[(''password'', StringV []), (''stastus'', IntV 1), (''status'', IntV 1), (''user'', StringV ''nobody'')] :: (string \<times> unit json) list"
  have "plain login_request" by (simp add: login_request_def ordered_def)
  from fast_parses [OF this, of "e_scan sample_env" False "\<lambda>_. ''0.0''"]
  have "parse features_all (e_scan sample_env) (fast_write False (\<lambda>_. ''0.0'') login_request) = Some (Inr (True, ObjectV ?kvs, []))"
    by (simp only: login_request_def)
  moreover have "length (login_text (e_fmt sample_env) (newUser 0)) < 2 ^ 64"
    by (simp add: login_text_def login_members_def styled_text_def member_text_def newUser_def value_of_string_def c_str_id
        quoted_plain DQ_def BS_def login_message_def RES_LOGIN_SUCCESS_def valueToString_int_def uintToString_def show_nat.simps)
  ultimately show ?thesis
    using login_outcome [of sample_env "fast_write False (\<lambda>_. ''0.0'') login_request" ?kvs "[]" "[]" 1 1 "''nobody''" "newUser 0" sample_ctx]
    by (simp add: sample_ctx_def newUserManager_def sample_env_def newUser_def)
qed

end
