(* ===== verification/IMServer.thy ===== *)
theory IMServer
  imports ClientSession
begin

text \<open>
  The chat server (\<open>IMServer.h\<close>, \<open>IMServer.cpp\<close>) and its start (\<open>main.cpp\<close>): the TCP server with its
  connections and the map of sessions. The server has no further threads, so what a loop is handed with
  \<open>runInLoop\<close> runs at once. A connection is known by its number in the table of the TCP server, as in
  \<open>TcpServer\<close>. The identifier a new session draws is the parameter \<open>uuid\<close>.
\<close>

section \<open>State and operations\<close>

record im_server =
  server :: tcp_server
  mapClientSession :: "string \<rightharpoonup> client_session"

definition im_init :: "string \<Rightarrow> (nat \<Rightarrow> nat) \<Rightarrow> im_server res" where
  "im_init addr startLoop =
     rbind (srv_start startLoop (newTcpServer addr ''IMServer'')) (\<lambda>srv.
     Inr \<lparr>server = srv, mapClientSession = Map.empty\<rparr>)"

definition set_conn :: "nat \<Rightarrow> tcp_conn \<Rightarrow> im_server \<Rightarrow> im_server" where
  "set_conn cid c s = s\<lparr>server := (server s)\<lparr>conns := (conns (server s))(cid \<mapsto> c)\<rparr>\<rparr>"

text \<open>The constructor of a session gives the connection its own identifier as name.\<close>

definition newClientSession :: "string \<Rightarrow> tcp_conn \<Rightarrow> client_session \<times> tcp_conn" where
  "newClientSession uuid c = (\<lparr>sessionId = uuid, seq = 0\<rparr>, c\<lparr>conn_name := uuid\<rparr>)"

definition OnClose :: "tcp_conn \<Rightarrow> im_server \<Rightarrow> im_server" where
  "OnClose c s =
     (case mapClientSession s (conn_name c) of
        Some _ \<Rightarrow> s\<lparr>mapClientSession := (mapClientSession s)(conn_name c := None)\<rparr>
      | None \<Rightarrow> s)"

text \<open>\<open>insert\<close> leaves an entry that is there.\<close>

definition OnConnection :: "string \<Rightarrow> nat \<Rightarrow> tcp_conn \<Rightarrow> im_server \<Rightarrow> im_server" where
  "OnConnection uuid cid c s =
     (if connected c
      then case newClientSession uuid c of (client, c') \<Rightarrow>
             let s1 = set_conn cid c' s
             in (case mapClientSession s1 (sessionId client) of
                   Some _ \<Rightarrow> s1
                 | None \<Rightarrow> s1\<lparr>mapClientSession := (mapClientSession s1)(sessionId client \<mapsto> client)\<rparr>)
      else OnClose c s)"

text \<open>
  The paths of the TCP server that lead here. Accepting: \<open>newConnection\<close>, \<open>connectEstablished\<close>, and its
  last call, the connection callback. Closing: \<open>handleClose\<close> with the connection callback and then the close callback,
  \<open>removeConnectionInLoop\<close>. \<open>quiet\<close> is a user without calls of its own.
\<close>

definition quiet :: conn_user where
  "quiet = \<lparr>onConnection = (\<lambda>_. []), onMessage = (\<lambda>_. [])\<rparr>"

definition im_accept :: "writer \<Rightarrow> int \<Rightarrow> string \<Rightarrow> im_server \<Rightarrow> (nat \<times> im_server) res" where
  "im_accept wr sockfd uuid s =
     rbind (newConnection sockfd (server s)) (\<lambda>(cid, srv).
     case conns srv cid of
       None \<Rightarrow> Inl OutOfBounds
     | Some c \<Rightarrow> rbind (connectEstablished wr quiet c) (\<lambda>c'.
         Inr (cid, OnConnection uuid cid c' (set_conn cid c' (s\<lparr>server := srv\<rparr>)))))"

definition im_close :: "writer \<Rightarrow> string \<Rightarrow> nat \<Rightarrow> im_server \<Rightarrow> im_server res" where
  "im_close wr uuid cid s =
     (case conns (server s) cid of
        None \<Rightarrow> Inl OutOfBounds
      | Some c \<Rightarrow> rbind (handleClose wr quiet c) (\<lambda>c'.
          let s1 = OnConnection uuid cid c' (set_conn cid c' s)
          in rbind (removeConnectionInLoop cid (server s1)) (\<lambda>srv. Inr (s1\<lparr>server := srv\<rparr>))))"

fun im_accepts :: "writer \<Rightarrow> (int \<times> string) list \<Rightarrow> im_server \<Rightarrow> im_server res" where
  "im_accepts wr [] s = Inr s"
| "im_accepts wr ((sfd, uuid) # xs) s = rbind (im_accept wr sfd uuid s) (\<lambda>(_, s'). im_accepts wr xs s')"

text \<open>\<open>main\<close> after the options: the database, the users, the server; or the exit status of the first that fails.\<close>

datatype start_result = ExitStatus int | Serving im_server

definition main_start ::
  "'m mysql_api \<Rightarrow> i32 \<Rightarrow> 'm \<Rightarrow> table_info list \<Rightarrow> (nat \<Rightarrow> nat) \<Rightarrow> start_result res" where
  "main_start api junk m tables startLoop =
     rbind (mysql_init api ''127.0.0.1'' ''root'' ''wanzg666'' ''IMServer'' 3306 m (newMysqlManager tables)) (\<lambda>(ok, g).
     if \<not> ok then Inr (ExitStatus (- 2))
     else rbind (um_init api junk newUserManager g) (\<lambda>(ok, um, g').
          if \<not> ok then Inr (ExitStatus (- 3))
          else rbind (im_init ''127.0.0.1:9527'' startLoop) (\<lambda>s. Inr (Serving s))))"

section \<open>The table of connections and the renamed connections\<close>

definition hex_uuid :: "string \<Rightarrow> bool" where
  "hex_uuid u \<longleftrightarrow> list_all (\<lambda>c. c \<in> set ''0123456789abcdef-'') u"

text \<open>Every name in the table is one \<open>newConnection\<close> made, every connection has been renamed and is open.\<close>

definition im_inv :: "im_server \<Rightarrow> bool" where
  "im_inv s \<longleftrightarrow> pool_started (pool (server s)) \<and> loops (pool (server s)) = [] \<and> srv_name (server s) = ''IMServer''
     \<and> (\<forall>nm. connections (server s) nm \<noteq> None \<longrightarrow> take 8 nm = ''IMServer'')
     \<and> (\<forall>cid < created (server s). \<exists>c l. conns (server s) cid = Some c \<and> conn_loop (server s) cid = Some l
           \<and> state c = kConnected \<and> hex_uuid (conn_name c))"

lemma uuid_not_registered: "im_inv s \<Longrightarrow> hex_uuid u \<Longrightarrow> connections (server s) u = None"
proof (rule ccontr)
  assume "im_inv s" "hex_uuid u" "connections (server s) u \<noteq> None"
  then have "take 8 u = ''IMServer''" by (simp add: im_inv_def)
  then have "CHR ''I'' \<in> set (take 8 u)" by simp
  then have "CHR ''I'' \<in> set u" by (rule in_set_takeD)
  then have "CHR ''I'' \<in> set ''0123456789abcdef-''" using \<open>hex_uuid u\<close> unfolding hex_uuid_def list_all_iff by (rule bspec [rotated])
  then show False by simp
qed

lemma connectEstablished_quiet:
  assumes "state c = kConnecting"
  obtains c' where "connectEstablished wr quiet c = Inr c'" "state c' = kConnected"
  using assms that
  by (simp add: connectEstablished_def connectionCallback_def quiet_def setState_def on_chan_def Let_def)

lemma handleClose_quiet:
  assumes "state c = kConnected"
  obtains c' where "handleClose wr quiet c = Inr c'" "state c' = kDisconnected" "conn_name c' = conn_name c"
  using assms that
  by (simp add: handleClose_def connectionCallback_def quiet_def setState_def on_chan_def closeCallback_def conn_queue_def Let_def)

lemma accept_spec:
  assumes inv: "im_inv s" and u: "hex_uuid uuid" and room: "nextConnId (server s) + 1 < 2 ^ 31"
  shows "\<exists>s'. im_accept wr sfd uuid s = Inr (created (server s), s') \<and> im_inv s'
     \<and> created (server s') = Suc (created (server s)) \<and> nextConnId (server s') = nextConnId (server s) + 1"
proof -
  let ?srv = "server s" and ?cid = "created (server s)"
  let ?nm = "connName (srv_name ?srv) (ipPort ?srv) (nextConnId ?srv)"
  let ?c = "newTcpConnection ?nm sfd False"
  let ?srv1 = "?srv\<lparr>nextConnId := nextConnId ?srv + 1, created := Suc ?cid, conns := (conns ?srv)(?cid \<mapsto> ?c),
       conn_loop := (conn_loop ?srv)(?cid \<mapsto> baseLoop (pool ?srv)), connections := (connections ?srv)(?nm \<mapsto> ?cid),
       posted := posted ?srv @ [(baseLoop (pool ?srv), ?cid, CallEstablished)]\<rparr>"
  have new: "newConnection sfd ?srv = Inr (?cid, ?srv1)"
    using inv room by (simp add: newConnection_def getNextLoop_def im_inv_def Let_def)
  obtain c' where c': "connectEstablished wr quiet ?c = Inr c'" "state c' = kConnected"
    by (rule connectEstablished_quiet [of ?c]) (simp_all add: newTcpConnection_def)
  define s' where "s' = OnConnection uuid ?cid c' (set_conn ?cid c' (s\<lparr>server := ?srv1\<rparr>))"
  have run: "im_accept wr sfd uuid s = Inr (?cid, s')" using new c'(1) by (simp add: im_accept_def s'_def)
  have srv: "server s' = ?srv1\<lparr>conns := (conns ?srv)(?cid \<mapsto> c'\<lparr>conn_name := uuid\<rparr>)\<rparr>"
    using c'(2) by (simp add: s'_def OnConnection_def connected_def newClientSession_def set_conn_def Let_def split: option.splits)
  have "take 8 ?nm = ''IMServer''" using inv by (simp add: im_inv_def connName_def)
  then have "im_inv s'" using inv u c'(2) unfolding im_inv_def srv by (auto simp: less_Suc_eq)
  with run show ?thesis by (simp add: srv)
qed

lemma accepts_spec:
  assumes "im_inv s" "list_all (\<lambda>(sfd, uuid). hex_uuid uuid) xs" "nextConnId (server s) + int (length xs) < 2 ^ 31"
  shows "\<exists>s'. im_accepts wr xs s = Inr s' \<and> im_inv s' \<and> created (server s') = created (server s) + length xs"
  using assms
proof (induction xs arbitrary: s)
  case (Cons x xs)
  obtain sfd uuid where x: "x = (sfd, uuid)" by fastforce
  from Cons.prems x accept_spec [of s uuid wr sfd] obtain s1 where s1: "im_accept wr sfd uuid s = Inr (created (server s), s1)"
    "im_inv s1" "created (server s1) = Suc (created (server s))" "nextConnId (server s1) = nextConnId (server s) + 1" by auto
  with Cons.IH [of s1] Cons.prems x show ?case by simp
qed simp

lemma close_aborts:
  assumes "im_inv s" "cid < created (server s)"
  shows "im_close wr uuid cid s = Inl AssertFail"
proof -
  obtain c l where c: "conns (server s) cid = Some c" "conn_loop (server s) cid = Some l" "state c = kConnected" "hex_uuid (conn_name c)"
    using assms by (auto simp: im_inv_def)
  obtain c' where c': "handleClose wr quiet c = Inr c'" "state c' = kDisconnected" "conn_name c' = conn_name c"
    by (rule handleClose_quiet [OF c(3)])
  let ?s = "OnConnection uuid cid c' (set_conn cid c' s)"
  have "connections (server ?s) = connections (server s)" "conn_loop (server ?s) cid = Some l" "conns (server ?s) cid = Some c'"
    using c' c(2) by (simp_all add: OnConnection_def connected_def OnClose_def set_conn_def split: option.splits)
  then have "removeConnectionInLoop cid (server ?s) = Inl AssertFail"
    using uuid_not_registered [OF assms(1) c(4)] c'(3) by (simp add: removeConnectionInLoop_def)
  then show ?thesis using c(1) c'(1) by (simp add: im_close_def Let_def)
qed

lemma im_init_inv: "im_init addr startLoop = Inr s \<Longrightarrow> im_inv s \<and> created (server s) = 0 \<and> nextConnId (server s) = 1"
  by (auto simp: im_init_def srv_start_def newTcpServer_def pool_start_def newEventLoopThreadPool_def res_simps im_inv_def)

section \<open>Properties\<close>

text \<open>
  C21. The first client that leaves stops the server. The session changes the name of its connection to a random
  identifier, under which the TCP server has not registered it. However many clients have connected, closing any
  one of the connections fails the assertion of \<open>removeConnectionInLoop\<close>, which aborts the process.
\<close>

theorem close_stops_server:
  assumes "im_init addr startLoop = Inr s" "list_all (\<lambda>(sfd, uuid). hex_uuid uuid) xs" "length xs < 2 ^ 31 - 1" "cid < length xs"
  shows "\<exists>s'. im_accepts wr xs s = Inr s' \<and> im_close wr uuid cid s' = Inl AssertFail"
proof -
  have s: "im_inv s" "created (server s) = 0" "nextConnId (server s) = 1" using im_init_inv [OF assms(1)] by blast+
  obtain s' where "im_accepts wr xs s = Inr s'" "im_inv s'" "created (server s') = length xs"
    using accepts_spec [OF s(1) assms(2)] s(2,3) assms(3) by auto
  with close_aborts assms(4) show ?thesis by auto
qed

theorem close_stops_server_witness:
  "\<exists>s s'. im_init ''127.0.0.1:9527'' id = Inr s
     \<and> im_accepts two_bytes [(5, ''a1-b2''), (6, ''c3-d4'')] s = Inr s' \<and> im_close two_bytes [] 1 s' = Inl AssertFail"
proof -
  obtain s where s: "im_init ''127.0.0.1:9527'' id = Inr s"
    by (auto simp: im_init_def srv_start_def newTcpServer_def pool_start_def newEventLoopThreadPool_def)
  from close_stops_server [OF this, of "[(5, ''a1-b2''), (6, ''c3-d4'')]" 1 two_bytes "[]"] show ?thesis
    using s by (auto simp: hex_uuid_def)
qed

end
