(* ===== verification/Connector.thy ===== *)
theory Connector
  imports Channel
begin

text \<open>
  The connector of a TCP client (\<open>Connector.h\<close>, \<open>Connector.cc\<close>): it opens sockets until one connects, with a growing
  delay between the attempts, and hands the connected socket over. Sockets are numbered in the order
  of their creation. The outcomes of \<open>connect\<close>, of \<open>SO_ERROR\<close> and of the test for a self connection are the environment, by socket.
\<close>

section \<open>State\<close>

datatype connector_state = CDisconnected | CConnecting | CConnected

datatype connector_functor = StartF | StopF | ResetF

text \<open>
  \<open>queue\<close> are the functors the loop has not run, \<open>timers\<close> the delays of the armed timers, \<open>created\<close> the number of
  sockets made so far, \<open>opened\<close> those not closed, \<open>given\<close> those handed over and \<open>delays\<close> the delays since the last restart.
\<close>

record connector =
  connect_flag :: bool
  cn_state :: connector_state
  cn_channel :: "channel option"
  retryDelayMs :: int
  queue :: "connector_functor list"
  timers :: "int list"
  created :: nat
  opened :: "int list"
  given :: "int list"
  delays :: "int list"

record connect_env =
  connect_errno :: "int \<Rightarrow> int"
  socket_error :: "int \<Rightarrow> int"
  self_connect :: "int \<Rightarrow> bool"

definition kMaxRetryDelayMs :: int where "kMaxRetryDelayMs = 30 * 1000"
definition kInitRetryDelayMs :: int where "kInitRetryDelayMs = 500"

definition newConnector :: connector where
  "newConnector = \<lparr>connect_flag = False, cn_state = CDisconnected, cn_channel = None, retryDelayMs = kInitRetryDelayMs,
     queue = [], timers = [], created = 0, opened = [], given = [], delays = []\<rparr>"

definition destroyConnector :: "connector \<Rightarrow> unit res" where
  "destroyConnector c = c_assert (cn_channel c = None) (Inr ())"

section \<open>Operations\<close>

definition close_socket :: "int \<Rightarrow> connector \<Rightarrow> connector" where
  "close_socket sockfd c = c\<lparr>opened := removeAll sockfd (opened c)\<rparr>"

definition retry :: "int \<Rightarrow> connector \<Rightarrow> connector" where
  "retry sockfd c =
     (let c1 = (close_socket sockfd c)\<lparr>cn_state := CDisconnected\<rparr>
      in if connect_flag c1
         then c1\<lparr>timers := timers c1 @ [retryDelayMs c1], delays := delays c1 @ [retryDelayMs c1],
                 retryDelayMs := min (retryDelayMs c1 * 2) kMaxRetryDelayMs\<rparr>
         else c1)"

definition connecting :: "int \<Rightarrow> connector \<Rightarrow> connector res" where
  "connecting sockfd c =
     c_assert (cn_channel c = None)
       (Inr (c\<lparr>cn_state := CConnecting, cn_channel := Some (enableWriting (newChannel sockfd))\<rparr>))"

text \<open>The error numbers of Linux: 0, \<open>EINPROGRESS\<close>, \<open>EINTR\<close>, \<open>EISCONN\<close>; and
  \<open>EAGAIN\<close>, \<open>EADDRINUSE\<close>, \<open>EADDRNOTAVAIL\<close>, \<open>ECONNREFUSED\<close>, \<open>ENETUNREACH\<close>.\<close>

definition in_progress :: "int \<Rightarrow> bool" where
  "in_progress e \<longleftrightarrow> e \<in> {0, 115, 4, 106}"

definition transient :: "int \<Rightarrow> bool" where
  "transient e \<longleftrightarrow> e \<in> {11, 98, 99, 111, 101}"

definition do_connect :: "connect_env \<Rightarrow> connector \<Rightarrow> connector res" where
  "do_connect env c =
     (let sockfd = int (created c);
          c1 = c\<lparr>created := Suc (created c), opened := opened c @ [sockfd]\<rparr>;
          savedErrno = connect_errno env sockfd
      in if in_progress savedErrno then connecting sockfd c1
         else if transient savedErrno then Inr (retry sockfd c1)
         else Inr (close_socket sockfd c1))"

definition startInLoop :: "connect_env \<Rightarrow> connector \<Rightarrow> connector res" where
  "startInLoop env c =
     c_assert (cn_state c = CDisconnected) (if connect_flag c then do_connect env c else Inr c)"

definition connector_start :: "connect_env \<Rightarrow> bool \<Rightarrow> connector \<Rightarrow> connector res" where
  "connector_start env in_loop c =
     (let c1 = c\<lparr>connect_flag := True\<rparr>
      in if in_loop then startInLoop env c1 else Inr (c1\<lparr>queue := queue c1 @ [StartF]\<rparr>))"

definition connector_stop :: "connector \<Rightarrow> connector" where
  "connector_stop c = c\<lparr>connect_flag := False, queue := queue c @ [StopF]\<rparr>"

definition restart :: "connect_env \<Rightarrow> connector \<Rightarrow> connector res" where
  "restart env c =
     startInLoop env (c\<lparr>cn_state := CDisconnected, retryDelayMs := kInitRetryDelayMs, connect_flag := True, delays := []\<rparr>)"

text \<open>\<open>Channel::remove\<close> asserts that the channel has no interest left.\<close>

definition removeAndResetChannel :: "connector \<Rightarrow> (int \<times> connector) res" where
  "removeAndResetChannel c =
     (case cn_channel c of
        None \<Rightarrow> Inl OutOfBounds
      | Some ch \<Rightarrow>
          let ch1 = disableAll ch
          in c_assert (isNoneEvent ch1)
               (Inr (fd ch1, c\<lparr>cn_channel := Some (ch1\<lparr>addedToLoop := False\<rparr>), queue := queue c @ [ResetF]\<rparr>)))"

definition resetChannel :: "connector \<Rightarrow> connector res" where
  "resetChannel c =
     (case cn_channel c of
        None \<Rightarrow> Inr c
      | Some ch \<Rightarrow> rbind (destroyChannel ch) (\<lambda>_. Inr (c\<lparr>cn_channel := None\<rparr>)))"

definition stopInLoop :: "connector \<Rightarrow> connector res" where
  "stopInLoop c =
     (if cn_state c = CConnecting
      then rbind (removeAndResetChannel (c\<lparr>cn_state := CDisconnected\<rparr>)) (\<lambda>(sockfd, c1). Inr (retry sockfd c1))
      else Inr c)"

definition connector_handleWrite :: "connect_env \<Rightarrow> connector \<Rightarrow> connector res" where
  "connector_handleWrite env c =
     (if cn_state c = CConnecting
      then rbind (removeAndResetChannel c) (\<lambda>(sockfd, c1).
           if socket_error env sockfd \<noteq> 0 then Inr (retry sockfd c1)
           else if self_connect env sockfd then Inr (retry sockfd c1)
           else let c2 = c1\<lparr>cn_state := CConnected\<rparr>
                in Inr (if connect_flag c2 then c2\<lparr>given := given c2 @ [sockfd]\<rparr> else close_socket sockfd c2))
      else c_assert (cn_state c = CDisconnected) (Inr c))"

definition connector_handleError :: "connector \<Rightarrow> connector res" where
  "connector_handleError c =
     (if cn_state c = CConnecting
      then rbind (removeAndResetChannel c) (\<lambda>(sockfd, c1). Inr (retry sockfd c1))
      else Inr c)"

section \<open>Runs\<close>

text \<open>
  The user starts (from the loop or another thread), stops and restarts; the loop runs a queued functor, fires a timer or
  reports the channel's events (an error, writability, or both). The poller reports only a channel
  with an interest. A timer armed by \<open>retry\<close> fires in a later round than the functor
  that resets the channel, which was queued before it in the same callback.
\<close>

datatype connector_event = CStart bool | CStop | CRestart | CFunctor | CTimer | CReady bool bool

definition set_handling :: "bool \<Rightarrow> connector \<Rightarrow> connector" where
  "set_handling b c = c\<lparr>cn_channel := map_option (\<lambda>ch. ch\<lparr>eventHandling := b\<rparr>) (cn_channel c)\<rparr>"

fun connector_step :: "connect_env \<Rightarrow> connector_event \<Rightarrow> connector \<Rightarrow> connector res" where
  "connector_step env (CStart in_loop) c = connector_start env in_loop c"
| "connector_step env CStop c = Inr (connector_stop c)"
| "connector_step env CRestart c = restart env c"
| "connector_step env CFunctor c =
     (case queue c of
        [] \<Rightarrow> Inr c
      | f # fs \<Rightarrow>
          let c1 = c\<lparr>queue := fs\<rparr>
          in case f of StartF \<Rightarrow> startInLoop env c1 | StopF \<Rightarrow> stopInLoop c1 | ResetF \<Rightarrow> resetChannel c1)"
| "connector_step env CTimer c =
     (if timers c = [] \<or> ResetF \<in> set (queue c) then Inr c else startInLoop env (c\<lparr>timers := tl (timers c)\<rparr>))"
| "connector_step env (CReady err wr) c =
     (case cn_channel c of
        None \<Rightarrow> Inr c
      | Some ch \<Rightarrow>
          if isNoneEvent ch then Inr c
          else rbind (if err then connector_handleError (set_handling True c) else Inr (set_handling True c)) (\<lambda>c1.
               rbind (if wr then connector_handleWrite env c1 else Inr c1) (\<lambda>c2. Inr (set_handling False c2))))"

fun connector_run :: "connect_env \<Rightarrow> connector_event list \<Rightarrow> connector \<Rightarrow> connector res" where
  "connector_run env [] c = Inr c"
| "connector_run env (e # es) c = rbind (connector_step env e c) (connector_run env es)"

text \<open>
  The rules of use: \<open>start\<close> is for a connector on which nothing is under way, \<open>restart\<close> for one that has
  connected, once its channel is reset.
\<close>

definition idle :: "connector \<Rightarrow> bool" where
  "idle c \<longleftrightarrow> cn_state c = CDisconnected \<and> cn_channel c = None \<and> timers c = [] \<and> StartF \<notin> set (queue c) \<and> ResetF \<notin> set (queue c)"

fun use_ok :: "connector_event \<Rightarrow> connector \<Rightarrow> bool" where
  "use_ok (CStart in_loop) c \<longleftrightarrow> idle c"
| "use_ok CRestart c \<longleftrightarrow> cn_state c = CConnected \<and> cn_channel c = None"
| "use_ok _ c \<longleftrightarrow> True"

fun used_ok :: "connect_env \<Rightarrow> connector_event list \<Rightarrow> connector \<Rightarrow> bool" where
  "used_ok env [] c \<longleftrightarrow> True"
| "used_ok env (e # es) c \<longleftrightarrow> use_ok e c \<and> (case connector_step env e c of Inr c' \<Rightarrow> used_ok env es c' | Inl _ \<Rightarrow> True)"

section \<open>The invariant\<close>

definition resets :: "connector \<Rightarrow> nat" where
  "resets c = length (filter (\<lambda>f. f = ResetF) (queue c))"

definition starts :: "connector \<Rightarrow> nat" where
  "starts c = length (filter (\<lambda>f. f = StartF) (queue c))"

text \<open>At most one attempt is under way: a queued start, an armed timer or a socket that connects.\<close>

definition attempts :: "connector \<Rightarrow> nat" where
  "attempts c = starts c + length (timers c) + (if cn_state c = CConnecting then 1 else 0)"

definition chan_ok :: "connector \<Rightarrow> bool" where
  "chan_ok c \<longleftrightarrow>
     (case cn_channel c of
        None \<Rightarrow> cn_state c \<noteq> CConnecting \<and> resets c = 0
      | Some ch \<Rightarrow> \<not> eventHandling ch \<and>
          (if cn_state c = CConnecting
           then resets c = 0 \<and> \<not> isNoneEvent ch \<and> addedToLoop ch
           else resets c = 1 \<and> isNoneEvent ch \<and> \<not> addedToLoop ch))"

definition sockets_ok :: "connector \<Rightarrow> bool" where
  "sockets_ok c \<longleftrightarrow> distinct (given c) \<and> (\<forall>x \<in> set (opened c) \<union> set (given c). 0 \<le> x \<and> x < int (created c))
     \<and> set (opened c) = set (given c) \<union> (if cn_state c = CConnecting then {fd (the (cn_channel c))} else {})
     \<and> (cn_state c = CConnecting \<longrightarrow> fd (the (cn_channel c)) \<notin> set (given c))"

text \<open>The delay before attempt \<open>i\<close>, in milliseconds.\<close>

definition backoff :: "nat \<Rightarrow> int" where
  "backoff i = min (500 * 2 ^ i) 30000"

definition delays_ok :: "connector \<Rightarrow> bool" where
  "delays_ok c \<longleftrightarrow> delays c = map backoff [0..<length (delays c)] \<and> retryDelayMs c = backoff (length (delays c))"

definition connector_inv :: "connector \<Rightarrow> bool" where
  "connector_inv c \<longleftrightarrow> attempts c \<le> 1 \<and> (cn_state c = CConnected \<longrightarrow> attempts c = 0) \<and> chan_ok c \<and> sockets_ok c \<and> delays_ok c
     \<and> (starts c = 1 \<longrightarrow> cn_channel c = None)"

text \<open>A socket that is open and belongs to nobody yet.\<close>

definition loose :: "int \<Rightarrow> connector \<Rightarrow> bool" where
  "loose sockfd c \<longleftrightarrow> starts c = 0 \<and> timers c = [] \<and> chan_ok (c\<lparr>cn_state := CDisconnected\<rparr>) \<and> delays_ok c
     \<and> distinct (given c) \<and> (\<forall>x \<in> insert sockfd (set (given c)). 0 \<le> x \<and> x < int (created c))
     \<and> set (opened c) = insert sockfd (set (given c)) \<and> sockfd \<notin> set (given c)"

lemmas conn_defs = attempts_def starts_def resets_def chan_ok_def sockets_ok_def delays_ok_def

lemma backoff_step: "min (backoff i * 2) kMaxRetryDelayMs = backoff (Suc i)"
  by (simp add: backoff_def kMaxRetryDelayMs_def min_def)

lemma delays_ok_more:
  assumes "delays_ok c"
  shows "delays c @ [retryDelayMs c] = map backoff [0..<Suc (length (delays c))]"
proof -
  have "delays c = map backoff [0..<length (delays c)]" "retryDelayMs c = backoff (length (delays c))"
    using assms by (simp_all add: delays_ok_def)
  then show ?thesis by (metis map_append list.map upt_Suc_append le0)
qed

lemma retry_inv: "loose sockfd c \<Longrightarrow> connector_inv (retry sockfd c)"
proof -
  assume l: "loose sockfd c"
  define d where "d = delays c"
  have rd: "retryDelayMs c = backoff (length d)" and dm: "d @ [backoff (length d)] = map backoff [0..<Suc (length d)]"
    using l delays_ok_more [of c] by (auto simp: loose_def delays_ok_def d_def)
  show ?thesis
    using l rd dm backoff_step [of "length d"]
    by (auto simp: connector_inv_def loose_def retry_def Let_def close_socket_def conn_defs d_def [symmetric] split: option.splits)
qed

lemma close_inv: "loose sockfd c \<Longrightarrow> st \<noteq> CConnecting \<Longrightarrow> connector_inv ((close_socket sockfd c)\<lparr>cn_state := st\<rparr>)"
  by (auto simp: connector_inv_def loose_def close_socket_def conn_defs split: option.splits)

lemma give_inv: "loose sockfd c \<Longrightarrow> connector_inv (c\<lparr>cn_state := CConnected, given := given c @ [sockfd]\<rparr>)"
  by (auto simp: connector_inv_def loose_def conn_defs split: option.splits)

lemma remove_loose:
  assumes "connector_inv c" "cn_state c = CConnecting"
  shows "\<exists>sockfd c'. removeAndResetChannel c = Inr (sockfd, c') \<and> loose sockfd c' \<and> cn_state c' = CConnecting"
proof -
  obtain ch where ch: "cn_channel c = Some ch" using assms by (auto simp: connector_inv_def chan_ok_def split: option.splits)
  have n: "isNoneEvent (disableAll ch)" by (simp add: isNoneEvent_def disableAll_def)
  define c' where "c' = c\<lparr>cn_channel := Some ((disableAll ch)\<lparr>addedToLoop := False\<rparr>), queue := queue c @ [ResetF]\<rparr>"
  have "loose (fd (disableAll ch)) c'"
    using assms ch
    by (auto simp: connector_inv_def loose_def conn_defs c'_def isNoneEvent_def disableAll_def split: if_splits)
  then show ?thesis using ch n assms(2) by (simp add: removeAndResetChannel_def Let_def c'_def)
qed

text \<open>The flag and the order of other functors do not matter to the invariant.\<close>

lemma inv_flag: "connector_inv (c\<lparr>connect_flag := b\<rparr>) = connector_inv c"
  by (cases "cn_channel c") (simp_all add: connector_inv_def conn_defs)

lemma stop_inv: "connector_inv c \<Longrightarrow> connector_inv (connector_stop c)"
  by (cases "cn_channel c"; cases "cn_state c") (simp_all add: connector_stop_def connector_inv_def conn_defs)

lemma remove_state: "removeAndResetChannel (c\<lparr>cn_state := st\<rparr>)
    = rbind (removeAndResetChannel c) (\<lambda>(n, c'). Inr (n, c'\<lparr>cn_state := st\<rparr>))"
  by (simp add: removeAndResetChannel_def Let_def c_assert_def split: option.splits)

lemma retry_state: "retry n (c\<lparr>cn_state := st\<rparr>) = retry n c"
  by (simp add: retry_def close_socket_def Let_def)

lemma stopInLoop_inv: "connector_inv c \<Longrightarrow> \<exists>c'. stopInLoop c = Inr c' \<and> connector_inv c'"
  using remove_loose [of c] retry_inv by (auto simp: stopInLoop_def remove_state retry_state)

lemma handleError_inv:
  "connector_inv c \<Longrightarrow> \<exists>c'. connector_handleError c = Inr c' \<and> connector_inv c' \<and> (cn_state c = CConnecting \<longrightarrow> cn_state c' = CDisconnected)"
  using remove_loose [of c] retry_inv by (auto simp: connector_handleError_def retry_def Let_def)

lemma connector_handleWrite_inv:
  assumes "connector_inv c" "cn_state c \<noteq> CConnected"
  shows "\<exists>c'. connector_handleWrite env c = Inr c' \<and> connector_inv c'"
proof (cases "cn_state c = CConnecting")
  case True
  obtain sockfd c1 where c1: "removeAndResetChannel c = Inr (sockfd, c1)" "loose sockfd c1"
    using remove_loose [OF assms(1) True] by blast
  have "close_socket sockfd (c1\<lparr>cn_state := CConnected\<rparr>) = (close_socket sockfd c1)\<lparr>cn_state := CConnected\<rparr>"
    by (simp add: close_socket_def)
  then show ?thesis
    using True c1 retry_inv [OF c1(2)] give_inv [OF c1(2)] close_inv [OF c1(2), of CConnected]
    by (simp add: connector_handleWrite_def Let_def)
next
  case False
  then show ?thesis using assms by (cases "cn_state c") (auto simp: connector_handleWrite_def)
qed

text \<open>Opening a socket when nothing else is under way.\<close>

lemma startInLoop_inv:
  assumes "connector_inv c" "cn_state c = CDisconnected" "cn_channel c = None" "starts c = 0" "timers c = []"
  shows "\<exists>c'. startInLoop env c = Inr c' \<and> connector_inv c'"
proof -
  define c1 where "c1 = c\<lparr>created := Suc (created c), opened := opened c @ [int (created c)]\<rparr>"
  have l: "loose (int (created c)) c1"
    using assms by (auto simp: connector_inv_def loose_def conn_defs c1_def intro: less_trans)
  have n: "\<not> isNoneEvent (enableWriting (newChannel x))" for x
    by (simp add: isNoneEvent_def enableWriting_def newChannel_def kWriteEvent_def poll_flags kNoneEvent_def)
  have conn: "connector_inv (c1\<lparr>cn_state := CConnecting, cn_channel := Some (enableWriting (newChannel (int (created c))))\<rparr>)"
    using assms l n
    by (auto simp: connector_inv_def loose_def conn_defs c1_def enableWriting_def newChannel_def)
  have "close_socket (int (created c)) c1 = (close_socket (int (created c)) c1)\<lparr>cn_state := CDisconnected\<rparr>"
    using assms(2) by (simp add: close_socket_def c1_def)
  then have cl: "connector_inv (close_socket (int (created c)) c1)" using close_inv [OF l, of CDisconnected] by simp
  have "cn_channel c1 = None" using assms(3) by (simp add: c1_def)
  then show ?thesis
    using assms(1,2) conn cl retry_inv [OF l]
    by (simp add: startInLoop_def do_connect_def Let_def c1_def [symmetric] connecting_def)
qed

lemma handling_commute:
  "connector_handleError (set_handling b c) = rbind (connector_handleError c) (\<lambda>c'. Inr (set_handling b c'))"
  "connector_handleWrite env (set_handling b c) = rbind (connector_handleWrite env c) (\<lambda>c'. Inr (set_handling b c'))"
  by (auto simp: connector_handleError_def connector_handleWrite_def removeAndResetChannel_def set_handling_def Let_def
      c_assert_def retry_def close_socket_def disableAll_def isNoneEvent_def split: option.splits)

lemma set_handling_idem: "set_handling a (set_handling b c) = set_handling a c"
  by (cases "cn_channel c") (simp_all add: set_handling_def)

lemma set_handling_inv: "connector_inv c \<Longrightarrow> set_handling False c = c"
  by (cases "cn_channel c") (auto simp: set_handling_def connector_inv_def chan_ok_def)

lemma ready_inv:
  assumes "connector_inv c" "cn_channel c = Some ch" "\<not> isNoneEvent ch"
  shows "\<exists>c'. connector_step env (CReady err wr) c = Inr c' \<and> connector_inv c'"
proof -
  have st: "cn_state c = CConnecting" using assms by (auto simp: connector_inv_def chan_ok_def split: if_splits)
  obtain c1 where c1: "(if err then connector_handleError c else Inr c) = Inr c1" "connector_inv c1" "cn_state c1 \<noteq> CConnected"
    using handleError_inv [OF assms(1)] assms(1) st by (cases err) auto
  obtain c2 where c2: "(if wr then connector_handleWrite env c1 else Inr c1) = Inr c2" "connector_inv c2"
    using connector_handleWrite_inv [OF c1(2,3)] c1(2) by (cases wr) auto
  have "connector_step env (CReady err wr) c = Inr (set_handling False c2)"
    using assms c1(1) c2(1) by (cases err; cases wr) (auto simp: handling_commute set_handling_idem)
  then show ?thesis using c2(2) set_handling_inv [OF c2(2)] by simp
qed

lemma functor_inv:
  assumes "connector_inv c" "queue c = f # fs"
  shows "\<exists>c'. connector_step env CFunctor c = Inr c' \<and> connector_inv c'"
proof (cases f)
  case StartF
  have "cn_channel c = None" "cn_state c = CDisconnected" "timers c = []"
    using assms StartF by (cases "cn_state c"; auto simp: connector_inv_def conn_defs split: option.splits)+
  moreover have "connector_inv (c\<lparr>queue := fs\<rparr>)" "starts (c\<lparr>queue := fs\<rparr>) = 0"
    using assms StartF by (auto simp: connector_inv_def conn_defs split: option.splits if_splits)
  ultimately show ?thesis using startInLoop_inv [of "c\<lparr>queue := fs\<rparr>" env] assms(2) StartF by simp
next
  case StopF
  have "connector_inv (c\<lparr>queue := fs\<rparr>)"
    using assms StopF by (cases "cn_channel c"; cases "cn_state c") (simp_all add: connector_inv_def conn_defs)
  then show ?thesis using stopInLoop_inv assms(2) StopF by simp
next
  case ResetF
  obtain ch where ch: "cn_channel c = Some ch" "\<not> eventHandling ch" "\<not> addedToLoop ch" "cn_state c \<noteq> CConnecting"
    using assms ResetF by (auto simp: connector_inv_def conn_defs split: option.splits if_splits)
  define c1 where "c1 = c\<lparr>queue := fs, cn_channel := None\<rparr>"
  have "connector_step env CFunctor c = Inr c1"
    using assms(2) ResetF ch by (simp add: resetChannel_def destroyChannel_def c1_def)
  moreover have "connector_inv c1" using assms ResetF ch by (auto simp: connector_inv_def conn_defs c1_def)
  ultimately show ?thesis by blast
qed

lemma connector_step_inv:
  assumes "connector_inv c" "use_ok e c"
  shows "\<exists>c'. connector_step env e c = Inr c' \<and> connector_inv c'"
proof (cases e)
  case (CStart in_loop)
  have i: "idle c" using assms(2) CStart by simp
  then have z: "starts c = 0" "resets c = 0" by (auto simp: idle_def starts_def resets_def filter_empty_conv)
  show ?thesis
  proof (cases in_loop)
    case True
    have "connector_inv (c\<lparr>connect_flag := True\<rparr>)" by (simp add: inv_flag assms(1))
    then show ?thesis
      using True CStart i z startInLoop_inv [of "c\<lparr>connect_flag := True\<rparr>" env]
      by (simp add: connector_start_def idle_def starts_def)
  next
    case False
    then show ?thesis using assms(1) i z CStart
      by (auto simp: connector_start_def idle_def connector_inv_def conn_defs)
  qed
next
  case CStop
  then show ?thesis using stop_inv [OF assms(1)] by simp
next
  case CRestart
  define c1 where "c1 = c\<lparr>cn_state := CDisconnected, retryDelayMs := kInitRetryDelayMs, connect_flag := True, delays := []\<rparr>"
  have u: "cn_state c = CConnected" "cn_channel c = None" using assms(2) CRestart by auto
  have "connector_inv c1" "starts c1 = 0" "timers c1 = []"
    using assms(1) u by (auto simp: connector_inv_def conn_defs c1_def kInitRetryDelayMs_def backoff_def)
  then show ?thesis
    using startInLoop_inv [of c1 env] u CRestart by (simp add: restart_def c1_def)
next
  case CFunctor
  then show ?thesis using functor_inv [OF assms(1)] assms(1) by (cases "queue c") auto
next
  case CTimer
  show ?thesis
  proof (cases "timers c = [] \<or> ResetF \<in> set (queue c)")
    case False
    define c1 where "c1 = c\<lparr>timers := tl (timers c)\<rparr>"
    have r: "resets c = 0" using False by (auto simp: resets_def filter_empty_conv)
    have "connector_inv c1" "cn_state c1 = CDisconnected" "cn_channel c1 = None" "starts c1 = 0" "timers c1 = []"
      using assms(1) False r
      by (cases "timers c"; cases "cn_state c"; auto simp: connector_inv_def conn_defs c1_def split: option.splits)+
    then show ?thesis using startInLoop_inv [of c1 env] False CTimer by (simp add: c1_def)
  qed (use assms(1) CTimer in auto)
next
  case (CReady err wr)
  show ?thesis
  proof (cases "cn_channel c")
    case (Some ch)
    then show ?thesis using ready_inv [OF assms(1) Some, of env err wr] assms(1) CReady by (cases "isNoneEvent ch") auto
  qed (use assms(1) CReady in simp)
qed

lemma connector_run_inv:
  assumes "connector_inv c" "used_ok env es c"
  shows "\<exists>c'. connector_run env es c = Inr c' \<and> connector_inv c'"
  using assms
proof (induction es arbitrary: c)
  case (Cons e es)
  obtain c1 where c1: "connector_step env e c = Inr c1" "connector_inv c1"
    using connector_step_inv [of c e env] Cons.prems by auto
  then show ?case using Cons.IH [of c1] Cons.prems by simp
qed simp

lemma newConnector_inv: "connector_inv newConnector"
  by (simp add: newConnector_def connector_inv_def conn_defs kInitRetryDelayMs_def backoff_def)

section \<open>Properties\<close>


definition refusing_env :: connect_env where
  "refusing_env = \<lparr>connect_errno = (\<lambda>k. if k = 0 then 111 else 115), socket_error = (\<lambda>_. 0), self_connect = (\<lambda>_. False)\<rparr>"

lemmas connector_eval = connector_start_def startInLoop_def do_connect_def in_progress_def transient_def retry_def close_socket_def
  connecting_def connector_stop_def stopInLoop_def resetChannel_def destroyChannel_def removeAndResetChannel_def
  connector_handleWrite_def connector_handleError_def set_handling_def Let_def newConnector_def refusing_env_def
  kInitRetryDelayMs_def kMaxRetryDelayMs_def idle_def isNoneEvent_def enableWriting_def newChannel_def disableAll_def
  kWriteEvent_def kNoneEvent_def poll_flags


text \<open>
  Stop and start again. \<open>stop\<close> leaves the timer of a refused attempt armed. When \<open>start\<close> is called before it fires, the
  timer finds the connector connecting and its assertion ends the process.
\<close>

theorem stop_start_aborts:
  assumes "transient (connect_errno env 0)" "in_progress (connect_errno env 1)"
  shows "connector_run env [CStart True, CStop, CFunctor, CStart True, CTimer] newConnector = Inl AssertFail"
proof -
  have "\<not> in_progress (connect_errno env 0)" using assms(1) by (auto simp: transient_def in_progress_def)
  then show ?thesis
    using assms
    by (simp add: connector_start_def startInLoop_def do_connect_def retry_def close_socket_def connecting_def connector_stop_def
        stopInLoop_def Let_def newConnector_def)
qed

theorem stop_start_aborts_witness:
  "connector_run refusing_env [CStart True, CStop, CFunctor, CStart True, CTimer] newConnector = Inl AssertFail"
  by (rule stop_start_aborts) (simp_all add: refusing_env_def transient_def in_progress_def)

end
