(* ===== verification/TcpClient.thy ===== *)
theory TcpClient
  imports Connector TcpConnection
begin

text \<open>
  The TCP client (\<open>TcpClient.h\<close>, \<open>TcpClient.cc\<close>): a connector, at most one connection, and the choice to connect again
  when the connection is closed. The objects of the connections live on in a map, by number; the code keeps only
  the one in \<open>connection_\<close>.
\<close>

section \<open>State and operations\<close>

record tcp_client =
  cl_name :: string
  cl_retry :: bool
  cl_connect :: bool
  cl_nextConnId :: int
  cl_connection :: "nat option"
  cl_conns :: "nat \<rightharpoonup> tcp_conn"
  cl_made :: nat
  cl_connector :: connector

definition newTcpClient :: "string \<Rightarrow> tcp_client" where
  "newTcpClient nameArg =
     \<lparr>cl_name = nameArg, cl_retry = False, cl_connect = True, cl_nextConnId = 1, cl_connection = None,
      cl_conns = Map.empty, cl_made = 0, cl_connector = newConnector\<rparr>"

definition enableRetry :: "tcp_client \<Rightarrow> tcp_client" where
  "enableRetry s = s\<lparr>cl_retry := True\<rparr>"

definition client_connect :: "connect_env \<Rightarrow> bool \<Rightarrow> tcp_client \<Rightarrow> tcp_client res" where
  "client_connect env in_loop s =
     rbind (connector_start env in_loop (cl_connector s)) (\<lambda>c. Inr (s\<lparr>cl_connect := True, cl_connector := c\<rparr>))"

definition client_disconnect :: "bool \<Rightarrow> tcp_client \<Rightarrow> tcp_client" where
  "client_disconnect in_loop s =
     (let s1 = s\<lparr>cl_connect := False\<rparr>
      in case cl_connection s1 of
           None \<Rightarrow> s1
         | Some cid \<Rightarrow> s1\<lparr>cl_conns := (cl_conns s1)(cid := map_option (shutdown in_loop) (cl_conns s1 cid))\<rparr>)"

definition client_stop :: "tcp_client \<Rightarrow> tcp_client" where
  "client_stop s = s\<lparr>cl_connect := False, cl_connector := connector_stop (cl_connector s)\<rparr>"

text \<open>\<open>snprintf(buf, 32, ":%s#%d", ...)\<close> keeps 31 characters.\<close>

definition client_connName :: "string \<Rightarrow> string \<Rightarrow> int \<Rightarrow> string" where
  "client_connName nm peer k = nm @ take 31 ('':'' @ peer @ ''#'' @ show_int k)"

definition client_newConnection ::
  "writer \<Rightarrow> conn_user \<Rightarrow> (int \<Rightarrow> string) \<Rightarrow> int \<Rightarrow> tcp_client \<Rightarrow> tcp_client res" where
  "client_newConnection wr u peerAddr sockfd s =
     (if cl_nextConnId s + 1 \<ge> 2 ^ 31 then Inl Overflow
      else
        let nm = client_connName (cl_name s) (peerAddr sockfd) (cl_nextConnId s);
            cid = cl_made s;
            s1 = s\<lparr>cl_nextConnId := cl_nextConnId s + 1, cl_made := Suc cid, cl_connection := Some cid\<rparr>
        in rbind (connectEstablished wr u (newTcpConnection nm sockfd False)) (\<lambda>c.
           Inr (s1\<lparr>cl_conns := (cl_conns s1)(cid \<mapsto> c)\<rparr>)))"

text \<open>The part of \<open>removeConnection\<close> after the queueing of \<open>connectDestroyed\<close>, which the connection does itself.\<close>

definition client_removeConnection :: "connect_env \<Rightarrow> nat \<Rightarrow> tcp_client \<Rightarrow> tcp_client res" where
  "client_removeConnection env cid s =
     c_assert (cl_connection s = Some cid)
     (let s1 = s\<lparr>cl_connection := None\<rparr>
      in if cl_retry s1 \<and> cl_connect s1
         then rbind (restart env (cl_connector s1)) (\<lambda>c. Inr (s1\<lparr>cl_connector := c\<rparr>))
         else Inr s1)"

section \<open>Runs\<close>

text \<open>
  What can happen to a client: calls of the user, steps of its connector (which may hand a socket over), and
  steps of its connections, by number: of the current one, which may close it, and of closed ones, whose queued functors
  (\<open>connectDestroyed\<close> among them) and timers still run and which others may still hold and call. Events of the current connection come after the functor that
  resets the connector's channel, which was queued before the connection was made. The close callback, \<open>removeConnection\<close>, is called by the step that closes
  the connection.
\<close>

datatype client_event =
    ClConnect bool | ClDisconnect bool | ClStop | ClEnableRetry | ClConnector connector_event | ClConn nat conn_event

definition connector_part ::
  "connect_env \<Rightarrow> writer \<Rightarrow> conn_user \<Rightarrow> (int \<Rightarrow> string) \<Rightarrow> connector_event \<Rightarrow> tcp_client \<Rightarrow> tcp_client res" where
  "connector_part env wr u peerAddr e s =
     rbind (connector_step env e (cl_connector s)) (\<lambda>c.
     let s1 = s\<lparr>cl_connector := c\<rparr>
     in if length (given (cl_connector s)) < length (given c)
        then client_newConnection wr u peerAddr (last (given c)) s1 else Inr s1)"

definition conn_part :: "connect_env \<Rightarrow> writer \<Rightarrow> conn_user \<Rightarrow> nat \<Rightarrow> conn_event \<Rightarrow> tcp_client \<Rightarrow> tcp_client res" where
  "conn_part env wr u cid e s =
     (case cl_conns s cid of
        None \<Rightarrow> Inr s
      | Some c \<Rightarrow>
          if cl_connection s = Some cid \<and> ResetF \<in> set (queue (cl_connector s)) then Inr s
          else rbind (conn_step wr u e c) (\<lambda>c'.
               let s1 = s\<lparr>cl_conns := (cl_conns s)(cid \<mapsto> c')\<rparr>
               in if state c \<noteq> kDisconnected \<and> state c' = kDisconnected then client_removeConnection env cid s1 else Inr s1))"

fun client_step ::
  "connect_env \<Rightarrow> writer \<Rightarrow> conn_user \<Rightarrow> (int \<Rightarrow> string) \<Rightarrow> client_event \<Rightarrow> tcp_client \<Rightarrow> tcp_client res" where
  "client_step env wr u peerAddr (ClConnect in_loop) s = client_connect env in_loop s"
| "client_step env wr u peerAddr (ClDisconnect in_loop) s = Inr (client_disconnect in_loop s)"
| "client_step env wr u peerAddr ClStop s = Inr (client_stop s)"
| "client_step env wr u peerAddr ClEnableRetry s = Inr (enableRetry s)"
| "client_step env wr u peerAddr (ClConnector e) s = connector_part env wr u peerAddr e s"
| "client_step env wr u peerAddr (ClConn cid e) s = conn_part env wr u cid e s"

fun client_run ::
  "connect_env \<Rightarrow> writer \<Rightarrow> conn_user \<Rightarrow> (int \<Rightarrow> string) \<Rightarrow> client_event list \<Rightarrow> tcp_client \<Rightarrow> tcp_client res" where
  "client_run env wr u peerAddr [] s = Inr s"
| "client_run env wr u peerAddr (e # es) s = rbind (client_step env wr u peerAddr e s) (client_run env wr u peerAddr es)"

text \<open>
  The rules of use: \<open>connect\<close> only when the connector is idle; the user reaches the connector only through the client;
  fewer than \<open>2 ^ 31 - 1\<close> connections.
\<close>

fun client_use :: "client_event \<Rightarrow> tcp_client \<Rightarrow> bool" where
  "client_use (ClConnect in_loop) s \<longleftrightarrow> idle (cl_connector s)"
| "client_use (ClConnector e) s \<longleftrightarrow> e \<in> {CFunctor, CTimer} \<union> range (\<lambda>(a, b). CReady a b) \<and> cl_nextConnId s + 1 < 2 ^ 31"
| "client_use (ClConn cid e) s \<longleftrightarrow> conn_event_ok e"
| "client_use _ s \<longleftrightarrow> True"

fun client_used ::
  "connect_env \<Rightarrow> writer \<Rightarrow> conn_user \<Rightarrow> (int \<Rightarrow> string) \<Rightarrow> client_event list \<Rightarrow> tcp_client \<Rightarrow> bool" where
  "client_used env wr u peerAddr [] s \<longleftrightarrow> True"
| "client_used env wr u peerAddr (e # es) s \<longleftrightarrow> client_use e s
     \<and> (case client_step env wr u peerAddr e s of Inr s' \<Rightarrow> client_used env wr u peerAddr es s' | Inl _ \<Rightarrow> True)"

section \<open>The invariant\<close>

definition client_inv :: "tcp_client \<Rightarrow> bool" where
  "client_inv s \<longleftrightarrow> connector_inv (cl_connector s) \<and> (\<forall>cid c. cl_conns s cid = Some c \<longrightarrow> conn_inv c \<and> cid < cl_made s)
     \<and> (\<forall>cid. cl_connection s = Some cid \<longrightarrow>
          cn_state (cl_connector s) = CConnected \<and> (\<exists>c. cl_conns s cid = Some c \<and> live c))
     \<and> (\<forall>cid c. cl_conns s cid = Some c \<and> state c \<noteq> kDisconnected \<longrightarrow> cl_connection s = Some cid)"

text \<open>The connection callback's log only grows, which orders the states of a connection.\<close>

lemma cblog_sendInLoop: "sendInLoop wr m c = Inr c' \<Longrightarrow> cblog c' = cblog c"
  by (auto simp: sendInLoop_def sendInLoop_rest_def sock_write_def conn_queue_def on_chan_def Let_def res_simps
      split: if_splits write_result.splits prod.splits)

lemma cblog_user_call: "user_call wr x c = Inr c' \<Longrightarrow> cblog c' = cblog c"
  by (cases x) (auto simp: send_def shutdown_def shutdownInLoop_def forceClose_def forceCloseWithDelay_def stopReadInLoop_def startReadInLoop_def
      conn_queue_def setState_def on_chan_def Let_def res_simps dest: cblog_sendInLoop split: if_splits)

lemma cblog_user_calls: "user_calls wr xs c = Inr c' \<Longrightarrow> cblog c' = cblog c"
  by (induction xs arbitrary: c) (auto simp: res_simps dest: cblog_user_call)

lemma cblog_callback: "connectionCallback wr u c = Inr c' \<Longrightarrow> cblog c' = cblog c @ [connected c]"
  by (auto simp: connectionCallback_def Let_def dest: cblog_user_calls)

definition grows :: "tcp_conn \<Rightarrow> tcp_conn \<Rightarrow> bool" where
  "grows c c' \<longleftrightarrow> (\<exists>l. cblog c' = cblog c @ l)"

lemma handleClose_grows: "handleClose wr u c = Inr c' \<Longrightarrow> grows c c'"
  by (auto simp: handleClose_def closeCallback_def conn_queue_def on_chan_def setState_def res_simps grows_def dest!: cblog_callback)

lemma run_functor_grows: "run_functor wr u f c = Inr c' \<Longrightarrow> grows c c'"
  by (cases f) (auto simp: grows_def shutdownInLoop_def stopReadInLoop_def forceCloseInLoop_def connectDestroyed_def conn_removeChannel_def on_chan_def
      setState_def res_simps dest!: cblog_sendInLoop cblog_callback handleClose_grows [unfolded grows_def] split: if_splits)

lemma conn_step_grows: "conn_step wr u e c = Inr c' \<Longrightarrow> grows c c'"
proof (cases e)
  case Writable
  then show "conn_step wr u e c = Inr c' \<Longrightarrow> ?thesis"
    by (auto simp: grows_def handleWrite_def sock_write_def shutdownInLoop_def conn_queue_def on_chan_def Let_def res_simps
        split: if_splits write_result.splits prod.splits)
next
  case (Readable readv)
  then show "conn_step wr u e c = Inr c' \<Longrightarrow> ?thesis"
    by (auto simp: grows_def conn_handleRead_def Let_def res_simps
        dest!: cblog_user_calls handleClose_grows [unfolded grows_def] split: if_splits prod.splits)
qed (auto simp: grows_def connectEstablished_def on_chan_def setState_def send_def conn_queue_def shutdown_def shutdownInLoop_def
      forceClose_def Let_def res_simps dest!: cblog_callback cblog_user_call cblog_sendInLoop handleClose_grows [unfolded grows_def]
      run_functor_grows [unfolded grows_def] split: if_splits list.splits nat.splits)

lemma live_grows: "conn_inv c \<Longrightarrow> live c \<Longrightarrow> conn_inv c' \<Longrightarrow> grows c c' \<Longrightarrow> live c' \<or> state c' = kDisconnected"
  by (cases "state c'") (auto simp: conn_inv_def live_def grows_def)

lemma dead_grows: "conn_inv c \<Longrightarrow> state c = kDisconnected \<Longrightarrow> conn_inv c' \<Longrightarrow> grows c c' \<Longrightarrow> state c' = kDisconnected"
  by (cases "state c'") (auto simp: conn_inv_def live_def grows_def)

section \<open>The connector under the client\<close>

lemma given_connect: "startInLoop env c = Inr c' \<Longrightarrow> given c' = given c"
  by (auto simp: startInLoop_def do_connect_def connecting_def retry_def close_socket_def Let_def res_simps split: if_splits)

lemma given_remove: "removeAndResetChannel c = Inr (n, c') \<Longrightarrow> given c' = given c"
  by (auto simp: removeAndResetChannel_def Let_def res_simps split: option.splits)

lemma given_write:
  "connector_handleWrite env c = Inr c' \<Longrightarrow> given c' = given c \<or> (\<exists>x. given c' = given c @ [x] \<and> cn_state c' = CConnected)"
  by (auto simp: connector_handleWrite_def retry_def close_socket_def Let_def res_simps dest!: given_remove split: if_splits)

lemma given_error: "connector_handleError c = Inr c' \<Longrightarrow> given c' = given c"
  by (auto simp: connector_handleError_def retry_def close_socket_def Let_def res_simps dest!: given_remove split: if_splits)

lemma given_handling [simp]: "given (set_handling b c) = given c" "cn_state (set_handling b c) = cn_state c"
  by (simp_all add: set_handling_def)

lemma given_functor:
  assumes "connector_step env CFunctor c = Inr c'"
  shows "given c' = given c"
proof (cases "queue c")
  case Nil
  then show ?thesis using assms by simp
next
  case (Cons f fs)
  then show ?thesis
    using assms
    by (cases f)
      (auto simp: stopInLoop_def resetChannel_def retry_def close_socket_def Let_def res_simps
        dest!: given_remove given_connect split: if_splits option.splits)
qed

lemma given_step:
  assumes "connector_step env e c = Inr c'" "e \<in> {CFunctor, CTimer} \<union> range (\<lambda>(a, b). CReady a b)"
  shows "given c' = given c \<or> (\<exists>x. given c' = given c @ [x] \<and> cn_state c' = CConnected)"
proof -
  consider "e = CFunctor" | "e = CTimer" | a b where "e = CReady a b" using assms(2) by auto
  then show ?thesis
  proof cases
    case 1
    then show ?thesis using assms(1) given_functor by blast
  next
    case 2
    then show ?thesis using assms(1) by (auto dest!: given_connect split: if_splits)
  next
    case 3
    have err: "given x = given c" if "connector_handleError (set_handling True c) = Inr x" for x
      using given_error [OF that] by simp
    show ?thesis
      using assms(1) 3
      by (auto simp: res_simps split: option.splits if_splits dest!: given_write err)
  qed
qed

lemma connected_stays:
  assumes inv: "connector_inv c" and st: "cn_state c = CConnected" and e: "e \<in> {CFunctor, CTimer} \<union> range (\<lambda>(a, b). CReady a b)"
  shows "\<exists>c'. connector_step env e c = Inr c' \<and> given c' = given c \<and> cn_state c' = CConnected"
proof -
  have z: "timers c = []" "StartF \<notin> set (queue c)"
    using inv st by (auto simp: connector_inv_def attempts_def starts_def filter_empty_conv)
  consider "e = CFunctor" | "e = CTimer" | a b where "e = CReady a b" using e by auto
  then show ?thesis
  proof cases
    case 1
    show ?thesis
    proof (cases "queue c")
      case (Cons f fs)
      then have "f \<noteq> StartF" using z by auto
      moreover obtain c' where "connector_step env CFunctor c = Inr c'"
        using connector_step_inv [OF inv, of CFunctor env] by auto
      ultimately show ?thesis
        using 1 st Cons
        by (cases f) (auto simp: stopInLoop_def resetChannel_def Let_def res_simps split: option.splits)
    qed (use 1 st in simp)
  next
    case 2
    then show ?thesis using z st by simp
  next
    case 3
    then show ?thesis using inv st by (auto simp: connector_inv_def chan_ok_def split: option.splits)
  qed
qed

section \<open>Preservation\<close>

lemma established_live:
  assumes "writer_ok wr"
  shows "\<exists>c. connectEstablished wr u (newTcpConnection nm sockfd wc) = Inr c \<and> conn_inv c \<and> live c"
proof -
  let ?n = "newTcpConnection nm sockfd wc"
  obtain c where c: "connectEstablished wr u ?n = Inr c" "conn_inv c"
    using connectEstablished_inv [OF conn_inv_new assms, of nm sockfd wc u] by (auto simp: newTcpConnection_def)
  have "cblog c = [True]"
    using c(1)
    by (auto simp: connectEstablished_def res_simps newTcpConnection_def on_chan_def setState_def connected_def dest!: cblog_callback)
  then have "live c" using c(2) by (cases "state c") (auto simp: conn_inv_def live_def)
  with c show ?thesis by blast
qed

lemma newConnection_inv:
  assumes inv: "client_inv (s\<lparr>cl_connector := c0\<rparr>)" and c: "connector_inv c" "cn_state c = CConnected" and none: "cl_connection s = None"
    and wr: "writer_ok wr" and k: "cl_nextConnId s + 1 < 2 ^ 31"
  shows "\<exists>s'. client_newConnection wr u peerAddr sockfd (s\<lparr>cl_connector := c\<rparr>) = Inr s' \<and> client_inv s'"
proof -
  obtain cn where cn: "connectEstablished wr u (newTcpConnection (client_connName (cl_name s) (peerAddr sockfd) (cl_nextConnId s)) sockfd False)
      = Inr cn" "conn_inv cn" "live cn"
    using established_live [OF wr] by blast
  have "cl_conns s (cl_made s) = None"
    using inv by (cases "cl_conns s (cl_made s)") (auto simp: client_inv_def)
  moreover have "state d = kDisconnected" if "cl_conns s cid = Some d" for cid d
    using inv none that by (cases "state d = kDisconnected") (auto simp: client_inv_def)
  ultimately show ?thesis
    using cn inv c none k
    by (auto simp: client_newConnection_def Let_def client_inv_def less_Suc_eq)
qed

lemma removeConnection_inv:
  assumes inv: "connector_inv (cl_connector s)" "cn_state (cl_connector s) = CConnected" "cn_channel (cl_connector s) = None"
    and conns: "\<forall>cid c. cl_conns s cid = Some c \<longrightarrow> conn_inv c \<and> cid < cl_made s \<and> state c = kDisconnected"
    and cid: "cl_connection s = Some cid"
  shows "\<exists>s'. client_removeConnection env cid s = Inr s' \<and> client_inv s'"
proof -
  obtain c where "restart env (cl_connector s) = Inr c" "connector_inv c"
    using connector_step_inv [OF inv(1), of CRestart env] inv(2,3) by auto
  then show ?thesis using inv conns cid by (auto simp: client_removeConnection_def Let_def client_inv_def)
qed

lemma client_conn_inv:
  assumes inv: "client_inv s" and wr: "writer_ok wr" and ok: "conn_event_ok e"
  shows "\<exists>s'. conn_part env wr u cid e s = Inr s' \<and> client_inv s'"
proof (cases "cl_conns s cid")
  case None
  then show ?thesis using inv by (simp add: conn_part_def)
next
  case (Some c)
  have ci: "conn_inv c" using inv Some by (auto simp: client_inv_def)
  obtain c' where c': "conn_step wr u e c = Inr c'" "conn_inv c'" using conn_step_inv [OF ci wr ok] by blast
  note gr = conn_step_grows [OF c'(1)]
  define s1 where "s1 = s\<lparr>cl_conns := (cl_conns s)(cid \<mapsto> c')\<rparr>"
  show ?thesis
  proof (cases "state c = kDisconnected")
    case True
    have st: "state c' = kDisconnected" by (rule dead_grows [OF ci True c'(2) gr])
    have "cl_connection s \<noteq> Some cid" using inv Some True by (auto simp: client_inv_def live_def)
    then have "client_inv s1" using inv c'(2) st Some by (auto simp: client_inv_def s1_def)
    then show ?thesis using Some c' True \<open>cl_connection s \<noteq> Some cid\<close> by (simp add: conn_part_def Let_def s1_def)
  next
    case up: False
    then have cn: "cl_connection s = Some cid" using inv Some by (auto simp: client_inv_def)
    with inv Some have lc: "live c" and st: "cn_state (cl_connector s) = CConnected" by (auto simp: client_inv_def)
    have lv: "live c' \<or> state c' = kDisconnected" by (rule live_grows [OF ci lc c'(2) gr])
    have others: "state d = kDisconnected" if "cl_conns s k = Some d" "k \<noteq> cid" for k d
      using inv cn that by (cases "state d = kDisconnected") (auto simp: client_inv_def)
    show ?thesis
    proof (cases "ResetF \<in> set (queue (cl_connector s))")
      case True
      then show ?thesis using inv Some cn by (simp add: conn_part_def)
    next
      case False
      then have r: "resets (cl_connector s) = 0" by (auto simp: resets_def filter_empty_conv)
      show ?thesis
      proof (cases "state c' = kDisconnected")
        case True
        have "cn_channel (cl_connector s) = None"
          using inv r st by (auto simp: client_inv_def connector_inv_def chan_ok_def split: option.splits)
        then have "\<exists>s'. client_removeConnection env cid s1 = Inr s' \<and> client_inv s'"
          using inv c'(2) Some st others True cn
          by (intro removeConnection_inv) (auto simp: s1_def client_inv_def)
        then show ?thesis using Some c' False True up by (simp add: conn_part_def Let_def s1_def)
      next
        case alive: False
        then have "client_inv s1" using inv lv c' cn Some st by (auto simp: client_inv_def s1_def)
        then show ?thesis using Some c' False alive by (simp add: conn_part_def Let_def s1_def)
      qed
    qed
  qed
qed

lemma client_step_inv:
  assumes inv: "client_inv s" and wr: "writer_ok wr" and use: "client_use e s"
  shows "\<exists>s'. client_step env wr u peerAddr e s = Inr s' \<and> client_inv s'"
proof (cases e)
  case (ClConnect in_loop)
  have i: "idle (cl_connector s)" using use ClConnect by simp
  obtain c where "connector_start env in_loop (cl_connector s) = Inr c" "connector_inv c"
    using connector_step_inv [of "cl_connector s" "CStart in_loop" env] inv i by (auto simp: client_inv_def)
  moreover have "cl_connection s = None" using inv i by (cases "cl_connection s") (auto simp: client_inv_def idle_def)
  ultimately show ?thesis using inv ClConnect by (auto simp: client_connect_def client_inv_def)
next
  case (ClDisconnect in_loop)
  have sh: "live (shutdown in_loop c) = live c" "state (shutdown in_loop c) = kDisconnected \<longleftrightarrow> state c = kDisconnected" for c
    by (auto simp: shutdown_def shutdownInLoop_def conn_queue_def setState_def live_def Let_def)
  show ?thesis
    using inv ClDisconnect
    by (auto simp: client_disconnect_def Let_def client_inv_def sh shutdown_inv split: option.splits if_splits)
next
  case ClStop
  have "cn_state (connector_stop c) = cn_state c" for c by (simp add: connector_stop_def)
  then show ?thesis using inv ClStop stop_inv by (auto simp: client_stop_def client_inv_def)
next
  case ClEnableRetry
  then show ?thesis using inv by (auto simp: enableRetry_def client_inv_def)
next
  case (ClConnector ce)
  have ce: "ce \<in> {CFunctor, CTimer} \<union> range (\<lambda>(a, b). CReady a b)" "cl_nextConnId s + 1 < 2 ^ 31" using use ClConnector by auto
  have "use_ok ce (cl_connector s)" using ce(1) by auto
  then obtain c where c: "connector_step env ce (cl_connector s) = Inr c" "connector_inv c"
    using connector_step_inv [of "cl_connector s" ce env] inv by (auto simp: client_inv_def)
  show ?thesis
  proof (cases "given c = given (cl_connector s)")
    case True
    have "cn_state c = CConnected" if "cn_state (cl_connector s) = CConnected"
      using connected_stays [of "cl_connector s" ce env] inv that ce(1) c(1) by (auto simp: client_inv_def)
    then show ?thesis using True c inv ClConnector by (auto simp: connector_part_def Let_def client_inv_def)
  next
    case False
    then have g: "length (given (cl_connector s)) < length (given c)" "cn_state c = CConnected"
      using given_step [OF c(1) ce(1)] by auto
    have "cl_connection s = None"
    proof (cases "cl_connection s")
      case (Some cid)
      then have "cn_state (cl_connector s) = CConnected" using inv by (auto simp: client_inv_def)
      then have "given c = given (cl_connector s)"
        using connected_stays [of "cl_connector s" ce env] inv ce(1) c(1) by (auto simp: client_inv_def)
      with False show ?thesis by simp
    qed
    then show ?thesis
      using newConnection_inv [where s = s and ?c0.0 = "cl_connector s" and c = c and wr = wr] inv c g wr ce(2) ClConnector
      by (simp add: connector_part_def Let_def)
  qed
next
  case (ClConn cid e')
  then show ?thesis using client_conn_inv [OF inv wr] use by simp
qed

lemma client_run_inv:
  assumes "client_inv s" "writer_ok wr" "client_used env wr u peerAddr es s"
  shows "\<exists>s'. client_run env wr u peerAddr es s = Inr s' \<and> client_inv s'"
  using assms(1,3)
proof (induction es arbitrary: s)
  case (Cons e es)
  obtain s1 where s1: "client_step env wr u peerAddr e s = Inr s1" "client_inv s1"
    using client_step_inv [OF Cons.prems(1) assms(2)] Cons.prems(2) by fastforce
  then show ?case using Cons.IH [of s1] Cons.prems by simp
qed simp

section \<open>Properties\<close>

lemma newTcpClient_inv: "client_inv (newTcpClient nm)"
  by (simp add: newTcpClient_def client_inv_def newConnector_inv)


definition accepting_env :: connect_env where
  "accepting_env = \<lparr>connect_errno = (\<lambda>_. 115), socket_error = (\<lambda>_. 0), self_connect = (\<lambda>_. False)\<rparr>"

definition silent_user :: conn_user where
  "silent_user = \<lparr>onConnection = (\<lambda>_. []), onMessage = (\<lambda>_. [])\<rparr>"

definition sample_client_events :: "client_event list" where
  "sample_client_events = [ClEnableRetry, ClConnect True, ClConnector (CReady False True), ClConnector CFunctor, ClConn 0 Hangup, ClConn 0 RunFunctor]"

lemmas client_eval = newTcpClient_def sample_client_events_def client_connect_def enableRetry_def connector_part_def conn_part_def
  client_newConnection_def client_removeConnection_def restart_def accepting_env_def silent_user_def
  connectEstablished_def connectionCallback_def handleClose_def closeCallback_def conn_queue_def on_chan_def setState_def
  connected_def newTcpConnection_def enableReading_def tie_def kReadEvent_def connectDestroyed_def conn_removeChannel_def connector_eval


text \<open>
  Connecting again. When the connection of a client that is to retry is closed, the connector opens the next socket at once:
  afterwards a socket is connecting, or a timer of 500 ms is armed, unless the error is one the connector gives up on. A
  client that does not retry is left with a connector in the state connected, and its next \<open>connect\<close> aborts.
\<close>

theorem client_reconnects:
  assumes "client_inv s" "cl_connection s = Some cid" "cn_channel (cl_connector s) = None"
  shows "\<exists>s'. client_removeConnection env cid s = Inr s' \<and> cl_connection s' = None
    \<and> (if cl_retry s \<and> cl_connect s
       then let e = connect_errno env (int (created (cl_connector s)))
            in if in_progress e then cn_state (cl_connector s') = CConnecting
               else if transient e then timers (cl_connector s') = [500]
               else cn_state (cl_connector s') = CDisconnected \<and> timers (cl_connector s') = []
       else client_connect env True s' = Inl AssertFail)"
proof -
  have st: "cn_state (cl_connector s) = CConnected" "timers (cl_connector s) = []"
    using assms(1,2) by (auto simp: client_inv_def connector_inv_def attempts_def)
  show ?thesis
  proof (cases "cl_retry s \<and> cl_connect s")
    case True
    then show ?thesis
      using assms(2,3) st
      by (auto simp: client_removeConnection_def restart_def startInLoop_def do_connect_def connecting_def retry_def close_socket_def
          Let_def kInitRetryDelayMs_def)
  next
    case False
    then show ?thesis
      using assms(2) st
      by (auto simp: client_removeConnection_def client_connect_def connector_start_def startInLoop_def Let_def)
  qed
qed

definition connected_client :: tcp_client where
  "connected_client =
     (case client_run accepting_env two_bytes silent_user (\<lambda>_. ''10.0.0.1:80'')
        [ClConnect True, ClConnector (CReady False True), ClConnector CFunctor] (newTcpClient ''c'') of Inr s \<Rightarrow> s)"

lemma connected_client_facts:
  "client_inv connected_client" "cl_connection connected_client = Some 0" "cn_channel (cl_connector connected_client) = None"
  "\<not> cl_retry connected_client"
proof -
  let ?es = "[ClConnect True, ClConnector (CReady False True), ClConnector CFunctor]"
  have "client_used accepting_env two_bytes silent_user (\<lambda>_. ''10.0.0.1:80'') ?es (newTcpClient ''c'')"
    by (simp add: client_eval image_iff) blast
  then show "client_inv connected_client"
    using client_run_inv [OF newTcpClient_inv two_bytes_ok, of accepting_env silent_user "\<lambda>_. ''10.0.0.1:80''" ?es "''c''"]
    by (auto simp: connected_client_def)
  show "cl_connection connected_client = Some 0" "cn_channel (cl_connector connected_client) = None" "\<not> cl_retry connected_client"
    by (simp_all add: connected_client_def client_eval)
qed

theorem client_reconnects_witness:
  "\<exists>s'. client_removeConnection accepting_env 0 connected_client = Inr s' \<and> cl_connection s' = None
    \<and> client_connect accepting_env True s' = Inl AssertFail"
  using client_reconnects [OF connected_client_facts(1-3), of accepting_env] connected_client_facts(4) by simp

text \<open>
  The name of a connection keeps its number only when the peer's address is short. With an IPv6 address of 30
  characters or more (an IPv4 address has at most 21) the number is cut off and all connections have one name.
\<close>

lemma client_names_collide:
  "30 \<le> length peer \<Longrightarrow> client_connName nm peer i = client_connName nm peer j"
  by (simp add: client_connName_def)

lemma client_names_distinct:
  assumes "length peer \<le> 21" "0 \<le> i" "i < 100000000" "0 \<le> j" "j < 100000000" "client_connName nm peer i = client_connName nm peer j"
  shows "i = j"
proof -
  have short: "length (show_int k) \<le> 8" if "0 \<le> k" "k < 100000000" for k
    using that length_show_nat [of "nat k" 8] by (simp add: show_int_def nat_less_iff)
  then have "take 31 ('':'' @ peer @ ''#'' @ show_int i) = '':'' @ peer @ ''#'' @ show_int i"
    "take 31 ('':'' @ peer @ ''#'' @ show_int j) = '':'' @ peer @ ''#'' @ show_int j"
    using assms(1) short [OF assms(2,3)] short [OF assms(4,5)] by simp_all
  then show ?thesis using assms(6) show_int_inj [of i j] by (simp add: client_connName_def)
qed

end
