(* ===== verification/Date.thy ===== *)
theory Date
  imports Prelude "HOL-Library.Signed_Division"
begin

text \<open>
  Dates of the Gregorian calendar (\<open>Date.h\<close>, \<open>Date.cc\<close>). The arithmetic is that of \<open>int\<close>: division
  truncates (\<open>sdiv\<close>, \<open>smod\<close>) and overflow of any intermediate result is a fault. The reference
  is the calendar itself: the length of a month, the rule for leap years, and the next day.
\<close>

section \<open>Julian day numbers\<close>

type_synonym ymd = "int \<times> int \<times> int"

definition getJulianDayNumber :: "ymd \<Rightarrow> int res" where
  "getJulianDayNumber = (\<lambda>(year, month, day).
     let a = (14 - month) sdiv 12;
         y = year + 4800 - a;
         m = month + 12 * a - 3;
         s1 = day + (153 * m + 2) sdiv 5;
         s2 = s1 + y * 365;
         s3 = s2 + y sdiv 4;
         s4 = s3 - y sdiv 100;
         s5 = s4 + y sdiv 400
     in ints [14 - month, year + 4800, y, 12 * a, month + 12 * a, m, 153 * m, 153 * m + 2, s1,
              y * 365, s2, s3, s4, s5, s5 - 32045]
          (s5 - 32045))"

definition getYearMonthDay :: "int \<Rightarrow> ymd res" where
  "getYearMonthDay julianDayNumber =
     (let a = julianDayNumber + 32044;
          b = (4 * a + 3) sdiv 146097;
          c = a - (b * 146097) sdiv 4;
          d = (4 * c + 3) sdiv 1461;
          e = c - (1461 * d) sdiv 4;
          m = (5 * e + 2) sdiv 153;
          day = e - (153 * m + 2) sdiv 5 + 1;
          month = m + 3 - 12 * (m sdiv 10);
          year = b * 100 + d - 4800 + m sdiv 10
      in ints [a, 4 * a, 4 * a + 3, b * 146097, c, 4 * c, 4 * c + 3, 1461 * d, e, 5 * e, 5 * e + 2,
               153 * m, 153 * m + 2, day - 1, day, m + 3, 12 * (m sdiv 10), month,
               b * 100, b * 100 + d, b * 100 + d - 4800, year]
           (year, month, day))"

definition kJulianDayOf1970_01_01 :: int where
  "kJulianDayOf1970_01_01 = (case getJulianDayNumber (1970, 1, 1) of Inr j \<Rightarrow> j | Inl _ \<Rightarrow> 0)"

definition kDaysPerWeek :: int where "kDaysPerWeek = 7"

text \<open>A date is its Julian day number; 0 is the invalid date.\<close>

definition date_valid :: "int \<Rightarrow> bool" where
  "date_valid julianDayNumber \<longleftrightarrow> julianDayNumber > 0"

definition weekDay :: "int \<Rightarrow> int res" where
  "weekDay julianDayNumber = ints [julianDayNumber + 1] ((julianDayNumber + 1) smod kDaysPerWeek)"

text \<open>\<open>pad w x\<close> is \<open>%0wd\<close> and \<open>blanks w x\<close> is \<open>%wd\<close>; \<open>snprintf\<close> keeps 31 characters.\<close>

definition pad :: "nat \<Rightarrow> int \<Rightarrow> string" where
  "pad w x =
     (let s = show_nat (nat \<bar>x\<bar>); w' = (if x < 0 then w - 1 else w)
      in (if x < 0 then ''-'' else []) @ replicate (w' - length s) (CHR ''0'') @ s)"

definition blanks :: "nat \<Rightarrow> int \<Rightarrow> string" where
  "blanks w x = replicate (w - length (show_int x)) (CHR '' '') @ show_int x"

definition toIsoString :: "int \<Rightarrow> string res" where
  "toIsoString julianDayNumber =
     rbind (getYearMonthDay julianDayNumber) (\<lambda>(year, month, day).
     Inr (take 31 (blanks 4 year @ ''-'' @ pad 2 month @ ''-'' @ pad 2 day)))"

section \<open>The calendar\<close>

definition leap :: "int \<Rightarrow> bool" where
  "leap y \<longleftrightarrow> 4 dvd y \<and> (\<not> 100 dvd y \<or> 400 dvd y)"

definition month_len :: "int \<Rightarrow> int \<Rightarrow> int" where
  "month_len y m = (if m = 2 then (if leap y then 29 else 28) else if m \<in> {4, 6, 9, 11} then 30 else 31)"

definition valid_ymd :: "ymd \<Rightarrow> bool" where
  "valid_ymd = (\<lambda>(y, m, d). 1 \<le> m \<and> m \<le> 12 \<and> 1 \<le> d \<and> d \<le> month_len y m)"

definition next_day :: "ymd \<Rightarrow> ymd" where
  "next_day = (\<lambda>(y, m, d).
     if d < month_len y m then (y, m, d + 1) else if m < 12 then (y, m + 1, 1) else (y + 1, 1, 1))"

text \<open>The \<open>n\<close>-th day after 1 March 4801 BC, the first date the formulas are meant for.\<close>

primrec civil :: "nat \<Rightarrow> ymd" where
  "civil 0 = (-4800, 3, 1)"
| "civil (Suc n) = next_day (civil n)"

section \<open>Counting days\<close>

text \<open>Years and months counted from March, which puts the leap day at the end of the year.\<close>

definition march_year :: "ymd \<Rightarrow> int" where
  "march_year = (\<lambda>(y, m, d). (if m \<le> 2 then y - 1 else y) + 4800)"

definition march_month :: "ymd \<Rightarrow> int" where
  "march_month = (\<lambda>(y, m, d). if m \<le> 2 then m + 9 else m - 3)"

definition serial :: "ymd \<Rightarrow> int" where
  "serial D =
     (let Y = march_year D; M = march_month D
      in snd (snd D) - 1 + (153 * M + 2) div 5 + 365 * Y + Y div 4 - Y div 100 + Y div 400)"

lemma div_pred: "0 < k \<Longrightarrow> (Y - 1) div k = Y div k - (if k dvd Y then 1 else 0)" for Y k :: int
proof -
  assume k: "0 < k"
  have "Y = k * (Y div k) + Y mod k" by simp
  show ?thesis
  proof (cases "k dvd Y")
    case True
    then obtain q where "Y = k * q" by (elim dvdE)
    then have "Y - 1 = (k - 1) + k * (q - 1)" by (simp add: algebra_simps)
    then show ?thesis using k \<open>Y = k * q\<close> by (simp only: div_mult_self2) simp
  next
    case False
    then have r: "0 < Y mod k" "Y mod k < k" using k pos_mod_bound [of k Y] pos_mod_sign [of k Y] by (auto simp: dvd_eq_mod_eq_0 less_le)
    have "Y - 1 = (Y mod k - 1) + k * (Y div k)" by (simp add: algebra_simps)
    then have "(Y - 1) div k = (Y mod k - 1) div k + Y div k" using k by (simp only: div_mult_self2)
    then show ?thesis using r False by simp
  qed
qed

lemma month_cases:
  assumes "1 \<le> m" "m \<le> (12::int)"
  shows "m \<in> {1, 2, 3, 4, 5, 6, 7, 8, 9, 10, 11, 12}"
  using assms by simp presburger

lemma leap_shift: "leap (y + 4800) = leap y"
  by (auto simp: leap_def dvd_add_left_iff)

lemma serial_next:
  assumes "valid_ymd D"
  shows "serial (next_day D) = serial D + 1"
proof (cases D)
  case (fields y m d)
  note v = assms [unfolded fields valid_ymd_def, simplified]
  show ?thesis
  proof (cases "d < month_len y m")
    case True
    then show ?thesis by (simp add: fields next_day_def serial_def march_year_def march_month_def Let_def)
  next
    case False
    then have d: "d = month_len y m" using v by simp
    show ?thesis
    proof (cases "m = 2")
      case True
      have feb: "(y + 4799) div k = (y + 4800) div k - (if k dvd y + 4800 then 1 else 0)" if "0 < k" for k
        using div_pred [OF that, of "y + 4800"] by (simp add: add.commute)
      have four: "400 dvd y + 4800 \<Longrightarrow> 100 dvd y + 4800" "100 dvd y + 4800 \<Longrightarrow> 4 dvd y + 4800"
        by (auto intro: dvd_trans [of 100 400] dvd_trans [of 4 100])
      have len: "month_len y 2 = 28 + (if 4 dvd y + 4800 \<and> (\<not> 100 dvd y + 4800 \<or> 400 dvd y + 4800) then 1 else 0)"
        using leap_shift [of y] by (simp add: month_len_def leap_def)
      have n: "next_day D = (y, 3, 1)" by (simp add: fields next_day_def True d)
      have s3: "serial (y, 3, 1) = 365 * (y + 4800) + (y + 4800) div 4 - (y + 4800) div 100 + (y + 4800) div 400"
        by (simp add: serial_def march_year_def march_month_def Let_def)
      have s2: "serial (y, 2, d) = d + 336 + 365 * (y + 4799) + (y + 4799) div 4 - (y + 4799) div 100 + (y + 4799) div 400"
        by (simp add: serial_def march_year_def march_month_def Let_def add.commute)
      have nd: "serial (y, 3, 1) = serial (y, 2, d) + 1"
        unfolding s2 s3 feb [of 4, simplified] feb [of 100, simplified] feb [of 400, simplified]
        using four d [unfolded True len] by (cases "4 dvd y + 4800"; cases "100 dvd y + 4800"; cases "400 dvd y + 4800") simp_all
      show ?thesis unfolding n nd by (simp add: fields True)
    next
      case False
      then have "m \<in> {1, 3, 4, 5, 6, 7, 8, 9, 10, 11, 12}" using month_cases [of m] v by blast
      then have "march_year (next_day D) = march_year D" "march_month (next_day D) = march_month D + 1"
        "snd (snd (next_day D)) = 1" "(153 * (march_month D + 1) + 2) div 5 = month_len y m + (153 * march_month D + 2) div 5"
        by (auto simp: fields d next_day_def march_year_def march_month_def month_len_def)
      then show ?thesis unfolding serial_def Let_def by (simp only: fields d snd_conv)
    qed
  qed
qed

lemma valid_next: "valid_ymd D \<Longrightarrow> valid_ymd (next_day D)"
  by (auto simp: valid_ymd_def next_day_def month_len_def split: if_splits)

lemma march_year_next: "valid_ymd D \<Longrightarrow> march_year D \<le> march_year (next_day D)"
  by (auto simp: valid_ymd_def next_day_def march_year_def split: if_splits)

lemma civil_ok: "valid_ymd (civil n) \<and> 0 \<le> march_year (civil n) \<and> serial (civil n) = int n"
proof (induction n)
  case 0
  show ?case by (simp add: valid_ymd_def march_year_def serial_def march_month_def month_len_def)
next
  case (Suc n)
  then show ?case using valid_next march_year_next [of "civil n"] serial_next [of "civil n"] by auto
qed

section \<open>The formulas\<close>

lemma sdiv_nonneg: "0 \<le> x \<Longrightarrow> 0 < k \<Longrightarrow> x sdiv k = x div k" for x k :: int
  by (simp add: signed_divide_int_def sgn_if)

lemma smod_nonneg: "0 \<le> x \<Longrightarrow> 0 < k \<Longrightarrow> x smod k = x mod k" for x k :: int
  by (cases "x = 0") (simp_all add: signed_modulo_int_def)

text \<open>The day of the March year, counted from 0.\<close>

definition year_day :: "ymd \<Rightarrow> int" where
  "year_day D = snd (snd D) - 1 + (153 * march_month D + 2) div 5"

lemma year_day_bounds:
  assumes "valid_ymd D"
  shows "0 \<le> year_day D" "year_day D \<le> 364 + (if leap (march_year D + 1) then 1 else 0)"
    "(5 * year_day D + 2) div 153 = march_month D" "0 \<le> march_month D" "march_month D \<le> 11"
proof -
  obtain y m d where D: "D = (y, m, d)" by (cases D)
  have m: "m \<in> {1, 2, 3, 4, 5, 6, 7, 8, 9, 10, 11, 12}" and d: "1 \<le> d" "d \<le> month_len y m"
    using assms month_cases [of m] by (auto simp: D valid_ymd_def)
  note defs = D year_day_def march_month_def march_year_def month_len_def
  show "0 \<le> year_day D" using m d by (auto simp: defs)
  show "year_day D \<le> 364 + (if leap (march_year D + 1) then 1 else 0)"
    using m d leap_shift [of y] by (auto simp: defs add.commute)
  have "d \<le> 31" "m = 2 \<Longrightarrow> d \<le> 29" "m \<in> {4, 6, 9, 11} \<Longrightarrow> d \<le> 30" using d by (auto simp: month_len_def split: if_splits)
  then have "153 * march_month D \<le> 5 * year_day D + 2" "5 * year_day D + 2 < 153 * march_month D + 153"
    using m d(1) by (auto simp: defs)
  then show "(5 * year_day D + 2) div 153 = march_month D"
    by (intro int_div_pos_eq [where r = "5 * year_day D + 2 - 153 * march_month D"]) simp_all
  show "0 \<le> march_month D" "march_month D \<le> 11" using m by (auto simp: defs)
qed

lemma century_split:
  fixes Y :: int
  defines "C \<equiv> Y div 100" and "R \<equiv> Y mod 100"
  shows "Y = 100 * C + R" "0 \<le> R" "R < 100" "Y div 4 = 25 * C + R div 4" "Y div 400 = C div 4"
proof -
  show Y: "Y = 100 * C + R" by (simp add: C_def R_def)
  show "0 \<le> R" "R < 100" by (simp_all add: R_def)
  have "Y = R + 4 * (25 * C)" using Y by simp
  then show "Y div 4 = 25 * C + R div 4" by simp
  show "Y div 400 = C div 4" by (simp add: C_def zdiv_zmult2_eq [symmetric])
qed

lemma year_quotient: "4 * q = R - p \<Longrightarrow> 4 * (365 * R + q + e) + 3 = 1461 * R + (4 * e + 3 - p)" for R :: int
  by simp

lemma century_quotient: "4 * q = C - p \<Longrightarrow> 4 * (36524 * C + q + c) + 3 = 146097 * C + (4 * c + 3 - p)" for C :: int
  by simp

lemma century_rest:
  fixes c p :: int
  assumes "0 \<le> c" "c \<le> 36523 + (if p = 3 then 1 else 0)" "0 \<le> p" "p < 4"
  shows "0 \<le> 4 * c + 3 - p" "4 * c + 3 - p < 146097"
  using assms by (auto split: if_splits)

lemma decode_steps:
  assumes v: "valid_ymd D" and Y: "0 \<le> march_year D"
  defines "C \<equiv> march_year D div 100" and "R \<equiv> march_year D mod 100"
  shows "(4 * serial D + 3) div 146097 = C"
    "serial D - (C * 146097) div 4 = 365 * R + R div 4 + year_day D"
    "(4 * (365 * R + R div 4 + year_day D) + 3) div 1461 = R"
    "365 * R + R div 4 + year_day D - (1461 * R) div 4 = year_day D"
proof -
  let ?Y = "march_year D" and ?e = "year_day D" and ?c = "365 * R + R div 4 + year_day D"
  note e = year_day_bounds(1,2) [OF v]
  note cs = century_split [of ?Y, folded C_def R_def]
  have "serial D = ?e + 365 * ?Y + ?Y div 4 - C + ?Y div 400"
    by (simp add: serial_def year_day_def Let_def C_def)
  also have "\<dots> = 36524 * C + C div 4 + ?c" unfolding cs(4,5) using cs(1) by simp
  finally have ser: "serial D = 36524 * C + C div 4 + ?c" .
  have c4: "(C * 146097) div 4 = 36524 * C + C div 4" and r4: "(1461 * R) div 4 = 365 * R + R div 4" by simp_all
  show "serial D - (C * 146097) div 4 = ?c" using ser c4 by simp
  show "?c - (1461 * R) div 4 = ?e" using r4 by simp
  have r: "4 * (R div 4) = R - R mod 4" and cm: "4 * (C div 4) = C - C mod 4" by (simp_all add: minus_mod_eq_mult_div)
  have rm: "0 \<le> R mod 4" "R mod 4 < 4" and cmb: "0 \<le> C mod 4" "C mod 4 < 4" by simp_all
  have lp4: "R mod 4 = 3" if "leap (?Y + 1)"
  proof -
    have "4 dvd 4 * (25 * C) + (R + 1)" using that cs(1) by (simp add: leap_def add.assoc)
    then have "4 dvd R + 1" by (rule dvd_add_right_iff [THEN iffD1, rotated]) simp
    then show ?thesis by presburger
  qed
  have lpc: "C mod 4 = 3" if "leap (?Y + 1)" "R = 99"
  proof -
    have Y1: "?Y + 1 = 100 * (C + 1)" using cs(1) that(2) by simp
    then have "100 * 4 dvd 100 * (C + 1)" using that(1) by (simp add: leap_def add.commute)
    then have "4 dvd C + 1" by (simp only: dvd_mult_cancel_left) simp
    then show ?thesis by presburger
  qed
  have e4: "0 \<le> 4 * ?e + 3 - R mod 4" "4 * ?e + 3 - R mod 4 < 1461"
    using e rm lp4 by (auto split: if_splits)
  show "(4 * ?c + 3) div 1461 = R"
  proof (rule int_div_pos_eq [where r = "4 * ?e + 3 - R mod 4"])
    show "4 * ?c + 3 = 1461 * R + (4 * ?e + 3 - R mod 4)" by (rule year_quotient [OF r])
    show "0 \<le> 4 * ?e + 3 - R mod 4" by (rule e4(1))
    show "4 * ?e + 3 - R mod 4 < 1461" by (rule e4(2))
  qed
  have "0 \<le> R div 4" using cs(2) by simp
  then have c0: "0 \<le> ?c" using cs(2) e(1) by simp
  have cb: "?c \<le> 36523 + (if C mod 4 = 3 then 1 else 0)"
  proof (cases "R = 99")
    case True
    then show ?thesis using e lpc by (auto split: if_splits)
  next
    case False
    then have "R \<le> 98" "R div 4 \<le> 24" using cs(3) by auto
    then show ?thesis using e by (auto split: if_splits)
  qed
  show "(4 * serial D + 3) div 146097 = C"
  proof (rule int_div_pos_eq [where r = "4 * ?c + 3 - C mod 4"])
    show "4 * serial D + 3 = 146097 * C + (4 * ?c + 3 - C mod 4)" unfolding ser by (rule century_quotient [OF cm])
    show "0 \<le> 4 * ?c + 3 - C mod 4" by (rule century_rest(1) [OF c0 cb cmb])
    show "4 * ?c + 3 - C mod 4 < 146097" by (rule century_rest(2) [OF c0 cb cmb])
  qed
qed

lemma serial_march: "serial D = year_day D + 365 * march_year D + march_year D div 4 - march_year D div 100 + march_year D div 400"
  by (simp add: serial_def year_day_def Let_def)

lemma div_chain:
  fixes Y :: int
  assumes "0 \<le> Y"
  shows "0 \<le> Y div 400" "Y div 400 \<le> Y div 100" "Y div 100 \<le> Y div 4" "Y div 4 \<le> Y"
  using assms zdiv_mono2 [of Y 1 4] zdiv_mono2 [of Y 100 400] zdiv_mono2 [of Y 4 100] pos_imp_zdiv_nonneg_iff [of 400 Y]
  by simp_all

lemma serial_bounds:
  assumes "valid_ymd D" "0 \<le> march_year D"
  shows "365 * march_year D \<le> serial D"
  unfolding serial_march using year_day_bounds(1) [OF assms(1)] div_chain [OF assms(2)] by linarith

lemma getJulianDayNumber_serial:
  assumes v: "valid_ymd D" and Y: "0 \<le> march_year D" and b: "serial D \<le> 536870911"
  shows "getJulianDayNumber D = Inr (serial D - 32044)"
proof -
  obtain y m d where D: "D = (y, m, d)" by (cases D)
  have m: "1 \<le> m" "m \<le> 12" and d: "1 \<le> d" "d \<le> 31"
    using v by (auto simp: D valid_ymd_def month_len_def split: if_splits)
  define a where "a = (14 - m) sdiv 12"
  have a: "a = (if m \<le> 2 then 1 else 0)"
    using m by (auto simp: a_def sdiv_nonneg)
  define Yr where "Yr = march_year D"
  define M where "M = march_month D"
  have Yr: "y + 4800 - a = Yr" and M: "m + 12 * a - 3 = M"
    by (auto simp: Yr_def M_def D march_year_def march_month_def a)
  have Mb: "0 \<le> M" "M \<le> 11" using year_day_bounds(4,5) [OF v] by (simp_all add: M_def)
  have Yb: "0 \<le> Yr" "Yr \<le> 1470879" using Y serial_bounds [OF v Y] b by (simp_all add: Yr_def)
  have q: "0 \<le> Yr div 400" "Yr div 400 \<le> Yr div 100" "Yr div 100 \<le> Yr div 4" "Yr div 4 \<le> Yr"
    by (rule div_chain [OF Yb(1)])+
  obtain q4 q100 q400 where qs: "Yr div 4 = q4" "Yr div 100 = q100" "Yr div 400 = q400" by simp
  define e where "e = (153 * M + 2) div 5"
  have e: "0 \<le> e" "e \<le> 337" using Mb by (auto simp: e_def)
  have ser: "serial D = d - 1 + e + 365 * Yr + q4 - q100 + q400"
    by (simp add: serial_march year_day_def D e_def M_def Yr_def qs [symmetric, unfolded Yr_def])
  have sd: "(153 * M + 2) sdiv 5 = e" "Yr sdiv 4 = q4" "Yr sdiv 100 = q100" "Yr sdiv 400 = q400"
    using Mb Yb qs by (simp_all add: sdiv_nonneg e_def)
  have ab: "0 \<le> a" "a \<le> 1" by (auto simp: a)
  have yb: "-4800 \<le> y" "y \<le> 1466080" using Yr Yb ab by linarith+
  show ?thesis
    using q e Mb Yb ab m d yb
    unfolding getJulianDayNumber_def D split_conv Let_def a_def [symmetric] Yr M sd ser [unfolded D] qs ints_def
    by (simp add: in_i32_def)
qed

lemma getYearMonthDay_serial:
  assumes v: "valid_ymd D" and Y: "0 \<le> march_year D" and b: "serial D \<le> 536870911"
  shows "getYearMonthDay (serial D - 32044) = Inr D"
proof -
  obtain y m d where D: "D = (y, m, d)" by (cases D)
  define C where "C = march_year D div 100"
  define R where "R = march_year D mod 100"
  define c where "c = 365 * R + R div 4 + year_day D"
  define e where "e = year_day D"
  define M where "M = march_month D"
  define A where "A = serial D"
  note st = decode_steps [OF v Y, folded C_def R_def, folded c_def A_def, folded e_def]
  have Yv: "march_year D = 100 * C + R" and R: "0 \<le> R" "R < 100"
    using century_split(1-3) [of "march_year D", folded C_def R_def] by simp_all
  have C: "0 \<le> C" using Y by (simp add: C_def pos_imp_zdiv_nonneg_iff)
  have e: "0 \<le> e" "e \<le> 365" and M: "(5 * e + 2) div 153 = M" "0 \<le> M" "M \<le> 11"
    using year_day_bounds [OF v] by (auto simp: e_def M_def split: if_splits)
  have "0 \<le> R div 4" "R div 4 \<le> 24" using R by auto
  then have c: "0 \<le> c" "c \<le> 36524" using R e by (auto simp: c_def e_def)
  have A: "0 \<le> A" "A \<le> 536870911" using serial_bounds [OF v Y] Y b by (simp_all add: A_def)
  have Cb: "C * 146097 \<le> 4 * A + 3"
    using st(1) pos_mod_sign [of 146097 "4 * A + 3"] div_mult_mod_eq [of "4 * A + 3" 146097] by simp
  have sd: "(4 * A + 3) sdiv 146097 = C" "A - (C * 146097) sdiv 4 = c" "(4 * c + 3) sdiv 1461 = R"
    "c - (1461 * R) sdiv 4 = e" "(5 * e + 2) sdiv 153 = M" "(153 * M + 2) sdiv 5 = (153 * M + 2) div 5"
    "M sdiv 10 = M div 10"
    using st A C c R e M by (simp_all add: sdiv_nonneg)
  have day: "e - (153 * M + 2) div 5 + 1 = d" by (simp add: e_def M_def year_day_def D)
  have m: "1 \<le> m" "m \<le> 12" and d: "1 \<le> d" "d \<le> 31"
    using v by (auto simp: D valid_ymd_def month_len_def split: if_splits)
  have month: "M + 3 - 12 * (M div 10) = m" and tens: "M div 10 = (if m \<le> 2 then 1 else 0)"
    using m by (auto simp: M_def D march_month_def)
  have year: "C * 100 + R - 4800 + M div 10 = y" using Yv by (simp add: tens D march_year_def split: if_splits)
  have tb: "0 \<le> M div 10" "M div 10 \<le> 1" by (simp_all add: tens)
  have Cb2: "C \<le> 14699" using Cb A by linarith
  have yb: "-4800 \<le> y" "y \<le> 2000000" using year C R Cb2 tb by linarith+
  show ?thesis
    using A C Cb c R e M m d yb tb Cb2
    unfolding getYearMonthDay_def Let_def diff_add_cancel A_def [symmetric] sd day month year ints_def
    by (simp add: in_i32_def D)
qed

lemma civil_serial:
  assumes "valid_ymd D" "0 \<le> march_year D" "serial D \<le> 536870911"
  shows "civil (nat (serial D)) = D"
proof -
  have s0: "0 \<le> serial D" using serial_bounds [OF assms(1,2)] assms(2) by linarith
  let ?n = "nat (serial D)"
  have "getYearMonthDay (serial (civil ?n) - 32044) = Inr (civil ?n)"
    by (rule getYearMonthDay_serial) (use civil_ok [of ?n] s0 assms(3) in auto)
  moreover have "getYearMonthDay (serial D - 32044) = Inr D" by (rule getYearMonthDay_serial [OF assms])
  ultimately show ?thesis using civil_ok [of ?n] s0 by simp
qed

lemma getYearMonthDay_overflow: "536838867 < j \<Longrightarrow> getYearMonthDay j = Inl Overflow"
  by (simp add: getYearMonthDay_def Let_def ints_def in_i32_def)

lemma getYearMonthDay_civil: "n \<le> 536870911 \<Longrightarrow> getYearMonthDay (int n - 32044) = Inr (civil n)"
  using getYearMonthDay_serial [of "civil n"] civil_ok [of n] by simp

lemma getJulianDayNumber_civil: "n \<le> 536870911 \<Longrightarrow> getJulianDayNumber (civil n) = Inr (int n - 32044)"
  using getJulianDayNumber_serial [of "civil n"] civil_ok [of n] by simp

lemma kJulianDayOf1970 [simp]: "kJulianDayOf1970_01_01 = 2440588"
  by (simp add: kJulianDayOf1970_01_01_def getJulianDayNumber_def ints_def in_i32_def sdiv_nonneg)

text \<open>
  C20. The formulas are the calendar. Counting day by day from 1 March 4801 BC by the lengths of the months
  and the rule for leap years, the \<open>n\<close>-th day is what \<open>getYearMonthDay\<close> gives for Julian day \<open>n - 32044\<close>, and
  \<open>getJulianDayNumber\<close> takes it back to that number, for every day until the products no longer fit an \<open>int\<close>, some
  1.4 million years later; from there on the conversion overflows.
\<close>

theorem calendar_days:
  "getYearMonthDay (int n - 32044) = (if n \<le> 536870911 then Inr (civil n) else Inl Overflow)
   \<and> (n \<le> 536870911 \<longrightarrow> getJulianDayNumber (civil n) = Inr (int n - 32044))"
proof (cases "n \<le> 536870911")
  case True
  then show ?thesis by (simp only: getYearMonthDay_civil getJulianDayNumber_civil if_True simp_thms)
next
  case False
  then have "536838867 < int n - 32044" by linarith
  from getYearMonthDay_overflow [OF this] False show ?thesis by (simp only: if_False simp_thms)
qed

theorem calendar_days_witness:
  "civil 2472632 = (1970, 1, 1) \<and> getJulianDayNumber (civil 2472632) = Inr kJulianDayOf1970_01_01"
proof -
  have "getYearMonthDay (int 2472632 - 32044) = Inr (1970, 1, 1)"
    using getYearMonthDay_serial [of "(1970, 1, 1)"]
    by (simp add: valid_ymd_def month_len_def march_year_def serial_def march_month_def)
  moreover have "getYearMonthDay (int 2472632 - 32044) = Inr (civil 2472632)"
    "getJulianDayNumber (civil 2472632) = Inr (int 2472632 - 32044)"
    using calendar_days [of 2472632] by (simp_all only: if_True simp_thms numeral_le_iff le_num_simps)
  moreover have "kJulianDayOf1970_01_01 = int 2472632 - 32044" by simp
  ultimately show ?thesis by (simp only: sum.inject simp_thms)
qed

end
