(* ===== verification/UtcTime.thy ===== *)
theory UtcTime
  imports Date
begin

text \<open>
  The conversion between seconds since the epoch and broken-down times in UTC (\<open>TimeZone::toUtcTime\<close> and
  \<open>fromUtcTime\<close> in \<open>TimeZone.cc\<close>), on the dates of \<open>Date.cc\<close>. \<open>time_t\<close> has 64 bits.
\<close>

section \<open>Broken-down times\<close>

record tm =
  tm_sec :: int
  tm_min :: int
  tm_hour :: int
  tm_mday :: int
  tm_mon :: int
  tm_year :: int
  tm_wday :: int
  tm_yday :: int
  tm_isdst :: bool
  tm_gmtoff :: int
  tm_zone :: string

definition zero_tm :: tm where
  "zero_tm = \<lparr>tm_sec = 0, tm_min = 0, tm_hour = 0, tm_mday = 0, tm_mon = 0, tm_year = 0, tm_wday = 0, tm_yday = 0,
     tm_isdst = False, tm_gmtoff = 0, tm_zone = []\<rparr>"

definition kSecondsPerDay :: int where
  "kSecondsPerDay = 24 * 60 * 60"

definition fillHMS :: "int \<Rightarrow> tm \<Rightarrow> tm" where
  "fillHMS seconds utc =
     (let minutes = seconds div 60
      in utc\<lparr>tm_sec := seconds mod 60, tm_min := minutes mod 60, tm_hour := minutes div 60\<rparr>)"

text \<open>\<open>static_cast<int>\<close> of a \<open>time_t\<close> keeps the low 32 bits.\<close>

definition to_int32 :: "int \<Rightarrow> int" where
  "to_int32 x = signed_take_bit 31 x"

definition toUtcTime :: "int \<Rightarrow> bool \<Rightarrow> tm res" where
  "toUtcTime secondsSinceEpoch yday =
     (let s = to_int32 (secondsSinceEpoch smod kSecondsPerDay);
          d = to_int32 (secondsSinceEpoch sdiv kSecondsPerDay);
          seconds = (if s < 0 then s + kSecondsPerDay else s);
          days = (if s < 0 then d - 1 else d);
          date = days + kJulianDayOf1970_01_01
      in rbind (ints [days, date] date) (\<lambda>date.
         rbind (getYearMonthDay date) (\<lambda>(year, month, day).
         rbind (weekDay date) (\<lambda>wday.
         rbind (ints [year - 1900, month - 1]
                  ((fillHMS seconds (zero_tm\<lparr>tm_zone := ''GMT''\<rparr>))
                     \<lparr>tm_year := year - 1900, tm_mon := month - 1, tm_mday := day, tm_wday := wday\<rparr>)) (\<lambda>utc.
         if yday
         then rbind (getJulianDayNumber (year, 1, 1)) (\<lambda>startOfYear.
              ints [date - startOfYear] (utc\<lparr>tm_yday := date - startOfYear\<rparr>))
         else Inr utc)))))"

text \<open>The product is computed in \<open>time_t\<close>, which holds any \<open>int\<close> number of days.\<close>

definition fromUtcTime_fields :: "int \<Rightarrow> int \<Rightarrow> int \<Rightarrow> int \<Rightarrow> int \<Rightarrow> int \<Rightarrow> int res" where
  "fromUtcTime_fields year month day hour minute seconds =
     rbind (getJulianDayNumber (year, month, day)) (\<lambda>date.
     let secondsInDay = hour * 3600 + minute * 60 + seconds;
         days = date - kJulianDayOf1970_01_01
     in ints [hour * 3600, minute * 60, hour * 3600 + minute * 60, secondsInDay, days]
          (days * kSecondsPerDay + secondsInDay))"

definition fromUtcTime :: "tm \<Rightarrow> int res" where
  "fromUtcTime utc =
     rbind (ints [tm_year utc + 1900, tm_mon utc + 1] (tm_year utc + 1900, tm_mon utc + 1)) (\<lambda>(year, month).
     fromUtcTime_fields year month (tm_mday utc) (tm_hour utc) (tm_min utc) (tm_sec utc))"

section \<open>UTC\<close>

lemma trunc_floor:
  fixes t k :: int
  assumes k: "0 < k"
  shows "(if t smod k < 0 then t sdiv k - 1 else t sdiv k) = t div k"
    and "(if t smod k < 0 then t smod k + k else t smod k) = t mod k"
proof -
  have "(if t smod k < 0 then t sdiv k - 1 else t sdiv k) = t div k
        \<and> (if t smod k < 0 then t smod k + k else t smod k) = t mod k"
  proof (cases "0 \<le> t")
    case True
    then show ?thesis using k pos_mod_sign [OF k, of t] by (simp add: sdiv_nonneg smod_nonneg not_less)
  next
    case False
    then have "t sdiv k = - ((- t) div k)" "t smod k = - ((- t) mod k)"
      using k by (simp_all add: signed_divide_int_def signed_modulo_int_def)
    then show ?thesis
      using k pos_mod_bound [OF k, of t] pos_mod_sign [OF k, of t]
      by (cases "t mod k = 0") (simp_all add: zdiv_zminus1_eq_if zmod_zminus1_eq_if zdiv_zminus2_eq_if)
  qed
  then show "(if t smod k < 0 then t sdiv k - 1 else t sdiv k) = t div k"
    and "(if t smod k < 0 then t smod k + k else t smod k) = t mod k" by blast+
qed

text \<open>The days from the first Julian day to the last that \<^const>\<open>getYearMonthDay\<close> converts.\<close>

definition utc_range :: "int \<Rightarrow> bool" where
  "utc_range t \<longleftrightarrow> - 2440588 * kSecondsPerDay \<le> t \<and> t < 534398280 * kSecondsPerDay"

definition utc_date :: "int \<Rightarrow> ymd" where
  "utc_date t = civil (nat (t div kSecondsPerDay + 2472632))"

lemma div_between:
  fixes t k :: int
  assumes "0 < k" "a * k \<le> t" "t < b * k"
  shows "a \<le> t div k" "t div k < b"
proof -
  have t: "t div k * k \<le> t" "t < (t div k + 1) * k"
    using pos_mod_sign [OF assms(1), of t] pos_mod_bound [OF assms(1), of t] div_mult_mod_eq [of t k]
    unfolding distrib_right by linarith+
  have "a * k < (t div k + 1) * k" "t div k * k < b * k" using t assms by linarith+
  then show "a \<le> t div k" "t div k < b" using assms(1) by (simp_all add: mult_less_cancel_right)
qed

lemma utc_days:
  assumes "utc_range t"
  shows "- 2440588 \<le> t div kSecondsPerDay" "t div kSecondsPerDay \<le> 534398279"
  using div_between [of kSecondsPerDay "- 2440588" t 534398280] assms
  by (simp_all add: utc_range_def kSecondsPerDay_def)

lemma to_int32_small: "in_i32 x \<Longrightarrow> to_int32 x = x"
  by (simp add: to_int32_def in_i32_def signed_take_bit_int_eq_self)

lemma utc_split:
  assumes "utc_range t"
  defines "s \<equiv> to_int32 (t smod kSecondsPerDay)" and "d \<equiv> to_int32 (t sdiv kSecondsPerDay)"
  shows "(if s < 0 then d - 1 else d) = t div kSecondsPerDay" "(if s < 0 then s + kSecondsPerDay else s) = t mod kSecondsPerDay"
proof -
  have k: "0 < kSecondsPerDay" "kSecondsPerDay = 86400" by (simp_all add: kSecondsPerDay_def)
  note tf = trunc_floor [OF k(1), of t]
  have m: "0 \<le> t mod kSecondsPerDay" "t mod kSecondsPerDay < 86400"
    using pos_mod_sign [OF k(1), of t] pos_mod_bound [OF k(1), of t] k(2) by simp_all
  obtain q r Q R where qr: "t sdiv kSecondsPerDay = q" "t smod kSecondsPerDay = r"
    and QR: "t div kSecondsPerDay = Q" "t mod kSecondsPerDay = R" by blast
  have "in_i32 r" "in_i32 q"
    using tf m utc_days [OF assms(1)] k(2) unfolding qr QR in_i32_def by (auto split: if_splits)
  then have "s = t smod kSecondsPerDay" "d = t sdiv kSecondsPerDay" by (simp_all add: s_def d_def to_int32_small qr)
  then show "(if s < 0 then d - 1 else d) = t div kSecondsPerDay" "(if s < 0 then s + kSecondsPerDay else s) = t mod kSecondsPerDay"
    by (simp_all only: tf)
qed

lemma utc_date_ok:
  assumes "utc_range t"
  shows "valid_ymd (utc_date t)" "0 \<le> march_year (utc_date t)" "serial (utc_date t) = t div kSecondsPerDay + 2472632"
    "getYearMonthDay (t div kSecondsPerDay + 2440588) = Inr (utc_date t)"
    "getJulianDayNumber (utc_date t) = Inr (t div kSecondsPerDay + 2440588)"
proof -
  let ?n = "nat (t div kSecondsPerDay + 2472632)"
  have n: "int ?n = t div kSecondsPerDay + 2472632" "?n \<le> 536870911" using utc_days [OF assms] by simp_all
  show "valid_ymd (utc_date t)" "0 \<le> march_year (utc_date t)" "serial (utc_date t) = t div kSecondsPerDay + 2472632"
    using civil_ok [of ?n] n by (simp_all add: utc_date_def)
  show "getYearMonthDay (t div kSecondsPerDay + 2440588) = Inr (utc_date t)"
    "getJulianDayNumber (utc_date t) = Inr (t div kSecondsPerDay + 2440588)"
    using getYearMonthDay_civil [OF n(2)] getJulianDayNumber_civil [OF n(2)] n(1)
    by (simp_all add: utc_date_def add.commute)
qed

text \<open>The day of the year, by the lengths of the months before.\<close>

definition day_of_year :: "ymd \<Rightarrow> int" where
  "day_of_year = (\<lambda>(y, m, d). (\<Sum>k = 1..<nat m. month_len y (int k)) + d - 1)"

lemma serial_day: "serial (y, m, d) = serial (y, m, 1) + d - 1"
  by (simp add: serial_def march_year_def march_month_def Let_def)

lemma serial_month: "1 \<le> n \<Longrightarrow> n \<le> 12 \<Longrightarrow> serial (y, int n, 1) = serial (y, 1, 1) + (\<Sum>k = 1..<n. month_len y (int k))"
proof (induction n rule: dec_induct)
  case base
  then show ?case by simp
next
  case (step n)
  let ?L = "month_len y (int n)"
  have "1 \<le> ?L" by (simp add: month_len_def)
  then have v: "valid_ymd (y, int n, ?L)" using step by (simp add: valid_ymd_def)
  have "serial (y, int (Suc n), 1) = serial (y, int n, ?L) + 1"
    using serial_next [OF v] step.prems by (simp add: next_day_def add.commute)
  also have "\<dots> = serial (y, int n, 1) + ?L" using serial_day [of y "int n" ?L] by simp
  finally show ?case using step by simp
qed

lemma serial_year_start:
  "valid_ymd (y, m, d) \<Longrightarrow> serial (y, m, d) - serial (y, 1, 1) = day_of_year (y, m, d)"
  using serial_month [of "nat m" y] serial_day [of y m d] by (auto simp: valid_ymd_def day_of_year_def)

lemma utc_date_bounds:
  assumes "utc_range t" "utc_date t = (y, m, d)"
  shows "-4799 \<le> y" "y \<le> 1466080" "1 \<le> m" "m \<le> 12" "1 \<le> d" "d \<le> 31"
    "valid_ymd (y, 1, 1)" "0 \<le> march_year (y, 1, 1)" "serial (y, 1, 1) \<le> 536870911"
proof -
  note ok = utc_date_ok [OF assms(1), unfolded assms(2)]
  have v: "1 \<le> m" "m \<le> 12" "1 \<le> d" "d \<le> 31" using ok(1) by (auto simp: valid_ymd_def month_len_def split: if_splits)
  then show "1 \<le> m" "m \<le> 12" "1 \<le> d" "d \<le> 31" by simp_all
  have b: "365 * march_year (y, m, d) \<le> 536870911"
    using serial_bounds [OF ok(1,2)] ok(3) utc_days [OF assms(1)] by linarith
  then show "y \<le> 1466080" by (simp add: march_year_def split: if_splits)
  have "march_year (y, m, d) \<noteq> 0"
  proof
    assume "march_year (y, m, d) = 0"
    then have "serial (y, m, d) \<le> 365"
      using year_day_bounds(2) [OF ok(1)] by (simp add: serial_march split: if_splits)
    then show False using ok(3) utc_days [OF assms(1)] by linarith
  qed
  then show y: "-4799 \<le> y" using ok(2) by (auto simp: march_year_def split: if_splits)
  show "valid_ymd (y, 1, 1)" by (simp add: valid_ymd_def month_len_def)
  show "0 \<le> march_year (y, 1, 1)" using y by (simp add: march_year_def)
  have "0 \<le> day_of_year (y, m, d)"
  proof -
    have "0 \<le> (\<Sum>k = 1..<nat m. month_len y (int k))" by (intro sum_nonneg) (simp add: month_len_def)
    then show ?thesis using v by (simp add: day_of_year_def)
  qed
  then show "serial (y, 1, 1) \<le> 536870911"
    using serial_year_start [OF ok(1)] ok(3) utc_days [OF assms(1)] by linarith
qed

definition utc_tm :: "int \<Rightarrow> bool \<Rightarrow> tm" where
  "utc_tm t yday =
     (case utc_date t of (y, m, d) \<Rightarrow>
        (fillHMS (t mod kSecondsPerDay) (zero_tm\<lparr>tm_zone := ''GMT''\<rparr>))
          \<lparr>tm_year := y - 1900, tm_mon := m - 1, tm_mday := d, tm_wday := (t div kSecondsPerDay + 4) mod 7,
           tm_yday := (if yday then day_of_year (y, m, d) else 0)\<rparr>)"

lemma weekDay_1970: "- 2440588 \<le> n \<Longrightarrow> n \<le> 534398279 \<Longrightarrow> weekDay (n + 2440588) = Inr ((n + 4) mod 7)"
proof -
  assume n: "- 2440588 \<le> n" "n \<le> 534398279"
  have "(n + 2440588 + 1) smod 7 = (n + 4 + 348655 * 7) mod 7" using n by (simp add: smod_nonneg)
  also have "\<dots> = (n + 4) mod 7" by (simp only: mod_mult_self1)
  finally show ?thesis using n by (simp add: weekDay_def ints_def in_i32_def kDaysPerWeek_def)
qed

lemma toUtcTime_value:
  assumes "utc_range t"
  shows "toUtcTime t yday = Inr (utc_tm t yday)"
proof -
  obtain y m d where D: "utc_date t = (y, m, d)" by (cases "utc_date t")
  note ok = utc_date_ok [OF assms, unfolded D] and b = utc_date_bounds [OF assms D] and dy = utc_days [OF assms]
  define n where "n = t div kSecondsPerDay"
  have ck: "ints [n, n + kJulianDayOf1970_01_01] (n + kJulianDayOf1970_01_01) = Inr (n + 2440588)"
    using dy by (simp add: ints_def in_i32_def n_def)
  have doy: "n + 2440588 - (serial (y, 1, 1) - 32044) = day_of_year (y, m, d)"
    using serial_year_start [OF ok(1)] ok(3) by (simp add: n_def)
  have fields: "ints [y - 1900, m - 1] x = Inr x" for x :: tm
    using b by (simp add: ints_def in_i32_def)
  have "0 \<le> serial (y, 1, 1)" using serial_bounds [OF b(7,8)] b(8) by linarith
  then have yd: "ints [day_of_year (y, m, d)] x = Inr x" for x :: tm
    using doy [symmetric] dy b(9) by (simp add: ints_def in_i32_def n_def)
  show ?thesis
    unfolding toUtcTime_def Let_def utc_split [OF assms] n_def [symmetric] ck rbind_Inr
      ok(4) [folded n_def] split_conv weekDay_1970 [OF dy, folded n_def] fields
      getJulianDayNumber_serial [OF b(7-9)] doy yd
    by (simp add: utc_tm_def D n_def zero_tm_def fillHMS_def Let_def)
qed

lemma clock_split:
  fixes x :: int
  assumes "0 \<le> x" "x < 86400"
  shows "0 \<le> x mod 60" "x mod 60 < 60" "0 \<le> x div 60 mod 60" "x div 60 mod 60 < 60"
    "0 \<le> x div 60 div 60" "x div 60 div 60 < 24" "x div 60 div 60 * 3600 + x div 60 mod 60 * 60 + x mod 60 = x"
proof -
  obtain h where h: "x div 60 = h" by blast
  have x: "x = 60 * h + x mod 60" using h by (metis mult_div_mod_eq)
  have hb: "0 \<le> h" "h < 1440" using assms h by (auto simp: pos_imp_zdiv_nonneg_iff)
  show "0 \<le> x mod 60" "x mod 60 < 60" "0 \<le> x div 60 mod 60" "x div 60 mod 60 < 60" by simp_all
  show "0 \<le> x div 60 div 60" "x div 60 div 60 < 24" unfolding h using hb by (simp_all add: pos_imp_zdiv_nonneg_iff)
  have "h div 60 * 60 + h mod 60 = h" by simp
  then show "x div 60 div 60 * 3600 + x div 60 mod 60 * 60 + x mod 60 = x" unfolding h using x by linarith
qed

lemma fromUtcTime_value:
  assumes "utc_range t"
  shows "fromUtcTime (utc_tm t yday) = Inr t"
proof -
  obtain y m d where D: "utc_date t = (y, m, d)" by (cases "utc_date t")
  note ok = utc_date_ok [OF assms, unfolded D] and b = utc_date_bounds [OF assms D] and dy = utc_days [OF assms]
  define x where "x = t mod kSecondsPerDay"
  define n where "n = t div kSecondsPerDay"
  have x: "0 \<le> x" "x < 86400" by (simp_all add: x_def kSecondsPerDay_def)
  note c = clock_split [OF x]
  obtain h mi se where hms: "x div 60 div 60 = h" "x div 60 mod 60 = mi" "x mod 60 = se" by blast
  have t: "n * kSecondsPerDay + x = t" by (simp add: n_def x_def)
  have "ints [h * 3600, mi * 60, h * 3600 + mi * 60, x, n] t = Inr t"
    using c [unfolded hms] x dy [folded n_def] by (simp add: ints_def in_i32_def)
  moreover have "ints [y, m] (y, m) = Inr (y, m)" using b by (simp add: ints_def in_i32_def)
  ultimately show ?thesis
    using c(7) [unfolded hms] t ok(5) [folded n_def]
    by (simp add: fromUtcTime_def utc_tm_def D fillHMS_def fromUtcTime_fields_def Let_def x_def [symmetric] hms n_def [symmetric])
qed

text \<open>
  \<open>toUtcTime\<close> is \<open>gmtime\<close> and \<open>fromUtcTime\<close> takes it back. For every second from the first Julian day on, before
  and after the epoch, until the date conversion overflows, the fields are the date of the calendar, the time of
  the day, the day of the week and, when asked for, the day of the year, and \<open>fromUtcTime\<close> of them is the second.
\<close>

theorem utc_roundtrip:
  assumes "utc_range t"
  shows "\<exists>u. toUtcTime t yday = Inr u \<and> fromUtcTime u = Inr t
    \<and> (tm_year u + 1900, tm_mon u + 1, tm_mday u) = utc_date t \<and> valid_ymd (utc_date t)
    \<and> 0 \<le> tm_sec u \<and> tm_sec u < 60 \<and> 0 \<le> tm_min u \<and> tm_min u < 60 \<and> 0 \<le> tm_hour u \<and> tm_hour u < 24
    \<and> tm_hour u * 3600 + tm_min u * 60 + tm_sec u = t mod 86400
    \<and> tm_wday u = (t div 86400 + 4) mod 7
    \<and> tm_yday u = (if yday then day_of_year (utc_date t) else 0)"
proof -
  have k: "kSecondsPerDay = 86400" by (simp add: kSecondsPerDay_def)
  have x: "0 \<le> t mod 86400" "t mod 86400 < 86400" by simp_all
  let ?u = "utc_tm t yday"
  have f: "tm_sec ?u = t mod 86400 mod 60" "tm_min ?u = t mod 86400 div 60 mod 60" "tm_hour ?u = t mod 86400 div 60 div 60"
    "tm_wday ?u = (t div 86400 + 4) mod 7" "tm_yday ?u = (if yday then day_of_year (utc_date t) else 0)"
    "(tm_year ?u + 1900, tm_mon ?u + 1, tm_mday ?u) = utc_date t"
    by (simp_all add: utc_tm_def fillHMS_def Let_def k split: prod.split)
  show ?thesis
    by (rule exI [of _ ?u], intro conjI)
      (simp_all only: f toUtcTime_value [OF assms] fromUtcTime_value [OF assms] utc_date_ok(1) [OF assms] clock_split [OF x])
qed

theorem utc_roundtrip_witness:
  "utc_range (- 1) \<and> (\<exists>u. toUtcTime (- 1) True = Inr u \<and> fromUtcTime u = Inr (- 1) \<and> tm_hour u = 23 \<and> tm_wday u = 3)"
proof -
  have "utc_range (- 1)" by (simp add: utc_range_def kSecondsPerDay_def)
  from utc_roundtrip [OF this, of True] this show ?thesis by auto
qed

end
