(* ===== verification/TimeZone.thy ===== *)
theory TimeZone
  imports UtcTime
begin

text \<open>
  Time zones (\<open>TimeZone.h\<close>, \<open>TimeZone.cc\<close>): the search for the offset in force, the conversion to and from
  local times, and the reader of zone files. Overflow of \<open>time_t\<close> is a fault. \<open>gmtime_r\<close> and \<open>timegm\<close> are
  parameters of the local conversions; \<open>toUtcTime\<close> and \<open>fromUtcTime\<close> of the class itself provide them.
\<close>

section \<open>Zones\<close>

record transition =
  gmttime :: int
  localtime :: int
  localtimeIdx :: nat

record local_time =
  gmtOffset :: int
  isDst :: bool
  arrbIdx :: nat

record tz_data =
  transitions :: "transition list"
  localtimes :: "local_time list"
  zone_names :: string

definition key :: "bool \<Rightarrow> transition \<Rightarrow> int" where
  "key compareGmt tr = (if compareGmt then gmttime tr else localtime tr)"

definition comp :: "bool \<Rightarrow> transition \<Rightarrow> transition \<Rightarrow> bool" where
  "comp compareGmt lhs rhs \<longleftrightarrow> key compareGmt lhs < key compareGmt rhs"

definition comp_equal :: "bool \<Rightarrow> transition \<Rightarrow> transition \<Rightarrow> bool" where
  "comp_equal compareGmt lhs rhs \<longleftrightarrow> key compareGmt lhs = key compareGmt rhs"

text \<open>\<open>std::lower_bound\<close>: the position of the first element that is not less.\<close>

definition lower_bound :: "('a \<Rightarrow> 'a \<Rightarrow> bool) \<Rightarrow> 'a \<Rightarrow> 'a list \<Rightarrow> nat" where
  "lower_bound lt x xs = length (takeWhile (\<lambda>y. lt y x) xs)"

definition vec_at :: "nat \<Rightarrow> 'a list \<Rightarrow> 'a res" where
  "vec_at i xs = (if i < length xs then Inr (xs ! i) else Inl OutOfBounds)"

definition findLocaltime :: "tz_data \<Rightarrow> transition \<Rightarrow> bool \<Rightarrow> local_time res" where
  "findLocaltime data sentry cmp =
     (let trs = transitions data
      in if trs = [] \<or> comp cmp sentry (hd trs) then vec_at 0 (localtimes data)
         else let transI = lower_bound (comp cmp) sentry trs
              in if transI \<noteq> length trs
                 then if \<not> comp_equal cmp sentry (trs ! transI)
                      then c_assert (transI \<noteq> 0) (vec_at (localtimeIdx (trs ! (transI - 1))) (localtimes data))
                      else vec_at (localtimeIdx (trs ! transI)) (localtimes data)
                 else vec_at (localtimeIdx (last trs)) (localtimes data))"

text \<open>A zone without data is the invalid one.\<close>

definition zone_valid :: "tz_data option \<Rightarrow> bool" where
  "zone_valid z \<longleftrightarrow> z \<noteq> None"

definition fixed_zone :: "int \<Rightarrow> string \<Rightarrow> tz_data option" where
  "fixed_zone eastOfUtc name =
     Some \<lparr>transitions = [], localtimes = [\<lparr>gmtOffset = eastOfUtc, isDst = False, arrbIdx = 0\<rparr>], zone_names = name\<rparr>"

definition toLocalTime :: "(int \<Rightarrow> tm) \<Rightarrow> tz_data option \<Rightarrow> int \<Rightarrow> tm res" where
  "toLocalTime gmtime zone seconds =
     (case zone of
        None \<Rightarrow> Inl AssertFail
      | Some data \<Rightarrow>
          rbind (findLocaltime data \<lparr>gmttime = seconds, localtime = 0, localtimeIdx = 0\<rparr> True) (\<lambda>local.
          rbind (ck64 (seconds + gmtOffset local)) (\<lambda>localSeconds.
          if arrbIdx local \<le> length (zone_names data)
          then Inr ((gmtime localSeconds)\<lparr>tm_isdst := isDst local, tm_gmtoff := gmtOffset local,
                      tm_zone := takeWhile (\<lambda>c. c \<noteq> CHR 0x00) (drop (arrbIdx local) (zone_names data))\<rparr>)
          else Inl OutOfBounds)))"

definition fromLocalTime :: "(int \<Rightarrow> tm) \<Rightarrow> (tm \<Rightarrow> int) \<Rightarrow> tz_data option \<Rightarrow> tm \<Rightarrow> int res" where
  "fromLocalTime gmtime timegm zone localTm =
     (case zone of
        None \<Rightarrow> Inl AssertFail
      | Some data \<Rightarrow>
          let seconds = timegm localTm
          in rbind (findLocaltime data \<lparr>gmttime = 0, localtime = seconds, localtimeIdx = 0\<rparr> False) (\<lambda>local.
             rbind
               (if tm_isdst localTm
                then rbind (ck64 (seconds - gmtOffset local)) (\<lambda>t.
                     rbind (toLocalTime gmtime zone t) (\<lambda>tryTm.
                     if \<not> tm_isdst tryTm \<and> tm_hour tryTm = tm_hour localTm \<and> tm_min tryTm = tm_min localTm
                     then ck64 (seconds - 3600) else Inr seconds))
                else Inr seconds)
               (\<lambda>seconds'. ck64 (seconds' - gmtOffset local))))"

section \<open>Zone files\<close>

text \<open>
  A read of the file either gives bytes and advances, or throws \<open>logic_error\<close>, which ends the reading and keeps
  what the data has so far. The state is the rest of the file and the data; the result of the whole is the data,
  or a fault that is not an exception the function catches.
\<close>

type_synonym 'a file_op = "string \<times> tz_data \<Rightarrow> 'a res \<times> string \<times> tz_data"

definition fbind :: "'a file_op \<Rightarrow> ('a \<Rightarrow> 'b file_op) \<Rightarrow> 'b file_op" where
  "fbind m f s = (case m s of (Inl e, s') \<Rightarrow> (Inl e, s') | (Inr x, s') \<Rightarrow> f x s')"

definition freturn :: "'a \<Rightarrow> 'a file_op" where
  "freturn x s = (Inr x, s)"

definition fthrow :: "fault \<Rightarrow> 'a file_op" where
  "fthrow e s = (Inl e, s)"

definition readBytes :: "int \<Rightarrow> string file_op" where
  "readBytes n = (\<lambda>(r, d).
     if n < 0 then (Inl OutOfBounds, r, d)
     else if length r < nat n then (Inl (Exception ''no enough data''), [], d)
     else (Inr (take (nat n) r), drop (nat n) r, d))"

definition readInt32 :: "int file_op" where
  "readInt32 = (\<lambda>(r, d).
     if length r < 4 then (Inl (Exception ''bad int32_t data''), [], d)
     else (Inr (sint (bytes_word (rev (take 4 r)) :: i32)), drop 4 r, d))"

definition readUInt8 :: "nat file_op" where
  "readUInt8 = (\<lambda>(r, d).
     case r of [] \<Rightarrow> (Inl (Exception ''bad uint8_t data''), [], d) | c # cs \<Rightarrow> (Inr (of_char c), cs, d))"

primrec times :: "nat \<Rightarrow> 'a file_op \<Rightarrow> 'a list file_op" where
  "times 0 m = freturn []"
| "times (Suc n) m = fbind m (\<lambda>x. fbind (times n m) (\<lambda>xs. freturn (x # xs)))"

definition push_localtime :: "local_time \<Rightarrow> unit file_op" where
  "push_localtime l = (\<lambda>(r, d). (Inr (), r, d\<lparr>localtimes := localtimes d @ [l]\<rparr>))"

definition readLocaltime :: "unit file_op" where
  "readLocaltime =
     fbind readInt32 (\<lambda>gmtoff. fbind readUInt8 (\<lambda>isdst. fbind readUInt8 (\<lambda>abbrind.
     push_localtime \<lparr>gmtOffset = gmtoff, isDst = (isdst \<noteq> 0), arrbIdx = abbrind\<rparr>)))"

definition push_transition :: "int \<times> nat \<Rightarrow> unit file_op" where
  "push_transition = (\<lambda>(t, localIdx) (r, d).
     if localIdx < length (localtimes d)
     then (Inr (), r, d\<lparr>transitions := transitions d @
             [\<lparr>gmttime = t, localtime = t + gmtOffset (localtimes d ! localIdx), localtimeIdx = localIdx\<rparr>]\<rparr>)
     else (Inl OutOfBounds, r, d))"

fun push_transitions :: "(int \<times> nat) list \<Rightarrow> unit file_op" where
  "push_transitions [] = freturn ()"
| "push_transitions (x # xs) = fbind (push_transition x) (\<lambda>_. push_transitions xs)"

definition set_zone_names :: "string \<Rightarrow> unit file_op" where
  "set_zone_names s = (\<lambda>(r, d). (Inr (), r, d\<lparr>zone_names := s\<rparr>))"

text \<open>\<open>reserve\<close> of a negative count throws \<open>length_error\<close>, which is a \<open>logic_error\<close>.\<close>

definition readZone :: "unit file_op" where
  "readZone =
     fbind (readBytes 4) (\<lambda>head.
     if head \<noteq> ''TZif'' then fthrow (Exception ''bad head'')
     else
       fbind (readBytes 1) (\<lambda>version. fbind (readBytes 15) (\<lambda>_.
       fbind readInt32 (\<lambda>isgmtcnt. fbind readInt32 (\<lambda>isstdcnt. fbind readInt32 (\<lambda>leapcnt.
       fbind readInt32 (\<lambda>timecnt. fbind readInt32 (\<lambda>typecnt. fbind readInt32 (\<lambda>charcnt.
       if timecnt < 0 then fthrow (Exception ''vector::reserve'')
       else
         fbind (times (nat timecnt) readInt32) (\<lambda>trans.
         fbind (times (nat timecnt) readUInt8) (\<lambda>locals.
         fbind (times (nat typecnt) readLocaltime) (\<lambda>_.
         fbind (push_transitions (zip trans locals)) (\<lambda>_.
         fbind (readBytes charcnt) set_zone_names)))))))))))))"

definition empty_data :: tz_data where
  "empty_data = \<lparr>transitions = [], localtimes = [], zone_names = []\<rparr>"

text \<open>\<open>None\<close> for a file that cannot be opened. The function always returns \<open>true\<close>.\<close>

definition readTimeZoneFile :: "string option \<Rightarrow> (bool \<times> tz_data) res" where
  "readTimeZoneFile file =
     (case file of
        None \<Rightarrow> Inr (True, empty_data)
      | Some bytes \<Rightarrow>
          (case readZone (bytes, empty_data) of
             (Inr _, _, d) \<Rightarrow> Inr (True, d)
           | (Inl (Exception _), _, d) \<Rightarrow> Inr (True, d)
           | (Inl e, _, d) \<Rightarrow> Inl e))"

definition file_zone :: "string option \<Rightarrow> tz_data option res" where
  "file_zone file = rbind (readTimeZoneFile file) (\<lambda>(ok, d). Inr (if ok then Some d else None))"

section \<open>The offset in force\<close>

text \<open>
  The transitions cut time into periods; period 0 lies before the first transition and has the first local
  time of the file. \<open>passed\<close> counts the transitions that have taken place.
\<close>

definition period :: "tz_data \<Rightarrow> nat \<Rightarrow> local_time" where
  "period Z k = localtimes Z ! (if k = 0 then 0 else localtimeIdx (transitions Z ! (k - 1)))"

definition passed :: "bool \<Rightarrow> int \<Rightarrow> tz_data \<Rightarrow> nat" where
  "passed cmp x Z = length (takeWhile (\<lambda>tr. key cmp tr \<le> x) (transitions Z))"

definition zone_wf :: "tz_data \<Rightarrow> bool" where
  "zone_wf Z \<longleftrightarrow> localtimes Z \<noteq> []
     \<and> list_all (\<lambda>tr. localtimeIdx tr < length (localtimes Z)
                      \<and> localtime tr = gmttime tr + gmtOffset (localtimes Z ! localtimeIdx tr)) (transitions Z)
     \<and> list_all (\<lambda>l. arrbIdx l \<le> length (zone_names Z) \<and> in_i32 (gmtOffset l)) (localtimes Z)"

text \<open>Transitions an hour apart on both clocks; every step back is one hour, from summer time to standard time.\<close>

definition zone_clock :: "tz_data \<Rightarrow> bool" where
  "zone_clock Z \<longleftrightarrow>
     (\<forall>k < length (transitions Z) - 1.
        gmttime (transitions Z ! k) + 3600 \<le> gmttime (transitions Z ! Suc k)
        \<and> localtime (transitions Z ! k) + 3600 \<le> localtime (transitions Z ! Suc k))
     \<and> (\<forall>k < length (transitions Z).
          gmtOffset (period Z k) \<le> gmtOffset (period Z (Suc k))
          \<or> gmtOffset (period Z k) = gmtOffset (period Z (Suc k)) + 3600 \<and> isDst (period Z k) \<and> \<not> isDst (period Z (Suc k)))"

definition increasing :: "bool \<Rightarrow> tz_data \<Rightarrow> bool" where
  "increasing cmp Z \<longleftrightarrow> (\<forall>k < length (transitions Z) - 1. key cmp (transitions Z ! k) < key cmp (transitions Z ! Suc k))"

lemma increasing_nth:
  assumes "increasing cmp Z" "i < j" "j < length (transitions Z)"
  shows "key cmp (transitions Z ! i) < key cmp (transitions Z ! j)"
  using assms(2,3)
proof (induction j)
  case (Suc j)
  have step: "key cmp (transitions Z ! j) < key cmp (transitions Z ! Suc j)"
    using assms(1) Suc.prems(2) by (simp add: increasing_def)
  show ?case
  proof (cases "i = j")
    case False
    then show ?thesis using Suc.IH Suc.prems step by simp
  qed (use step in simp)
qed simp

lemma passed_eqI:
  assumes inc: "increasing cmp Z" and k: "k \<le> length (transitions Z)"
    and lo: "k \<noteq> 0 \<Longrightarrow> key cmp (transitions Z ! (k - 1)) \<le> x"
    and hi: "k < length (transitions Z) \<Longrightarrow> x < key cmp (transitions Z ! k)"
  shows "passed cmp x Z = k"
proof -
  have "key cmp (transitions Z ! i) \<le> x" if "i < k" for i
  proof (cases "i = k - 1")
    case False
    then have "key cmp (transitions Z ! i) < key cmp (transitions Z ! (k - 1))"
      using that k by (intro increasing_nth [OF inc]) auto
    then show ?thesis using lo that by simp
  qed (use lo that in simp)
  then have "takeWhile (\<lambda>tr. key cmp tr \<le> x) (transitions Z) = take k (transitions Z)"
    using k hi by (intro takeWhile_eq_take_P_nth) auto
  then show ?thesis using k by (simp add: passed_def)
qed

lemma passed_bounds:
  shows "passed cmp x Z \<le> length (transitions Z)"
    and "passed cmp x Z \<noteq> 0 \<Longrightarrow> key cmp (transitions Z ! (passed cmp x Z - 1)) \<le> x"
    and "passed cmp x Z < length (transitions Z) \<Longrightarrow> x < key cmp (transitions Z ! passed cmp x Z)"
proof -
  let ?P = "\<lambda>tr. key cmp tr \<le> x"
  show "passed cmp x Z \<le> length (transitions Z)" by (simp add: passed_def length_takeWhile_le)
  show "passed cmp x Z < length (transitions Z) \<Longrightarrow> x < key cmp (transitions Z ! passed cmp x Z)"
    using nth_length_takeWhile [of ?P "transitions Z"] by (simp add: passed_def)
  assume n: "passed cmp x Z \<noteq> 0"
  have "takeWhile ?P (transitions Z) ! (passed cmp x Z - 1) \<in> set (takeWhile ?P (transitions Z))"
    using n by (simp add: passed_def)
  then show "key cmp (transitions Z ! (passed cmp x Z - 1)) \<le> x"
    using n by (simp add: passed_def takeWhile_nth) (metis set_takeWhileD)
qed

lemma vec_at_period:
  assumes "zone_wf Z" "k \<le> length (transitions Z)"
  shows "vec_at (if k = 0 then 0 else localtimeIdx (transitions Z ! (k - 1))) (localtimes Z) = Inr (period Z k)"
proof (cases k)
  case 0
  then show ?thesis using assms(1) by (simp add: vec_at_def period_def zone_wf_def)
next
  case (Suc i)
  then have "transitions Z ! i \<in> set (transitions Z)" using assms(2) by simp
  then show ?thesis using assms(1) Suc by (simp add: vec_at_def period_def zone_wf_def list_all_iff)
qed

text \<open>The search finds the period in force.\<close>

lemma findLocaltime_passed:
  assumes wf: "zone_wf Z" and inc: "increasing cmp Z"
  shows "findLocaltime Z sentry cmp = Inr (period Z (passed cmp (key cmp sentry) Z))"
proof -
  let ?trs = "transitions Z" and ?x = "key cmp sentry"
  define n where "n = lower_bound (comp cmp) sentry ?trs"
  have n_le: "n \<le> length ?trs" by (simp add: n_def lower_bound_def length_takeWhile_le)
  have below: "key cmp (?trs ! i) < ?x" if "i < n" for i
    using that takeWhile_holds [of i "\<lambda>y. comp cmp y sentry" ?trs] by (simp add: n_def lower_bound_def comp_def)
  have above: "?x \<le> key cmp (?trs ! n)" if "n < length ?trs"
    using that nth_length_takeWhile [of "\<lambda>y. comp cmp y sentry" ?trs] by (simp add: n_def lower_bound_def comp_def)
  consider (first) "?trs = [] \<or> comp cmp sentry (hd ?trs)"
    | (equal) "?trs \<noteq> []" "\<not> comp cmp sentry (hd ?trs)" "n < length ?trs" "key cmp (?trs ! n) = ?x"
    | (inside) "?trs \<noteq> []" "\<not> comp cmp sentry (hd ?trs)" "n < length ?trs" "key cmp (?trs ! n) \<noteq> ?x"
    | (beyond) "?trs \<noteq> []" "\<not> comp cmp sentry (hd ?trs)" "n = length ?trs"
    using n_le by fastforce
  then show ?thesis
  proof cases
    case first
    then have "passed cmp ?x Z = 0"
      by (intro passed_eqI [OF inc]) (auto simp: comp_def hd_conv_nth)
    then show ?thesis using first vec_at_period [OF wf, of 0] by (auto simp: findLocaltime_def Let_def)
  next
    case equal
    have "passed cmp ?x Z = Suc n"
      by (intro passed_eqI [OF inc]) (use equal increasing_nth [OF inc, of n "Suc n"] in auto)
    then show ?thesis using equal vec_at_period [OF wf, of "Suc n"]
      by (simp add: findLocaltime_def Let_def n_def [symmetric] comp_equal_def)
  next
    case inside
    have n0: "n \<noteq> 0"
    proof
      assume z: "n = 0"
      then show False using inside above [unfolded z] by (simp add: comp_def hd_conv_nth z)
    qed
    have "passed cmp ?x Z = n"
      by (intro passed_eqI [OF inc]) (use inside above below [of "n - 1"] n0 n_le in auto)
    then show ?thesis using inside n0 vec_at_period [OF wf, of n]
      by (simp add: findLocaltime_def Let_def n_def [symmetric] comp_equal_def)
  next
    case beyond
    have n0: "n \<noteq> 0" using beyond by simp
    have "passed cmp ?x Z = n"
      by (intro passed_eqI [OF inc]) (use beyond below [of "n - 1"] n0 in auto)
    then show ?thesis using beyond n0 vec_at_period [OF wf, of n]
      by (simp add: findLocaltime_def Let_def n_def [symmetric] last_conv_nth)
  qed
qed

section \<open>Local times\<close>

text \<open>
  What the conversions rely on of the C library: \<open>timegm\<close> inverts \<open>gmtime_r\<close>, whatever the fields for summer time, offset and name
  hold, for the seconds in the range of the library.
\<close>

locale libc_time =
  fixes gmtime :: "int \<Rightarrow> tm" and timegm :: "tm \<Rightarrow> int" and time_ok :: "int \<Rightarrow> bool"
  assumes timegm_gmtime: "time_ok s \<Longrightarrow> timegm ((gmtime s)\<lparr>tm_isdst := b, tm_gmtoff := g, tm_zone := z\<rparr>) = s"

definition utc_gmtime :: "int \<Rightarrow> tm" where
  "utc_gmtime s = (case toUtcTime s True of Inr u \<Rightarrow> u | Inl _ \<Rightarrow> zero_tm)"

definition utc_timegm :: "tm \<Rightarrow> int" where
  "utc_timegm u = (case fromUtcTime u of Inr t \<Rightarrow> t | Inl _ \<Rightarrow> 0)"

interpretation utc: libc_time utc_gmtime utc_timegm utc_range
proof
  fix s b g z
  assume r: "utc_range s"
  have "fromUtcTime ((utc_tm s True)\<lparr>tm_isdst := b, tm_gmtoff := g, tm_zone := z\<rparr>) = fromUtcTime (utc_tm s True)"
    by (simp add: fromUtcTime_def)
  then show "utc_timegm ((utc_gmtime s)\<lparr>tm_isdst := b, tm_gmtoff := g, tm_zone := z\<rparr>) = s"
    by (simp add: utc_timegm_def utc_gmtime_def toUtcTime_value [OF r] fromUtcTime_value [OF r])
qed

definition offset_at :: "tz_data \<Rightarrow> int \<Rightarrow> int" where
  "offset_at Z t = gmtOffset (period Z (passed True t Z))"

definition local_tm :: "(int \<Rightarrow> tm) \<Rightarrow> tz_data \<Rightarrow> int \<Rightarrow> tm" where
  "local_tm gmtime Z t =
     (let l = period Z (passed True t Z)
      in (gmtime (t + gmtOffset l))\<lparr>tm_isdst := isDst l, tm_gmtoff := gmtOffset l,
           tm_zone := takeWhile (\<lambda>c. c \<noteq> CHR 0x00) (drop (arrbIdx l) (zone_names Z))\<rparr>)"

lemma zone_clock_increasing: "zone_clock Z \<Longrightarrow> increasing cmp Z"
  by (fastforce simp: zone_clock_def increasing_def key_def)

lemma period_mem: "zone_wf Z \<Longrightarrow> k \<le> length (transitions Z) \<Longrightarrow> period Z k \<in> set (localtimes Z)"
  using vec_at_period [of Z k] by (auto simp: vec_at_def period_def split: if_splits)

lemma period_ok:
  assumes "zone_wf Z" "k \<le> length (transitions Z)"
  shows "arrbIdx (period Z k) \<le> length (zone_names Z)" "in_i32 (gmtOffset (period Z k))"
  using assms(1) period_mem [OF assms] by (auto simp: zone_wf_def list_all_iff)

lemma transition_local:
  assumes "zone_wf Z" "k < length (transitions Z)"
  shows "localtime (transitions Z ! k) = gmttime (transitions Z ! k) + gmtOffset (period Z (Suc k))"
  using assms nth_mem [OF assms(2)] by (simp add: zone_wf_def list_all_iff period_def)

lemma toLocalTime_value:
  assumes "zone_wf Z" "zone_clock Z" "in_i64 (t + offset_at Z t)"
  shows "toLocalTime gmtime (Some Z) t = Inr (local_tm gmtime Z t)"
  using assms(3) period_ok [OF assms(1), of "passed True t Z"] passed_bounds(1) [of True t Z]
  by (simp add: toLocalTime_def findLocaltime_passed [OF assms(1) zone_clock_increasing [OF assms(2)]] key_def
      ck64_def offset_at_def local_tm_def Let_def)

text \<open>
  A local time belongs to the period it was made from, or, in the hour a step back repeats, to the next one.
\<close>

lemma local_period:
  fixes t :: int
  assumes wf: "zone_wf Z" and cl: "zone_clock Z"
  defines "i \<equiv> passed True t Z"
  defines "L \<equiv> t + gmtOffset (period Z i)"
  shows "passed False L Z = i
    \<or> i < length (transitions Z) \<and> passed False L Z = Suc i \<and> passed True (t + 3600) Z = Suc i
      \<and> gmtOffset (period Z i) = gmtOffset (period Z (Suc i)) + 3600 \<and> isDst (period Z i) \<and> \<not> isDst (period Z (Suc i))"
proof -
  let ?trs = "transitions Z"
  note inc = zone_clock_increasing [OF cl]
  note b = passed_bounds [of True t Z, folded i_def, unfolded key_def if_True]
  have lo: "localtime (?trs ! (i - 1)) \<le> L" if "i \<noteq> 0"
    using transition_local [OF wf, of "i - 1"] b(1,2) that by (simp add: L_def)
  show ?thesis
  proof (cases "i < length ?trs \<and> localtime (?trs ! i) \<le> L")
    case False
    then have "passed False L Z = i"
      by (intro passed_eqI [OF inc]) (use b(1) lo in \<open>auto simp: key_def\<close>)
    then show ?thesis ..
  next
    case True
    then have i: "i < length ?trs" and li: "localtime (?trs ! i) \<le> L" by auto
    have "gmttime (?trs ! i) + gmtOffset (period Z (Suc i)) \<le> t + gmtOffset (period Z i)"
      using li transition_local [OF wf i] by (simp add: L_def)
    then have "\<not> gmtOffset (period Z i) \<le> gmtOffset (period Z (Suc i))" using b(3) [OF i] by linarith
    then have bck: "gmtOffset (period Z i) = gmtOffset (period Z (Suc i)) + 3600" "isDst (period Z i)" "\<not> isDst (period Z (Suc i))"
      using cl i by (auto simp: zone_clock_def)
    have nxt: "gmttime (?trs ! i) + 3600 \<le> gmttime (?trs ! Suc i)" "localtime (?trs ! i) + 3600 \<le> localtime (?trs ! Suc i)"
      if "Suc i < length ?trs" using cl that by (simp_all add: zone_clock_def)
    have "L < localtime (?trs ! i) + 3600"
      using bck(1) b(3) [OF i] transition_local [OF wf i] by (simp add: L_def)
    then have "passed False L Z = Suc i"
      by (intro passed_eqI [OF inc]) (use i li nxt in \<open>fastforce simp: key_def\<close>)+
    moreover have "passed True (t + 3600) Z = Suc i"
      by (intro passed_eqI [OF inc]) (use i li nxt b(3) [OF i] bck(1) transition_local [OF wf i] in \<open>fastforce simp: key_def L_def\<close>)+
    ultimately show ?thesis using i bck by blast
  qed
qed

context libc_time
begin

lemma fromLocalTime_toLocalTime:
  assumes wf: "zone_wf Z" and cl: "zone_clock Z" and t: "- (2 ^ 62) \<le> t" "t \<le> 2 ^ 62"
    and ok: "time_ok (t + offset_at Z t)"
  shows "fromLocalTime gmtime timegm (Some Z) (local_tm gmtime Z t) = Inr t"
proof -
  define i where "i = passed True t Z"
  define L where "L = t + gmtOffset (period Z i)"
  have i_le: "i \<le> length (transitions Z)" by (simp add: i_def passed_bounds)
  have L_eq: "L = t + offset_at Z t" by (simp add: L_def offset_at_def i_def)
  have sec: "timegm (local_tm gmtime Z t) = L"
    using timegm_gmtime [OF ok] by (simp add: local_tm_def Let_def L_def offset_at_def i_def)
  have dst: "tm_isdst (local_tm gmtime Z u) = isDst (period Z (passed True u Z))"
    "tm_hour (local_tm gmtime Z u) = tm_hour (gmtime (u + offset_at Z u))"
    "tm_min (local_tm gmtime Z u) = tm_min (gmtime (u + offset_at Z u))" for u
    by (simp_all add: local_tm_def Let_def offset_at_def)
  note find = findLocaltime_passed [OF wf zone_clock_increasing [OF cl]]
  have o: "in_i32 (gmtOffset (period Z k))" if "k \<le> length (transitions Z)" for k
    by (rule period_ok(2) [OF wf that])
  have rng: "in_i64 t" "in_i64 L" "in_i64 (t + 3600)"
    using t o [OF i_le] by (simp_all add: in_i64_def in_i32_def L_def)
  consider (same) "passed False L Z = i"
    | (again) "i < length (transitions Z)" "passed False L Z = Suc i" "passed True (t + 3600) Z = Suc i"
        "gmtOffset (period Z i) = gmtOffset (period Z (Suc i)) + 3600" "isDst (period Z i)" "\<not> isDst (period Z (Suc i))"
    using local_period [OF wf cl, of t, folded i_def, folded L_def] by blast
  then show ?thesis
  proof cases
    case same
    have bck: "L - gmtOffset (period Z i) = t" by (simp add: L_def)
    have "toLocalTime gmtime (Some Z) t = Inr (local_tm gmtime Z t)"
      by (rule toLocalTime_value [OF wf cl]) (use rng L_eq in simp)
    then show ?thesis
      using rng by (simp add: fromLocalTime_def sec find key_def same bck ck64_def dst i_def [symmetric])
  next
    case again
    have bck: "L - gmtOffset (period Z (Suc i)) = t + 3600" using again(4) by (simp add: L_def)
    have same_clock: "t + 3600 + offset_at Z (t + 3600) = L" using again(3,4) by (simp add: offset_at_def L_def)
    have "toLocalTime gmtime (Some Z) (t + 3600) = Inr (local_tm gmtime Z (t + 3600))"
      by (rule toLocalTime_value [OF wf cl]) (use rng same_clock in simp)
    moreover have "in_i64 (L - 3600)" "L - 3600 - gmtOffset (period Z (Suc i)) = t"
      using t o [OF i_le] bck by (simp_all add: in_i64_def in_i32_def L_def)
    ultimately show ?thesis
      using rng again same_clock
      by (simp add: fromLocalTime_def sec find key_def bck ck64_def dst i_def [symmetric] L_eq [symmetric] Let_def)
  qed
qed

end

text \<open>
  C33. \<open>fromLocalTime\<close> inverts \<open>toLocalTime\<close>, also in the hour that the end of summer time repeats, for every zone
  whose transitions lie an hour apart and step back only from summer time to standard time by one hour.
\<close>

theorem local_roundtrip:
  assumes "libc_time gmtime timegm time_ok" "zone_wf Z" "zone_clock Z" "- (2 ^ 62) \<le> t" "t \<le> 2 ^ 62"
    and "time_ok (t + offset_at Z t)"
  shows "\<exists>u. toLocalTime gmtime (Some Z) t = Inr u \<and> fromLocalTime gmtime timegm (Some Z) u = Inr t"
proof -
  have "in_i32 (offset_at Z t)"
    unfolding offset_at_def by (rule period_ok(2) [OF assms(2)]) (rule passed_bounds)
  then have "in_i64 (t + offset_at Z t)" using assms(4,5) by (simp add: in_i64_def in_i32_def)
  then show ?thesis
    using toLocalTime_value [OF assms(2,3)] libc_time.fromLocalTime_toLocalTime [OF assms] by blast
qed

text \<open>Berlin around the end of summer time on 25 October 2020, in the first of the two hours from two to three.\<close>

definition berlin :: tz_data where
  "berlin =
     \<lparr>transitions = [\<lparr>gmttime = 1585443600, localtime = 1585450800, localtimeIdx = 1\<rparr>,
                     \<lparr>gmttime = 1603587600, localtime = 1603591200, localtimeIdx = 0\<rparr>],
      localtimes = [\<lparr>gmtOffset = 3600, isDst = False, arrbIdx = 0\<rparr>, \<lparr>gmtOffset = 7200, isDst = True, arrbIdx = 4\<rparr>],
      zone_names = ''CET'' @ [CHR 0x00] @ ''CEST'' @ [CHR 0x00]\<rparr>"

theorem local_roundtrip_witness:
  "\<exists>u. toLocalTime utc_gmtime (Some berlin) 1603586000 = Inr u \<and> fromLocalTime utc_gmtime utc_timegm (Some berlin) u = Inr 1603586000"
proof (rule local_roundtrip)
  show "libc_time utc_gmtime utc_timegm utc_range" by (rule utc.libc_time_axioms)
  show "zone_wf berlin" by (simp add: berlin_def zone_wf_def in_i32_def)
  show "zone_clock berlin" by (simp add: berlin_def zone_clock_def period_def less_Suc_eq)
  show "utc_range (1603586000 + offset_at berlin 1603586000)"
    by (simp add: utc_range_def kSecondsPerDay_def offset_at_def berlin_def passed_def period_def key_def)
qed simp_all

section \<open>Reading zone files\<close>

text \<open>The image of a zone in the first version of the TZif format, big-endian.\<close>

definition be32 :: "int \<Rightarrow> string" where
  "be32 k = rev (word_bytes (word_of_int k :: i32))"

definition type_bytes :: "local_time \<Rightarrow> string" where
  "type_bytes l = be32 (gmtOffset l) @ [char_of (if isDst l then 1 else 0 :: nat), char_of (arrbIdx l)]"

definition tzif :: "int list \<Rightarrow> nat list \<Rightarrow> local_time list \<Rightarrow> string \<Rightarrow> string" where
  "tzif ts idxs types names =
     ''TZif'' @ [CHR 0x00] @ replicate 15 (CHR 0x00)
     @ concat (map be32 [0, 0, 0, int (length ts), int (length types), int (length names)])
     @ concat (map be32 ts) @ map char_of idxs @ concat (map type_bytes types) @ names"

lemma fbind_simps [simp]:
  "m s = (Inr x, s') \<Longrightarrow> fbind m f s = f x s'" "m s = (Inl e, s') \<Longrightarrow> fbind m f s = (Inl e, s')"
  by (simp_all add: fbind_def)

lemma readBytes_append: "length x = nat n \<Longrightarrow> 0 \<le> n \<Longrightarrow> readBytes n (x @ r, d) = (Inr x, r, d)"
  by (simp add: readBytes_def)

lemma readInt32_be32: "in_i32 k \<Longrightarrow> readInt32 (be32 k @ r, d) = (Inr k, r, d)"
proof -
  assume k: "in_i32 k"
  have "bytes_word (word_bytes (word_of_int k :: i32)) = (word_of_int k :: i32)" by (rule word_bytes_roundtrip) simp
  moreover have "sint (word_of_int k :: i32) = k" using k by (simp add: in_i32_def signed_of_int signed_take_bit_int_eq_self)
  ultimately show ?thesis by (simp add: readInt32_def be32_def)
qed

lemma readUInt8_char: "k < 256 \<Longrightarrow> readUInt8 (char_of k # r, d) = (Inr k, r, d)"
  by (simp add: readUInt8_def of_char_of)

lemma times_reads:
  assumes "\<And>x r d. x \<in> set xs \<Longrightarrow> m (enc x @ r, d) = (Inr x, r, d)"
  shows "times (length xs) m (concat (map enc xs) @ r, d) = (Inr xs, r, d)"
  using assms by (induction xs arbitrary: r) (simp_all add: freturn_def)

lemma readLocaltime_type:
  assumes "in_i32 (gmtOffset l)" "arrbIdx l < 256"
  shows "readLocaltime (type_bytes l @ r, d) = (Inr (), r, d\<lparr>localtimes := localtimes d @ [l]\<rparr>)"
  using assms by (simp add: readLocaltime_def type_bytes_def readInt32_be32 readUInt8_char push_localtime_def)

lemma times_localtimes:
  assumes "list_all (\<lambda>l. in_i32 (gmtOffset l) \<and> arrbIdx l < 256) ls"
  shows "\<exists>us. times (length ls) readLocaltime (concat (map type_bytes ls) @ r, d)
    = (Inr us, r, d\<lparr>localtimes := localtimes d @ ls\<rparr>)"
  using assms
proof (induction ls arbitrary: d)
  case (Cons l ls)
  obtain us where "times (length ls) readLocaltime
      (concat (map type_bytes ls) @ r, d\<lparr>localtimes := localtimes d @ [l]\<rparr>)
    = (Inr us, r, d\<lparr>localtimes := localtimes d @ l # ls\<rparr>)"
    using Cons.IH [of "d\<lparr>localtimes := localtimes d @ [l]\<rparr>"] Cons.prems by auto
  then show ?case using Cons.prems by (simp add: readLocaltime_type freturn_def)
qed (simp add: freturn_def)

definition file_transitions :: "int list \<Rightarrow> nat list \<Rightarrow> local_time list \<Rightarrow> transition list" where
  "file_transitions ts idxs types =
     map (\<lambda>(t, i). \<lparr>gmttime = t, localtime = t + gmtOffset (types ! i), localtimeIdx = i\<rparr>) (zip ts idxs)"

lemma push_transitions_all:
  assumes "list_all (\<lambda>(t, i). i < length (localtimes d)) xs"
  shows "push_transitions xs (r, d) = (Inr (), r, d\<lparr>transitions := transitions d @
     map (\<lambda>(t, i). \<lparr>gmttime = t, localtime = t + gmtOffset (localtimes d ! i), localtimeIdx = i\<rparr>) xs\<rparr>)"
  using assms
proof (induction xs arbitrary: d)
  case (Cons x xs)
  then show ?case by (cases x) (simp add: push_transition_def)
qed (simp add: freturn_def)

text \<open>
  Zone files. Of the image of a zone the constructor makes exactly that zone, with the local time of each transition;
  a file that cannot be opened gives a zone that is valid and has no local time at all, and the first conversion
  reads outside the empty vector.
\<close>

theorem zone_file:
  assumes "length ts = length idxs" "length ts < 2 ^ 31" "length types < 2 ^ 31" "length names < 2 ^ 31"
    and "list_all in_i32 ts" "list_all (\<lambda>i. i < 256 \<and> i < length types) idxs"
    and "list_all (\<lambda>l. in_i32 (gmtOffset l) \<and> arrbIdx l < 256) types"
  shows "file_zone (Some (tzif ts idxs types names @ tail))
           = Inr (Some \<lparr>transitions = file_transitions ts idxs types, localtimes = types, zone_names = names\<rparr>)
         \<and> file_zone None = Inr (Some empty_data)
         \<and> zone_valid (Some empty_data) \<and> toLocalTime gmtime (Some empty_data) t = Inl OutOfBounds"
proof -
  have n: "in_i32 (int (length ts))" "in_i32 (int (length types))" "in_i32 (int (length names))" "in_i32 0"
    using assms(2-4) by (simp_all add: in_i32_def)
  have ts: "times (length ts) readInt32 (concat (map be32 ts) @ r, d) = (Inr ts, r, d)" for r d
    by (rule times_reads) (use assms(5) in \<open>simp add: readInt32_be32 list_all_iff\<close>)
  have ix: "times (length ts) readUInt8 (map char_of idxs @ r, d) = (Inr idxs, r, d)" for r d
    using times_reads [of idxs readUInt8 "\<lambda>i. [char_of i]" r d] assms(1,6)
    by (simp add: readUInt8_char list_all_iff)
  obtain us where ty: "times (length types) readLocaltime (concat (map type_bytes types) @ names @ tail, empty_data)
      = (Inr us, names @ tail, empty_data\<lparr>localtimes := types\<rparr>)"
    using times_localtimes [OF assms(7), of "names @ tail" empty_data] by (auto simp: empty_data_def)
  have pt: "push_transitions (zip ts idxs) (names @ tail, empty_data\<lparr>localtimes := types\<rparr>)
      = (Inr (), names @ tail, empty_data\<lparr>localtimes := types, transitions := file_transitions ts idxs types\<rparr>)"
    by (subst push_transitions_all)
      (use assms(6) in \<open>auto simp: list_all_iff file_transitions_def empty_data_def dest: set_zip_rightD\<close>)
  have hd: "readBytes 4 (CHR ''T'' # CHR ''Z'' # CHR ''i'' # CHR ''f'' # r, d) = (Inr ''TZif'', r, d)"
    "readBytes 1 (CHR 0x00 # r, d) = (Inr [CHR 0x00], r, d)" for r d
    by (simp_all add: readBytes_def)
  have "readZone (tzif ts idxs types names @ tail, empty_data)
      = (Inr (), tail, \<lparr>transitions = file_transitions ts idxs types, localtimes = types, zone_names = names\<rparr>)"
    unfolding readZone_def tzif_def append_assoc
    by (simp add: hd readBytes_append readInt32_be32 n ts ix ty [unfolded empty_data_def] pt [unfolded empty_data_def, simplified] set_zone_names_def empty_data_def)
  then show ?thesis
    by (simp add: file_zone_def readTimeZoneFile_def zone_valid_def toLocalTime_def findLocaltime_def empty_data_def vec_at_def)
qed

theorem zone_file_witness:
  "file_zone (Some (tzif [1585443600, 1603587600] [1, 0] (localtimes berlin) (zone_names berlin))) = Inr (Some berlin)"
  using zone_file [of "[1585443600, 1603587600]" "[1, 0]" "localtimes berlin" "zone_names berlin" "[]"]
  by (simp add: berlin_def in_i32_def file_transitions_def)

end
