(* ===== verification/LogStream.thy ===== *)
theory LogStream
  imports Date "HOL-Library.Sublist"
begin

text \<open>
  The log stream (\<open>LogStream.h\<close>, \<open>LogStream.cc\<close>): a buffer of fixed size that takes a piece whole or not at all, and
  the conversions of numbers that write into it directly. A buffer is its size and the bytes in front of the
  cursor; a write beyond the end of the array is a fault.
\<close>

section \<open>Fixed buffers\<close>

record fixed_buffer =
  fb_size :: nat
  fb_data :: string

definition kSmallBuffer :: nat where "kSmallBuffer = 4000"
definition kLargeBuffer :: nat where "kLargeBuffer = 4000 * 1000"

definition newFixedBuffer :: "nat \<Rightarrow> fixed_buffer" where
  "newFixedBuffer n = \<lparr>fb_size = n, fb_data = []\<rparr>"

definition fb_length :: "fixed_buffer \<Rightarrow> nat" where
  "fb_length b = length (fb_data b)"

definition avail :: "fixed_buffer \<Rightarrow> nat" where
  "avail b = fb_size b - length (fb_data b)"

definition fb_append :: "string \<Rightarrow> fixed_buffer \<Rightarrow> fixed_buffer" where
  "fb_append buf b = (if avail b > length buf then b\<lparr>fb_data := fb_data b @ buf\<rparr> else b)"

definition fb_reset :: "fixed_buffer \<Rightarrow> fixed_buffer" where
  "fb_reset b = b\<lparr>fb_data := []\<rparr>"

text \<open>\<open>written\<close> bytes stored from \<open>current()\<close> on, of which \<open>add\<close> keeps the text.\<close>

definition fb_write :: "string \<Rightarrow> nat \<Rightarrow> fixed_buffer \<Rightarrow> fixed_buffer res" where
  "fb_write txt written b =
     (if written \<le> avail b then Inr (b\<lparr>fb_data := fb_data b @ txt\<rparr>) else Inl OutOfBounds)"

section \<open>Numbers\<close>

definition digits :: string where "digits = ''9876543210123456789''"

definition digitsHex :: string where "digitsHex = ''0123456789ABCDEF''"

text \<open>\<open>zero[lsd]\<close>, where \<open>zero\<close> points at the middle of the table and \<open>lsd\<close> may be negative.\<close>

definition zero_at :: "int \<Rightarrow> char" where
  "zero_at lsd = digits ! nat (9 + lsd)"

function convert_digits :: "int \<Rightarrow> string" where
  "convert_digits i =
     (let lsd = i smod 10; i' = i sdiv 10
      in zero_at lsd # (if i' \<noteq> 0 then convert_digits i' else []))"
  by pat_completeness auto
termination
  by (relation "measure (\<lambda>i. nat \<bar>i\<bar>)") (auto simp: signed_divide_int_def abs_mult sgn_if nat_div_distrib split: if_splits)

declare convert_digits.simps [simp del]

definition convert :: "int \<Rightarrow> string" where
  "convert v = rev (convert_digits v @ (if v < 0 then ''-'' else []))"

fun hex_loop :: "nat \<Rightarrow> string" where
  "hex_loop i = digitsHex ! (i mod 16) # (if i div 16 \<noteq> 0 then hex_loop (i div 16) else [])"

declare hex_loop.simps [simp del]

definition convertHex :: "nat \<Rightarrow> string" where
  "convertHex v = rev (hex_loop v)"

section \<open>The stream\<close>

definition kMaxNumericSize :: nat where "kMaxNumericSize = 48"

text \<open>
  The operands of \<open>operator<<\<close>. A floating-point number comes as the text \<open>snprintf("%.12g")\<close> makes of it.
\<close>

datatype log_item =
    LBool bool | LInteger int | LPointer nat | LDouble string | LChar char | LCString "string option" | LString string

definition formatInteger :: "int \<Rightarrow> fixed_buffer \<Rightarrow> fixed_buffer res" where
  "formatInteger v b =
     (if avail b \<ge> kMaxNumericSize then fb_write (convert v) (length (convert v) + 1) b else Inr b)"

fun put_item :: "log_item \<Rightarrow> fixed_buffer \<Rightarrow> fixed_buffer res" where
  "put_item (LBool v) b = Inr (fb_append (if v then ''1'' else ''0'') b)"
| "put_item (LInteger v) b = formatInteger v b"
| "put_item (LPointer p) b =
     (if avail b \<ge> kMaxNumericSize
      then fb_write (''0x'' @ convertHex p) (length (convertHex p) + 3) b else Inr b)"
| "put_item (LDouble txt) b =
     (if avail b \<ge> kMaxNumericSize
      then if length txt < kMaxNumericSize then fb_write txt (length txt + 1) b else Inl OutOfBounds
      else Inr b)"
| "put_item (LChar c) b = Inr (fb_append [c] b)"
| "put_item (LCString s) b = Inr (fb_append (case s of Some t \<Rightarrow> takeWhile (\<lambda>c. c \<noteq> CHR 0x00) t | None \<Rightarrow> ''(null)'') b)"
| "put_item (LString s) b = Inr (fb_append s b)"

fun put_items :: "log_item list \<Rightarrow> fixed_buffer \<Rightarrow> fixed_buffer res" where
  "put_items [] b = Inr b"
| "put_items (x # xs) b = rbind (put_item x b) (put_items xs)"

section \<open>Conversions\<close>

lemma zero_at_digit: "- 9 \<le> d \<Longrightarrow> d \<le> 9 \<Longrightarrow> zero_at d = digit_char (nat \<bar>d\<bar>)"
proof -
  assume d: "- 9 \<le> d" "d \<le> 9"
  then have "nat (9 + d) \<in> {0..<19}" by auto
  moreover have "\<forall>k \<in> {0..<19}. digits ! k = digit_char (nat \<bar>int k - 9\<bar>)" by code_simp
  ultimately show ?thesis using d by (auto simp: zero_at_def)
qed

lemma smod_abs: "\<bar>x smod 10\<bar> = \<bar>x\<bar> mod 10" "\<bar>x sdiv 10\<bar> = \<bar>x\<bar> div 10" for x :: int
  by (auto simp: signed_modulo_int_def signed_divide_int_def abs_mult sgn_if pos_imp_zdiv_nonneg_iff)

lemma convert_digits_show: "rev (convert_digits v) = show_nat (nat \<bar>v\<bar>)"
proof (induction v rule: convert_digits.induct)
  case (1 v)
  have m: "nat \<bar>v smod 10\<bar> = nat \<bar>v\<bar> mod 10" and q: "nat \<bar>v sdiv 10\<bar> = nat \<bar>v\<bar> div 10"
    by (simp_all add: smod_abs nat_mod_distrib nat_div_distrib)
  have z: "v sdiv 10 = 0 \<longleftrightarrow> nat \<bar>v\<bar> < 10" using smod_abs(2) [of v] by auto
  have "\<bar>v smod 10\<bar> < 10" by (simp add: smod_abs)
  then have d: "zero_at (v smod 10) = digit_char (nat \<bar>v\<bar> mod 10)" by (simp add: zero_at_digit m)
  show ?case
    using 1 z d q by (subst convert_digits.simps, subst show_nat.simps) (auto simp: Let_def)
qed

text \<open>The conversion without negation is the decimal numeral, for every value of every integer type.\<close>

lemma convert_show: "convert v = show_int v"
  by (simp add: convert_def convert_digits_show show_int_def abs_if)

lemma length_hex_loop: "n < 16 ^ k \<Longrightarrow> 0 < k \<Longrightarrow> length (hex_loop n) \<le> k"
proof (induction k arbitrary: n)
  case (Suc k)
  show ?case
  proof (cases "n < 16")
    case False
    then have "0 < k" using Suc.prems(1) by (cases k) auto
    moreover have "n div 16 < 16 ^ k" using Suc.prems(1) by (simp add: less_mult_imp_div_less mult.commute)
    ultimately show ?thesis using Suc.IH [of "n div 16"] False by (subst hex_loop.simps) simp
  qed (subst hex_loop.simps, simp)
qed simp

fun hex_value :: "nat \<Rightarrow> string \<Rightarrow> nat" where
  "hex_value acc [] = acc"
| "hex_value acc (c # cs) = hex_value (16 * acc + length (takeWhile (\<lambda>d. d \<noteq> c) digitsHex)) cs"

lemma hex_value_append: "hex_value acc (xs @ ys) = hex_value (hex_value acc xs) ys"
  by (induction xs arbitrary: acc) simp_all

lemma hex_digit_position: "k < 16 \<Longrightarrow> length (takeWhile (\<lambda>d. d \<noteq> digitsHex ! k) digitsHex) = k"
proof -
  have "\<forall>k \<in> {0..<16}. length (takeWhile (\<lambda>d. d \<noteq> digitsHex ! k) digitsHex) = k" by code_simp
  then show "k < 16 \<Longrightarrow> ?thesis" by simp
qed

lemma convertHex_value: "hex_value 0 (convertHex v) = v"
  unfolding convertHex_def
proof (induction v rule: hex_loop.induct)
  case (1 v)
  then show ?case
    by (subst hex_loop.simps) (auto simp: hex_value_append hex_digit_position)
qed

section \<open>What the stream holds\<close>

fun item_text :: "log_item \<Rightarrow> string" where
  "item_text (LBool v) = (if v then ''1'' else ''0'')"
| "item_text (LInteger v) = show_int v"
| "item_text (LPointer p) = ''0x'' @ convertHex p"
| "item_text (LDouble txt) = txt"
| "item_text (LChar c) = [c]"
| "item_text (LCString s) = (case s of Some t \<Rightarrow> takeWhile (\<lambda>c. c \<noteq> CHR 0x00) t | None \<Rightarrow> ''(null)'')"
| "item_text (LString s) = s"

fun item_ok :: "log_item \<Rightarrow> bool" where
  "item_ok (LInteger v) \<longleftrightarrow> - (2 ^ 63) \<le> v \<and> v < 2 ^ 64"
| "item_ok (LPointer p) \<longleftrightarrow> p < 2 ^ 64"
| "item_ok (LDouble txt) \<longleftrightarrow> length txt < kMaxNumericSize"
| "item_ok _ \<longleftrightarrow> True"

lemma length_show_int: "- (2 ^ 63) \<le> v \<Longrightarrow> v < 2 ^ 64 \<Longrightarrow> length (show_int v) \<le> 21"
  using length_show_nat [of "nat (- v)" 20] length_show_nat [of "nat v" 20]
  by (auto simp: show_int_def nat_less_iff)

lemma length_convertHex: "p < 2 ^ 64 \<Longrightarrow> length (convertHex p) \<le> 16"
  using length_hex_loop [of p 16] by (simp add: convertHex_def)

definition room :: "fixed_buffer \<Rightarrow> bool" where
  "room b \<longleftrightarrow> length (fb_data b) < fb_size b"

lemma put_item_step:
  assumes "room b" "item_ok x"
  shows "\<exists>b'. put_item x b = Inr b' \<and> fb_size b' = fb_size b \<and> room b'
    \<and> (fb_data b' = fb_data b \<or> fb_data b' = fb_data b @ item_text x)
    \<and> (length (fb_data b) + length (item_text x) + kMaxNumericSize \<le> fb_size b \<longrightarrow> fb_data b' = fb_data b @ item_text x)"
proof (cases x)
  case (LInteger v)
  then show ?thesis using assms length_show_int [of v]
    by (auto simp: formatInteger_def convert_show fb_write_def avail_def room_def kMaxNumericSize_def)
next
  case (LPointer p)
  then show ?thesis using assms length_convertHex [of p]
    by (auto simp: fb_write_def avail_def room_def kMaxNumericSize_def)
next
  case (LDouble t)
  then show ?thesis using assms by (auto simp: fb_write_def avail_def room_def kMaxNumericSize_def)
qed (use assms in \<open>auto simp: fb_append_def avail_def room_def kMaxNumericSize_def\<close>)

lemma put_items_run:
  assumes "room b" "list_all item_ok xs"
  shows "\<exists>b' ys. put_items xs b = Inr b' \<and> fb_size b' = fb_size b \<and> room b' \<and> subseq ys xs
    \<and> fb_data b' = fb_data b @ concat (map item_text ys)
    \<and> (length (fb_data b) + length (concat (map item_text xs)) + kMaxNumericSize \<le> fb_size b \<longrightarrow> ys = xs)"
  using assms
proof (induction xs arbitrary: b)
  case Nil
  then show ?case by auto
next
  case (Cons x xs)
  obtain b1 where b1: "put_item x b = Inr b1" "fb_size b1 = fb_size b" "room b1"
    "fb_data b1 = fb_data b \<or> fb_data b1 = fb_data b @ item_text x"
    "length (fb_data b) + length (item_text x) + kMaxNumericSize \<le> fb_size b \<Longrightarrow> fb_data b1 = fb_data b @ item_text x"
    using put_item_step [of b x] Cons.prems by auto
  obtain b2 ys where b2: "put_items xs b1 = Inr b2" "fb_size b2 = fb_size b1" "room b2" "subseq ys xs"
    "fb_data b2 = fb_data b1 @ concat (map item_text ys)"
    "length (fb_data b1) + length (concat (map item_text xs)) + kMaxNumericSize \<le> fb_size b1 \<Longrightarrow> ys = xs"
    using Cons.IH [of b1] b1(3) Cons.prems by auto
  show ?case
  proof (cases "fb_data b1 = fb_data b @ item_text x")
    case True
    then show ?thesis using b1 b2 by (intro exI [of _ b2] exI [of _ "x # ys"]) auto
  next
    case False
    then have "\<not> length (fb_data b) + length (item_text x) + kMaxNumericSize \<le> fb_size b" using b1(5) by blast
    then show ?thesis using False b1 b2 by (intro exI [of _ b2] exI [of _ ys]) auto
  qed
qed

text \<open>
  C35. The log stream. Whatever is put into it, no write leaves its array; what it holds is the text of some of
  the operands in their order, each complete, where a number appears as its decimal (a pointer as its
  hexadecimal) numeral; and nothing is left out as long as the whole leaves \<open>kMaxNumericSize\<close> bytes of the buffer free.
\<close>

theorem log_stream:
  assumes "list_all item_ok xs"
  shows "\<exists>b ys. put_items xs (newFixedBuffer kSmallBuffer) = Inr b \<and> length (fb_data b) < kSmallBuffer
    \<and> subseq ys xs \<and> fb_data b = concat (map item_text ys)
    \<and> (length (concat (map item_text xs)) + kMaxNumericSize \<le> kSmallBuffer \<longrightarrow> ys = xs)"
  using put_items_run [of "newFixedBuffer kSmallBuffer" xs] assms
  by (auto simp: newFixedBuffer_def room_def kSmallBuffer_def)

theorem log_stream_witness:
  "\<exists>b. put_items [LString ''x = '', LInteger (- (2 ^ 63)), LChar (CHR 0x0A)] (newFixedBuffer kSmallBuffer) = Inr b
     \<and> fb_data b = ''x = -9223372036854775808'' @ [CHR 0x0A]"
proof -
  let ?xs = "[LString ''x = '', LInteger (- (2 ^ 63)), LChar (CHR 0x0A)]"
  have t: "concat (map item_text ?xs) = ''x = -9223372036854775808'' @ [CHR 0x0A]"
    by (simp add: show_int_def show_nat.simps digit_char_def char_of_def bit_0)
  have "list_all item_ok ?xs" by simp
  from log_stream [OF this] t show ?thesis by (auto simp: kSmallBuffer_def kMaxNumericSize_def)
qed

end
