(* ===== verification/Logging.thy ===== *)
theory Logging
  imports TimeZone LogStream
begin

text \<open>
  The logger (\<open>Logging.h\<close>, \<open>Logging.cc\<close>): the level filter, the line a statement makes, and the time stamp that
  each thread caches for a second. The zone of the log, the thread's identifier and \<open>strerror\<close> are parameters,
  as is \<open>gmtime_r\<close>.
\<close>

section \<open>Levels and source files\<close>

datatype log_level = TRACE | DEBUG | INFO | WARN | ERROR | FATAL

fun level_code :: "log_level \<Rightarrow> nat" where
  "level_code TRACE = 0"
| "level_code DEBUG = 1"
| "level_code INFO = 2"
| "level_code WARN = 3"
| "level_code ERROR = 4"
| "level_code FATAL = 5"

fun LogLevelName :: "log_level \<Rightarrow> string" where
  "LogLevelName TRACE = ''TRACE ''"
| "LogLevelName DEBUG = ''DEBUG ''"
| "LogLevelName INFO = ''INFO  ''"
| "LogLevelName WARN = ''WARN  ''"
| "LogLevelName ERROR = ''ERROR ''"
| "LogLevelName FATAL = ''FATAL ''"

definition initLogLevel :: "(string \<Rightarrow> bool) \<Rightarrow> log_level" where
  "initLogLevel getenv =
     (if getenv ''MUDUO_LOG_TRACE'' then TRACE else if getenv ''MUDUO_LOG_DEBUG'' then DEBUG else INFO)"

text \<open>The macros: the first three levels are filtered, the others always log.\<close>

definition log_enabled :: "log_level \<Rightarrow> log_level \<Rightarrow> bool" where
  "log_enabled g_logLevel lvl \<longleftrightarrow> lvl \<in> {WARN, ERROR, FATAL} \<or> level_code g_logLevel \<le> level_code lvl"

definition SourceFile :: "string \<Rightarrow> string" where
  "SourceFile arr = rev (takeWhile (\<lambda>c. c \<noteq> CHR ''/'') (rev arr))"

section \<open>Time stamps\<close>

record thread_log =
  t_time :: string
  t_lastSecond :: int

definition clock_text :: "tm \<Rightarrow> string" where
  "clock_text t =
     blanks 4 (tm_year t + 1900) @ pad 2 (tm_mon t + 1) @ pad 2 (tm_mday t) @ '' ''
     @ pad 2 (tm_hour t) @ '':'' @ pad 2 (tm_min t) @ '':'' @ pad 2 (tm_sec t)"

definition format_second :: "(int \<Rightarrow> tm) \<Rightarrow> tz_data option \<Rightarrow> int \<Rightarrow> string res" where
  "format_second gmtime zone seconds =
     rbind (if zone_valid zone then toLocalTime gmtime zone seconds else Inr (gmtime seconds)) (\<lambda>t.
     rbind (ints [tm_year t + 1900, tm_mon t + 1] (clock_text t)) (\<lambda>txt.
     c_assert (length txt = 17) (Inr (take 63 txt))))"

definition formatTime ::
  "(int \<Rightarrow> tm) \<Rightarrow> tz_data option \<Rightarrow> int \<Rightarrow> thread_log \<Rightarrow> (log_item list \<times> thread_log) res" where
  "formatTime gmtime zone microSecondsSinceEpoch st =
     (let seconds = microSecondsSinceEpoch sdiv 1000000;
          microseconds = to_int32 (microSecondsSinceEpoch smod 1000000)
      in rbind (if seconds \<noteq> t_lastSecond st
                then rbind (format_second gmtime zone seconds) (\<lambda>txt. Inr \<lparr>t_time = txt, t_lastSecond = seconds\<rparr>)
                else Inr st) (\<lambda>st'.
         let us = ''.'' @ pad 6 microseconds @ (if zone_valid zone then '' '' else ''Z '')
         in c_assert (length us < 32 \<and> length us = (if zone_valid zone then 8 else 9))
            (c_assert (length (t_time st') = 17) (Inr ([LString (t_time st'), LString us], st')))))"

section \<open>Lines\<close>

record log_call =
  lc_level :: log_level
  lc_errno :: int
  lc_func :: "string option"
  lc_file :: string
  lc_line :: int
  lc_items :: "log_item list"

text \<open>The four constructors of \<open>Logger\<close>.\<close>

definition Logger_info :: "string \<Rightarrow> int \<Rightarrow> log_item list \<Rightarrow> log_call" where
  "Logger_info path ln xs =
     \<lparr>lc_level = INFO, lc_errno = 0, lc_func = None, lc_file = SourceFile path, lc_line = ln, lc_items = xs\<rparr>"

definition Logger_func :: "string \<Rightarrow> int \<Rightarrow> log_level \<Rightarrow> string \<Rightarrow> log_item list \<Rightarrow> log_call" where
  "Logger_func path ln lvl func xs =
     \<lparr>lc_level = lvl, lc_errno = 0, lc_func = Some func, lc_file = SourceFile path, lc_line = ln, lc_items = xs\<rparr>"

definition Logger_level :: "string \<Rightarrow> int \<Rightarrow> log_level \<Rightarrow> log_item list \<Rightarrow> log_call" where
  "Logger_level path ln lvl xs =
     \<lparr>lc_level = lvl, lc_errno = 0, lc_func = None, lc_file = SourceFile path, lc_line = ln, lc_items = xs\<rparr>"

definition Logger_sys :: "int \<Rightarrow> string \<Rightarrow> int \<Rightarrow> bool \<Rightarrow> log_item list \<Rightarrow> log_call" where
  "Logger_sys err path ln toAbort xs =
     \<lparr>lc_level = (if toAbort then FATAL else ERROR), lc_errno = err, lc_func = None, lc_file = SourceFile path,
      lc_line = ln, lc_items = xs\<rparr>"

definition impl_items :: "(int \<Rightarrow> string) \<Rightarrow> string \<Rightarrow> log_call \<Rightarrow> log_item list" where
  "impl_items strerror tid c =
     [LString tid, LString (LogLevelName (lc_level c))]
     @ (if lc_errno c \<noteq> 0
        then [LCString (Some (strerror (lc_errno c))), LCString (Some '' (errno=''), LInteger (lc_errno c),
              LCString (Some '') '')]
        else [])
     @ (case lc_func c of Some f \<Rightarrow> [LCString (Some f), LChar (CHR '' '')] | None \<Rightarrow> [])"

definition finish_items :: "log_call \<Rightarrow> log_item list" where
  "finish_items c =
     [LCString (Some '' - ''), LString (lc_file c), LChar (CHR '':''), LInteger (lc_line c), LChar (CHR 0x0A)]"

text \<open>A whole statement: what it hands to the output function, and whether it then aborts.\<close>

definition log_statement ::
  "(int \<Rightarrow> tm) \<Rightarrow> tz_data option \<Rightarrow> (int \<Rightarrow> string) \<Rightarrow> string \<Rightarrow> int \<Rightarrow> log_call \<Rightarrow> thread_log
     \<Rightarrow> (string \<times> bool \<times> thread_log) res" where
  "log_statement gmtime zone strerror tid now c st =
     rbind (formatTime gmtime zone now st) (\<lambda>(stamp, st').
     rbind (put_items (stamp @ impl_items strerror tid c @ lc_items c @ finish_items c) (newFixedBuffer kSmallBuffer)) (\<lambda>b.
     Inr (fb_data b, lc_level c = FATAL, st')))"

text \<open>The statements of one thread, up to one that aborts.\<close>

fun run_log ::
  "(int \<Rightarrow> tm) \<Rightarrow> tz_data option \<Rightarrow> (int \<Rightarrow> string) \<Rightarrow> string \<Rightarrow> (int \<times> log_call) list \<Rightarrow> thread_log
     \<Rightarrow> (string list \<times> bool) res" where
  "run_log gmtime zone strerror tid [] st = Inr ([], False)"
| "run_log gmtime zone strerror tid ((now, c) # cs) st =
     rbind (log_statement gmtime zone strerror tid now c st) (\<lambda>(txt, aborts, st').
     if aborts then Inr ([txt], True)
     else rbind (run_log gmtime zone strerror tid cs st') (\<lambda>(txts, a). Inr (txt # txts, a)))"

section \<open>Correctness of the lines\<close>

text \<open>The ranges \<open>gmtime_r\<close> documents for its fields, in the years of four digits.\<close>

definition tm_fields :: "tm \<Rightarrow> bool" where
  "tm_fields t \<longleftrightarrow> 1000 \<le> tm_year t + 1900 \<and> tm_year t + 1900 \<le> 9999 \<and> 0 \<le> tm_mon t \<and> tm_mon t \<le> 11
     \<and> 1 \<le> tm_mday t \<and> tm_mday t \<le> 31 \<and> 0 \<le> tm_hour t \<and> tm_hour t \<le> 23
     \<and> 0 \<le> tm_min t \<and> tm_min t \<le> 59 \<and> 0 \<le> tm_sec t \<and> tm_sec t \<le> 60"

lemma length_show_nat_exact: "10 ^ k \<le> n \<Longrightarrow> n < 10 ^ Suc k \<Longrightarrow> length (show_nat n) = Suc k"
proof (induction k arbitrary: n)
  case 0
  then show ?case by (subst show_nat.simps) simp
next
  case (Suc k)
  have "(10::nat) \<le> 10 ^ Suc k" by simp
  then have n: "\<not> n < 10" using Suc.prems(1) by (simp del: power_Suc)
  have "10 ^ k * 10 \<le> n" "n < 10 * 10 ^ Suc k" using Suc.prems by (simp_all add: mult.commute)
  then have "10 ^ k \<le> n div 10" "n div 10 < 10 ^ Suc k"
    by (simp_all only: less_eq_div_iff_mult_less_eq less_mult_imp_div_less mult.commute zero_less_numeral)
  then show ?case using Suc.IH [of "n div 10"] n by (subst show_nat.simps) simp
qed

lemma length_pad: "0 \<le> x \<Longrightarrow> x < 10 ^ w \<Longrightarrow> 0 < w \<Longrightarrow> length (pad w x) = w"
  using length_show_nat [of "nat x" w] by (simp add: pad_def nat_less_iff Let_def)

lemma length_blanks4: "1000 \<le> x \<Longrightarrow> x \<le> 9999 \<Longrightarrow> length (blanks 4 x) = 4"
  using length_show_nat_exact [of 3 "nat x"] by (simp add: blanks_def show_int_def nat_less_iff le_nat_iff)

lemma length_clock_text: "tm_fields t \<Longrightarrow> length (clock_text t) = 17"
  by (simp add: tm_fields_def clock_text_def length_pad length_blanks4)

lemma format_second_ok:
  "tm_fields (gmtime s) \<Longrightarrow> format_second gmtime None s = Inr (clock_text (gmtime s))"
  using length_clock_text [of "gmtime s"]
  by (simp add: format_second_def zone_valid_def ints_def in_i32_def tm_fields_def)

definition stamp_items :: "(int \<Rightarrow> tm) \<Rightarrow> int \<Rightarrow> log_item list" where
  "stamp_items gmtime now =
     [LString (clock_text (gmtime (now div 1000000))), LString (''.'' @ pad 6 (now mod 1000000) @ ''Z '')]"

definition cache_ok :: "(int \<Rightarrow> tm) \<Rightarrow> thread_log \<Rightarrow> bool" where
  "cache_ok gmtime st \<longleftrightarrow> t_lastSecond st \<noteq> 0 \<longrightarrow> t_time st = clock_text (gmtime (t_lastSecond st))"

lemma formatTime_ok:
  assumes "cache_ok gmtime st" "1000000 \<le> now" "tm_fields (gmtime (now div 1000000))"
  shows "\<exists>st'. formatTime gmtime None now st = Inr (stamp_items gmtime now, st') \<and> cache_ok gmtime st'"
proof -
  have m: "0 \<le> now mod 1000000" "now mod 1000000 < 1000000" by simp_all
  obtain r where r: "now mod 1000000 = r" by blast
  have "in_i32 (now mod 1000000)" using m unfolding r by (simp add: in_i32_def)
  then have s: "now sdiv 1000000 = now div 1000000" "to_int32 (now smod 1000000) = now mod 1000000"
    using assms(2) by (simp_all add: sdiv_nonneg smod_nonneg to_int32_small)
  have "1000000 div 1000000 \<le> now div 1000000" using assms(2) by (rule zdiv_mono1) simp
  then have nz: "now div 1000000 \<noteq> 0" by simp
  have us: "length (''.'' @ pad 6 (now mod 1000000) @ ''Z '') = 9" using length_pad [of "now mod 1000000" 6] m by simp
  show ?thesis
    using assms(1) nz us length_clock_text [OF assms(3)]
    by (auto simp: formatTime_def Let_def s format_second_ok [of gmtime "now div 1000000", OF assms(3)]
        zone_valid_def cache_ok_def stamp_items_def)
qed

definition line_items :: "(int \<Rightarrow> tm) \<Rightarrow> (int \<Rightarrow> string) \<Rightarrow> string \<Rightarrow> int \<times> log_call \<Rightarrow> log_item list" where
  "line_items gmtime strerror tid = (\<lambda>(now, c).
     stamp_items gmtime now @ impl_items strerror tid c @ lc_items c @ finish_items c)"

definition line_text :: "(int \<Rightarrow> tm) \<Rightarrow> (int \<Rightarrow> string) \<Rightarrow> string \<Rightarrow> int \<times> log_call \<Rightarrow> string" where
  "line_text gmtime strerror tid x = concat (map item_text (line_items gmtime strerror tid x))"

definition call_ok :: "(int \<Rightarrow> tm) \<Rightarrow> (int \<Rightarrow> string) \<Rightarrow> string \<Rightarrow> int \<times> log_call \<Rightarrow> bool" where
  "call_ok gmtime strerror tid x \<longleftrightarrow>
     1000000 \<le> fst x \<and> tm_fields (gmtime (fst x div 1000000)) \<and> lc_level (snd x) \<noteq> FATAL
     \<and> list_all item_ok (line_items gmtime strerror tid x)
     \<and> length (line_text gmtime strerror tid x) + kMaxNumericSize \<le> kSmallBuffer"

lemma log_statement_ok:
  assumes "cache_ok gmtime st" "call_ok gmtime strerror tid (now, c)"
  shows "\<exists>st'. log_statement gmtime None strerror tid now c st = Inr (line_text gmtime strerror tid (now, c), False, st')
    \<and> cache_ok gmtime st'"
proof -
  let ?xs = "line_items gmtime strerror tid (now, c)"
  obtain st' where f: "formatTime gmtime None now st = Inr (stamp_items gmtime now, st')" "cache_ok gmtime st'"
    using formatTime_ok [OF assms(1)] assms(2) by (auto simp: call_ok_def)
  have "\<exists>b. put_items ?xs (newFixedBuffer kSmallBuffer) = Inr b \<and> fb_data b = concat (map item_text ?xs)"
    using put_items_run [of "newFixedBuffer kSmallBuffer" ?xs] assms(2)
    by (auto simp: call_ok_def line_text_def newFixedBuffer_def room_def kSmallBuffer_def)
  then show ?thesis using f assms(2) by (auto simp: log_statement_def line_items_def line_text_def call_ok_def)
qed

text \<open>
  The lines of a thread. The cached time stamp never shows: every statement that fits the stream hands one
  line to the output, which is the time of the statement, the thread, the level, the message, and the file and line
  it came from, and no assertion of the logger fails, whatever seconds the statements fall into.
\<close>

theorem logger_lines:
  assumes "list_all (call_ok gmtime strerror tid) calls"
  shows "run_log gmtime None strerror tid calls \<lparr>t_time = [], t_lastSecond = 0\<rparr>
    = Inr (map (line_text gmtime strerror tid) calls, False)"
proof -
  have "run_log gmtime None strerror tid calls st = Inr (map (line_text gmtime strerror tid) calls, False)"
    if "cache_ok gmtime st" for st
    using assms that
  proof (induction calls arbitrary: st)
    case (Cons x cs)
    obtain now c where x: "x = (now, c)" by (cases x)
    obtain st' where "log_statement gmtime None strerror tid now c st = Inr (line_text gmtime strerror tid (now, c), False, st')"
      "cache_ok gmtime st'"
      using log_statement_ok [of gmtime st strerror tid now c] Cons.prems x by auto
    then show ?case using Cons.IH [of st'] Cons.prems x by simp
  qed simp
  then show ?thesis by (simp add: cache_ok_def)
qed

definition sample_tm :: tm where
  "sample_tm = zero_tm\<lparr>tm_mday := 1, tm_year := 70, tm_hour := 1, tm_min := 2, tm_sec := 3\<rparr>"

theorem logger_lines_witness:
  "run_log (\<lambda>_. sample_tm) None (\<lambda>_. []) '' 4242 '' [(3723000005, Logger_info ''src/main.cpp'' 7 [LCString (Some ''up'')])]
     \<lparr>t_time = [], t_lastSecond = 0\<rparr>
   = Inr ([''19700101 01:02:03.000005Z  4242 INFO  up - main.cpp:7'' @ [CHR 0x0A]], False)"
proof -
  let ?x = "(3723000005, Logger_info ''src/main.cpp'' 7 [LCString (Some ''up'')])"
  have t: "line_text (\<lambda>_. sample_tm) (\<lambda>_. []) '' 4242 '' ?x = ''19700101 01:02:03.000005Z  4242 INFO  up - main.cpp:7'' @ [CHR 0x0A]"
    by code_simp
  have "call_ok (\<lambda>_. sample_tm) (\<lambda>_. []) '' 4242 '' ?x"
    unfolding call_ok_def t
    by (simp add: tm_fields_def sample_tm_def zero_tm_def Logger_info_def line_items_def stamp_items_def impl_items_def finish_items_def
        kSmallBuffer_def kMaxNumericSize_def)
  then show ?thesis using logger_lines [of "\<lambda>_. sample_tm" "\<lambda>_. []" "'' 4242 ''" "[?x]"] t by simp
qed

end
