(* ===== verification/LogFile.thy ===== *)
theory LogFile
  imports TimeZone
begin

text \<open>
  Log files (\<open>LogFile.h\<close>, \<open>LogFile.cc\<close>) and the files they write to (\<open>AppendFile\<close> of \<open>FileUtil.cc\<close>).
  What a log file has written is kept file by file. \<open>fwrite\<close>, \<open>ferror\<close>, \<open>fopen\<close>, \<open>time\<close>,
  \<open>gmtime_r\<close>, the host name and the process identifier are the environment: \<open>clock k\<close> is what the
  \<open>k\<close>-th call of \<open>time\<close> returns, \<open>fw k n\<close> what the \<open>k\<close>-th \<open>fwrite\<close> of \<open>n\<close> bytes takes and whether
  \<open>ferror\<close> is set after it.
\<close>

section \<open>Appending to a file\<close>

record log_env =
  clock :: "nat \<Rightarrow> int"
  fw :: "nat \<Rightarrow> nat \<Rightarrow> nat \<times> bool"
  fopens :: "string \<Rightarrow> bool"
  gmtime_of :: "int \<Rightarrow> tm"
  hostname :: string
  pid :: int

record append_file =
  af_name :: string
  af_data :: string
  writtenBytes :: int

definition newAppendFile :: "log_env \<Rightarrow> string \<Rightarrow> append_file res" where
  "newAppendFile env filename =
     c_assert (fopens env filename) (Inr \<lparr>af_name = filename, af_data = [], writtenBytes = 0\<rparr>)"

text \<open>
  The loop of \<open>append\<close>: \<open>out\<close> is what the stream has taken, \<open>written\<close> the count. After an error the loop ends
  without counting the bytes of the last call.
\<close>

partial_function (option) write_loop ::
  "(nat \<Rightarrow> nat \<Rightarrow> nat \<times> bool) \<Rightarrow> string \<Rightarrow> string \<Rightarrow> nat \<Rightarrow> nat \<Rightarrow> (string \<times> nat \<times> nat) option" where
  "write_loop w rest out written k =
     (if rest = [] then Some (out, written, k)
      else let n = fst (w k (length rest)); err = snd (w k (length rest))
           in if n \<noteq> length rest \<and> err then Some (out @ take n rest, written, Suc k)
              else write_loop w (drop n rest) (out @ take n rest) (written + n) (Suc k))"

declare write_loop.simps [code]

definition file_append :: "log_env \<Rightarrow> nat \<Rightarrow> string \<Rightarrow> append_file \<Rightarrow> (append_file \<times> nat) option" where
  "file_append env k logline f =
     (case write_loop (fw env) logline [] 0 k of
        None \<Rightarrow> None
      | Some (out, written, k') \<Rightarrow>
          Some (f\<lparr>af_data := af_data f @ out, writtenBytes := writtenBytes f + int written\<rparr>, k'))"

section \<open>Log files\<close>

record log_file =
  lf_basename :: string
  rollSize :: int
  flushInterval :: int
  checkEveryN :: int
  count :: int
  startOfPeriod :: int
  lastRoll :: int
  lastFlush :: int
  cur_file :: "append_file option"
  closed :: "append_file list"
  times_read :: nat
  fwrites :: nat

definition kRollPerSeconds :: int where "kRollPerSeconds = 60 * 60 * 24"

definition getLogFileName :: "log_env \<Rightarrow> string \<Rightarrow> int \<Rightarrow> string" where
  "getLogFileName env base now =
     (let t = gmtime_of env now
      in base @ ''.'' @ pad 4 (tm_year t + 1900) @ pad 2 (tm_mon t + 1) @ pad 2 (tm_mday t) @ ''-''
         @ pad 2 (tm_hour t) @ pad 2 (tm_min t) @ pad 2 (tm_sec t) @ ''.''
         @ hostname env @ ''.'' @ show_int (pid env) @ ''.log'')"

definition read_time :: "log_env \<Rightarrow> log_file \<Rightarrow> int \<times> log_file" where
  "read_time env l = (clock env (times_read l), l\<lparr>times_read := Suc (times_read l)\<rparr>)"

definition period_of :: "int \<Rightarrow> int" where
  "period_of now = now sdiv kRollPerSeconds * kRollPerSeconds"

text \<open>\<open>file_.reset\<close> closes the file in use; \<open>closed\<close> remembers it.\<close>

definition rollFile :: "log_env \<Rightarrow> log_file \<Rightarrow> (bool \<times> log_file) res" where
  "rollFile env l =
     (case read_time env l of (now, l1) \<Rightarrow>
        if now > lastRoll l1
        then rbind (newAppendFile env (getLogFileName env (lf_basename l1) now)) (\<lambda>f.
             Inr (True, l1\<lparr>lastRoll := now, lastFlush := now, startOfPeriod := period_of now,
                          closed := closed l1 @ (case cur_file l1 of None \<Rightarrow> [] | Some g \<Rightarrow> [g]), cur_file := Some f\<rparr>))
        else Inr (False, l1))"

definition newLogFile :: "log_env \<Rightarrow> string \<Rightarrow> int \<Rightarrow> int \<Rightarrow> int \<Rightarrow> log_file res" where
  "newLogFile env base rsize interval every =
     c_assert (CHR ''/'' \<notin> set base)
     (rbind (rollFile env
        \<lparr>lf_basename = base, rollSize = rsize, flushInterval = interval, checkEveryN = every, count = 0,
         startOfPeriod = 0, lastRoll = 0, lastFlush = 0, cur_file = None, closed = [], times_read = 0, fwrites = 0\<rparr>)
       (\<lambda>(_, l). Inr l))"

definition roll :: "log_env \<Rightarrow> log_file \<Rightarrow> log_file run" where
  "roll env l = Some (rbind (rollFile env l) (\<lambda>(_, l'). Inr l'))"

definition append_unlocked :: "log_env \<Rightarrow> string \<Rightarrow> log_file \<Rightarrow> log_file run" where
  "append_unlocked env logline l =
     (case cur_file l of
        None \<Rightarrow> Some (Inl OutOfBounds)
      | Some f \<Rightarrow>
          (case file_append env (fwrites l) logline f of
             None \<Rightarrow> None
           | Some (f', k) \<Rightarrow>
               let l1 = l\<lparr>cur_file := Some f', fwrites := k\<rparr>
               in if writtenBytes f' > rollSize l1 then roll env l1
                  else
                    let l2 = l1\<lparr>count := count l1 + 1\<rparr>
                    in if count l2 \<ge> checkEveryN l2
                       then (case read_time env (l2\<lparr>count := 0\<rparr>) of (now, l3) \<Rightarrow>
                               if period_of now \<noteq> startOfPeriod l3 then roll env l3
                               else if now - lastFlush l3 > flushInterval l3 then Some (Inr (l3\<lparr>lastFlush := now\<rparr>))
                               else Some (Inr l3))
                       else Some (Inr l2)))"

fun append_all :: "log_env \<Rightarrow> string list \<Rightarrow> log_file \<Rightarrow> log_file run" where
  "append_all env [] l = Some (Inr l)"
| "append_all env (x # xs) l = obind (append_unlocked env x l) (append_all env xs)"

section \<open>What the files hold\<close>

text \<open>The documented \<open>fwrite\<close>: it takes some of the bytes and sets no error; every \<open>fopen\<close> succeeds.\<close>

definition env_ok :: "log_env \<Rightarrow> bool" where
  "env_ok env \<longleftrightarrow> (\<forall>k n. 0 < n \<longrightarrow> 0 < fst (fw env k n) \<and> fst (fw env k n) \<le> n \<and> \<not> snd (fw env k n))
     \<and> (\<forall>f. fopens env f)"

lemma write_loop_all:
  assumes "\<And>k n. 0 < n \<Longrightarrow> 0 < fst (w k n) \<and> fst (w k n) \<le> n \<and> \<not> snd (w k n)"
  shows "\<exists>k'. write_loop w rest out written k = Some (out @ rest, written + length rest, k')"
proof (induction "length rest" arbitrary: rest out written k rule: less_induct)
  case less
  show ?case
  proof (cases "rest = []")
    case True
    then show ?thesis by (simp add: write_loop.simps)
  next
    case False
    define n where "n = fst (w k (length rest))"
    have n: "0 < n" "n \<le> length rest" "\<not> snd (w k (length rest))"
      using assms [of "length rest" k] False by (simp_all add: n_def)
    obtain k' where "write_loop w (drop n rest) (out @ take n rest) (written + n) (Suc k)
        = Some ((out @ take n rest) @ drop n rest, written + n + length (drop n rest), k')"
      using less [of "drop n rest" "out @ take n rest" "written + n" "Suc k"] n False by (auto simp del: append_assoc)
    then show ?thesis using n False by (subst write_loop.simps) (simp add: n_def [symmetric] Let_def)
  qed
qed

definition files :: "log_file \<Rightarrow> append_file list" where
  "files l = closed l @ (case cur_file l of None \<Rightarrow> [] | Some f \<Rightarrow> [f])"

definition log_content :: "log_file \<Rightarrow> string" where
  "log_content l = concat (map af_data (files l))"

text \<open>The lines fall into groups, one for each file.\<close>

definition holds :: "log_file \<Rightarrow> string list \<Rightarrow> bool" where
  "holds l xs \<longleftrightarrow> cur_file l \<noteq> None \<and> (\<exists>groups. concat groups = xs \<and> map af_data (files l) = map concat groups)"

lemma holds_content: "holds l xs \<Longrightarrow> log_content l = concat xs"
proof -
  assume "holds l xs"
  then obtain groups where g: "concat groups = xs" "map af_data (files l) = map concat groups" by (auto simp: holds_def)
  have "concat (map concat groups) = concat (concat groups)" by (induction groups) simp_all
  then show ?thesis using g by (simp add: log_content_def)
qed

lemma holds_update:
  "holds (l\<lparr>count := c\<rparr>) xs = holds l xs" "holds (l\<lparr>lastFlush := t\<rparr>) xs = holds l xs"
  "holds (l\<lparr>times_read := n\<rparr>) xs = holds l xs"
  by (simp_all add: holds_def files_def)

lemma roll_holds:
  assumes "env_ok env" "holds l xs"
  shows "\<exists>l'. roll env l = Some (Inr l') \<and> holds l' xs"
proof -
  obtain f where f: "cur_file l = Some f" using assms(2) by (auto simp: holds_def)
  obtain groups where g: "concat groups = xs" "map af_data (files l) = map concat groups"
    using assms(2) by (auto simp: holds_def)
  show ?thesis
  proof (cases "clock env (times_read l) > lastRoll l")
    case True
    obtain n where "rollFile env l = Inr (True, l\<lparr>times_read := Suc (times_read l), lastRoll := clock env (times_read l),
        lastFlush := clock env (times_read l), startOfPeriod := period_of (clock env (times_read l)), closed := closed l @ [f],
        cur_file := Some \<lparr>af_name = n, af_data = [], writtenBytes = 0\<rparr>\<rparr>)"
      using True assms(1) f by (simp add: rollFile_def read_time_def newAppendFile_def env_ok_def)
    moreover have "concat (groups @ [[]]) = xs" "map af_data (closed l @ [f]) @ [[]] = map concat (groups @ [[]])"
      using g f by (simp_all add: files_def)
    ultimately show ?thesis
      by (auto simp: roll_def holds_def files_def intro!: exI [of _ "groups @ [[]]"])
  next
    case False
    then show ?thesis using assms(2) by (simp add: roll_def rollFile_def read_time_def holds_update)
  qed
qed

lemma append_holds:
  assumes "env_ok env" "holds l xs"
  shows "\<exists>l'. append_unlocked env x l = Some (Inr l') \<and> holds l' (xs @ [x])"
proof -
  obtain f where f: "cur_file l = Some f" using assms(2) by (auto simp: holds_def)
  obtain k where k: "write_loop (fw env) x [] 0 (fwrites l) = Some (x, length x, k)"
    using write_loop_all [of "fw env" x "[]" 0 "fwrites l"] assms(1) by (auto simp: env_ok_def)
  define f' where "f' = f\<lparr>af_data := af_data f @ x, writtenBytes := writtenBytes f + int (length x)\<rparr>"
  define l1 where "l1 = l\<lparr>cur_file := Some f', fwrites := k\<rparr>"
  have fa: "file_append env (fwrites l) x f = Some (f', k)" by (simp add: file_append_def k f'_def)
  have h1: "holds l1 (xs @ [x])"
  proof -
    obtain groups where g: "concat groups = xs" "map af_data (closed l) @ [af_data f] = map concat groups"
      using assms(2) f by (auto simp: holds_def files_def)
    then obtain gs g0 where gs: "groups = gs @ [g0]" "map af_data (closed l) = map concat gs" "af_data f = concat g0"
      by (cases groups rule: rev_cases) auto
    then show ?thesis using g
      by (auto simp: holds_def files_def l1_def f'_def intro!: exI [of _ "gs @ [g0 @ [x]]"])
  qed
  show ?thesis
    using roll_holds [OF assms(1) h1] roll_holds [OF assms(1)] h1
    unfolding append_unlocked_def f option.case fa prod.case l1_def [symmetric] Let_def read_time_def
    by (auto simp: holds_update)
qed

lemma newLogFile_holds:
  assumes "env_ok env" "CHR ''/'' \<notin> set base" "0 < clock env 0"
  shows "\<exists>l. newLogFile env base rsize interval every = Inr l \<and> holds l []"
  using assms
  by (auto simp: newLogFile_def rollFile_def read_time_def newAppendFile_def env_ok_def holds_def files_def
      intro!: exI [of _ "[[]]"])

lemma append_all_holds:
  assumes "env_ok env" "holds l xs"
  shows "\<exists>l'. append_all env ys l = Some (Inr l') \<and> holds l' (xs @ ys)"
  using assms(2)
proof (induction ys arbitrary: l xs)
  case (Cons y ys)
  obtain l1 where l1: "append_unlocked env y l = Some (Inr l1)" "holds l1 (xs @ [y])"
    using append_holds [OF assms(1) Cons.prems] by blast
  then show ?case using Cons.IH [OF l1(2)] by simp
qed simp

text \<open>
  C34. Log files. Lines appended to a log file are all in its files, in order, and no line is cut by a change
  of file: the files, in the order they were opened, hold consecutive groups of whole lines. This holds for
  every roll size and check interval, however the bytes of a line are taken piece by piece by \<open>fwrite\<close>.
\<close>

theorem log_file_lines:
  assumes "env_ok env" "CHR ''/'' \<notin> set base" "0 < clock env 0"
  shows "\<exists>l0 l groups. newLogFile env base rsize interval every = Inr l0 \<and> append_all env xs l0 = Some (Inr l)
    \<and> concat groups = xs \<and> map af_data (files l) = map concat groups"
proof -
  obtain l0 where l0: "newLogFile env base rsize interval every = Inr l0" "holds l0 []"
    using newLogFile_holds [OF assms] by blast
  with append_all_holds [OF assms(1) l0(2), of xs] show ?thesis by (auto simp: holds_def)
qed

definition sample_log_env :: log_env where
  "sample_log_env = \<lparr>clock = (\<lambda>k. int k + 1), fw = (\<lambda>_ n. (1, False)), fopens = (\<lambda>_. True), gmtime_of = (\<lambda>_. zero_tm),
     hostname = ''h'', pid = 1\<rparr>"

theorem log_file_lines_witness:
  "\<exists>l0 l groups. newLogFile sample_log_env ''im'' 3 3 1024 = Inr l0 \<and> append_all sample_log_env [''one'', ''two'', ''x''] l0 = Some (Inr l)
    \<and> concat groups = [''one'', ''two'', ''x''] \<and> map af_data (files l) = map concat groups"
  by (rule log_file_lines) (simp_all add: sample_log_env_def env_ok_def)

end
