(* ===== verification/AsyncLogging.thy ===== *)
theory AsyncLogging
  imports LogFile LogStream
begin

text \<open>
  The asynchronous logger (\<open>AsyncLogging.h\<close>, \<open>AsyncLogging.cc\<close>): the threads of the program append lines to a
  current buffer, full buffers wait in a vector, and a thread of its own takes them all, leaves fresh ones, and
  writes them to a log file. Each critical section is one step, and so is what the logging thread does between two of them; a
  run is any sequence of such steps. Waiting on the condition gives up the mutex, so that the step that wakes
  up may come at any time. \<open>sink\<close> appends to the output, and \<open>notice n\<close> is the text about \<open>n\<close> dropped buffers.
\<close>

section \<open>State\<close>

text \<open>
  The logging thread is in front of the test of \<open>running_\<close>, has passed it, waits, has taken the buffers
  it has to write, or has left its function. \<open>logged\<close> (the lines so far) and \<open>dropped\<close> (how often buffers were
  dropped) are not part of the program.
\<close>

datatype backend_pc = LoopHead | Entering | Waiting | Writing | Exited

record 'f async_log =
  running :: bool
  currentBuffer :: fixed_buffer
  nextBuffer :: "fixed_buffer option"
  buffers :: "fixed_buffer list"
  backend :: backend_pc
  newBuffer1 :: "fixed_buffer option"
  newBuffer2 :: "fixed_buffer option"
  buffersToWrite :: "fixed_buffer list"
  out_file :: 'f
  logged :: "string list"
  dropped :: nat

definition large_buffer :: fixed_buffer where
  "large_buffer = newFixedBuffer kLargeBuffer"

text \<open>The state after the constructor and \<open>start\<close>, with the logging thread in front of its loop.\<close>

definition async_start :: "'f \<Rightarrow> 'f async_log" where
  "async_start f =
     \<lparr>running = True, currentBuffer = large_buffer, nextBuffer = Some large_buffer, buffers = [], backend = LoopHead,
      newBuffer1 = Some large_buffer, newBuffer2 = Some large_buffer, buffersToWrite = [], out_file = f,
      logged = [], dropped = 0\<rparr>"

section \<open>Operations\<close>

definition async_append :: "string \<Rightarrow> 'f async_log \<Rightarrow> 'f async_log" where
  "async_append logline s0 =
     (let s = s0\<lparr>logged := logged s0 @ [logline]\<rparr>
      in if avail (currentBuffer s) > length logline
         then s\<lparr>currentBuffer := fb_append logline (currentBuffer s)\<rparr>
         else s\<lparr>buffers := buffers s @ [currentBuffer s],
                currentBuffer := fb_append logline (case nextBuffer s of Some b \<Rightarrow> b | None \<Rightarrow> large_buffer),
                nextBuffer := None\<rparr>)"

definition async_stop :: "'f async_log \<Rightarrow> 'f async_log" where
  "async_stop s = s\<lparr>running := False\<rparr>"

definition fresh :: "fixed_buffer option \<Rightarrow> bool" where
  "fresh b \<longleftrightarrow> (case b of Some x \<Rightarrow> fb_length x = 0 | None \<Rightarrow> False)"

definition loop_head :: "'f async_log \<Rightarrow> 'f async_log res" where
  "loop_head s =
     (if running s
      then c_assert (fresh (newBuffer1 s)) (c_assert (fresh (newBuffer2 s)) (c_assert (buffersToWrite s = [])
             (Inr (s\<lparr>backend := Entering\<rparr>))))
      else Inr (s\<lparr>backend := Exited\<rparr>))"

text \<open>Taking the buffers under the mutex; \<open>std::move\<close> leaves a null pointer behind.\<close>

definition take_buffers :: "'f async_log \<Rightarrow> 'f async_log res" where
  "take_buffers s =
     (case newBuffer1 s of
        None \<Rightarrow> Inl OutOfBounds
      | Some b1 \<Rightarrow>
          let s1 = s\<lparr>buffersToWrite := buffers s @ [currentBuffer s], buffers := buffersToWrite s,
                     currentBuffer := b1, newBuffer1 := None, backend := Writing\<rparr>
          in Inr (if nextBuffer s1 = None then s1\<lparr>nextBuffer := newBuffer2 s1, newBuffer2 := None\<rparr> else s1))"

definition enter :: "'f async_log \<Rightarrow> 'f async_log res" where
  "enter s = (if buffers s = [] then Inr (s\<lparr>backend := Waiting\<rparr>) else take_buffers s)"

fun sink_all :: "(string \<Rightarrow> 'f \<Rightarrow> 'f run) \<Rightarrow> string list \<Rightarrow> 'f \<Rightarrow> 'f run" where
  "sink_all sink [] f = Some (Inr f)"
| "sink_all sink (x # xs) f = obind (sink x f) (sink_all sink xs)"

text \<open>Giving the written buffers back: the one behind becomes the spare buffer.\<close>

definition refill :: "fixed_buffer option \<Rightarrow> fixed_buffer list \<Rightarrow> (fixed_buffer option \<times> fixed_buffer list) res" where
  "refill b bs =
     (if b = None then c_assert (bs \<noteq> []) (Inr (Some (fb_reset (last bs)), butlast bs)) else Inr (b, bs))"

definition write_buffers :: "(string \<Rightarrow> 'f \<Rightarrow> 'f run) \<Rightarrow> (nat \<Rightarrow> string) \<Rightarrow> 'f async_log \<Rightarrow> 'f async_log run" where
  "write_buffers sink notice s =
     (if buffersToWrite s = [] then Some (Inl AssertFail)
      else
        let n = length (buffersToWrite s);
            bs = (if n > 25 then take 2 (buffersToWrite s) else buffersToWrite s)
        in obind (sink_all sink ((if n > 25 then [notice (n - 2)] else []) @ map fb_data bs) (out_file s)) (\<lambda>f.
           Some (rbind (refill (newBuffer1 s) (take 2 bs)) (\<lambda>(b1, bs1).
                 rbind (refill (newBuffer2 s) bs1) (\<lambda>(b2, _).
                 Inr (s\<lparr>out_file := f, newBuffer1 := b1, newBuffer2 := b2, buffersToWrite := [], backend := LoopHead,
                        dropped := dropped s + (if n > 25 then 1 else 0)\<rparr>))))))"

section \<open>Runs\<close>

datatype async_event = Append string | Head | Enter | Wake | Write | Stop

text \<open>A step of the logging thread that is not at that point changes nothing.\<close>

definition async_step ::
  "(string \<Rightarrow> 'f \<Rightarrow> 'f run) \<Rightarrow> (nat \<Rightarrow> string) \<Rightarrow> async_event \<Rightarrow> 'f async_log \<Rightarrow> 'f async_log run" where
  "async_step sink notice e s =
     (case e of
        Append l \<Rightarrow> Some (Inr (async_append l s))
      | Stop \<Rightarrow> Some (Inr (async_stop s))
      | Head \<Rightarrow> Some (if backend s = LoopHead then loop_head s else Inr s)
      | Enter \<Rightarrow> Some (if backend s = Entering then enter s else Inr s)
      | Wake \<Rightarrow> Some (if backend s = Waiting then take_buffers s else Inr s)
      | Write \<Rightarrow> if backend s = Writing then write_buffers sink notice s else Some (Inr s))"

fun async_run ::
  "(string \<Rightarrow> 'f \<Rightarrow> 'f run) \<Rightarrow> (nat \<Rightarrow> string) \<Rightarrow> async_event list \<Rightarrow> 'f async_log \<Rightarrow> 'f async_log run" where
  "async_run sink notice [] s = Some (Inr s)"
| "async_run sink notice (e # es) s = obind (async_step sink notice e s) (async_run sink notice es)"

text \<open>The text that is on its way to the output.\<close>

definition pending :: "'f async_log \<Rightarrow> string" where
  "pending s = concat (map fb_data (buffersToWrite s)) @ concat (map fb_data (buffers s)) @ fb_data (currentBuffer s)"

text \<open>Its parts: what the thread has not taken yet, and what it writes of the buffers it has taken.\<close>

definition waiting :: "'f async_log \<Rightarrow> string" where
  "waiting s = concat (map fb_data (buffers s)) @ fb_data (currentBuffer s)"

definition taken :: "(nat \<Rightarrow> string) \<Rightarrow> 'f async_log \<Rightarrow> string" where
  "taken notice s =
     (let n = length (buffersToWrite s)
      in if n > 25 then notice (n - 2) @ concat (map fb_data (take 2 (buffersToWrite s))) else concat (map fb_data (buffersToWrite s)))"

definition lines_of :: "async_event list \<Rightarrow> string list" where
  "lines_of es = concat (map (\<lambda>e. case e of Append l \<Rightarrow> [l] | _ \<Rightarrow> []) es)"

definition short_lines :: "async_event list \<Rightarrow> bool" where
  "short_lines es \<longleftrightarrow> list_all (\<lambda>e. case e of Append l \<Rightarrow> length l < kLargeBuffer | _ \<Rightarrow> True) es"

section \<open>The output as an interface\<close>

text \<open>What the asynchronous logger relies on of its output: appending returns and adds the text to the content.\<close>

locale log_sink =
  fixes sink :: "string \<Rightarrow> 'f \<Rightarrow> 'f run" and content :: "'f \<Rightarrow> string" and sink_ok :: "'f \<Rightarrow> bool"
  assumes sink_appends: "sink_ok f \<Longrightarrow> \<exists>f'. sink x f = Some (Inr f') \<and> sink_ok f' \<and> content f' = content f @ x"
begin

lemma sink_all_appends:
  "sink_ok f \<Longrightarrow> \<exists>f'. sink_all sink xs f = Some (Inr f') \<and> sink_ok f' \<and> content f' = content f @ concat xs"
proof (induction xs arbitrary: f)
  case (Cons x xs)
  obtain f1 where f1: "sink x f = Some (Inr f1)" "sink_ok f1" "content f1 = content f @ x"
    using sink_appends [OF Cons.prems, of x] by blast
  then show ?case using Cons.IH [OF f1(2)] by auto
qed auto

text \<open>The invariant of a run.\<close>

definition async_inv :: "'f async_log \<Rightarrow> bool" where
  "async_inv s \<longleftrightarrow> sink_ok (out_file s) \<and> fb_size (currentBuffer s) = kLargeBuffer
     \<and> (\<forall>b \<in> set (buffersToWrite s) \<union> set (buffers s). fb_size b = kLargeBuffer)
     \<and> (nextBuffer s = None \<longrightarrow> buffers s \<noteq> []) \<and> (\<forall>b. nextBuffer s = Some b \<longrightarrow> b = large_buffer)
     \<and> (backend s \<in> {LoopHead, Entering, Waiting} \<longrightarrow>
          newBuffer1 s = Some large_buffer \<and> newBuffer2 s = Some large_buffer \<and> buffersToWrite s = [])
     \<and> (backend s = Writing \<longrightarrow>
          newBuffer1 s = None \<and> buffersToWrite s \<noteq> []
          \<and> (newBuffer2 s = None \<and> 2 \<le> length (buffersToWrite s) \<or> newBuffer2 s = Some large_buffer))
     \<and> (dropped s = 0 \<longrightarrow> content (out_file s) @ pending s = concat (logged s))"

lemma fresh_large: "fresh (Some large_buffer)"
  by (simp add: fresh_def large_buffer_def newFixedBuffer_def fb_length_def)

lemma start_inv: "sink_ok f \<Longrightarrow> content f = [] \<Longrightarrow> async_inv (async_start f)"
  by (simp add: async_inv_def async_start_def pending_def large_buffer_def newFixedBuffer_def)

lemma append_inv: "async_inv s \<Longrightarrow> length l < kLargeBuffer \<Longrightarrow> async_inv (async_append l s)"
  by (auto simp: async_inv_def async_append_def Let_def pending_def fb_append_def avail_def large_buffer_def
      newFixedBuffer_def split: option.splits)

lemma take_inv:
  assumes "async_inv s" "backend s \<in> {Entering, Waiting}"
  shows "\<exists>s'. take_buffers s = Inr s' \<and> async_inv s' \<and> logged s' = logged s \<and> dropped s' = dropped s
    \<and> backend s' = Writing \<and> buffers s' = [] \<and> fb_data (currentBuffer s') = [] \<and> length (buffersToWrite s') = Suc (length (buffers s))"
proof -
  have b: "newBuffer1 s = Some large_buffer" "newBuffer2 s = Some large_buffer" "buffersToWrite s = []"
    using assms by (auto simp: async_inv_def)
  have e: "fb_data large_buffer = []" "fb_size large_buffer = kLargeBuffer"
    by (simp_all add: large_buffer_def newFixedBuffer_def)
  have nx: "nextBuffer s = None \<Longrightarrow> 1 \<le> length (buffers s)"
    using assms(1) by (simp add: async_inv_def Suc_le_eq)
  define s1 where "s1 = s\<lparr>buffersToWrite := buffers s @ [currentBuffer s], buffers := [], currentBuffer := large_buffer,
      newBuffer1 := None, backend := Writing\<rparr>"
  have t: "take_buffers s = Inr (if nextBuffer s = None then s1\<lparr>nextBuffer := Some large_buffer, newBuffer2 := None\<rparr> else s1)"
    by (simp add: take_buffers_def Let_def b s1_def)
  have "async_inv (if nextBuffer s = None then s1\<lparr>nextBuffer := Some large_buffer, newBuffer2 := None\<rparr> else s1)"
    using assms(1) nx by (cases "nextBuffer s") (simp_all add: async_inv_def s1_def pending_def b e)
  then show ?thesis using t by (simp add: s1_def e)
qed

lemma refill_two:
  assumes "\<forall>b \<in> set bs. fb_size b = kLargeBuffer" "bs \<noteq> []"
  shows "\<exists>rest. refill None bs = Inr (Some large_buffer, rest) \<and> length rest = length bs - 1 \<and> (\<forall>b \<in> set rest. fb_size b = kLargeBuffer)"
proof -
  have "fb_reset (last bs) = large_buffer"
    using assms by (simp add: fb_reset_def large_buffer_def newFixedBuffer_def)
  then show ?thesis using assms by (auto simp: refill_def dest: in_set_butlastD)
qed

lemma write_inv:
  assumes inv: "async_inv s" and w: "backend s = Writing"
  shows "\<exists>s'. write_buffers sink notice s = Some (Inr s') \<and> async_inv s' \<and> logged s' = logged s \<and> backend s' = LoopHead
    \<and> buffers s' = buffers s \<and> currentBuffer s' = currentBuffer s \<and> running s' = running s
    \<and> content (out_file s') = content (out_file s) @ taken notice s
    \<and> dropped s' = dropped s + (if length (buffersToWrite s) > 25 then 1 else 0)"
proof -
  define n where "n = length (buffersToWrite s)"
  define bs where "bs = (if n > 25 then take 2 (buffersToWrite s) else buffersToWrite s)"
  have ne: "buffersToWrite s \<noteq> []" and b1: "newBuffer1 s = None" and sz: "\<forall>b \<in> set (take 2 bs). fb_size b = kLargeBuffer"
    using inv w by (auto simp: async_inv_def bs_def dest: in_set_takeD split: if_splits)
  have len: "length (take 2 bs) = min 2 n" by (auto simp: bs_def n_def)
  obtain f where f: "sink_all sink ((if n > 25 then [notice (n - 2)] else []) @ map fb_data bs) (out_file s) = Some (Inr f)" "sink_ok f"
    "content f = content (out_file s) @ concat ((if n > 25 then [notice (n - 2)] else []) @ map fb_data bs)"
    using sink_all_appends [of "out_file s"] inv unfolding async_inv_def by blast
  obtain bs1 where bs1: "refill None (take 2 bs) = Inr (Some large_buffer, bs1)" "length bs1 = min 2 n - 1"
    "\<forall>b \<in> set bs1. fb_size b = kLargeBuffer"
    using refill_two [OF sz] ne len by (auto simp: n_def bs_def split: if_splits)
  have "\<exists>r. refill (newBuffer2 s) bs1 = Inr (Some large_buffer, r)"
  proof (cases "newBuffer2 s = None")
    case True
    then have "2 \<le> n" using inv w by (auto simp: async_inv_def n_def)
    then show ?thesis using True refill_two [OF bs1(3)] bs1(2) by fastforce
  next
    case False
    then have "newBuffer2 s = Some large_buffer" using inv w by (auto simp: async_inv_def)
    then show ?thesis by (simp add: refill_def)
  qed
  then obtain r where r: "refill (newBuffer2 s) bs1 = Inr (Some large_buffer, r)" by blast
  define s' where "s' = s\<lparr>out_file := f, newBuffer1 := Some large_buffer, newBuffer2 := Some large_buffer, buffersToWrite := [],
      backend := LoopHead, dropped := dropped s + (if n > 25 then 1 else 0)\<rparr>"
  have "write_buffers sink notice s = Some (Inr s')"
    using ne f(1) bs1(1) r by (simp add: write_buffers_def Let_def n_def [symmetric] bs_def [symmetric] b1 s'_def del: sink_all.simps)
  moreover have "async_inv s'"
    using inv f(2,3) w by (auto simp: async_inv_def s'_def pending_def bs_def split: if_splits)
  moreover have "content (out_file s') = content (out_file s) @ taken notice s"
    using f(3) by (simp add: s'_def taken_def Let_def bs_def n_def)
  ultimately show ?thesis by (auto simp: s'_def n_def)
qed

lemma append_waiting: "async_inv s \<Longrightarrow> length l < kLargeBuffer \<Longrightarrow> waiting (async_append l s) = waiting s @ l"
  by (auto simp: async_inv_def async_append_def Let_def waiting_def fb_append_def avail_def large_buffer_def
      newFixedBuffer_def split: option.splits)

lemma step_inv:
  assumes "async_inv s" "\<And>l. e = Append l \<Longrightarrow> length l < kLargeBuffer"
  shows "\<exists>s'. async_step sink notice e s = Some (Inr s') \<and> async_inv s'"
proof (cases e)
  case (Append l)
  then show ?thesis using append_inv [OF assms(1)] assms(2) by (simp add: async_step_def)
next
  case Head
  then show ?thesis using assms(1) fresh_large
    by (auto simp: async_step_def loop_head_def async_inv_def pending_def)
next
  case Enter
  then show ?thesis using assms(1) take_inv [OF assms(1)]
    by (auto simp: async_step_def enter_def async_inv_def pending_def)
next
  case Wake
  then show ?thesis using assms(1) take_inv [OF assms(1)] by (auto simp: async_step_def)
next
  case Write
  then show ?thesis using assms(1) write_inv [OF assms(1), of notice] by (auto simp: async_step_def)
next
  case Stop
  then show ?thesis using assms(1) by (simp add: async_step_def async_stop_def async_inv_def pending_def)
qed

lemma run_inv:
  assumes "async_inv s" "short_lines es"
  shows "\<exists>s'. async_run sink notice es s = Some (Inr s') \<and> async_inv s'"
  using assms
proof (induction es arbitrary: s)
  case (Cons e es)
  obtain s1 where s1: "async_step sink notice e s = Some (Inr s1)" "async_inv s1"
    using step_inv [OF Cons.prems(1), of e notice] Cons.prems(2) by (cases e) (auto simp: short_lines_def)
  then show ?case using Cons.IH [OF s1(2)] Cons.prems(2) by (simp add: short_lines_def)
qed simp

text \<open>Dropped buffers leave a notice in the output.\<close>

definition noticed :: "(nat \<Rightarrow> string) \<Rightarrow> 'f async_log \<Rightarrow> bool" where
  "noticed notice s \<longleftrightarrow> dropped s = 0 \<or> (\<exists>n pre post. 24 \<le> n \<and> content (out_file s) = pre @ notice n @ post)"

lemma noticed_step:
  assumes "async_inv s" "noticed notice s" "async_step sink notice e s = Some (Inr s')"
  shows "noticed notice s'"
proof (cases "e = Write \<and> backend s = Writing")
  case True
  obtain s1 where s1: "write_buffers sink notice s = Some (Inr s1)" "content (out_file s1) = content (out_file s) @ taken notice s"
    "dropped s1 = dropped s + (if length (buffersToWrite s) > 25 then 1 else 0)"
    using write_inv [OF assms(1), of notice] True by blast
  have eq: "s' = s1" using assms(3) s1(1) True by (simp add: async_step_def)
  show ?thesis
  proof (cases "length (buffersToWrite s) > 25")
    case True
    then have "content (out_file s') = content (out_file s) @ notice (length (buffersToWrite s) - 2) @ concat (map fb_data (take 2 (buffersToWrite s)))"
      using s1(2) by (simp add: eq taken_def Let_def)
    moreover have "24 \<le> length (buffersToWrite s) - 2" using True by simp
    ultimately show ?thesis unfolding noticed_def by blast
  next
    case False
    with s1(3) have d: "dropped s' = dropped s" by (simp add: eq)
    have "\<exists>n pre post. 24 \<le> n \<and> content (out_file s') = pre @ notice n @ post" if "dropped s \<noteq> 0"
    proof -
      from that assms(2) obtain n pre post where "24 \<le> n" "content (out_file s) = pre @ notice n @ post" by (auto simp: noticed_def)
      then have "24 \<le> n \<and> content (out_file s') = pre @ notice n @ (post @ taken notice s)" using s1(2) by (simp add: eq)
      then show ?thesis by blast
    qed
    then show ?thesis by (auto simp: noticed_def d)
  qed
next
  case False
  then have "out_file s' = out_file s \<and> dropped s' = dropped s"
    using assms(3)
    by (cases e) (auto simp: async_step_def async_append_def async_stop_def loop_head_def enter_def take_buffers_def Let_def res_simps
        split: if_splits option.splits)
  then show ?thesis using assms(2) by (simp add: noticed_def)
qed

lemma run_noticed:
  assumes "async_inv s" "noticed notice s" "short_lines es" "async_run sink notice es s = Some (Inr s')"
  shows "noticed notice s'"
  using assms
proof (induction es arbitrary: s)
  case (Cons e es)
  obtain s1 where s1: "async_step sink notice e s = Some (Inr s1)" "async_inv s1"
    using step_inv [OF Cons.prems(1), of e notice] Cons.prems(3) by (cases e) (auto simp: short_lines_def)
  then show ?case using Cons.IH [OF s1(2) noticed_step [OF Cons.prems(1,2) s1(1)]] Cons.prems(3,4) by (simp add: short_lines_def)
qed simp

text \<open>After \<open>stop\<close> a thread that is not in front of taking buffers takes none any more.\<close>

lemma stopped_run:
  assumes "async_inv s" "\<not> running s" "backend s \<in> {Writing, LoopHead, Exited}" "short_lines es"
  shows "\<exists>s'. async_run sink notice es s = Some (Inr s') \<and> waiting s' = waiting s @ concat (lines_of es)
    \<and> (content (out_file s') = content (out_file s) \<or> backend s = Writing \<and> content (out_file s') = content (out_file s) @ taken notice s)"
  using assms
proof (induction es arbitrary: s)
  case Nil
  then show ?case by (simp add: lines_of_def)
next
  case (Cons e es)
  have es: "short_lines es" using Cons.prems(4) by (simp add: short_lines_def)
  consider l where "e = Append l" "length l < kLargeBuffer" | "e = Write" "backend s = Writing"
    | "e = Head" "backend s = LoopHead" | "e = Stop" | "e \<in> {Head, Enter, Wake, Write}" "async_step sink notice e s = Some (Inr s)"
    using Cons.prems(3,4) by (cases e) (auto simp: short_lines_def async_step_def)
  then show ?case
  proof cases
    case 1
    let ?s = "async_append l s"
    have "backend ?s = backend s" "running ?s = running s" "out_file ?s = out_file s" "taken notice ?s = taken notice s"
      by (simp_all add: async_append_def Let_def taken_def)
    then show ?thesis
      using Cons.IH [OF append_inv [OF Cons.prems(1) 1(2)]] Cons.prems(2,3) es append_waiting [OF Cons.prems(1) 1(2)] 1(1)
      by (simp add: async_step_def lines_of_def)
  next
    case 2
    then obtain s1 where s1: "write_buffers sink notice s = Some (Inr s1)" "async_inv s1" "backend s1 = LoopHead" "buffers s1 = buffers s"
      "currentBuffer s1 = currentBuffer s" "running s1 = running s" "content (out_file s1) = content (out_file s) @ taken notice s"
      using write_inv [OF Cons.prems(1), of notice] by blast
    moreover have "waiting s1 = waiting s" using s1(4,5) by (simp add: waiting_def)
    ultimately show ?thesis using Cons.IH [OF s1(2)] Cons.prems(2) es 2 by (auto simp: async_step_def lines_of_def)
  next
    case 3
    let ?s = "s\<lparr>backend := Exited\<rparr>"
    have "async_inv ?s" using Cons.prems(1) 3(2) by (auto simp: async_inv_def pending_def)
    then show ?thesis using Cons.IH [of ?s] Cons.prems(2) es 3 by (simp add: async_step_def loop_head_def lines_of_def waiting_def)
  next
    case 4
    have "async_inv (async_stop s)" using Cons.prems(1) by (simp add: async_stop_def async_inv_def pending_def)
    moreover have "waiting (async_stop s) = waiting s" "taken notice (async_stop s) = taken notice s" "out_file (async_stop s) = out_file s"
      "backend (async_stop s) = backend s" "\<not> running (async_stop s)"
      by (simp_all add: async_stop_def waiting_def taken_def Let_def)
    ultimately show ?thesis using Cons.IH [of "async_stop s"] Cons.prems(3) es 4 by (simp add: async_step_def lines_of_def)
  next
    case 5
    then show ?thesis using Cons.IH [OF Cons.prems(1-3) es] by (auto simp: lines_of_def)
  qed
qed

end

section \<open>Writing to log files\<close>

definition file_sink :: "log_env \<Rightarrow> string \<Rightarrow> log_file \<Rightarrow> log_file run" where
  "file_sink env = append_unlocked env"

definition file_ok :: "log_env \<Rightarrow> log_file \<Rightarrow> bool" where
  "file_ok env l \<longleftrightarrow> env_ok env \<and> (\<exists>xs. holds l xs)"

interpretation files: log_sink "file_sink env" log_content "file_ok env" for env
proof
  fix l x
  assume ok: "file_ok env l"
  then obtain xs where h: "env_ok env" "holds l xs" by (auto simp: file_ok_def)
  obtain l' where "append_unlocked env x l = Some (Inr l')" "holds l' (xs @ [x])"
    using append_holds [OF h] by blast
  then show "\<exists>l'. file_sink env x l = Some (Inr l') \<and> file_ok env l' \<and> log_content l' = log_content l @ x"
    using h holds_content [of l' "xs @ [x]"] holds_content [of l xs] by (auto simp: file_sink_def file_ok_def)
qed

lemma new_file_ok:
  assumes "env_ok env" "CHR ''/'' \<notin> set base" "0 < clock env 0" "newLogFile env base rsize interval every = Inr l"
  shows "files.async_inv env (async_start l)"
proof -
  have "holds l []" using newLogFile_holds [OF assms(1-3), of rsize interval every] assms(4) by simp
  then show ?thesis
    using files.start_inv [of env l] assms(1) holds_content [of l "[]"] by (auto simp: file_ok_def)
qed

text \<open>
  C13. Asynchronous logging. In every interleaving of threads that append lines with the logging thread, and with
  \<open>stop\<close>, no assertion of the logging thread fails and no null buffer is used; and unless buffers were
  dropped, which leaves a notice in the file, the text of the files followed by the text of the buffers (those being
  written, those waiting, the current one) is the logged lines in their order: none is lost, repeated or cut.
\<close>

theorem async_integrity:
  assumes "env_ok env" "CHR ''/'' \<notin> set base" "0 < clock env 0" "newLogFile env base rsize interval every = Inr l"
    and "short_lines es"
  shows "\<exists>s. async_run (file_sink env) notice es (async_start l) = Some (Inr s)
    \<and> (dropped s = 0 \<longrightarrow> log_content (out_file s) @ pending s = concat (logged s))
    \<and> (dropped s \<noteq> 0 \<longrightarrow> (\<exists>n pre post. 24 \<le> n \<and> log_content (out_file s) = pre @ notice n @ post))"
proof -
  note i0 = new_file_ok [OF assms(1-4)]
  obtain s where s: "async_run (file_sink env) notice es (async_start l) = Some (Inr s)" "files.async_inv env s"
    using files.run_inv [OF i0 assms(5)] by blast
  have "files.noticed notice (async_start l)" by (simp add: files.noticed_def async_start_def)
  from files.run_noticed [OF i0 this assms(5) s(1)] s show ?thesis by (auto simp: files.async_inv_def files.noticed_def)
qed

definition sample_log :: log_file where
  "sample_log = (case newLogFile sample_log_env ''im'' 3 3 1024 of Inr l \<Rightarrow> l)"

lemma sample_log_new: "newLogFile sample_log_env ''im'' 3 3 1024 = Inr sample_log"
  using newLogFile_holds [of sample_log_env "''im''" 3 3 1024]
  by (auto simp: sample_log_def sample_log_env_def env_ok_def)

theorem async_integrity_witness:
  "\<exists>s. async_run (file_sink sample_log_env) show_nat [Head, Append ''a'', Enter, Append ''b'', Wake, Append ''c'', Write] (async_start sample_log)
       = Some (Inr s)
     \<and> (dropped s = 0 \<longrightarrow> log_content (out_file s) @ pending s = concat (logged s))"
proof -
  have "env_ok sample_log_env" "CHR ''/'' \<notin> set ''im''" "0 < clock sample_log_env 0"
    "short_lines [Head, Append ''a'', Enter, Append ''b'', Wake, Append ''c'', Write]"
    by (simp_all add: sample_log_env_def env_ok_def short_lines_def kLargeBuffer_def)
  from async_integrity [OF this(1-3) sample_log_new this(4), of show_nat] show ?thesis
    by (rule ex_forward) (elim conjE, intro conjI, assumption+)
qed

text \<open>
  C14. Progress. Whatever happened before, when the logging thread stands in front of its loop, is running, and at most 24 buffers
  wait, then one round (it wakes up when nothing waits) puts every line logged so far into the files, and returns
  to the loop.
\<close>

theorem async_progress:
  assumes "env_ok env" "CHR ''/'' \<notin> set base" "0 < clock env 0" "newLogFile env base rsize interval every = Inr l"
    and "short_lines es" "async_run (file_sink env) notice es (async_start l) = Some (Inr s)"
    and "backend s = LoopHead" "running s" "dropped s = 0" "length (buffers s) \<le> 24"
  shows "\<exists>s'. async_run (file_sink env) notice [Head, Enter, Wake, Write] s = Some (Inr s')
    \<and> log_content (out_file s') = concat (logged s) \<and> backend s' = LoopHead"
proof -
  have inv: "files.async_inv env s"
    using files.run_inv [OF new_file_ok [OF assms(1-4)] assms(5), of notice] assms(6) by auto
  define s1 where "s1 = s\<lparr>backend := Entering\<rparr>"
  define s2 where "s2 = (if buffers s = [] then s\<lparr>backend := Waiting\<rparr> else s1)"
  have i2: "files.async_inv env s2" and l2: "logged s2 = logged s" "buffers s2 = buffers s" "dropped s2 = 0" "backend s2 \<in> {Entering, Waiting}"
    using inv assms(7,9) by (auto simp: s2_def s1_def files.async_inv_def pending_def)
  obtain s3 where s3: "take_buffers s2 = Inr s3" "files.async_inv env s3" "logged s3 = logged s" "dropped s3 = 0" "backend s3 = Writing"
    "buffers s3 = []" "fb_data (currentBuffer s3) = []" "length (buffersToWrite s3) = Suc (length (buffers s))"
    using files.take_inv [OF i2 l2(4)] l2 by auto
  obtain s4 where s4: "write_buffers (file_sink env) notice s3 = Some (Inr s4)" "files.async_inv env s4" "logged s4 = logged s"
    "backend s4 = LoopHead" "buffers s4 = []" "fb_data (currentBuffer s4) = []" "dropped s4 = 0"
    using files.write_inv [OF s3(2,5), of notice] s3 assms(10) by auto
  have "loop_head s = Inr s1"
    using inv assms(7,8) files.fresh_large by (simp add: loop_head_def files.async_inv_def s1_def)
  moreover have "enter s1 = (if buffers s = [] then Inr s2 else Inr s3)"
    using s3(1) by (auto simp: enter_def s2_def s1_def)
  ultimately have "async_run (file_sink env) notice [Head, Enter, Wake, Write] s = Some (Inr s4)"
    using assms(7) s3(1,5) s4(1) by (auto simp: async_step_def s1_def s2_def)
  moreover have "log_content (out_file s4) = concat (logged s)"
    using s4 by (auto simp: files.async_inv_def pending_def)
  ultimately show ?thesis using s4(4) by blast
qed

theorem async_progress_witness:
  "\<exists>s'. async_run (file_sink sample_log_env) show_nat [Head, Enter, Wake, Write] (async_append ''line'' (async_start sample_log)) = Some (Inr s')
    \<and> log_content (out_file s') = ''line'' \<and> backend s' = LoopHead"
  using async_progress [OF _ _ _ sample_log_new, of "[Append ''line'']" show_nat "async_append ''line'' (async_start sample_log)"]
  by (simp add: sample_log_env_def env_ok_def short_lines_def kLargeBuffer_def async_step_def async_append_def async_start_def
      large_buffer_def newFixedBuffer_def avail_def)

text \<open>
  C40. Stopping. Whatever happened before: a line that is appended while the logging thread writes, when \<open>stop\<close> comes before the thread tests \<open>running_\<close> again,
  is never written. Whatever happens afterwards, the files get at most the buffers the thread had taken before, and the line stays in the text that waits, with
  everything that waited with it; after its next test of \<open>running_\<close> the thread has left.
\<close>

theorem stop_loses_lines:
  assumes "env_ok env" "CHR ''/'' \<notin> set base" "0 < clock env 0" "newLogFile env base rsize interval every = Inr l"
    and "short_lines es" "async_run (file_sink env) notice es (async_start l) = Some (Inr s)" "backend s = Writing"
    and "length line < kLargeBuffer" "short_lines es'"
  shows "(\<exists>s'. async_run (file_sink env) notice (Append line # Stop # es') s = Some (Inr s')
      \<and> waiting s' = waiting s @ line @ concat (lines_of es')
      \<and> (log_content (out_file s') = log_content (out_file s) \<or> log_content (out_file s') = log_content (out_file s) @ taken notice s))
    \<and> (\<exists>s'. async_run (file_sink env) notice [Append line, Stop, Write, Head] s = Some (Inr s') \<and> backend s' = Exited)"
proof -
  have inv: "files.async_inv env s"
    using files.run_inv [OF new_file_ok [OF assms(1-4)] assms(5), of notice] assms(6) by auto
  define s1 where "s1 = async_stop (async_append line s)"
  have i1: "files.async_inv env s1"
    using files.append_inv [OF inv assms(8)] by (simp add: s1_def async_stop_def files.async_inv_def pending_def)
  have s1: "\<not> running s1" "backend s1 = Writing" "out_file s1 = out_file s" "taken notice s1 = taken notice s" "waiting s1 = waiting s @ line"
    using assms(7) files.append_waiting [OF inv assms(8)] by (simp_all add: s1_def async_stop_def async_append_def Let_def taken_def waiting_def)
  obtain s2 where s2: "write_buffers (file_sink env) notice s1 = Some (Inr s2)" "backend s2 = LoopHead" "running s2 = running s1"
    using files.write_inv [OF i1 s1(2), of notice] by blast
  have "async_run (file_sink env) notice [Append line, Stop, Write, Head] s = Some (Inr (s2\<lparr>backend := Exited\<rparr>))"
    using s1(1,2) s2 by (simp add: async_step_def s1_def [symmetric] loop_head_def)
  moreover have "async_run (file_sink env) notice (Append line # Stop # es') s = async_run (file_sink env) notice es' s1"
    by (simp add: async_step_def s1_def)
  ultimately show ?thesis using files.stopped_run [OF i1 s1(1) _ assms(9), of notice] s1 by auto
qed

theorem stop_loses_lines_witness:
  "\<exists>s s'. async_run (file_sink sample_log_env) show_nat [Head, Enter, Wake] (async_start sample_log) = Some (Inr s)
    \<and> async_run (file_sink sample_log_env) show_nat [Append ''bye'', Stop, Append ''more''] s = Some (Inr s') \<and> waiting s' = ''byemore''"
proof -
  let ?run = "async_run (file_sink sample_log_env) show_nat"
  have env: "env_ok sample_log_env" "CHR ''/'' \<notin> set ''im''" "0 < clock sample_log_env 0" by (simp_all add: sample_log_env_def env_ok_def)
  obtain s where s: "?run [Head, Enter, Wake] (async_start sample_log) = Some (Inr s)" "backend s = Writing" "waiting s = []"
    by (auto simp: async_step_def loop_head_def enter_def take_buffers_def async_start_def fresh_def large_buffer_def newFixedBuffer_def
        fb_length_def waiting_def)
  have short: "short_lines [Head, Enter, Wake]" "length ''bye'' < kLargeBuffer" "short_lines [Append ''more'']"
    by (simp_all add: short_lines_def kLargeBuffer_def)
  from stop_loses_lines [OF env sample_log_new short(1) s(1,2) short(2,3)] s(1,3) show ?thesis by (auto simp: lines_of_def)
qed

end
