(* ===== verification/Http.thy ===== *)
theory Http
  imports Buffer StdMap
begin

text \<open>
  HTTP requests and responses (\<open>muduo/net/http/HttpRequest.h\<close>, \<open>HttpContext.h\<close>, \<open>HttpContext.cc\<close>, \<open>HttpResponse.h\<close>,
  \<open>HttpResponse.cc\<close>): the incremental parser of requests over a buffer, and the text of a response.

  A pair of pointers into the buffer is the string between them; a pointer found by \<open>std::find\<close> is its offset. The
  parser's loop does not return in the states \<open>kExpectBody\<close> and \<open>kGotAll\<close>, so it is a partial function.
\<close>

section \<open>Requests\<close>

datatype http_method = kInvalid | kGet | kPost | kHead | kPut | kDelete

datatype http_version = kUnknown | kHttp10 | kHttp11

record http_request =
  req_method :: http_method
  version :: http_version
  path :: string
  query :: string
  receiveTime :: int
  headers :: "(string \<times> string) list"

definition newHttpRequest :: http_request where
  "newHttpRequest = \<lparr>req_method = kInvalid, version = kUnknown, path = [], query = [], receiveTime = 0, headers = []\<rparr>"

definition method_of :: "string \<Rightarrow> http_method" where
  "method_of m = (if m = ''GET'' then kGet else if m = ''POST'' then kPost else if m = ''HEAD'' then kHead
     else if m = ''PUT'' then kPut else if m = ''DELETE'' then kDelete else kInvalid)"

definition setMethod :: "string \<Rightarrow> http_request \<Rightarrow> (bool \<times> http_request) res" where
  "setMethod m r = c_assert (req_method r = kInvalid) (Inr (method_of m \<noteq> kInvalid, r\<lparr>req_method := method_of m\<rparr>))"

fun methodString :: "http_method \<Rightarrow> string" where
  "methodString kGet = ''GET''"
| "methodString kPost = ''POST''"
| "methodString kHead = ''HEAD''"
| "methodString kPut = ''PUT''"
| "methodString kDelete = ''DELETE''"
| "methodString kInvalid = ''UNKNOWN''"

text \<open>\<open>isspace\<close> in the C locale, and \<open>std::find\<close>.\<close>

definition isspace :: "char \<Rightarrow> bool" where
  "isspace c \<longleftrightarrow> c \<in> {CHR 0x09, CHR 0x0A, CHR 0x0B, CHR 0x0C, CHR 0x0D, CHR '' ''}"

definition find_char :: "char \<Rightarrow> string \<Rightarrow> nat" where
  "find_char c s = length (takeWhile (\<lambda>x. x \<noteq> c) s)"

fun drop_trailing :: "string \<Rightarrow> string" where
  "drop_trailing value = (if value \<noteq> [] \<and> isspace (last value) then drop_trailing (butlast value) else value)"

declare drop_trailing.simps [simp del]

definition addHeader :: "string \<Rightarrow> nat \<Rightarrow> http_request \<Rightarrow> http_request" where
  "addHeader line colon r =
     (let field = take colon line;
          val = drop_trailing (dropWhile isspace (drop (Suc colon) line))
      in r\<lparr>headers := ins_key field val (headers r)\<rparr>)"

definition getHeader :: "string \<Rightarrow> http_request \<Rightarrow> string" where
  "getHeader field r = (case map_of (headers r) field of Some v \<Rightarrow> v | None \<Rightarrow> [])"

section \<open>The parser\<close>

datatype parse_state = kExpectRequestLine | kExpectHeaders | kExpectBody | kGotAll

record http_context =
  ctx_state :: parse_state
  request :: http_request

definition newHttpContext :: http_context where
  "newHttpContext = \<lparr>ctx_state = kExpectRequestLine, request = newHttpRequest\<rparr>"

definition gotAll :: "http_context \<Rightarrow> bool" where
  "gotAll ctx \<longleftrightarrow> ctx_state ctx = kGotAll"

definition ctx_reset :: "http_context \<Rightarrow> http_context" where
  "ctx_reset ctx = ctx\<lparr>ctx_state := kExpectRequestLine, request := newHttpRequest\<rparr>"

definition setTarget :: "string \<Rightarrow> http_request \<Rightarrow> http_request" where
  "setTarget target r =
     (let question = find_char (CHR ''?'') target
      in if question \<noteq> length target then r\<lparr>path := take question target, query := drop question target\<rparr>
         else r\<lparr>path := target\<rparr>)"

definition processRequestLine :: "string \<Rightarrow> http_request \<Rightarrow> (bool \<times> http_request) res" where
  "processRequestLine line r =
     (let space = find_char (CHR '' '') line
      in if space = length line then Inr (False, r)
         else rbind (setMethod (take space line) r) (\<lambda>(known, r1).
           if \<not> known then Inr (False, r1)
           else let rest = drop (Suc space) line; space2 = find_char (CHR '' '') rest
                in if space2 = length rest then Inr (False, r1)
                   else let r2 = setTarget (take space2 rest) r1; v = drop (Suc space2) rest
                        in if length v = 8 \<and> take 7 v = ''HTTP/1.''
                           then if v ! 7 = CHR ''1'' then Inr (True, r2\<lparr>version := kHttp11\<rparr>)
                                else if v ! 7 = CHR ''0'' then Inr (True, r2\<lparr>version := kHttp10\<rparr>)
                                else Inr (False, r2)
                           else Inr (False, r2)))"

text \<open>One pass of the loop: \<open>hasMore\<close>, \<open>ok\<close>, the buffer and the context after it.\<close>

definition line_before :: "nat \<Rightarrow> buffer \<Rightarrow> string" where
  "line_before crlf buf = take (crlf - readerIndex buf) (contents buf)"

definition parse_step :: "int \<Rightarrow> bool \<Rightarrow> buffer \<Rightarrow> http_context \<Rightarrow> (bool \<times> bool \<times> buffer \<times> http_context) res" where
  "parse_step t ok buf ctx =
     (case ctx_state ctx of
        kExpectRequestLine \<Rightarrow>
          (case findCRLF buf of
             Some crlf \<Rightarrow>
               rbind (processRequestLine (line_before crlf buf) (request ctx)) (\<lambda>(ok1, r).
                 if ok1
                 then rbind (retrieveUntil (crlf + 2) buf) (\<lambda>buf1.
                      Inr (True, ok1, buf1, ctx\<lparr>ctx_state := kExpectHeaders, request := r\<lparr>receiveTime := t\<rparr>\<rparr>))
                 else Inr (False, ok1, buf, ctx\<lparr>request := r\<rparr>))
           | None \<Rightarrow> Inr (False, ok, buf, ctx))
      | kExpectHeaders \<Rightarrow>
          (case findCRLF buf of
             Some crlf \<Rightarrow>
               let line = line_before crlf buf; colon = find_char (CHR '':'') line
               in if colon \<noteq> length line
                  then rbind (retrieveUntil (crlf + 2) buf) (\<lambda>buf1.
                       Inr (True, ok, buf1, ctx\<lparr>request := addHeader line colon (request ctx)\<rparr>))
                  else rbind (retrieveUntil (crlf + 2) buf) (\<lambda>buf1.
                       Inr (False, ok, buf1, ctx\<lparr>ctx_state := kGotAll\<rparr>))
           | None \<Rightarrow> Inr (False, ok, buf, ctx))
      | _ \<Rightarrow> Inr (True, ok, buf, ctx))"

partial_function (option) parse_loop :: "int \<Rightarrow> bool \<Rightarrow> buffer \<Rightarrow> http_context \<Rightarrow> (bool \<times> buffer \<times> http_context) run" where
  "parse_loop t ok buf ctx =
     (case parse_step t ok buf ctx of
        Inl e \<Rightarrow> Some (Inl e)
      | Inr (hasMore, ok1, buf1, ctx1) \<Rightarrow>
          if hasMore then parse_loop t ok1 buf1 ctx1 else Some (Inr (ok1, buf1, ctx1)))"

definition parseRequest :: "int \<Rightarrow> buffer \<Rightarrow> http_context \<Rightarrow> (bool \<times> buffer \<times> http_context) run" where
  "parseRequest t buf ctx = parse_loop t True buf ctx"

section \<open>Responses\<close>

record http_response =
  res_headers :: "(string \<times> string) list"
  statusCode :: int
  statusMessage :: string
  closeConnection :: bool
  body :: string

definition newHttpResponse :: "bool \<Rightarrow> http_response" where
  "newHttpResponse close = \<lparr>res_headers = [], statusCode = 0, statusMessage = [], closeConnection = close, body = []\<rparr>"

definition res_addHeader :: "string \<Rightarrow> string \<Rightarrow> http_response \<Rightarrow> http_response" where
  "res_addHeader k v resp = resp\<lparr>res_headers := ins_key k v (res_headers resp)\<rparr>"

definition setContentType :: "string \<Rightarrow> http_response \<Rightarrow> http_response" where
  "setContentType contentType resp = res_addHeader ''Content-Type'' contentType resp"

fun append_pieces :: "string list \<Rightarrow> buffer \<Rightarrow> buffer res" where
  "append_pieces [] b = Inr b"
| "append_pieces (s # ss) b = rbind (append_piece (piece s) b) (append_pieces ss)"

fun append_headers :: "(string \<times> string) list \<Rightarrow> buffer \<Rightarrow> buffer res" where
  "append_headers [] b = Inr b"
| "append_headers ((k, v) # hs) b = rbind (append_pieces [k, '': '', v, [CR, LF]] b) (append_headers hs)"

definition appendToBuffer :: "http_response \<Rightarrow> buffer \<Rightarrow> buffer res" where
  "appendToBuffer resp out =
     rbind (append_pieces [take 31 (''HTTP/1.1 '' @ show_int (statusCode resp) @ '' ''), statusMessage resp, [CR, LF]] out) (\<lambda>b1.
     rbind (if closeConnection resp then append_pieces [''Connection: close'' @ [CR, LF]] b1
            else append_pieces [take 31 (''Content-Length: '' @ show_nat (length (body resp)) @ [CR, LF]),
                                ''Connection: Keep-Alive'' @ [CR, LF]] b1) (\<lambda>b2.
     rbind (append_headers (res_headers resp) b2) (append_pieces [[CR, LF], body resp])))"

section \<open>Lines\<close>

text \<open>Cutting the first line off a text, the parser as a function of the text, and that the two agree.\<close>

definition cut_line :: "string \<Rightarrow> (string \<times> string) option" where
  "cut_line s = map_option (\<lambda>k. (take k s, drop (k + 2) s)) (search2 CR LF s)"

definition no_crlf :: "string \<Rightarrow> bool" where
  "no_crlf s \<longleftrightarrow> search2 CR LF s = None"

lemma search2_bound: "search2 a b s = Some k \<Longrightarrow> k + 2 \<le> length s"
  by (simp add: search2_Some)

lemma search2_append: "search2 a b s = Some k \<Longrightarrow> search2 a b (s @ u) = Some k"
proof (induction a b s arbitrary: k rule: search2.induct)
  case (1 a b x y zs)
  then show ?case by (auto split: if_splits)
qed simp_all

lemma cut_line_append: "cut_line s = Some (l, r) \<Longrightarrow> cut_line (s @ u) = Some (l, r @ u)"
  using search2_bound [of CR LF s] by (auto simp: cut_line_def dest: search2_append)

lemma cut_line_length: "cut_line s = Some (l, r) \<Longrightarrow> length r < length s"
  using search2_bound [of CR LF s] by (auto simp: cut_line_def)

lemma cut_line_text:
  assumes "no_crlf l" "l = [] \<or> last l \<noteq> CR"
  shows "cut_line (l @ CR # LF # r) = Some (l, r)"
proof -
  have "search2 CR LF (l @ CR # LF # r) = Some (length l)"
    using assms
  proof (induction CR LF l rule: search2.induct)
  qed (auto simp: no_crlf_def split: if_splits)
  then show ?thesis by (simp add: cut_line_def)
qed

lemma find_crlf:
  assumes "wf_buffer b"
  shows "case cut_line (contents b) of
      None \<Rightarrow> findCRLF b = None
    | Some (l, r) \<Rightarrow> \<exists>crlf b'. findCRLF b = Some crlf \<and> line_before crlf b = l
        \<and> retrieveUntil (crlf + 2) b = Inr b' \<and> wf_buffer b' \<and> contents b' = r"
proof (cases "search2 CR LF (contents b)")
  case (Some k)
  have "k + 2 \<le> readableBytes b" using search2_bound [OF Some] assms by simp
  moreover from this obtain b' where "retrieve (k + 2) b = Inr b'" "wf_buffer b'" "contents b' = drop (k + 2) (contents b)"
    using retrieve_spec [OF assms] by blast
  ultimately show ?thesis
    using Some by (simp add: cut_line_def findCRLF_def line_before_def retrieveUntil_def readableBytes_def)
qed (simp add: cut_line_def findCRLF_def)


section \<open>Parsing as a function of the text\<close>

function parse_headers :: "http_context \<Rightarrow> string \<Rightarrow> string \<times> http_context" where
  "parse_headers ctx s =
     (case cut_line s of
        None \<Rightarrow> (s, ctx)
      | Some (l, r) \<Rightarrow>
          if find_char (CHR '':'') l \<noteq> length l
          then parse_headers (ctx\<lparr>request := addHeader l (find_char (CHR '':'') l) (request ctx)\<rparr>) r
          else (r, ctx\<lparr>ctx_state := kGotAll\<rparr>))"
  by pat_completeness auto
termination by (relation "measure (\<lambda>(ctx, s). length s)") (auto dest: cut_line_length)

declare parse_headers.simps [simp del]

definition parse_text :: "int \<Rightarrow> http_context \<Rightarrow> string \<Rightarrow> (bool \<times> string \<times> http_context) res" where
  "parse_text t ctx s =
     (if ctx_state ctx = kExpectRequestLine
      then case cut_line s of
             None \<Rightarrow> Inr (True, s, ctx)
           | Some (l, r) \<Rightarrow> rbind (processRequestLine l (request ctx)) (\<lambda>(ok, q).
               if ok then Inr (True, parse_headers (ctx\<lparr>ctx_state := kExpectHeaders, request := q\<lparr>receiveTime := t\<rparr>\<rparr>) r)
               else Inr (False, s, ctx\<lparr>request := q\<rparr>))
      else Inr (True, parse_headers ctx s))"

lemma parse_loop_headers:
  assumes "wf_buffer b" "ctx_state ctx = kExpectHeaders"
  shows "\<exists>b'. parse_loop t ok b ctx = Some (Inr (ok, b', snd (parse_headers ctx (contents b))))
    \<and> wf_buffer b' \<and> contents b' = fst (parse_headers ctx (contents b))"
  using assms
proof (induction ctx "contents b" arbitrary: b rule: parse_headers.induct)
  case (1 ctx)
  show ?case
  proof (cases "cut_line (contents b)")
    case None
    with find_crlf [OF 1(2)] 1(2,3) show ?thesis
      by (simp add: parse_loop.simps [of _ _ b] parse_step_def parse_headers.simps [of _ "contents b"])
  next
    case (Some lr)
    obtain l r where lr: "lr = (l, r)" by (cases lr)
    with find_crlf [OF 1(2)] Some obtain crlf b1 where b1: "findCRLF b = Some crlf" "line_before crlf b = l"
      "retrieveUntil (crlf + 2) b = Inr b1" "wf_buffer b1" "contents b1 = r" by auto
    show ?thesis
    proof (cases "find_char (CHR '':'') l \<noteq> length l")
      case True
      let ?ctx = "ctx\<lparr>request := addHeader l (find_char (CHR '':'') l) (request ctx)\<rparr>"
      have "(l, contents b1) = lr" using lr b1(5) by simp
      from 1(1) [OF Some this True b1(4)] 1(3) b1(5) obtain b' where
        "parse_loop t ok b1 ?ctx = Some (Inr (ok, b', snd (parse_headers ?ctx r)))"
        "wf_buffer b'" "contents b' = fst (parse_headers ?ctx r)" by auto
      with True Some lr b1 1(3) show ?thesis
        by (simp add: parse_loop.simps [of _ _ b] parse_step_def parse_headers.simps [of _ "contents b"])
    next
      case False
      with Some lr b1 1(3) show ?thesis
        by (simp add: parse_loop.simps [of _ _ b] parse_step_def parse_headers.simps [of _ "contents b"])
    qed
  qed
qed

text \<open>The loop over the buffer computes the function of the text, and leaves the text that function leaves.\<close>

lemma parseRequest_text:
  assumes "wf_buffer b" "ctx_state ctx \<in> {kExpectRequestLine, kExpectHeaders}"
  shows "case parse_text t ctx (contents b) of
      Inl e \<Rightarrow> parseRequest t b ctx = Some (Inl e)
    | Inr (ok, r, ctx') \<Rightarrow> \<exists>b'. parseRequest t b ctx = Some (Inr (ok, b', ctx')) \<and> wf_buffer b' \<and> contents b' = r"
proof (cases "ctx_state ctx = kExpectRequestLine")
  case False
  with assms(2) have "ctx_state ctx = kExpectHeaders" by simp
  from parse_loop_headers [OF assms(1) this, of t True] this show ?thesis
    by (simp add: parse_text_def parseRequest_def split: prod.splits) auto
next
  case st: True
  show ?thesis
  proof (cases "cut_line (contents b)")
    case None
    with find_crlf [OF assms(1)] st assms(1) show ?thesis
      by (simp add: parse_text_def parseRequest_def parse_loop.simps [of _ _ b] parse_step_def)
  next
    case (Some lr)
    obtain l r where lr: "lr = (l, r)" by (cases lr)
    with find_crlf [OF assms(1)] Some obtain crlf b1 where b1: "findCRLF b = Some crlf" "line_before crlf b = l"
      "retrieveUntil (crlf + 2) b = Inr b1" "wf_buffer b1" "contents b1 = r" by auto
    show ?thesis
    proof (cases "processRequestLine l (request ctx)")
      case (Inl e)
      with Some lr b1 st show ?thesis
        by (simp add: parse_text_def parseRequest_def parse_loop.simps [of _ _ b] parse_step_def)
    next
      case (Inr x)
      obtain ok q where x: "x = (ok, q)" by (cases x)
      let ?ctx = "ctx\<lparr>ctx_state := kExpectHeaders, request := q\<lparr>receiveTime := t\<rparr>\<rparr>"
      show ?thesis
      proof (cases ok)
        case True
        obtain b' where "parse_loop t True b1 ?ctx = Some (Inr (True, b', snd (parse_headers ?ctx r)))"
          "wf_buffer b'" "contents b' = fst (parse_headers ?ctx r)"
          using parse_loop_headers [OF b1(4), of ?ctx t True] b1(5) by auto
        with True Some lr b1 st Inr x show ?thesis
          by (simp add: parse_text_def parseRequest_def parse_loop.simps [of _ _ b] parse_step_def split: prod.splits)
      next
        case False
        with Some lr b1 st Inr x assms(1) show ?thesis
          by (simp add: parse_text_def parseRequest_def parse_loop.simps [of _ _ b] parse_step_def)
      qed
    qed
  qed
qed

section \<open>Incremental parsing\<close>

lemma parse_headers_state:
  "ctx_state ctx = kExpectHeaders \<Longrightarrow> ctx_state (snd (parse_headers ctx s)) \<in> {kExpectHeaders, kGotAll}"
  by (induction ctx s rule: parse_headers.induct) (subst parse_headers.simps, auto split: option.splits)

lemma parse_headers_append:
  "ctx_state ctx = kExpectHeaders \<Longrightarrow>
     parse_headers ctx (s @ u) =
       (case parse_headers ctx s of (r, ctx') \<Rightarrow> if gotAll ctx' then (r @ u, ctx') else parse_headers ctx' (r @ u))"
proof (induction ctx s rule: parse_headers.induct)
  case (1 ctx s)
  show ?case
  proof (cases "cut_line s")
    case None
    with 1(2) show ?thesis by (simp add: parse_headers.simps [of _ s] gotAll_def)
  next
    case (Some lr)
    obtain l r where lr: "lr = (l, r)" by (cases lr)
    show ?thesis
    proof (cases "find_char (CHR '':'') l \<noteq> length l")
      case True
      from 1(1) [OF Some lr [symmetric] True] 1(2) Some lr True cut_line_append [of s l r u] show ?thesis
        by (simp add: parse_headers.simps [of _ s] parse_headers.simps [of _ "s @ u"])
    next
      case False
      with Some lr cut_line_append [of s l r u] show ?thesis
        by (simp add: parse_headers.simps [of _ s] parse_headers.simps [of _ "s @ u"] gotAll_def)
    qed
  qed
qed

lemma parse_text_append:
  assumes "ctx_state ctx \<in> {kExpectRequestLine, kExpectHeaders}"
  shows "parse_text t ctx (s @ u) =
     (case parse_text t ctx s of
        Inl e \<Rightarrow> Inl e
      | Inr (ok, r, ctx') \<Rightarrow> if ok \<and> \<not> gotAll ctx' then parse_text t ctx' (r @ u) else Inr (ok, r @ u, ctx'))"
proof (cases "ctx_state ctx = kExpectRequestLine")
  case False
  with assms have st: "ctx_state ctx = kExpectHeaders" by simp
  with parse_headers_append [OF st, of s u] parse_headers_state [OF st, of s] show ?thesis
    by (auto simp: parse_text_def gotAll_def split: prod.splits)
next
  case st: True
  show ?thesis
  proof (cases "cut_line s")
    case None
    with st show ?thesis by (simp add: parse_text_def [of _ _ s] gotAll_def)
  next
    case (Some lr)
    obtain l r where lr: "lr = (l, r)" by (cases lr)
    show ?thesis
    proof (cases "processRequestLine l (request ctx)")
      case (Inl e)
      with Some lr st cut_line_append [of s l r u] show ?thesis by (simp add: parse_text_def)
    next
      case (Inr x)
      obtain ok q where x: "x = (ok, q)" by (cases x)
      let ?ctx = "ctx\<lparr>ctx_state := kExpectHeaders, request := q\<lparr>receiveTime := t\<rparr>\<rparr>"
      have "ctx_state ?ctx = kExpectHeaders" by simp
      with Some lr st Inr x cut_line_append [of s l r u] parse_headers_append [of ?ctx r u] parse_headers_state [of ?ctx r]
      show ?thesis by (auto simp: parse_text_def gotAll_def split: prod.splits)
    qed
  qed
qed

lemma parse_text_time: "ctx_state ctx = kExpectHeaders \<Longrightarrow> parse_text t ctx s = parse_text t' ctx s"
  by (simp add: parse_text_def)

lemma parse_text_state:
  assumes "ctx_state ctx \<in> {kExpectRequestLine, kExpectHeaders}" "parse_text t ctx s = Inr (True, r, ctx')" "\<not> gotAll ctx'"
  shows "ctx_state ctx' = kExpectHeaders \<or> ctx_state ctx = kExpectRequestLine \<and> ctx' = ctx \<and> r = s"
proof (cases "ctx_state ctx = kExpectRequestLine")
  case False
  with assms(1) have st: "ctx_state ctx = kExpectHeaders" by simp
  with assms(2,3) parse_headers_state [OF st, of s] show ?thesis by (auto simp: parse_text_def gotAll_def)
next
  case st: True
  show ?thesis
  proof (cases "cut_line s")
    case None
    with st assms(2) show ?thesis by (simp add: parse_text_def)
  next
    case (Some lr)
    then obtain l rest ok q where "cut_line s = Some (l, rest)" "processRequestLine l (request ctx) = Inr (ok, q)" ok
      using assms(2) st by (cases lr) (auto simp: parse_text_def res_simps split: if_splits)
    with assms(2,3) st parse_headers_state [of "ctx\<lparr>ctx_state := kExpectHeaders, request := q\<lparr>receiveTime := t\<rparr>\<rparr>" rest]
    show ?thesis by (auto simp: parse_text_def gotAll_def)
  qed
qed


section \<open>The text of a request\<close>

definition header_line :: "string \<times> string \<Rightarrow> string" where
  "header_line kv = fst kv @ '': '' @ snd kv"

definition request_line :: "http_request \<Rightarrow> string" where
  "request_line rq = methodString (req_method rq) @ '' '' @ path rq @ query rq @ '' HTTP/1.''
     @ (if version rq = kHttp11 then ''1'' else ''0'')"

definition request_text :: "http_request \<Rightarrow> (string \<times> string) list \<Rightarrow> string" where
  "request_text rq hs = request_line rq @ [CR, LF] @ concat (map (\<lambda>kv. header_line kv @ [CR, LF]) hs) @ [CR, LF]"

definition valid_request :: "http_request \<Rightarrow> bool" where
  "valid_request rq \<longleftrightarrow> req_method rq \<noteq> kInvalid \<and> version rq \<noteq> kUnknown
     \<and> list_all (\<lambda>c. c \<notin> {CHR '' '', CHR ''?'', CR}) (path rq)
     \<and> (query rq = [] \<or> hd (query rq) = CHR ''?'' \<and> list_all (\<lambda>c. c \<notin> {CHR '' '', CR}) (query rq))"

definition valid_header :: "string \<times> string \<Rightarrow> bool" where
  "valid_header kv \<longleftrightarrow> list_all (\<lambda>c. c \<notin> {CHR '':'', CR}) (fst kv) \<and> CR \<notin> set (snd kv)
     \<and> (snd kv = [] \<or> \<not> isspace (hd (snd kv)) \<and> \<not> isspace (last (snd kv)))"

definition with_headers :: "(string \<times> string) list \<Rightarrow> http_request \<Rightarrow> http_request" where
  "with_headers hs rq = rq\<lparr>headers := fold (\<lambda>(k, v). ins_key k v) hs (headers rq)\<rparr>"

definition parsed_request :: "int \<Rightarrow> http_request \<Rightarrow> (string \<times> string) list \<Rightarrow> http_request" where
  "parsed_request t rq hs = with_headers hs (rq\<lparr>receiveTime := t, headers := []\<rparr>)"

lemma no_crlf_CR: "CR \<notin> set s \<Longrightarrow> no_crlf s"
  unfolding no_crlf_def by (induction CR LF s rule: search2.induct) auto

lemma cut_line_plain: "CR \<notin> set l \<Longrightarrow> cut_line (l @ CR # LF # r) = Some (l, r)"
  by (intro cut_line_text no_crlf_CR) (auto dest: last_in_set)

lemma find_char_append: "c \<notin> set s \<Longrightarrow> find_char c (s @ c # u) = length s"
  by (induction s) (auto simp: find_char_def)

lemma find_char_absent: "c \<notin> set s \<Longrightarrow> find_char c s = length s"
  by (induction s) (auto simp: find_char_def)

lemma method_of_string: "m \<noteq> kInvalid \<Longrightarrow> method_of (methodString m) = m"
  by (cases m) (simp_all add: method_of_def)

lemma methodString_plain: "m \<noteq> kInvalid \<Longrightarrow> CHR '' '' \<notin> set (methodString m) \<and> CR \<notin> set (methodString m)"
  by (cases m) simp_all

lemma setTarget_split:
  assumes "valid_request rq"
  shows "setTarget (path rq @ query rq) (r\<lparr>query := []\<rparr>) = r\<lparr>path := path rq, query := query rq\<rparr>"
proof (cases "query rq")
  case Nil
  have "CHR ''?'' \<notin> set (path rq)" using assms by (auto simp: valid_request_def list_all_iff)
  from find_char_absent [OF this] Nil show ?thesis by (simp add: setTarget_def)
next
  case (Cons a q)
  with assms have "a = CHR ''?''" "CHR ''?'' \<notin> set (path rq)" by (auto simp: valid_request_def list_all_iff)
  with Cons find_char_append [of "CHR ''?''" "path rq" q] show ?thesis by (simp add: setTarget_def)
qed

lemma processRequestLine_parts:
  assumes "CHR '' '' \<notin> set m" "CHR '' '' \<notin> set target"
  shows "processRequestLine (m @ CHR '' '' # target @ CHR '' '' # v) r =
     rbind (setMethod m r) (\<lambda>(known, r1).
       if \<not> known then Inr (False, r1)
       else if length v = 8 \<and> take 7 v = ''HTTP/1.''
       then if v ! 7 = CHR ''1'' then Inr (True, (setTarget target r1)\<lparr>version := kHttp11\<rparr>)
            else if v ! 7 = CHR ''0'' then Inr (True, (setTarget target r1)\<lparr>version := kHttp10\<rparr>)
            else Inr (False, setTarget target r1)
       else Inr (False, setTarget target r1))"
proof -
  have d: "drop (Suc (length x)) (x @ c # u) = u" "take (length x) (x @ u) = x"
    "(length x = length (x @ c # u)) = False" for x u :: string and c
    by simp_all
  show ?thesis
    unfolding processRequestLine_def Let_def find_char_append [OF assms(1)] d find_char_append [OF assms(2)] if_False
    by (rule refl)
qed

lemma processRequestLine_text:
  assumes "valid_request rq"
  shows "processRequestLine (request_line rq) newHttpRequest = Inr (True, rq\<lparr>receiveTime := 0, headers := []\<rparr>)"
proof -
  have m: "req_method rq \<noteq> kInvalid" using assms by (simp add: valid_request_def)
  have v: "version rq = kHttp11 \<or> version rq = kHttp10"
    using assms by (cases "version rq") (simp_all add: valid_request_def)
  have sp: "CHR '' '' \<notin> set (path rq @ query rq)" using assms by (fastforce simp: valid_request_def list_all_iff)
  have line: "request_line rq = methodString (req_method rq) @ CHR '' '' # (path rq @ query rq) @ CHR '' '' #
      (''HTTP/1.'' @ (if version rq = kHttp11 then ''1'' else ''0''))"
    by (simp add: request_line_def)
  have "setTarget (path rq @ query rq) (newHttpRequest\<lparr>req_method := req_method rq\<rparr>)
      = newHttpRequest\<lparr>req_method := req_method rq, path := path rq, query := query rq\<rparr>"
    using setTarget_split [OF assms, of "newHttpRequest\<lparr>req_method := req_method rq\<rparr>"] by (simp add: newHttpRequest_def)
  moreover have "setMethod (methodString (req_method rq)) newHttpRequest = Inr (True, newHttpRequest\<lparr>req_method := req_method rq\<rparr>)"
    using m by (simp add: setMethod_def method_of_string newHttpRequest_def)
  moreover have "CHR '' '' \<notin> set (methodString (req_method rq))" using methodString_plain [OF m] by blast
  ultimately have "processRequestLine (request_line rq) newHttpRequest =
      Inr (True, newHttpRequest\<lparr>req_method := req_method rq, path := path rq, query := query rq,
        version := if version rq = kHttp11 then kHttp11 else kHttp10\<rparr>)"
    unfolding line by (simp add: processRequestLine_parts [OF _ sp] del: append_assoc set_append)
  also have "newHttpRequest\<lparr>req_method := req_method rq, path := path rq, query := query rq,
        version := if version rq = kHttp11 then kHttp11 else kHttp10\<rparr> = rq\<lparr>receiveTime := 0, headers := []\<rparr>"
    using v by (cases rq) (auto simp: newHttpRequest_def)
  finally show ?thesis .
qed


lemma drop_trailing_id: "s = [] \<or> \<not> isspace (last s) \<Longrightarrow> drop_trailing s = s"
  by (subst drop_trailing.simps) auto

lemma addHeader_line:
  assumes "valid_header kv"
  shows "find_char (CHR '':'') (header_line kv) = length (fst kv)"
    and "addHeader (header_line kv) (length (fst kv)) r = r\<lparr>headers := ins_key (fst kv) (snd kv) (headers r)\<rparr>"
proof -
  have line: "header_line kv = fst kv @ CHR '':'' # CHR '' '' # snd kv" by (simp add: header_line_def)
  have "CHR '':'' \<notin> set (fst kv)" using assms by (fastforce simp: valid_header_def list_all_iff)
  then show "find_char (CHR '':'') (header_line kv) = length (fst kv)" unfolding line by (rule find_char_append)
  have "dropWhile isspace (CHR '' '' # snd kv) = snd kv"
    using assms by (cases "snd kv") (simp_all add: valid_header_def isspace_def)
  moreover have "drop_trailing (snd kv) = snd kv" using assms by (intro drop_trailing_id) (auto simp: valid_header_def)
  ultimately show "addHeader (header_line kv) (length (fst kv)) r = r\<lparr>headers := ins_key (fst kv) (snd kv) (headers r)\<rparr>"
    by (simp add: addHeader_def line)
qed

lemma parse_headers_text:
  assumes "list_all valid_header hs"
  shows "parse_headers ctx (concat (map (\<lambda>kv. header_line kv @ [CR, LF]) hs) @ [CR, LF] @ extra)
    = (extra, ctx\<lparr>ctx_state := kGotAll, request := with_headers hs (request ctx)\<rparr>)"
  using assms
proof (induction hs arbitrary: ctx)
  case Nil
  have "cut_line (CR # LF # extra) = Some ([], extra)" using cut_line_plain [of "[]"] by simp
  then show ?case by (subst parse_headers.simps) (simp add: find_char_def with_headers_def)
next
  case (Cons kv hs)
  have kv: "valid_header kv" using Cons.prems by simp
  have "CR \<notin> set (header_line kv)" using kv by (fastforce simp: valid_header_def header_line_def list_all_iff)
  then have cut: "cut_line ((header_line kv @ [CR, LF]) @ u) = Some (header_line kv, u)" for u
    using cut_line_plain by simp
  have "length (fst kv) \<noteq> length (header_line kv)" by (simp add: header_line_def)
  with cut addHeader_line [OF kv] Cons show ?case
    by (subst parse_headers.simps) (simp add: with_headers_def case_prod_beta' del: append.simps)
qed

lemma request_line_plain: "valid_request rq \<Longrightarrow> CR \<notin> set (request_line rq)"
proof -
  assume rq: "valid_request rq"
  then have "CR \<notin> set (path rq)" "CR \<notin> set (query rq)" by (fastforce simp: valid_request_def list_all_iff)+
  moreover have "CR \<notin> set (methodString (req_method rq))" using methodString_plain [of "req_method rq"] rq by (simp add: valid_request_def)
  ultimately show ?thesis by (simp add: request_line_def)
qed

text \<open>The parser inverts the printing of requests.\<close>

lemma parse_request_text:
  assumes "valid_request rq" "list_all valid_header hs"
  shows "parse_text t newHttpContext (request_text rq hs @ extra)
    = Inr (True, extra, \<lparr>ctx_state = kGotAll, request = parsed_request t rq hs\<rparr>)"
proof -
  let ?rest = "concat (map (\<lambda>kv. header_line kv @ [CR, LF]) hs) @ [CR, LF] @ extra"
  have "request_text rq hs @ extra = request_line rq @ CR # LF # ?rest" by (simp add: request_text_def)
  then have "cut_line (request_text rq hs @ extra) = Some (request_line rq, ?rest)"
    using cut_line_plain [OF request_line_plain [OF assms(1)]] by simp
  then show ?thesis
    by (simp only: parse_text_def newHttpContext_def option.case prod.case http_context.simps processRequestLine_text [OF assms(1)]
        rbind_Inr parse_headers_text [OF assms(2)] if_True parsed_request_def simp_thms http_request.simps) (cases rq, simp)
qed

section \<open>The text of a response\<close>

definition response_text :: "http_response \<Rightarrow> string" where
  "response_text resp =
     ''HTTP/1.1 '' @ show_int (statusCode resp) @ '' '' @ statusMessage resp @ [CR, LF]
     @ (if closeConnection resp then ''Connection: close'' @ [CR, LF]
        else ''Content-Length: '' @ show_nat (length (body resp)) @ [CR, LF] @ ''Connection: Keep-Alive'' @ [CR, LF])
     @ concat (map (\<lambda>kv. header_line kv @ [CR, LF]) (res_headers resp)) @ [CR, LF] @ body resp"

definition valid_response :: "http_response \<Rightarrow> bool" where
  "valid_response resp \<longleftrightarrow> 0 \<le> statusCode resp \<and> statusCode resp < 1000 \<and> length (statusMessage resp) < 2 ^ 31
     \<and> length (body resp) < 2 ^ 31 \<and> list_all (\<lambda>(k, v). length k < 2 ^ 31 \<and> length v < 2 ^ 31) (res_headers resp)"

lemma append_pieces_short:
  assumes "wf_buffer b" "list_all (\<lambda>s. length s < 2 ^ 31) ss"
  shows "\<exists>b'. append_pieces ss b = Inr b' \<and> wf_buffer b' \<and> contents b' = contents b @ concat ss"
  using assms
proof (induction ss arbitrary: b)
  case (Cons s ss)
  then obtain b1 where "append_piece (piece s) b = Inr b1" "wf_buffer b1" "contents b1 = contents b @ s"
    using append_piece_short [of b s] by auto
  with Cons.IH [of b1] Cons.prems(2) show ?case by auto
qed simp

lemma append_headers_short:
  assumes "wf_buffer b" "list_all (\<lambda>(k, v). length k < 2 ^ 31 \<and> length v < 2 ^ 31) hs"
  shows "\<exists>b'. append_headers hs b = Inr b' \<and> wf_buffer b'
    \<and> contents b' = contents b @ concat (map (\<lambda>kv. header_line kv @ [CR, LF]) hs)"
  using assms
proof (induction hs arbitrary: b)
  case (Cons kv hs)
  obtain k v where kv: "kv = (k, v)" by (cases kv)
  then obtain b1 where "append_pieces [k, '': '', v, [CR, LF]] b = Inr b1" "wf_buffer b1"
      "contents b1 = contents b @ header_line kv @ [CR, LF]"
    using append_pieces_short [OF Cons.prems(1), of "[k, '': '', v, [CR, LF]]"] Cons.prems(2) by (auto simp: header_line_def)
  with Cons.IH [of b1] Cons.prems(2) kv show ?case by (auto simp del: append_pieces.simps)
qed simp

lemma appendToBuffer_text:
  assumes "wf_buffer b" "valid_response resp"
  shows "\<exists>b'. appendToBuffer resp b = Inr b' \<and> wf_buffer b' \<and> contents b' = contents b @ response_text resp"
proof -
  let ?first = "[take 31 (''HTTP/1.1 '' @ show_int (statusCode resp) @ '' ''), statusMessage resp, [CR, LF]]"
  let ?second = "if closeConnection resp then [''Connection: close'' @ [CR, LF]]
    else [take 31 (''Content-Length: '' @ show_nat (length (body resp)) @ [CR, LF]), ''Connection: Keep-Alive'' @ [CR, LF]]"
  have code: "length (show_int (statusCode resp)) \<le> 3" and len: "length (show_nat (length (body resp))) \<le> 10"
    using assms(2) length_show_nat [of "nat (statusCode resp)" 3] length_show_nat [of "length (body resp)" 10]
    by (simp_all add: valid_response_def show_int_def nat_less_iff)
  have t1: "take 31 (''HTTP/1.1 '' @ show_int (statusCode resp) @ '' '') = ''HTTP/1.1 '' @ show_int (statusCode resp) @ '' ''"
    using code by simp
  have t2: "take 31 (''Content-Length: '' @ show_nat (length (body resp)) @ [CR, LF])
      = ''Content-Length: '' @ show_nat (length (body resp)) @ [CR, LF]"
    using len by simp
  obtain b1 where b1: "append_pieces ?first b = Inr b1" "wf_buffer b1" "contents b1 = contents b @ concat ?first"
    using append_pieces_short [OF assms(1), of ?first] assms(2) code t1 by (auto simp: valid_response_def)
  have "list_all (\<lambda>s. length s < 2 ^ 31) ?second" using len by simp
  from append_pieces_short [OF b1(2) this]
  obtain b2 where b2: "append_pieces ?second b1 = Inr b2" "wf_buffer b2" "contents b2 = contents b1 @ concat ?second" by blast
  obtain b3 where b3: "append_headers (res_headers resp) b2 = Inr b3" "wf_buffer b3"
      "contents b3 = contents b2 @ concat (map (\<lambda>kv. header_line kv @ [CR, LF]) (res_headers resp))"
    using append_headers_short [OF b2(2)] assms(2) unfolding valid_response_def by blast
  obtain b4 where b4: "append_pieces [[CR, LF], body resp] b3 = Inr b4" "wf_buffer b4" "contents b4 = contents b3 @ [CR, LF] @ body resp"
    using append_pieces_short [OF b3(2), of "[[CR, LF], body resp]"] assms(2) by (auto simp: valid_response_def)
  have step2: "(if closeConnection resp then append_pieces [''Connection: close'' @ [CR, LF]] b1
      else append_pieces [take 31 (''Content-Length: '' @ show_nat (length (body resp)) @ [CR, LF]),
                          ''Connection: Keep-Alive'' @ [CR, LF]] b1) = append_pieces ?second b1"
    by simp
  have "appendToBuffer resp b = Inr b4"
    unfolding appendToBuffer_def b1(1) rbind_Inr step2 b2(1) b3(1) by (rule b4(1))
  moreover have "contents b4 = contents b @ response_text resp"
    unfolding b4(3) b3(3) b2(3) b1(3) t1 t2 response_text_def by simp
  ultimately show ?thesis using b4(2) by blast
qed

end
