(* ===== verification/HttpServer.thy ===== *)
theory HttpServer
  imports Http TcpConnection
begin

text \<open>
  The HTTP server (\<open>muduo/net/http/HttpServer.h\<close>, \<open>HttpServer.cc\<close>) on top of TCP connections. A connection carries the
  context of its parser. The user's callback is a parameter, the response it makes of the one it is given.
  Data arrives as \<open>TcpConnection::handleRead\<close> delivers it: the bytes are appended to the input buffer and the message
  callback runs, in the loop thread.
\<close>

section \<open>The callbacks\<close>

record http_conn =
  hc_conn :: tcp_conn
  hc_context :: http_context

type_synonym http_callback = "http_request \<Rightarrow> http_response \<Rightarrow> http_response"

definition defaultHttpCallback :: http_callback where
  "defaultHttpCallback req resp = resp\<lparr>statusCode := 404, statusMessage := ''Not Found'', closeConnection := True\<rparr>"

definition http_onConnection :: "http_conn \<Rightarrow> http_conn" where
  "http_onConnection h = (if connected (hc_conn h) then h\<lparr>hc_context := newHttpContext\<rparr> else h)"

definition close_wanted :: "http_request \<Rightarrow> bool" where
  "close_wanted req \<longleftrightarrow> getHeader ''Connection'' req = ''close''
     \<or> version req = kHttp10 \<and> getHeader ''Connection'' req \<noteq> ''Keep-Alive''"

definition http_onRequest :: "writer \<Rightarrow> http_callback \<Rightarrow> http_request \<Rightarrow> tcp_conn \<Rightarrow> tcp_conn res" where
  "http_onRequest wr cb req c =
     (let response = cb req (newHttpResponse (close_wanted req))
      in rbind (appendToBuffer response (newBuffer kInitialSize)) (\<lambda>buf.
         rbind (send_buffer wr True buf c) (\<lambda>(buf', c1).
         Inr (if closeConnection response then shutdown True c1 else c1))))"

definition bad_request_text :: string where
  "bad_request_text = ''HTTP/1.1 400 Bad Request'' @ [CR, LF, CR, LF]"

definition http_onMessage :: "writer \<Rightarrow> http_callback \<Rightarrow> int \<Rightarrow> http_conn \<Rightarrow> http_conn run" where
  "http_onMessage wr cb t h =
     (case parseRequest t (inputBuffer (hc_conn h)) (hc_context h) of
        None \<Rightarrow> None
      | Some (Inl e) \<Rightarrow> Some (Inl e)
      | Some (Inr (ok, buf, ctx)) \<Rightarrow> Some (
          let c = (hc_conn h)\<lparr>inputBuffer := buf\<rparr>
          in rbind (if \<not> ok then rbind (send wr True bad_request_text c) (\<lambda>c1. Inr (shutdown True c1)) else Inr c) (\<lambda>c1.
             if gotAll ctx
             then rbind (http_onRequest wr cb (request ctx) c1) (\<lambda>c2. Inr \<lparr>hc_conn = c2, hc_context = ctx_reset ctx\<rparr>)
             else Inr \<lparr>hc_conn = c1, hc_context = ctx\<rparr>)))"

definition http_read :: "writer \<Rightarrow> http_callback \<Rightarrow> int \<Rightarrow> string \<Rightarrow> http_conn \<Rightarrow> http_conn run" where
  "http_read wr cb t chunk h =
     (case buf_append chunk (inputBuffer (hc_conn h)) of
        Inl e \<Rightarrow> Some (Inl e)
      | Inr b \<Rightarrow> http_onMessage wr cb t (h\<lparr>hc_conn := (hc_conn h)\<lparr>inputBuffer := b\<rparr>\<rparr>))"

fun http_feed :: "writer \<Rightarrow> http_callback \<Rightarrow> (int \<times> string) list \<Rightarrow> http_conn \<Rightarrow> http_conn run" where
  "http_feed wr cb [] h = Some (Inr h)"
| "http_feed wr cb ((t, chunk) # cs) h = obind (http_read wr cb t chunk h) (http_feed wr cb cs)"

section \<open>Answering\<close>

lemma onRequest_answer:
  assumes "conn_inv c" "writer_ok wr" "pipe_open wr" "state c = kConnected"
    and resp: "valid_response resp" "resp = cb req (newHttpResponse (close_wanted req))"
  shows "\<exists>c'. http_onRequest wr cb req c = Inr c' \<and> conn_inv c' \<and> stream c' = stream c @ response_text resp
    \<and> inputBuffer c' = inputBuffer c \<and> state c' = (if closeConnection resp then kDisconnecting else kConnected)"
proof -
  obtain buf where buf: "appendToBuffer resp (newBuffer kInitialSize) = Inr buf" "contents buf = response_text resp"
    using appendToBuffer_text [OF wf_newBuffer resp(1), of kInitialSize] by auto
  obtain c' where "sendInLoop wr (contents buf) c = Inr c'" "conn_inv c'" "state c' = kConnected"
      "stream c' = stream c @ contents buf" "inputBuffer c' = inputBuffer c"
    using sendInLoop_answer [OF assms(1-4)] by blast
  with buf assms(4) shutdown_inv [of c' True] shutdown_frame [where b = True and c = c'] show ?thesis
    unfolding http_onRequest_def Let_def resp(2) [symmetric] by (simp add: send_buffer_def)
qed

section \<open>Requests in pieces\<close>

text \<open>The connection after a message callback that did not complete a request.\<close>

lemma http_read_waits:
  assumes "conn_inv (hc_conn h)" "ctx_state (hc_context h) \<in> {kExpectRequestLine, kExpectHeaders}"
    and "parse_text t (hc_context h) (contents (inputBuffer (hc_conn h)) @ chunk) = Inr (True, r, ctx)" "\<not> gotAll ctx"
  shows "\<exists>b. http_read wr cb t chunk h = Some (Inr \<lparr>hc_conn = (hc_conn h)\<lparr>inputBuffer := b\<rparr>, hc_context = ctx\<rparr>)
    \<and> wf_buffer b \<and> contents b = r"
proof -
  obtain b where b: "buf_append chunk (inputBuffer (hc_conn h)) = Inr b" "wf_buffer b"
      "contents b = contents (inputBuffer (hc_conn h)) @ chunk"
    using buf_append_spec assms(1) by (auto simp: conn_inv_def)
  from parseRequest_text [OF b(2) assms(2), of t] assms(3) b(3)
  obtain b' where "parseRequest t b (hc_context h) = Some (Inr (True, b', ctx))" "wf_buffer b'" "contents b' = r" by auto
  with b assms(4) show ?thesis by (intro exI [of _ b']) (simp add: http_read_def http_onMessage_def)
qed

lemma http_read_completes:
  assumes "conn_inv (hc_conn h)" "ctx_state (hc_context h) \<in> {kExpectRequestLine, kExpectHeaders}"
    and "parse_text t (hc_context h) (contents (inputBuffer (hc_conn h)) @ chunk) = Inr (True, r, ctx)" "gotAll ctx"
    and "writer_ok wr" "pipe_open wr" "state (hc_conn h) = kConnected"
    and resp: "valid_response resp" "resp = cb (request ctx) (newHttpResponse (close_wanted (request ctx)))"
  shows "\<exists>c'. http_read wr cb t chunk h = Some (Inr \<lparr>hc_conn = c', hc_context = newHttpContext\<rparr>)
    \<and> conn_inv c' \<and> stream c' = stream (hc_conn h) @ response_text resp \<and> contents (inputBuffer c') = r
    \<and> state c' = (if closeConnection resp then kDisconnecting else kConnected)"
proof -
  obtain b where b: "buf_append chunk (inputBuffer (hc_conn h)) = Inr b" "wf_buffer b"
      "contents b = contents (inputBuffer (hc_conn h)) @ chunk"
    using buf_append_spec assms(1) by (auto simp: conn_inv_def)
  from parseRequest_text [OF b(2) assms(2), of t] assms(3) b(3)
  obtain b' where b': "parseRequest t b (hc_context h) = Some (Inr (True, b', ctx))" "wf_buffer b'" "contents b' = r" by auto
  let ?c = "(hc_conn h)\<lparr>inputBuffer := b'\<rparr>"
  have "conn_inv ?c" "state ?c = kConnected" using inputBuffer_inv [OF assms(1) b'(2)] assms(7) by simp_all
  from onRequest_answer [where cb = cb and req = "request ctx", OF this(1) assms(5,6) this(2) resp]
  obtain c' where "http_onRequest wr cb (request ctx) ?c = Inr c'" "conn_inv c'" "stream c' = stream ?c @ response_text resp"
    "inputBuffer c' = b'" "state c' = (if closeConnection resp then kDisconnecting else kConnected)" by auto
  with b b' assms(4) show ?thesis
    by (simp add: http_read_def http_onMessage_def ctx_reset_def newHttpContext_def stream_def)
qed


text \<open>
  The induction over the pieces: \<open>T\<close> holds the times of the pieces before, \<open>w\<close> the text still to come after them, \<open>F t\<close> the request
  when its first line is complete at time \<open>t\<close>.
\<close>

lemma http_feed_step:
  assumes "ctx_state ctx \<in> {kExpectRequestLine, kExpectHeaders}" "length extra < length w"
    and F: "\<forall>t. \<exists>t0 \<in> insert t T. parse_text t ctx (r @ u @ w) = Inr (True, extra, \<lparr>ctx_state = kGotAll, request = F t0\<rparr>)"
  shows "\<exists>r' ctx'. parse_text t1 ctx (r @ u) = Inr (True, r', ctx') \<and> \<not> gotAll ctx'
    \<and> ctx_state ctx' \<in> {kExpectRequestLine, kExpectHeaders}
    \<and> (\<forall>t. \<exists>t0 \<in> insert t (insert t1 T). parse_text t ctx' (r' @ w) = Inr (True, extra, \<lparr>ctx_state = kGotAll, request = F t0\<rparr>))"
proof -
  obtain t0 where t0: "t0 \<in> insert t1 T"
      "parse_text t1 ctx ((r @ u) @ w) = Inr (True, extra, \<lparr>ctx_state = kGotAll, request = F t0\<rparr>)"
    using F [rule_format, of t1] by auto
  note app = parse_text_append [OF assms(1), of t1 "r @ u" w, unfolded t0(2)]
  obtain ok r' ctx' where p: "parse_text t1 ctx (r @ u) = Inr (ok, r', ctx')"
    using app by (cases "parse_text t1 ctx (r @ u)") auto
  have go: "ok \<and> \<not> gotAll ctx'"
  proof (rule ccontr)
    assume "\<not> ?thesis"
    with app p have "extra = r' @ w" by (auto split: if_splits)
    with assms(2) show False by simp
  qed
  with p app have next_text: "parse_text t1 ctx' (r' @ w) = Inr (True, extra, \<lparr>ctx_state = kGotAll, request = F t0\<rparr>)" by simp
  consider "ctx_state ctx' = kExpectHeaders" | "ctx_state ctx = kExpectRequestLine" "ctx' = ctx" "r' = r @ u"
    using parse_text_state [OF assms(1), of t1 "r @ u" r' ctx'] p go by auto
  then show ?thesis
  proof cases
    case 1
    then have "parse_text t ctx' (r' @ w) = Inr (True, extra, \<lparr>ctx_state = kGotAll, request = F t0\<rparr>)" for t
      using next_text parse_text_time [OF 1, of t _ t1] by simp
    with 1 p go t0(1) show ?thesis by auto
  next
    case 2
    with p go F show ?thesis by auto
  qed
qed

lemma http_feed_pieces:
  assumes "conn_inv (hc_conn h)" "state (hc_conn h) = kConnected" "writer_ok wr" "pipe_open wr"
    and "ctx_state (hc_context h) \<in> {kExpectRequestLine, kExpectHeaders}" "v \<noteq> []"
    and "\<forall>t. \<exists>t0 \<in> insert t T. parse_text t (hc_context h)
           (contents (inputBuffer (hc_conn h)) @ concat (map snd cs) @ v @ extra)
         = Inr (True, extra, \<lparr>ctx_state = kGotAll, request = F t0\<rparr>)"
    and resp: "\<And>t. valid_response (R t)" "\<And>t. R t = cb (F t) (newHttpResponse (close_wanted (F t)))"
  shows "\<exists>t0 \<in> insert te (T \<union> set (map fst cs)). \<exists>c'.
      http_feed wr cb (cs @ [(te, v @ extra)]) h = Some (Inr \<lparr>hc_conn = c', hc_context = newHttpContext\<rparr>)
    \<and> conn_inv c' \<and> stream c' = stream (hc_conn h) @ response_text (R t0) \<and> contents (inputBuffer c') = extra
    \<and> state c' = (if closeConnection (R t0) then kDisconnecting else kConnected)"
  using assms(1,2,5,7)
proof (induction cs arbitrary: h T)
  case Nil
  from Nil(4) obtain t0 where t0: "t0 \<in> insert te T" "parse_text te (hc_context h) (contents (inputBuffer (hc_conn h)) @ v @ extra)
      = Inr (True, extra, \<lparr>ctx_state = kGotAll, request = F t0\<rparr>)" by auto
  from http_read_completes [where resp = "R t0" and cb = cb, OF Nil(1,3) t0(2) _ assms(3,4) Nil(2)] resp t0(1) show ?case
    by (fastforce simp: gotAll_def)
next
  case (Cons tu cs)
  obtain t1 u where tu: "tu = (t1, u)" by (cases tu)
  let ?w = "concat (map snd cs) @ v @ extra"
  have "length extra < length ?w" using assms(6) by (cases v) simp_all
  from http_feed_step [OF Cons(4) this, of T "contents (inputBuffer (hc_conn h))" u F t1] Cons(5) tu
  obtain r' ctx' where p: "parse_text t1 (hc_context h) (contents (inputBuffer (hc_conn h)) @ u) = Inr (True, r', ctx')" "\<not> gotAll ctx'"
      "ctx_state ctx' \<in> {kExpectRequestLine, kExpectHeaders}"
      "\<forall>t. \<exists>t0 \<in> insert t (insert t1 T). parse_text t ctx' (r' @ ?w) = Inr (True, extra, \<lparr>ctx_state = kGotAll, request = F t0\<rparr>)"
    by auto
  from http_read_waits [OF Cons(2,4) p(1,2)] obtain b where
    b: "http_read wr cb t1 u h = Some (Inr \<lparr>hc_conn = (hc_conn h)\<lparr>inputBuffer := b\<rparr>, hc_context = ctx'\<rparr>)"
      "wf_buffer b" "contents b = r'" by blast
  let ?h = "\<lparr>hc_conn = (hc_conn h)\<lparr>inputBuffer := b\<rparr>, hc_context = ctx'\<rparr>"
  from Cons.IH [of ?h "insert t1 T"] inputBuffer_inv [OF Cons(2) b(2)] Cons(3) p(3,4) b(1,3) tu
  show ?case by (auto simp: stream_def)
qed

text \<open>
  C16. HTTP. However a request is cut into pieces, its last byte makes the server answer it, once, with the response of
  the callback to exactly this request: its method, target, version and headers, and the time of one of the pieces. The connection is closed
  exactly when the response says so, and the parser starts anew. What follows the request in the last piece stays in the input buffer, even when it holds further complete
  requests: they are not looked at before more data arrives.
\<close>

theorem http_answers:
  assumes "conn_inv c" "state c = kConnected" "contents (inputBuffer c) = []" "writer_ok wr" "pipe_open wr"
    and "valid_request rq" "list_all valid_header hs" "v \<noteq> []" "concat (map snd cs) @ v = request_text rq hs"
    and "\<And>t. valid_response (cb (parsed_request t rq hs) (newHttpResponse (close_wanted (parsed_request t rq hs))))"
  shows "\<exists>t c'. t \<in> insert te (set (map fst cs))
    \<and> http_feed wr cb (cs @ [(te, v @ extra)]) \<lparr>hc_conn = c, hc_context = newHttpContext\<rparr>
        = Some (Inr \<lparr>hc_conn = c', hc_context = newHttpContext\<rparr>)
    \<and> conn_inv c' \<and> contents (inputBuffer c') = extra
    \<and> (let resp = cb (parsed_request t rq hs) (newHttpResponse (close_wanted (parsed_request t rq hs)))
       in stream c' = stream c @ response_text resp
        \<and> state c' = (if closeConnection resp then kDisconnecting else kConnected))"
proof -
  let ?h = "\<lparr>hc_conn = c, hc_context = newHttpContext\<rparr>"
  let ?F = "\<lambda>t. parsed_request t rq hs"
  let ?R = "\<lambda>t. cb (?F t) (newHttpResponse (close_wanted (?F t)))"
  have whole: "contents (inputBuffer c) @ concat (map snd cs) @ v @ extra = request_text rq hs @ extra"
    using assms(3,9) by (metis append.left_neutral append.assoc)
  have F: "\<forall>t. \<exists>t0 \<in> insert t {}. parse_text t (hc_context ?h) (contents (inputBuffer (hc_conn ?h)) @ concat (map snd cs) @ v @ extra)
      = Inr (True, extra, \<lparr>ctx_state = kGotAll, request = ?F t0\<rparr>)"
    using parse_request_text [OF assms(6,7), of _ extra, folded whole] by simp
  have ready: "conn_inv (hc_conn ?h)" "state (hc_conn ?h) = kConnected" "ctx_state (hc_context ?h) \<in> {kExpectRequestLine, kExpectHeaders}"
    using assms(1,2) by (simp_all add: newHttpContext_def)
  from http_feed_pieces [where cb = cb and R = ?R, OF ready(1,2) assms(4,5) ready(3) assms(8) F assms(10) refl, of te]
  show ?thesis unfolding Let_def by auto
qed

definition sample_request :: http_request where
  "sample_request = newHttpRequest\<lparr>req_method := kGet, version := kHttp10, path := ''/x'', query := ''?a''\<rparr>"

theorem http_answers_witness:
  "\<exists>t c'. http_feed two_bytes defaultHttpCallback [(1, ''GET /x''), (2, ''?a HTTP/1.0'' @ [CR, LF]), (3, ''Host: h'' @ [CR, LF, CR, LF] @ ''GET'')]
      \<lparr>hc_conn = open_conn, hc_context = newHttpContext\<rparr> = Some (Inr \<lparr>hc_conn = c', hc_context = newHttpContext\<rparr>)
    \<and> contents (inputBuffer c') = ''GET'' \<and> state c' = kDisconnecting \<and> t \<in> {1, 2, 3 :: int}"
proof -
  have "valid_request sample_request" "list_all valid_header [(''Host'', ''h'')]"
    by (simp_all add: sample_request_def newHttpRequest_def valid_request_def valid_header_def isspace_def)
  moreover have "pipe_open two_bytes" by (simp add: pipe_open_def two_bytes_def)
  moreover have "valid_response (defaultHttpCallback (parsed_request t sample_request [(''Host'', ''h'')])
      (newHttpResponse (close_wanted (parsed_request t sample_request [(''Host'', ''h'')]))))" for t
    by (simp add: valid_response_def defaultHttpCallback_def newHttpResponse_def)
  moreover have "concat (map snd [(1, ''GET /x''), (2, ''?a HTTP/1.0'' @ [CR, LF])]) @ ''Host: h'' @ [CR, LF, CR, LF]
      = request_text sample_request [(''Host'', ''h'')]"
    by (simp add: request_text_def request_line_def header_line_def sample_request_def newHttpRequest_def)
  ultimately show ?thesis
    using http_answers [of open_conn two_bytes sample_request "[(''Host'', ''h'')]" "''Host: h'' @ [CR, LF, CR, LF]"
        "[(1, ''GET /x''), (2, ''?a HTTP/1.0'' @ [CR, LF])]" defaultHttpCallback 3 "''GET''"] open_conn_inv two_bytes_ok
    by (auto simp: open_conn_def newTcpConnection_def Let_def defaultHttpCallback_def)
qed


section \<open>Bad requests\<close>

lemma send_frame: "send wr b m c = Inr c' \<Longrightarrow> inputBuffer c' = inputBuffer c"
  by (auto simp: send_def conn_queue_def split: if_splits dest: sendInLoop_input)

lemma second_line:
  assumes "processRequestLine l newHttpRequest = Inr (False, r)" "req_method r \<noteq> kInvalid" "req_method q \<noteq> kInvalid"
  shows "processRequestLine l q = Inl AssertFail"
proof -
  have "find_char (CHR '' '') l \<noteq> length l"
    using assms(1,2) by (auto simp: processRequestLine_def newHttpRequest_def)
  with assms(3) show ?thesis by (simp add: processRequestLine_def setMethod_def)
qed

text \<open>
  C39. A request line with a known method that is not well-formed (another version of the protocol, for example) is answered with
  the status 400 and the write side is shut down, but the line stays in the buffer and the method in the request. The next bytes the
  peer sends make the server abort: the line is parsed again, and \<open>setMethod\<close> asserts that there is no method yet.
\<close>

theorem http_bad_line_aborts:
  assumes "conn_inv c" "state c = kConnected" "writer_ok wr" "pipe_open wr"
    and "contents (inputBuffer c) @ chunk = l @ CR # LF # extra" "CR \<notin> set l"
    and "processRequestLine l newHttpRequest = Inr (False, r)" "req_method r \<noteq> kInvalid"
  shows "\<exists>h. http_read wr cb t chunk \<lparr>hc_conn = c, hc_context = newHttpContext\<rparr> = Some (Inr h)
    \<and> stream (hc_conn h) = stream c @ bad_request_text \<and> state (hc_conn h) = kDisconnecting
    \<and> (\<forall>t2 chunk2. http_read wr cb t2 chunk2 h = Some (Inl AssertFail))"
proof -
  obtain b where b: "buf_append chunk (inputBuffer c) = Inr b" "wf_buffer b" "contents b = l @ CR # LF # extra"
    using buf_append_spec [of "inputBuffer c" chunk] assms(1,5) by (auto simp: conn_inv_def)
  let ?ctx = "\<lparr>ctx_state = kExpectRequestLine, request = r\<rparr>"
  have first: "parse_text t newHttpContext (contents b) = Inr (False, contents b, ?ctx)"
    using cut_line_plain [OF assms(6), of extra] b(3) assms(7) by (simp add: parse_text_def newHttpContext_def)
  from parseRequest_text [OF b(2), of newHttpContext t] this obtain b1 where
    b1: "parseRequest t b newHttpContext = Some (Inr (False, b1, ?ctx))" "wf_buffer b1" "contents b1 = contents b"
    by (auto simp: newHttpContext_def)
  let ?c = "c\<lparr>inputBuffer := b1\<rparr>"
  obtain c1 where c1: "sendInLoop wr bad_request_text ?c = Inr c1" "conn_inv c1" "state c1 = kConnected"
      "stream c1 = stream ?c @ bad_request_text" "inputBuffer c1 = b1"
    using sendInLoop_answer [OF inputBuffer_inv [OF assms(1) b1(2)] assms(3,4)] assms(2) by auto
  let ?h = "\<lparr>hc_conn = shutdown True c1, hc_context = ?ctx\<rparr>"
  have run: "http_read wr cb t chunk \<lparr>hc_conn = c, hc_context = newHttpContext\<rparr> = Some (Inr ?h)"
    using b(1) b1(1) c1(1) assms(2) by (simp add: http_read_def http_onMessage_def send_def gotAll_def)
  have again: "http_read wr cb t2 chunk2 ?h = Some (Inl AssertFail)" for t2 chunk2
  proof -
    obtain b2 where b2: "buf_append chunk2 b1 = Inr b2" "wf_buffer b2" "contents b2 = l @ CR # LF # extra @ chunk2"
      using buf_append_spec [OF b1(2), of chunk2] b1(3) b(3) by auto
    have "parse_text t2 ?ctx (contents b2) = Inl AssertFail"
      using cut_line_plain [OF assms(6)] b2(3) second_line [OF assms(7,8,8)] by (simp add: parse_text_def)
    from parseRequest_text [OF b2(2), of ?ctx t2] this b2(1) c1(5) show ?thesis
      by (simp add: http_read_def http_onMessage_def shutdown_frame)
  qed
  have "stream (shutdown True c1) = stream c @ bad_request_text" using c1(4) by (simp add: shutdown_frame) (simp add: stream_def)
  with run again c1(3) show ?thesis by (intro exI [of _ ?h]) (simp add: shutdown_frame)
qed

theorem http_bad_line_aborts_witness:
  "\<exists>h. http_read two_bytes defaultHttpCallback 1 (''GET / HTTP/2.0'' @ [CR, LF]) \<lparr>hc_conn = open_conn, hc_context = newHttpContext\<rparr> = Some (Inr h)
    \<and> (\<forall>t2 chunk2. http_read two_bytes defaultHttpCallback t2 chunk2 h = Some (Inl AssertFail))"
proof -
  have "processRequestLine ''GET / HTTP/2.0'' newHttpRequest = Inr (False, newHttpRequest\<lparr>req_method := kGet, path := ''/''\<rparr>)"
    by code_simp
  moreover have "pipe_open two_bytes" by (simp add: pipe_open_def two_bytes_def)
  ultimately show ?thesis
    using http_bad_line_aborts [of open_conn two_bytes "''GET / HTTP/2.0'' @ [CR, LF]" "''GET / HTTP/2.0''" "[]"
        "newHttpRequest\<lparr>req_method := kGet, path := ''/''\<rparr>" defaultHttpCallback 1] open_conn_inv two_bytes_ok
    by (auto simp: open_conn_def newTcpConnection_def newHttpRequest_def)
qed

end
