(* ===== verification/ProtobufCodec.thy ===== *)
theory ProtobufCodec
  imports Framing TcpConnection
begin

text \<open>
  The codec of protocol buffers (\<open>muduo/net/protobuf/ProtobufCodecLite.h\<close>, \<open>ProtobufCodecLite.cc\<close>): a message travels as its
  length, a tag, the serialised message and a checksum. The library of protocol buffers and the checksum of
  zlib are parameters (\<open>protobuf\<close>), as are the callbacks (\<open>codec_user\<close>), on a state \<open>'s\<close> of the user.
\<close>

section \<open>Sending\<close>

record 'm protobuf =
  byte_size :: "'m \<Rightarrow> nat"
  serialize :: "'m \<Rightarrow> string"
  parse_array :: "string \<Rightarrow> 'm option"
  adler32 :: "string \<Rightarrow> i32"

definition kHeaderLen :: nat where "kHeaderLen = 4"
definition kChecksumLen :: nat where "kChecksumLen = 4"
definition kMaxMessageLen :: int where "kMaxMessageLen = 64 * 1024 * 1024"

definition kMinMessageLen :: "string \<Rightarrow> nat" where
  "kMinMessageLen tag = length tag + kChecksumLen"

datatype codec_error = kNoError | kInvalidLength | kCheckSumError | kInvalidNameLen | kUnknownMessageType | kParseError

fun errorCodeToString :: "codec_error \<Rightarrow> string" where
  "errorCodeToString kNoError = ''NoError''"
| "errorCodeToString kInvalidLength = ''InvalidLength''"
| "errorCodeToString kCheckSumError = ''CheckSumError''"
| "errorCodeToString kInvalidNameLen = ''InvalidNameLen''"
| "errorCodeToString kUnknownMessageType = ''UnknownMessageType''"
| "errorCodeToString kParseError = ''ParseError''"

text \<open>\<open>checksum\<close> gives the length as \<open>int\<close>, which \<open>adler32\<close> takes as an unsigned number.\<close>

definition checksum :: "'m protobuf \<Rightarrow> string \<Rightarrow> i32" where
  "checksum P buf = adler32 P (take (unat (word_of_nat (length buf) :: i32)) buf)"

text \<open>\<open>ByteSizeConsistencyError\<close> is a fatal log entry of the library.\<close>

definition serializeToBuffer :: "'m protobuf \<Rightarrow> 'm \<Rightarrow> buffer \<Rightarrow> (nat \<times> buffer) res" where
  "serializeToBuffer P message buf =
     rbind (ensureWritableBytes (byte_size P message + kChecksumLen) buf) (\<lambda>b1.
     let b2 = b1\<lparr>bytes := write_at (writerIndex b1) (serialize P message) (bytes b1)\<rparr>
     in if length (serialize P message) \<noteq> byte_size P message then Inl Fatal
        else rbind (hasWritten (byte_size P message) b2) (\<lambda>b3. Inr (byte_size P message, b3)))"

definition fillEmptyBuffer :: "'m protobuf \<Rightarrow> string \<Rightarrow> 'm \<Rightarrow> buffer \<Rightarrow> buffer res" where
  "fillEmptyBuffer P tag message buf =
     c_assert (readableBytes buf = 0)
     (rbind (append_piece (piece tag) buf) (\<lambda>b1.
      rbind (serializeToBuffer P message b1) (\<lambda>(size, b2).
      rbind (appendInt32 (checksum P (contents b2)) b2) (\<lambda>b3.
      c_assert (readableBytes b3 = length tag + size + kChecksumLen)
        (prepend (word_bytes (hostToNetwork32 (word_of_nat (readableBytes b3)))) b3)))))"

definition codec_send :: "writer \<Rightarrow> 'm protobuf \<Rightarrow> string \<Rightarrow> 'm \<Rightarrow> tcp_conn \<Rightarrow> tcp_conn res" where
  "codec_send wr P tag message c =
     rbind (fillEmptyBuffer P tag message (newBuffer kInitialSize)) (\<lambda>buf.
     rbind (send_buffer wr True buf c) (\<lambda>(_, c1). Inr c1))"

section \<open>Receiving\<close>

definition asInt32 :: "string \<Rightarrow> i32" where
  "asInt32 buf = networkToHost32 (bytes_word (take 4 buf))"

definition validateChecksum :: "'m protobuf \<Rightarrow> string \<Rightarrow> bool" where
  "validateChecksum P buf =
     (let body_len = length buf - kChecksumLen
      in checksum P (take body_len buf) = asInt32 (drop body_len buf))"

text \<open>\<open>parse\<close>: the message, or the error.\<close>

definition codec_parse :: "'m protobuf \<Rightarrow> string \<Rightarrow> string \<Rightarrow> codec_error + 'm" where
  "codec_parse P tag buf =
     (if validateChecksum P buf
      then if take (length tag) buf = tag
           then case parse_array P (take (length buf - kChecksumLen - length tag) (drop (length tag) buf)) of
                  Some m \<Rightarrow> Inr m
                | None \<Rightarrow> Inl kParseError
           else Inl kUnknownMessageType
      else Inl kCheckSumError)"

record ('s, 'm) codec_user =
  rawCb :: "('s \<Rightarrow> string \<Rightarrow> bool \<times> 's) option"
  messageCb :: "'s \<Rightarrow> 'm \<Rightarrow> 's"
  errorCb :: "'s \<Rightarrow> buffer \<Rightarrow> codec_error \<Rightarrow> 's \<times> buffer"

definition raw_verdict :: "('s, 'm) codec_user \<Rightarrow> 's \<Rightarrow> string \<Rightarrow> bool \<times> 's" where
  "raw_verdict U s data = (case rawCb U of None \<Rightarrow> (True, s) | Some f \<Rightarrow> f s data)"

text \<open>One pass of the loop of \<open>onMessage\<close>: whether it goes on, the user's state and the buffer.\<close>

definition codec_step ::
  "'m protobuf \<Rightarrow> string \<Rightarrow> ('s, 'm) codec_user \<Rightarrow> 's \<Rightarrow> buffer \<Rightarrow> (bool \<times> 's \<times> buffer) res" where
  "codec_step P tag U s buf =
     (if readableBytes buf \<ge> kMinMessageLen tag + kHeaderLen
      then rbind (peekInt32 buf) (\<lambda>len.
           if sint len > kMaxMessageLen \<or> sint len < int (kMinMessageLen tag)
           then (case errorCb U s buf kInvalidLength of (s1, b1) \<Rightarrow> Inr (False, s1, b1))
           else let n = kHeaderLen + nat (sint len)
                in if readableBytes buf \<ge> n
                   then (case raw_verdict U s (take n (contents buf)) of (wanted, s0) \<Rightarrow>
                     if \<not> wanted then rbind (retrieve n buf) (\<lambda>b1. Inr (True, s0, b1))
                     else (case codec_parse P tag (take (nat (sint len)) (drop kHeaderLen (contents buf))) of
                             Inr m \<Rightarrow> rbind (retrieve n buf) (\<lambda>b1. Inr (True, messageCb U s0 m, b1))
                           | Inl e \<Rightarrow> (case errorCb U s0 buf e of (s1, b1) \<Rightarrow> Inr (False, s1, b1))))
                   else Inr (False, s, buf))
      else Inr (False, s, buf))"

lemma retrieve_less: "retrieve n b = Inr b' \<Longrightarrow> 0 < n \<Longrightarrow> readableBytes b' < readableBytes b"
  by (auto simp: retrieve_def res_simps readableBytes_def retrieveAll_def split: if_splits)

lemma codec_step_less: "codec_step P tag U s buf = Inr (True, s', b') \<Longrightarrow> readableBytes b' < readableBytes buf"
  by (auto simp: codec_step_def Let_def res_simps kHeaderLen_def split: if_splits prod.splits sum.splits dest: retrieve_less)

function codec_onMessage ::
  "'m protobuf \<Rightarrow> string \<Rightarrow> ('s, 'm) codec_user \<Rightarrow> 's \<Rightarrow> buffer \<Rightarrow> ('s \<times> buffer) res" where
  "codec_onMessage P tag U s buf =
     (case codec_step P tag U s buf of
        Inl e \<Rightarrow> Inl e
      | Inr (again, s', b') \<Rightarrow> if again then codec_onMessage P tag U s' b' else Inr (s', b'))"
  by pat_completeness auto
termination
  by (relation "measure (\<lambda>(P, tag, U, s, buf). readableBytes buf)") (auto dest: codec_step_less)

declare codec_onMessage.simps [simp del]

text \<open>The default error callback shuts a connected connection down.\<close>

definition defaultErrorCallback :: "tcp_conn \<Rightarrow> tcp_conn" where
  "defaultErrorCallback c = (if connected c then shutdown True c else c)"


section \<open>The frame of a message\<close>

definition payload :: "'m protobuf \<Rightarrow> string \<Rightarrow> 'm \<Rightarrow> string" where
  "payload P tag m = tag @ serialize P m"

definition codec_frame :: "'m protobuf \<Rightarrow> string \<Rightarrow> 'm \<Rightarrow> string" where
  "codec_frame P tag m =
     rev (word_bytes (word_of_nat (length (payload P tag m) + 4) :: i32)) @ payload P tag m @ rev (word_bytes (adler32 P (payload P tag m)))"

text \<open>What is documented of the library for a message: it writes the bytes it announces, and parses them back.\<close>

definition codec_ok :: "'m protobuf \<Rightarrow> string \<Rightarrow> 'm \<Rightarrow> bool" where
  "codec_ok P tag m \<longleftrightarrow> length (serialize P m) = byte_size P m \<and> parse_array P (serialize P m) = Some m
     \<and> length (payload P tag m) + 4 \<le> 64 * 1024 * 1024"

lemma length_codec_frame: "length (codec_frame P tag m) = length (payload P tag m) + 8"
  by (simp add: codec_frame_def)

lemma checksum_small: "length buf < 2 ^ 31 \<Longrightarrow> checksum P buf = adler32 P buf"
  by (simp add: checksum_def unat_of_nat)

lemma asInt32_be: "asInt32 (rev (word_bytes x)) = x"
  by (simp add: asInt32_def network_defs bswap_def [symmetric] bswap_bswap)

lemma buf_append_reader:
  assumes "kCheapPrepend \<le> readerIndex b"
  shows "ensureWritableBytes n b = Inr b' \<Longrightarrow> kCheapPrepend \<le> readerIndex b'"
    and "buf_append xs b = Inr b'' \<Longrightarrow> kCheapPrepend \<le> readerIndex b''"
proof -
  have e: "ensureWritableBytes n b = Inr c \<Longrightarrow> kCheapPrepend \<le> readerIndex c" for n c
    using assms by (auto simp: ensureWritableBytes_def makeSpace_def res_simps Let_def split: if_splits)
  then show "ensureWritableBytes n b = Inr b' \<Longrightarrow> kCheapPrepend \<le> readerIndex b'" .
  show "buf_append xs b = Inr b'' \<Longrightarrow> kCheapPrepend \<le> readerIndex b''"
    by (auto simp: buf_append_def hasWritten_def res_simps dest!: e)
qed

lemma serializeToBuffer_spec:
  assumes "wf_buffer b" "length (serialize P m) = byte_size P m" "kCheapPrepend \<le> readerIndex b"
  shows "\<exists>b'. serializeToBuffer P m b = Inr (byte_size P m, b') \<and> wf_buffer b' \<and> contents b' = contents b @ serialize P m
    \<and> kCheapPrepend \<le> readerIndex b'"
proof -
  obtain b1 where b1: "ensureWritableBytes (byte_size P m + kChecksumLen) b = Inr b1" "wf_buffer b1" "contents b1 = contents b"
      "byte_size P m + kChecksumLen \<le> writableBytes b1"
    using ensureWritableBytes_spec [OF assms(1)] by blast
  have fits: "length (serialize P m) \<le> writableBytes b1" using b1(4) assms(2) by simp
  have fits': "writerIndex b1 + length (serialize P m) \<le> length (bytes b1)" using fits b1(2) by (auto simp: buffer_sizes)
  have "hasWritten (byte_size P m) (b1\<lparr>bytes := write_at (writerIndex b1) (serialize P m) (bytes b1)\<rparr>)
      = Inr (b1\<lparr>bytes := write_at (writerIndex b1) (serialize P m) (bytes b1), writerIndex := writerIndex b1 + length (serialize P m)\<rparr>)"
    using fits' fits assms(2) by (simp add: hasWritten_def writableBytes_def)
  then show ?thesis
    using write_hasWritten [OF b1(2) fits] b1(1,3) buf_append_reader(1) [OF assms(3) b1(1)] assms(2)
    by (simp add: serializeToBuffer_def Let_def)
qed

lemma fillEmptyBuffer_spec:
  assumes "codec_ok P tag m"
  shows "\<exists>b. fillEmptyBuffer P tag m (newBuffer kInitialSize) = Inr b \<and> wf_buffer b \<and> contents b = codec_frame P tag m"
proof -
  let ?b = "newBuffer kInitialSize"
  have lens: "length (payload P tag m) + 4 < 2 ^ 31" "length tag < 2 ^ 31" "length (serialize P m) = byte_size P m"
    using assms by (auto simp: codec_ok_def payload_def)
  have r0: "kCheapPrepend \<le> readerIndex ?b" by (simp add: newBuffer_def)
  obtain b1 where b1: "append_piece (piece tag) ?b = Inr b1" "wf_buffer b1" "contents b1 = tag"
    using append_piece_short [OF wf_newBuffer lens(2), of kInitialSize] by auto
  have r1: "kCheapPrepend \<le> readerIndex b1"
    using b1(1) buf_append_reader(2) [OF r0] by (auto simp: append_piece_def piece_def split: if_splits)
  obtain b2 where b2: "serializeToBuffer P m b1 = Inr (byte_size P m, b2)" "wf_buffer b2" "contents b2 = payload P tag m"
      "kCheapPrepend \<le> readerIndex b2"
    using serializeToBuffer_spec [OF b1(2) lens(3) r1] b1(3) by (auto simp: payload_def)
  obtain b3 where b3: "appendInt32 (adler32 P (payload P tag m)) b2 = Inr b3" "wf_buffer b3"
      "contents b3 = payload P tag m @ rev (word_bytes (adler32 P (payload P tag m)))"
    using appendInt_specs(2) [OF b2(2)] b2(3) by metis
  have r3: "kCheapPrepend \<le> readerIndex b3"
    using b3(1) buf_append_reader(2) [OF b2(4)] by (simp add: appendInt32_def Let_def)
  have len3: "readableBytes b3 = length (payload P tag m) + 4" using length_contents [OF b3(2)] b3(3) by simp
  let ?len = "word_bytes (hostToNetwork32 (word_of_nat (readableBytes b3)))"
  have "length ?len \<le> prependableBytes b3" using r3 by (simp add: prependableBytes_def kCheapPrepend_def)
  then obtain b4 where b4: "prepend ?len b3 = Inr b4" "wf_buffer b4" "contents b4 = ?len @ contents b3"
    using prepend_spec [OF b3(2)] by blast
  have "checksum P (contents b2) = adler32 P (payload P tag m)" using checksum_small [of "contents b2" P] b2(3) lens(1) by simp
  moreover have "readableBytes b3 = length tag + byte_size P m + kChecksumLen" using len3 lens(3) by (simp add: payload_def kChecksumLen_def)
  moreover have "readableBytes ?b = 0" using newBuffer_asserts by blast
  ultimately have "fillEmptyBuffer P tag m ?b = Inr b4" using b1(1) b2(1) b3(1) b4(1) by (simp add: fillEmptyBuffer_def)
  moreover have "contents b4 = codec_frame P tag m"
    using b4(3) b3(3) len3 by (simp add: codec_frame_def network_defs word_bytes_bswap)
  ultimately show ?thesis using b4(2) by blast
qed


section \<open>The codec is a reader of framed messages\<close>

definition codec_incomplete :: "string \<Rightarrow> string \<Rightarrow> bool" where
  "codec_incomplete tag p \<longleftrightarrow> length p < length tag + 8
     \<or> int (kMinMessageLen tag) \<le> sint (asInt32 p) \<and> sint (asInt32 p) \<le> kMaxMessageLen \<and> length p < 4 + nat (sint (asInt32 p))"

lemma asInt32_take: "4 \<le> length u \<Longrightarrow> asInt32 (u @ v) = asInt32 u"
  by (simp add: asInt32_def)

lemma asInt32_append: "asInt32 (rev (word_bytes (x :: i32)) @ v) = x"
  using asInt32_take [of "rev (word_bytes x)" v] by (simp add: asInt32_be)

lemma codec_incomplete_prefix: "codec_incomplete tag (u @ v) \<Longrightarrow> codec_incomplete tag u"
  using asInt32_take [of u v] by (cases "length u < length tag + 8") (auto simp: codec_incomplete_def)

lemma codec_frame_length:
  assumes "codec_ok P tag m"
  shows "sint (asInt32 (codec_frame P tag m @ rest)) = int (length (payload P tag m)) + 4"
proof -
  have "length (payload P tag m) + 4 < 2 ^ 31" using assms by (simp add: codec_ok_def)
  then have "sint (word_of_nat (length (payload P tag m) + 4) :: i32) = int (length (payload P tag m) + 4)"
    by (rule sint_of_nat_small)
  then show ?thesis by (simp add: codec_frame_def asInt32_append)
qed

lemma codec_frame_prefix:
  assumes "codec_ok P tag m" "codec_frame P tag m @ rest = u @ v" "length u < length (codec_frame P tag m)"
  shows "codec_incomplete tag u"
proof (cases "length u < length tag + 8")
  case False
  then have "asInt32 (u @ v) = asInt32 u" by (intro asInt32_take) simp
  with codec_frame_length [OF assms(1), of rest] assms(2) have len: "sint (asInt32 u) = int (length (payload P tag m)) + 4" by simp
  have "length tag \<le> length (payload P tag m)" "length (payload P tag m) + 4 \<le> 64 * 1024 * 1024"
    using assms(1) by (simp_all add: codec_ok_def payload_def)
  with assms(3) show ?thesis
    by (simp add: codec_incomplete_def len length_codec_frame kMinMessageLen_def kMaxMessageLen_def kChecksumLen_def nat_add_distrib)
qed (simp add: codec_incomplete_def)

lemma codec_frame_complete:
  assumes "codec_ok P tag m"
  shows "\<not> codec_incomplete tag (codec_frame P tag m @ rest)"
  using codec_frame_length [OF assms, of rest]
  by (simp add: codec_incomplete_def length_codec_frame nat_add_distrib) (simp add: payload_def)

lemma codec_parse_payload:
  assumes "codec_ok P tag m"
  shows "codec_parse P tag (payload P tag m @ rev (word_bytes (adler32 P (payload P tag m)))) = Inr m"
proof -
  have "length (payload P tag m) < 2 ^ 31" "parse_array P (serialize P m) = Some m" using assms by (auto simp: codec_ok_def)
  then show ?thesis
    by (simp add: codec_parse_def validateChecksum_def Let_def kChecksumLen_def checksum_small asInt32_be)
       (simp add: payload_def)
qed

text \<open>The buffer at the head of a loop: a complete frame in front, or not enough bytes.\<close>

lemma peek_asInt32:
  assumes "wf_buffer b" "4 \<le> readableBytes b"
  shows "peekInt32 b = Inr (asInt32 (contents b))"
  using assms contents_front [OF assms] by (simp add: peekInt32_def asInt32_def)

lemma codec_step_incomplete:
  assumes "wf_buffer b" "codec_incomplete tag (contents b)"
  shows "codec_step P tag U s b = Inr (False, s, b)"
  using assms peek_asInt32 [OF assms(1)]
  by (auto simp: codec_step_def codec_incomplete_def Let_def kMinMessageLen_def kHeaderLen_def kChecksumLen_def)

lemma codec_step_frame:
  assumes "wf_buffer b" "contents b = codec_frame P tag m @ rest" "codec_ok P tag m" "rawCb U = None"
  shows "\<exists>b'. codec_step P tag U s b = Inr (True, messageCb U s m, b') \<and> wf_buffer b' \<and> contents b' = rest"
proof -
  let ?n = "length (payload P tag m) + 4"
  have size: "readableBytes b = ?n + 4 + length rest"
    using length_contents [OF assms(1)] assms(2) by (simp add: length_codec_frame)
  have tag: "length tag \<le> length (payload P tag m)" "?n \<le> 64 * 1024 * 1024"
    using assms(3) by (simp_all add: codec_ok_def payload_def)
  obtain b' where b': "retrieve (4 + ?n) b = Inr b'" "wf_buffer b'" "contents b' = rest"
    using retrieve_spec [OF assms(1), of "4 + ?n"] size assms(2) by (auto simp: length_codec_frame)
  have len: "sint (asInt32 (contents b)) = int ?n" using codec_frame_length [OF assms(3), of rest] assms(2) by simp
  have "take ?n (drop 4 (contents b)) = payload P tag m @ rev (word_bytes (adler32 P (payload P tag m)))"
    unfolding assms(2) codec_frame_def by simp
  with len b' size tag peek_asInt32 [OF assms(1)] codec_parse_payload [OF assms(3)] assms(4) show ?thesis
    by (simp add: codec_step_def Let_def kMinMessageLen_def kHeaderLen_def kChecksumLen_def kMaxMessageLen_def raw_verdict_def
        nat_add_distrib add.commute)
qed

lemma codec_onMessage_frames:
  assumes "rawCb U = None" "codec_incomplete tag p"
  shows "wf_buffer b \<Longrightarrow> contents b = concat (map (codec_frame P tag) ms) @ p \<Longrightarrow> list_all (codec_ok P tag) ms \<Longrightarrow>
    \<exists>b'. codec_onMessage P tag U s b = Inr (foldl (messageCb U) s ms, b') \<and> wf_buffer b' \<and> contents b' = p"
proof (induction ms arbitrary: s b)
  case Nil
  with codec_step_incomplete [of b tag P U s] assms(2) show ?case by (subst codec_onMessage.simps) simp
next
  case (Cons m ms)
  then obtain b1 where b1: "codec_step P tag U s b = Inr (True, messageCb U s m, b1)" "wf_buffer b1"
      "contents b1 = concat (map (codec_frame P tag) ms) @ p"
    using codec_step_frame [of b P tag m "concat (map (codec_frame P tag) ms) @ p" U s] assms(1) by auto
  with Cons.IH [of b1 "messageCb U s m"] Cons.prems(3) show ?case by (subst codec_onMessage.simps) simp
qed

definition plain_user :: "('s \<Rightarrow> 'm \<Rightarrow> 's) \<Rightarrow> ('s \<Rightarrow> buffer \<Rightarrow> codec_error \<Rightarrow> 's \<times> buffer) \<Rightarrow> ('s, 'm) codec_user" where
  "plain_user f g = \<lparr>rawCb = None, messageCb = f, errorCb = g\<rparr>"

interpretation codec: framed_reader "codec_frame P tag" "codec_incomplete tag" "codec_ok P tag"
  "\<lambda>s b. Some (codec_onMessage P tag (plain_user f g) s b)" f
  for P :: "'m protobuf" and tag and f :: "'s \<Rightarrow> 'm \<Rightarrow> 's" and g
proof
  fix b ms p and s :: 's
  assume "wf_buffer b" "contents b = concat (map (codec_frame P tag) ms) @ p" "codec_incomplete tag p" "list_all (codec_ok P tag) ms"
  then show "\<exists>b'. Some (codec_onMessage P tag (plain_user f g) s b) = Some (Inr (foldl f s ms, b')) \<and> wf_buffer b' \<and> contents b' = p"
    using codec_onMessage_frames [of "plain_user f g"] by (simp add: plain_user_def)
qed (auto intro: codec_incomplete_prefix codec_frame_prefix dest: codec_frame_complete)


section \<open>Properties\<close>

fun codec_send_all :: "writer \<Rightarrow> 'm protobuf \<Rightarrow> string \<Rightarrow> 'm list \<Rightarrow> tcp_conn \<Rightarrow> tcp_conn res" where
  "codec_send_all wr P tag [] c = Inr c"
| "codec_send_all wr P tag (m # ms) c = rbind (codec_send wr P tag m c) (codec_send_all wr P tag ms)"

lemma codec_send_frame:
  assumes "conn_inv c" "writer_ok wr" "pipe_open wr" "state c = kConnected" "codec_ok P tag m"
  shows "\<exists>c'. codec_send wr P tag m c = Inr c' \<and> conn_inv c' \<and> state c' = kConnected \<and> stream c' = stream c @ codec_frame P tag m"
proof -
  obtain b where "fillEmptyBuffer P tag m (newBuffer kInitialSize) = Inr b" "contents b = codec_frame P tag m"
    using fillEmptyBuffer_spec [OF assms(5)] by blast
  with sendInLoop_answer [OF assms(1-4), of "codec_frame P tag m"] assms(4) show ?thesis
    by (auto simp: codec_send_def send_buffer_def)
qed

lemma codec_send_all_frames:
  assumes "writer_ok wr" "pipe_open wr"
  shows "conn_inv c \<Longrightarrow> state c = kConnected \<Longrightarrow> list_all (codec_ok P tag) ms \<Longrightarrow>
    \<exists>c'. codec_send_all wr P tag ms c = Inr c' \<and> stream c' = stream c @ concat (map (codec_frame P tag) ms)"
proof (induction ms arbitrary: c)
  case (Cons m ms)
  then obtain c1 where "codec_send wr P tag m c = Inr c1" "conn_inv c1" "state c1 = kConnected"
      "stream c1 = stream c @ codec_frame P tag m"
    using codec_send_frame [OF _ assms, of c P tag m] by auto
  with Cons.IH [of c1] Cons.prems(3) show ?case by auto
qed simp

text \<open>
  C17. Messages sent through the codec arrive. When a connected peer sends messages the library can serialise, none longer than 64 MB
  with its tag, then however the bytes it puts on its connection are cut into pieces, the receiver's callback is called with exactly these
  messages, once each and in order, and nothing is left over.
\<close>

theorem codec_delivers:
  assumes "conn_inv c" "state c = kConnected" "writer_ok wr" "pipe_open wr" "list_all (codec_ok P tag) ms"
  shows "\<exists>c'. codec_send_all wr P tag ms c = Inr c'
    \<and> (\<forall>chunks s. stream c' = stream c @ concat chunks \<longrightarrow>
        (\<exists>b. feed_chunks (\<lambda>s b. Some (codec_onMessage P tag (plain_user f g) s b)) chunks s (newBuffer kInitialSize)
           = Some (Inr (foldl f s ms, b)) \<and> wf_buffer b \<and> contents b = []))"
proof -
  obtain c' where c': "codec_send_all wr P tag ms c = Inr c'" "stream c' = stream c @ concat (map (codec_frame P tag) ms)"
    using codec_send_all_frames [OF assms(3,4,1,2,5)] by blast
  have none: "codec_incomplete tag []" by (simp add: codec_incomplete_def)
  have "\<exists>b. feed_chunks (\<lambda>s b. Some (codec_onMessage P tag (plain_user f g) s b)) chunks s (newBuffer kInitialSize)
      = Some (Inr (foldl f s ms, b)) \<and> wf_buffer b \<and> contents b = []" if "stream c' = stream c @ concat chunks" for chunks s
    by (rule codec.feed_messages) (use that c'(2) none assms(5) in auto)
  with c'(1) show ?thesis by blast
qed

definition sample_protobuf :: "string protobuf" where
  "sample_protobuf = \<lparr>byte_size = length, serialize = (\<lambda>m. m), parse_array = Some, adler32 = (\<lambda>s. word_of_nat (le_value s))\<rparr>"

theorem codec_delivers_witness:
  "\<exists>c'. codec_send_all two_bytes sample_protobuf ''RPC0'' [''abc'', []] open_conn = Inr c'
    \<and> (\<forall>chunks. stream c' = concat chunks \<longrightarrow>
        (\<exists>b. feed_chunks (\<lambda>s b. Some (codec_onMessage sample_protobuf ''RPC0'' (plain_user (\<lambda>s m. s @ [m]) (\<lambda>s b e. (s, b))) s b))
           chunks [] (newBuffer kInitialSize) = Some (Inr ([''abc'', []], b))))"
proof -
  have "list_all (codec_ok sample_protobuf ''RPC0'') [''abc'', []]"
    by (simp add: codec_ok_def sample_protobuf_def payload_def)
  moreover have "pipe_open two_bytes" by (simp add: pipe_open_def two_bytes_def)
  moreover have "stream open_conn = []" "state open_conn = kConnected"
    by (simp_all add: stream_def open_conn_def newTcpConnection_def)
  ultimately obtain c' where "codec_send_all two_bytes sample_protobuf ''RPC0'' [''abc'', []] open_conn = Inr c'"
    "\<forall>chunks s. stream c' = stream open_conn @ concat chunks \<longrightarrow>
        (\<exists>b. feed_chunks (\<lambda>s b. Some (codec_onMessage sample_protobuf ''RPC0'' (plain_user (\<lambda>s m. s @ [m]) (\<lambda>s b e. (s, b))) s b))
           chunks s (newBuffer kInitialSize) = Some (Inr (foldl (\<lambda>s m. s @ [m]) s [''abc'', []], b)) \<and> wf_buffer b \<and> contents b = [])"
    using codec_delivers [OF open_conn_inv _ two_bytes_ok, of sample_protobuf "''RPC0''" "[''abc'', []]" "\<lambda>s m. s @ [m]" "\<lambda>s b e. (s, b)"]
    by blast
  note sent = this
  have "\<exists>b. feed_chunks (\<lambda>s b. Some (codec_onMessage sample_protobuf ''RPC0'' (plain_user (\<lambda>s m. s @ [m]) (\<lambda>s b e. (s, b))) s b))
        chunks [] (newBuffer kInitialSize) = Some (Inr ([''abc'', []], b))" if "stream c' = concat chunks" for chunks
    using sent(2) [rule_format, of chunks "[]"] \<open>stream open_conn = []\<close> that by (auto simp del: feed_chunks.simps)
  with sent(1) show ?thesis by blast
qed

definition codec_fault :: "'m protobuf \<Rightarrow> string \<Rightarrow> string \<Rightarrow> codec_error option" where
  "codec_fault P tag s =
     (if length s < length tag + 8 then None
      else let len = sint (asInt32 s)
           in if len > kMaxMessageLen \<or> len < int (kMinMessageLen tag) then Some kInvalidLength
              else if length s < 4 + nat len then None
              else (case codec_parse P tag (take (nat len) (drop 4 s)) of Inl e \<Rightarrow> Some e | Inr m \<Rightarrow> None))"

lemma codec_fault_append:
  assumes "codec_fault P tag u = Some e"
  shows "codec_fault P tag (u @ v) = Some e"
proof -
  have "length tag + 8 \<le> length u" using assms by (simp add: codec_fault_def split: if_splits)
  with assms asInt32_take [of u v] show ?thesis by (auto simp: codec_fault_def Let_def split: if_splits)
qed

lemma codec_step_fault:
  assumes "wf_buffer b" "codec_fault P tag (contents b) = Some e"
  shows "codec_onMessage P tag (plain_user f (\<lambda>s b e. (h s e, b))) s b = Inr (h s e, b)"
proof -
  have "codec_step P tag (plain_user f (\<lambda>s b e. (h s e, b))) s b = Inr (False, h s e, b)"
    using assms peek_asInt32 [OF assms(1)]
    by (auto simp: codec_fault_def codec_step_def Let_def kMinMessageLen_def kHeaderLen_def kChecksumLen_def raw_verdict_def
        plain_user_def split: if_splits sum.splits)
  then show ?thesis by (subst codec_onMessage.simps) simp
qed

text \<open>
  A bad message. A message with a length out of range, a wrong checksum, a foreign tag or a content the library does not parse is reported
  with its error and left in the buffer. Unless the error callback takes it out, it is reported again for every further
  piece of data, and no message behind it is ever delivered.
\<close>

theorem codec_bad_message:
  assumes "wf_buffer b" "codec_fault P tag (contents b) = Some e"
  shows "\<exists>b'. feed_chunks (\<lambda>s b. Some (codec_onMessage P tag (plain_user f (\<lambda>s b e. (h s e, b))) s b)) chunks s b
       = Some (Inr (((\<lambda>s. h s e) ^^ length chunks) s, b')) \<and> contents b' = contents b @ concat chunks"
  using assms
proof (induction chunks arbitrary: s b)
  case (Cons c cs)
  obtain b1 where b1: "buf_append c b = Inr b1" "wf_buffer b1" "contents b1 = contents b @ c"
    using buf_append_spec [OF Cons.prems(1)] by blast
  have fault: "codec_fault P tag (contents b1) = Some e" using codec_fault_append [OF Cons.prems(2)] b1(3) by simp
  from Cons.IH [OF b1(2) fault, of "h s e"] codec_step_fault [OF b1(2) fault, of f h s] b1(1,3) show ?case
    using funpow_swap1 [of "\<lambda>s. h s e" "length cs" s] by auto
qed simp

theorem codec_bad_message_witness:
  "\<exists>b b'. codec_fault sample_protobuf ''RPC0'' (contents b) = Some kInvalidLength
     \<and> feed_chunks (\<lambda>s b. Some (codec_onMessage sample_protobuf ''RPC0'' (plain_user (\<lambda>s m. s) (\<lambda>s b e. (Suc s, b))) s b)) [''x'', ''y''] 0 b
       = Some (Inr (2, b'))"
proof -
  let ?s = "rev (word_bytes (0 :: i32)) @ replicate 8 (CHR 0x00)"
  obtain b where b: "wf_buffer b" "contents b = ?s"
    using buf_append_spec [OF wf_newBuffer [of kInitialSize], of ?s] by auto
  have "codec_fault sample_protobuf ''RPC0'' ?s = Some kInvalidLength"
    by (simp add: codec_fault_def asInt32_append kMinMessageLen_def)
  with b(2) have "codec_fault sample_protobuf ''RPC0'' (contents b) = Some kInvalidLength" by (simp only:)
  moreover from codec_bad_message [OF b(1) this, of "\<lambda>s m. s" "\<lambda>s e. Suc s" "[''x'', ''y'']" 0]
  obtain b' where "feed_chunks (\<lambda>s b. Some (codec_onMessage sample_protobuf ''RPC0'' (plain_user (\<lambda>s m. s) (\<lambda>s b e. (Suc s, b))) s b))
      [''x'', ''y''] 0 b = Some (Inr ((Suc ^^ length [''x'', ''y'']) 0, b'))" by blast
  moreover have "(Suc ^^ length [''x'', ''y'']) 0 = 2" by simp
  ultimately show ?thesis by metis
qed

end
