(* ===== verification/RpcChannel.thy ===== *)
theory RpcChannel
  imports ProtobufCodec "HOL-Library.Multiset"
begin

text \<open>
  Remote procedure calls (\<open>muduo/net/protorpc/RpcChannel.h\<close>, \<open>RpcChannel.cc\<close>, \<open>RpcServer.cc\<close>, with the messages of \<open>rpc.proto\<close>). A channel numbers its calls, keeps
  the outstanding ones in a map and finishes a call when the response with its number arrives; the other side looks the
  service and the method up and answers when the service is done, in any order.

  What a service does with the bytes of a request is a parameter: no result when the request does not parse, else the bytes of the
  response. The handle of a call (the caller's response object and closure) is of type \<open>'h\<close>; \<open>completed\<close> records the closures run, with the bytes parsed into the
  response. Messages between the two sides are carried by the codec, in order.
\<close>

section \<open>Messages\<close>

datatype message_type = REQUEST | RESPONSE | ERROR_MSG

datatype rpc_error = NO_ERROR | WRONG_PROTO | NO_SERVICE | NO_METHOD | INVALID_REQUEST | INVALID_RESPONSE | TIMEOUT

record rpc_message =
  msg_type :: message_type
  msg_id :: i64
  msg_service :: string
  msg_method :: string
  msg_request :: string
  msg_response :: "string option"
  msg_error :: "rpc_error option"

definition rpctag :: string where "rpctag = ''RPC0''"

type_synonym services = "string \<rightharpoonup> (string \<rightharpoonup> (string \<Rightarrow> string option))"

definition registerService :: "string \<Rightarrow> (string \<rightharpoonup> (string \<Rightarrow> string option)) \<Rightarrow> services \<Rightarrow> services" where
  "registerService full_name service ss = ss(full_name \<mapsto> service)"

section \<open>The channel\<close>

record 'h rpc_channel =
  last_id :: i64
  outstandings :: "i64 \<rightharpoonup> 'h"
  prepared :: "rpc_message list"
  services_of :: "services option"
  outbox :: "rpc_message list"
  completed :: "(i64 \<times> 'h \<times> string option) list"
  in_service :: "(i64 \<times> string) list"

definition newRpcChannel :: "services option \<Rightarrow> 'h rpc_channel" where
  "newRpcChannel ss = \<lparr>last_id = 0, outstandings = Map.empty, prepared = [], services_of = ss, outbox = [], completed = [], in_service = []\<rparr>"

definition codec_put :: "rpc_message \<Rightarrow> 'h rpc_channel \<Rightarrow> 'h rpc_channel" where
  "codec_put m ch = ch\<lparr>outbox := outbox ch @ [m]\<rparr>"

text \<open>
  \<open>CallMethod\<close> runs in any thread, and holds the lock only while it registers the call: it is two steps. The first numbers the call and puts it into the map,
  the second sends a request that was prepared; other calls and responses come in between.
\<close>

definition CallMethod_register :: "string \<Rightarrow> string \<Rightarrow> string \<Rightarrow> 'h \<Rightarrow> 'h rpc_channel \<Rightarrow> 'h rpc_channel" where
  "CallMethod_register service method request h ch =
     (let cid = last_id ch + 1
      in ch\<lparr>last_id := cid, outstandings := (outstandings ch)(cid \<mapsto> h),
           prepared := prepared ch @ [\<lparr>msg_type = REQUEST, msg_id = cid, msg_service = service, msg_method = method, msg_request = request,
             msg_response = None, msg_error = None\<rparr>]\<rparr>)"

definition CallMethod_send :: "nat \<Rightarrow> 'h rpc_channel \<Rightarrow> 'h rpc_channel" where
  "CallMethod_send k ch =
     (if k < length (prepared ch)
      then codec_put (prepared ch ! k) (ch\<lparr>prepared := take k (prepared ch) @ drop (Suc k) (prepared ch)\<rparr>)
      else ch)"

definition response_message :: "i64 \<Rightarrow> string option \<Rightarrow> rpc_error option \<Rightarrow> rpc_message" where
  "response_message cid resp err = \<lparr>msg_type = RESPONSE, msg_id = cid, msg_service = [], msg_method = [], msg_request = [],
     msg_response = resp, msg_error = err\<rparr>"

definition onResponse :: "rpc_message \<Rightarrow> 'h rpc_channel \<Rightarrow> 'h rpc_channel res" where
  "onResponse message ch =
     c_assert (msg_response message \<noteq> None \<or> msg_error message \<noteq> None)
     (case outstandings ch (msg_id message) of
        None \<Rightarrow> Inr ch
      | Some h \<Rightarrow> Inr (ch\<lparr>outstandings := (outstandings ch)(msg_id message := None),
                         completed := completed ch @ [(msg_id message, h, msg_response message)]\<rparr>))"

text \<open>A call of a service is under way until its closure \<open>doneCallback\<close> runs; the response it will have is known to the model.\<close>

definition onRequest :: "rpc_message \<Rightarrow> 'h rpc_channel \<Rightarrow> 'h rpc_channel" where
  "onRequest message ch =
     (case services_of ch of
        None \<Rightarrow> codec_put (response_message (msg_id message) None (Some NO_SERVICE)) ch
      | Some ss \<Rightarrow> (case ss (msg_service message) of
          None \<Rightarrow> codec_put (response_message (msg_id message) None (Some NO_SERVICE)) ch
        | Some service \<Rightarrow> (case service (msg_method message) of
            None \<Rightarrow> codec_put (response_message (msg_id message) None (Some NO_METHOD)) ch
          | Some f \<Rightarrow> (case f (msg_request message) of
              None \<Rightarrow> codec_put (response_message (msg_id message) None (Some INVALID_REQUEST)) ch
            | Some resp \<Rightarrow> ch\<lparr>in_service := in_service ch @ [(msg_id message, resp)]\<rparr>))))"

definition onRpcMessage :: "rpc_message \<Rightarrow> 'h rpc_channel \<Rightarrow> 'h rpc_channel res" where
  "onRpcMessage message ch =
     (case msg_type message of
        RESPONSE \<Rightarrow> onResponse message ch
      | REQUEST \<Rightarrow> Inr (onRequest message ch)
      | ERROR_MSG \<Rightarrow> Inr ch)"

definition doneCallback :: "nat \<Rightarrow> 'h rpc_channel \<Rightarrow> 'h rpc_channel" where
  "doneCallback k ch =
     (if k < length (in_service ch)
      then codec_put (response_message (fst (in_service ch ! k)) (Some (snd (in_service ch ! k))) None)
             (ch\<lparr>in_service := take k (in_service ch) @ drop (Suc k) (in_service ch)\<rparr>)
      else ch)"

section \<open>A client and a server\<close>

record 'h rpc_net =
  client :: "'h rpc_channel"
  server :: "unit rpc_channel"
  calls :: "(string \<times> string \<times> string \<times> 'h) list"

datatype 'h rpc_event = Call string string string 'h | SendCall nat | ToServer | Done nat | ToClient

definition take_outbox :: "'h rpc_channel \<Rightarrow> 'h rpc_channel" where
  "take_outbox ch = ch\<lparr>outbox := tl (outbox ch)\<rparr>"

fun rpc_step :: "'h rpc_event \<Rightarrow> 'h rpc_net \<Rightarrow> 'h rpc_net res" where
  "rpc_step (Call service method request h) n =
     Inr (n\<lparr>client := CallMethod_register service method request h (client n), calls := calls n @ [(service, method, request, h)]\<rparr>)"
| "rpc_step (SendCall k) n = Inr (n\<lparr>client := CallMethod_send k (client n)\<rparr>)"
| "rpc_step ToServer n =
     (case outbox (client n) of
        [] \<Rightarrow> Inr n
      | m # ms \<Rightarrow> rbind (onRpcMessage m (server n)) (\<lambda>s. Inr (n\<lparr>client := take_outbox (client n), server := s\<rparr>)))"
| "rpc_step (Done k) n = Inr (n\<lparr>server := doneCallback k (server n)\<rparr>)"
| "rpc_step ToClient n =
     (case outbox (server n) of
        [] \<Rightarrow> Inr n
      | m # ms \<Rightarrow> rbind (onRpcMessage m (client n)) (\<lambda>c. Inr (n\<lparr>client := c, server := take_outbox (server n)\<rparr>)))"

fun rpc_run :: "'h rpc_event list \<Rightarrow> 'h rpc_net \<Rightarrow> 'h rpc_net res" where
  "rpc_run [] n = Inr n"
| "rpc_run (e # es) n = rbind (rpc_step e n) (rpc_run es)"

definition new_net :: "services option \<Rightarrow> 'h rpc_net" where
  "new_net ss = \<lparr>client = newRpcChannel None, server = newRpcChannel ss, calls = []\<rparr>"

section \<open>The specification of a call\<close>

definition call_result :: "services option \<Rightarrow> string \<Rightarrow> string \<Rightarrow> string \<Rightarrow> string option" where
  "call_result ss service method request =
     (case ss of None \<Rightarrow> None | Some m \<Rightarrow>
       (case m service of None \<Rightarrow> None | Some sv \<Rightarrow> (case sv method of None \<Rightarrow> None | Some f \<Rightarrow> f request)))"

definition in_flight :: "'h rpc_net \<Rightarrow> i64 list" where
  "in_flight n = map msg_id (prepared (client n)) @ map msg_id (outbox (client n)) @ map fst (in_service (server n)) @ map msg_id (outbox (server n))"

definition call_of :: "'h rpc_net \<Rightarrow> i64 \<Rightarrow> string \<times> string \<times> string \<times> 'h" where
  "call_of n cid = calls n ! (unat cid - 1)"

definition expected :: "services option \<Rightarrow> 'h rpc_net \<Rightarrow> i64 \<Rightarrow> string option" where
  "expected ss n cid = (case call_of n cid of (service, method, request, h) \<Rightarrow> call_result ss service method request)"

definition handle_of :: "'h rpc_net \<Rightarrow> i64 \<Rightarrow> 'h" where
  "handle_of n cid = (case call_of n cid of (service, method, request, h) \<Rightarrow> h)"

definition ids :: "'h rpc_net \<Rightarrow> i64 set" where
  "ids n = word_of_nat ` {1..length (calls n)}"


fun request_ok :: "'h rpc_net \<Rightarrow> rpc_message \<Rightarrow> bool" where
  "request_ok n m \<longleftrightarrow> msg_type m = REQUEST
     \<and> call_of n (msg_id m) = (msg_service m, msg_method m, msg_request m, handle_of n (msg_id m))"

fun serving_ok :: "services option \<Rightarrow> 'h rpc_net \<Rightarrow> i64 \<times> string \<Rightarrow> bool" where
  "serving_ok ss n p \<longleftrightarrow> expected ss n (fst p) = Some (snd p)"

fun response_ok :: "services option \<Rightarrow> 'h rpc_net \<Rightarrow> rpc_message \<Rightarrow> bool" where
  "response_ok ss n m \<longleftrightarrow> msg_type m = RESPONSE \<and> msg_response m = expected ss n (msg_id m)
     \<and> (msg_response m \<noteq> None \<or> msg_error m \<noteq> None)"

fun completed_ok :: "services option \<Rightarrow> 'h rpc_net \<Rightarrow> i64 \<times> 'h \<times> string option \<Rightarrow> bool" where
  "completed_ok ss n (i, h, r) \<longleftrightarrow> h = handle_of n i \<and> r = expected ss n i"

definition rpc_inv :: "services option \<Rightarrow> 'h rpc_net \<Rightarrow> bool" where
  "rpc_inv ss n \<longleftrightarrow> services_of (server n) = ss \<and> last_id (client n) = word_of_nat (length (calls n))
     \<and> distinct (in_flight n @ map fst (completed (client n)))
     \<and> set (in_flight n) \<union> fst ` set (completed (client n)) = ids n
     \<and> (\<forall>i. outstandings (client n) i = (if i \<in> set (in_flight n) then Some (handle_of n i) else None))
     \<and> (\<forall>m \<in> set (prepared (client n)). request_ok n m)
     \<and> (\<forall>m \<in> set (outbox (client n)). request_ok n m)
     \<and> (\<forall>p \<in> set (in_service (server n)). serving_ok ss n p)
     \<and> (\<forall>m \<in> set (outbox (server n)). response_ok ss n m)
     \<and> (\<forall>c \<in> set (completed (client n)). completed_ok ss n c)"

lemma rpc_inv_new: "rpc_inv ss (new_net ss)"
  by (simp add: rpc_inv_def new_net_def newRpcChannel_def in_flight_def ids_def)

text \<open>Numbers of calls are distinct, and their calls do not change when more calls are made.\<close>

lemma unat_id: "k < 2 ^ 64 \<Longrightarrow> unat (word_of_nat k :: i64) = k"
  by (simp add: unat_of_nat)

lemma ids_bound:
  assumes "i \<in> ids n" "length (calls n) < 2 ^ 64"
  shows "unat i - 1 < length (calls n)"
proof -
  obtain k where "i = word_of_nat k" "1 \<le> k" "k \<le> length (calls n)" using assms(1) by (auto simp: ids_def)
  then show ?thesis using assms(2) unat_id [of k] by auto
qed

lemma fresh_id:
  assumes "Suc (length (calls n)) < 2 ^ 64"
  shows "word_of_nat (Suc (length (calls n))) \<notin> ids n"
proof
  assume "word_of_nat (Suc (length (calls n))) \<in> ids n"
  then obtain k where k: "word_of_nat (Suc (length (calls n))) = (word_of_nat k :: i64)" "k \<le> length (calls n)" by (auto simp: ids_def)
  then have "Suc (length (calls n)) = k" using unat_id [OF assms] unat_id [of k] assms by (metis less_trans_Suc Suc_lessD le_less_trans)
  with k(2) show False by simp
qed

lemma call_of_old:
  assumes "i \<in> ids n" "length (calls n) < 2 ^ 64" "calls n' = calls n @ [c]"
  shows "call_of n' i = call_of n i" "handle_of n' i = handle_of n i" "expected ss n' i = expected ss n i"
  using ids_bound [OF assms(1,2)] assms(3) by (simp_all add: call_of_def handle_of_def expected_def nth_append)

lemma call_frame:
  "calls n' = calls n \<Longrightarrow> call_of n' = call_of n \<and> handle_of n' = handle_of n \<and> expected ss n' = expected ss n \<and> ids n' = ids n"
  by (simp add: call_of_def handle_of_def expected_def ids_def fun_eq_iff)

lemma rpc_call_inv:
  assumes inv: "rpc_inv ss n" and len: "Suc (length (calls n)) < 2 ^ 64"
  shows "rpc_inv ss (n\<lparr>client := CallMethod_register service method request h (client n), calls := calls n @ [(service, method, request, h)]\<rparr>)"
proof -
  define N where "N = n\<lparr>client := CallMethod_register service method request h (client n), calls := calls n @ [(service, method, request, h)]\<rparr>"
  define j where "j = (word_of_nat (Suc (length (calls n))) :: i64)"
  define m where "m = \<lparr>msg_type = REQUEST, msg_id = j, msg_service = service, msg_method = method, msg_request = request,
    msg_response = None, msg_error = None\<rparr>"
  have "last_id (client n) + 1 = j" using inv by (simp add: rpc_inv_def j_def)
  then have cl: "client N = (client n)\<lparr>last_id := j, outstandings := (outstandings (client n))(j \<mapsto> h), prepared := prepared (client n) @ [m]\<rparr>"
    by (simp add: N_def CallMethod_register_def Let_def m_def)
  have sv: "server N = server n" and ca: "calls N = calls n @ [(service, method, request, h)]" by (simp_all add: N_def)
  have new: "j \<notin> ids n" unfolding j_def using fresh_id [OF len] .
  have "{1..Suc (length (calls n))} = insert (Suc (length (calls n))) {1..length (calls n)}" by auto
  then have ids: "ids N = insert j (ids n)" by (simp add: ids_def j_def ca)
  have "unat j = Suc (length (calls n))" unfolding j_def using unat_id [OF len] .
  then have this_call: "call_of N j = (service, method, request, h)" "handle_of N j = h"
    by (simp_all add: call_of_def handle_of_def ca nth_append)
  have "length (calls n) < 2 ^ 64" using len by simp
  note old = call_of_old [OF _ this ca]
  have known: "i \<in> ids n" if "i \<in> set (in_flight n) \<or> i \<in> fst ` set (completed (client n))" for i
    using inv that by (auto simp: rpc_inv_def)
  have at: "msg_id x \<in> ids n" if "x \<in> set (prepared (client n)) \<or> x \<in> set (outbox (client n)) \<or> x \<in> set (outbox (server n))" for x
    using known that by (auto simp: in_flight_def)
  have at': "fst x \<in> ids n" if "x \<in> set (in_service (server n))" for x using known that by (auto simp: in_flight_def)
  have at'': "fst x \<in> ids n" if "x \<in> set (completed (client n))" for x using known that by auto
  have fl: "set (in_flight N) = insert j (set (in_flight n))" by (auto simp: in_flight_def cl sv m_def)
  have dist: "distinct (in_flight N @ map fst (completed (client N)))"
    using inv new known by (auto simp: in_flight_def cl sv m_def rpc_inv_def)
  have prep: "request_ok N x" if "x \<in> set (prepared (client N))" for x
    using inv old(1,2) [OF at, of x] this_call that by (auto simp: rpc_inv_def cl m_def)
  have out: "request_ok N x" if "x \<in> set (outbox (client N))" for x
    using inv old(1,2) [OF at, of x] this_call that by (auto simp: rpc_inv_def cl m_def)
  have srv: "serving_ok ss N p" if "p \<in> set (in_service (server N))" for p
    using inv old(3) [OF at', of p ss] that by (simp add: rpc_inv_def sv)
  have srv': "response_ok ss N x" if "x \<in> set (outbox (server N))" for x
  proof -
    have "x \<in> set (outbox (server n))" using that by (simp add: sv)
    with inv old(3) [OF at, of x ss] have "response_ok ss n x" "expected ss N (msg_id x) = expected ss n (msg_id x)"
      by (auto simp only: rpc_inv_def)
    then show ?thesis by auto
  qed
  have fin: "completed_ok ss N c" if "c \<in> set (completed (client N))" for c
    using inv old(2) [OF at'', of c] old(3) [OF at'', of c ss] that by (cases c) (force simp: rpc_inv_def cl)
  have pend: "outstandings (client N) i = (if i \<in> set (in_flight N) then Some (handle_of N i) else None)" for i
    using inv old(2) [of i] known [of i] fl this_call(2) new by (auto simp: rpc_inv_def cl)
  have rest: "services_of (server N) = ss" "last_id (client N) = word_of_nat (length (calls N))"
    "set (in_flight N) \<union> fst ` set (completed (client N)) = ids N"
    using inv fl ids by (auto simp: rpc_inv_def cl sv ca j_def)
  have "rpc_inv ss N" unfolding rpc_inv_def using rest dist pend prep out srv srv' fin
    by (auto simp del: request_ok.simps serving_ok.simps response_ok.simps completed_ok.simps)
  then show ?thesis by (simp add: N_def)
qed

text \<open>Steps that only move a message on.\<close>

lemma rpc_moved:
  assumes inv: "rpc_inv ss n" and eqs: "calls n' = calls n" "services_of (server n') = services_of (server n)" "last_id (client n') = last_id (client n)"
      "outstandings (client n') = outstandings (client n)" "completed (client n') = completed (client n)"
    and fl: "mset (in_flight n') = mset (in_flight n)"
    and msgs: "\<And>m. m \<in> set (prepared (client n')) \<Longrightarrow> request_ok n m" "\<And>m. m \<in> set (outbox (client n')) \<Longrightarrow> request_ok n m" "\<And>p. p \<in> set (in_service (server n')) \<Longrightarrow> serving_ok ss n p"
      "\<And>m. m \<in> set (outbox (server n')) \<Longrightarrow> response_ok ss n m"
  shows "rpc_inv ss n'"
proof -
  have s: "set (in_flight n') = set (in_flight n)" using fl by (metis set_mset_mset)
  have d: "distinct (in_flight n') \<longleftrightarrow> distinct (in_flight n)" using fl mset_eq_imp_distinct_iff by blast
  have p: "request_ok n' = request_ok n" "serving_ok ss n' = serving_ok ss n" "response_ok ss n' = response_ok ss n"
    "completed_ok ss n' = completed_ok ss n"
    using call_frame [OF eqs(1), of ss] by (auto simp: fun_eq_iff)
  have k: "ids n' = ids n" "handle_of n' = handle_of n" using call_frame [OF eqs(1)] by blast+
  note facts = inv [unfolded rpc_inv_def distinct_append]
  show ?thesis unfolding rpc_inv_def p k eqs s distinct_append d
    using facts msgs by (intro conjI ballI; (elim conjE)?; simp only:)
qed

lemma onRequest_found:
  "call_result (services_of s) (msg_service m) (msg_method m) (msg_request m) = Some r \<Longrightarrow>
   onRequest m s = s\<lparr>in_service := in_service s @ [(msg_id m, r)]\<rparr>"
  by (auto simp: onRequest_def call_result_def split: option.splits)

lemma onRequest_failed:
  "call_result (services_of s) (msg_service m) (msg_method m) (msg_request m) = None \<Longrightarrow>
   \<exists>e. onRequest m s = codec_put (response_message (msg_id m) None (Some e)) s"
  unfolding onRequest_def call_result_def by (fastforce split: option.splits)

lemma onRequest_cases:
  assumes "request_ok n m" "services_of s = ss"
  obtains (answered) r where "onRequest m s = s\<lparr>outbox := outbox s @ [r]\<rparr>" "msg_id r = msg_id m" "response_ok ss n r"
    | (serving) p where "onRequest m s = s\<lparr>in_service := in_service s @ [p]\<rparr>" "fst p = msg_id m" "serving_ok ss n p"
proof -
  have exp: "expected ss n (msg_id m) = call_result ss (msg_service m) (msg_method m) (msg_request m)"
    using assms(1) by (simp add: expected_def)
  show ?thesis
  proof (cases "call_result ss (msg_service m) (msg_method m) (msg_request m)")
    case None
    then obtain e where "onRequest m s = codec_put (response_message (msg_id m) None (Some e)) s"
      using onRequest_failed assms(2) by blast
    with None exp show ?thesis using answered [of "response_message (msg_id m) None (Some e)"]
      by (simp add: codec_put_def response_message_def)
  next
    case (Some r)
    then show ?thesis using serving [of "(msg_id m, r)"] exp onRequest_found [of s m r] assms(2) by simp
  qed
qed

lemma rpc_to_server_inv:
  assumes inv: "rpc_inv ss n"
  shows "\<exists>n'. rpc_step ToServer n = Inr n' \<and> calls n' = calls n \<and> rpc_inv ss n'"
proof (cases "outbox (client n)")
  case Nil
  with inv show ?thesis by simp
next
  case out: (Cons m ms)
  define N where "N = n\<lparr>client := take_outbox (client n), server := onRequest m (server n)\<rparr>"
  have m: "request_ok n m" and ss: "services_of (server n) = ss"
    and rest: "\<forall>x \<in> set (prepared (client n)). request_ok n x" "\<forall>x \<in> set ms. request_ok n x" "\<forall>p \<in> set (in_service (server n)). serving_ok ss n p"
      "\<forall>x \<in> set (outbox (server n)). response_ok ss n x"
    using inv out unfolding rpc_inv_def by (simp_all del: request_ok.simps serving_ok.simps response_ok.simps)
  have step: "rpc_step ToServer n = Inr N" using m out by (simp add: onRpcMessage_def N_def)
  have cl: "client N = (client n)\<lparr>outbox := ms\<rparr>" and sv: "server N = onRequest m (server n)" and ca: "calls N = calls n"
    using out by (simp_all add: N_def take_outbox_def)
  have "rpc_inv ss N"
  proof (rule onRequest_cases [OF m ss])
    fix r assume answered: "onRequest m (server n) = (server n)\<lparr>outbox := outbox (server n) @ [r]\<rparr>" "msg_id r = msg_id m" "response_ok ss n r"
    show "rpc_inv ss N" by (rule rpc_moved [OF inv]) (use rest answered out in \<open>auto simp: cl sv ca in_flight_def
      simp del: request_ok.simps serving_ok.simps response_ok.simps\<close>)
  next
    fix p assume serving: "onRequest m (server n) = (server n)\<lparr>in_service := in_service (server n) @ [p]\<rparr>" "fst p = msg_id m" "serving_ok ss n p"
    show "rpc_inv ss N" by (rule rpc_moved [OF inv]) (use rest serving out in \<open>auto simp: cl sv ca in_flight_def
      simp del: request_ok.simps serving_ok.simps response_ok.simps\<close>)
  qed
  with step ca show ?thesis by blast
qed

lemma rpc_send_inv:
  assumes inv: "rpc_inv ss n"
  shows "rpc_inv ss (n\<lparr>client := CallMethod_send k (client n)\<rparr>)"
proof (cases "k < length (prepared (client n))")
  case True
  define m xs ys where "m = prepared (client n) ! k" and "xs = take k (prepared (client n))" and "ys = drop (Suc k) (prepared (client n))"
  have split: "prepared (client n) = xs @ m # ys" using id_take_nth_drop [OF True] by (simp add: m_def xs_def ys_def)
  have to: "CallMethod_send k (client n) = (client n)\<lparr>prepared := xs @ ys, outbox := outbox (client n) @ [m]\<rparr>"
    using True by (simp add: CallMethod_send_def codec_put_def m_def xs_def ys_def)
  have rest: "\<forall>x \<in> set (prepared (client n)). request_ok n x" "\<forall>x \<in> set (outbox (client n)). request_ok n x"
      "\<forall>p \<in> set (in_service (server n)). serving_ok ss n p" "\<forall>x \<in> set (outbox (server n)). response_ok ss n x"
    using inv unfolding rpc_inv_def by (simp_all del: request_ok.simps serving_ok.simps response_ok.simps)
  show ?thesis
    by (rule rpc_moved [OF inv]) (use rest split in \<open>auto simp: to in_flight_def simp del: request_ok.simps serving_ok.simps response_ok.simps\<close>)
qed (use inv in \<open>simp add: CallMethod_send_def\<close>)

lemma rpc_done_inv:
  assumes inv: "rpc_inv ss n"
  shows "rpc_inv ss (n\<lparr>server := doneCallback k (server n)\<rparr>)"
proof (cases "k < length (in_service (server n))")
  case True
  define i r where "i = fst (in_service (server n) ! k)" and "r = snd (in_service (server n) ! k)"
  define xs ys where "xs = take k (in_service (server n))" and "ys = drop (Suc k) (in_service (server n))"
  have split: "in_service (server n) = xs @ (i, r) # ys" using id_take_nth_drop [OF True] by (simp add: i_def r_def xs_def ys_def)
  have to: "doneCallback k (server n) = (server n)\<lparr>in_service := xs @ ys, outbox := outbox (server n) @ [response_message i (Some r) None]\<rparr>"
    using True by (simp add: doneCallback_def codec_put_def i_def r_def xs_def ys_def)
  have rest: "\<forall>x \<in> set (prepared (client n)). request_ok n x" "\<forall>x \<in> set (outbox (client n)). request_ok n x" "\<forall>p \<in> set (in_service (server n)). serving_ok ss n p"
      "\<forall>x \<in> set (outbox (server n)). response_ok ss n x"
    using inv unfolding rpc_inv_def by (simp_all del: request_ok.simps serving_ok.simps response_ok.simps)
  have new: "response_ok ss n (response_message i (Some r) None)" using rest(3) split by (simp add: response_message_def)
  show ?thesis
    by (rule rpc_moved [OF inv]) (use rest new split in \<open>auto simp: to in_flight_def response_message_def
      simp del: request_ok.simps serving_ok.simps response_ok.simps\<close>)
qed (use inv in \<open>simp add: doneCallback_def\<close>)

lemma rpc_to_client_inv:
  assumes inv: "rpc_inv ss n"
  shows "\<exists>n'. rpc_step ToClient n = Inr n' \<and> calls n' = calls n \<and> rpc_inv ss n'"
proof (cases "outbox (server n)")
  case Nil
  with inv show ?thesis by simp
next
  case out: (Cons m ms)
  define c where "c = (client n)\<lparr>outstandings := (outstandings (client n))(msg_id m := None),
    completed := completed (client n) @ [(msg_id m, handle_of n (msg_id m), msg_response m)]\<rparr>"
  define N where "N = n\<lparr>client := c, server := take_outbox (server n)\<rparr>"
  note parts = inv [unfolded rpc_inv_def]
  have m: "response_ok ss n m" using parts out by (simp del: response_ok.simps)
  have fl: "in_flight n = map msg_id (prepared (client n)) @ map msg_id (outbox (client n)) @ map fst (in_service (server n)) @ msg_id m # map msg_id ms"
    "in_flight N = map msg_id (prepared (client n)) @ map msg_id (outbox (client n)) @ map fst (in_service (server n)) @ map msg_id ms"
    using out by (simp_all add: in_flight_def N_def c_def take_outbox_def)
  have pending: "outstandings (client n) i = (if i \<in> set (in_flight n) then Some (handle_of n i) else None)" for i using parts by blast
  have "msg_type m = RESPONSE" "msg_response m \<noteq> None \<or> msg_error m \<noteq> None" using m by auto
  then have step: "rpc_step ToClient n = Inr N"
    using out pending [of "msg_id m"] fl(1) by (simp add: onRpcMessage_def onResponse_def c_assert_def N_def c_def)
  have ca: "calls N = calls n" and cl: "client N = c" and sv: "server N = (server n)\<lparr>outbox := ms\<rparr>"
    using out by (simp_all add: N_def take_outbox_def)
  have p: "request_ok N = request_ok n" "serving_ok ss N = serving_ok ss n" "response_ok ss N = response_ok ss n"
    "completed_ok ss N = completed_ok ss n"
    using call_frame [OF ca, of ss] by (auto simp: fun_eq_iff)
  have k: "ids N = ids n" "handle_of N = handle_of n" using call_frame [OF ca] by blast+
  have dist: "distinct (in_flight n @ map fst (completed (client n)))" using parts by blast
  have dist': "distinct (in_flight N @ map fst (completed (client N)))" using dist by (auto simp: fl cl c_def)
  have all: "set (in_flight N) \<union> fst ` set (completed (client N)) = ids N"
  proof -
    have "set (in_flight n) \<union> fst ` set (completed (client n)) = ids n" using parts by blast
    then show ?thesis by (auto simp: fl cl c_def k)
  qed
  have pending': "outstandings (client N) i = (if i \<in> set (in_flight N) then Some (handle_of N i) else None)" for i
    using pending [of i] dist by (auto simp: fl cl c_def k)
  have "completed_ok ss n (msg_id m, handle_of n (msg_id m), msg_response m)" using m by simp
  then have fin: "\<forall>x \<in> set (completed (client N)). completed_ok ss N x" using parts by (auto simp: cl c_def p simp del: completed_ok.simps)
  have rest: "services_of (server N) = ss" "last_id (client N) = word_of_nat (length (calls N))"
    "\<forall>x \<in> set (prepared (client N)). request_ok N x" "\<forall>x \<in> set (outbox (client N)). request_ok N x" "\<forall>x \<in> set (in_service (server N)). serving_ok ss N x"
    "\<forall>x \<in> set (outbox (server N)). response_ok ss N x"
    using parts out unfolding p by (simp_all add: cl c_def sv ca del: request_ok.simps serving_ok.simps response_ok.simps)
  have "rpc_inv ss N" unfolding rpc_inv_def using rest dist' all pending' fin by blast
  with step ca show ?thesis by blast
qed

lemma rpc_step_inv:
  assumes inv: "rpc_inv ss n" and len: "Suc (length (calls n)) < 2 ^ 64"
  shows "\<exists>n'. rpc_step e n = Inr n' \<and> length (calls n') \<le> Suc (length (calls n)) \<and> rpc_inv ss n'"
proof (cases e)
  case (Call sv me re h)
  then show ?thesis using rpc_call_inv [OF assms, of sv me re h] by simp
next
  case (SendCall k)
  then show ?thesis using rpc_send_inv [OF inv, of k] by simp
next
  case ToServer
  then show ?thesis using rpc_to_server_inv [OF inv] by (auto simp del: rpc_step.simps)
next
  case (Done k)
  then show ?thesis using rpc_done_inv [OF inv, of k] by simp
next
  case ToClient
  then show ?thesis using rpc_to_client_inv [OF inv] by (auto simp del: rpc_step.simps)
qed

lemma rpc_run_inv:
  assumes "rpc_inv ss n" "length (calls n) + length es < 2 ^ 64"
  shows "\<exists>n'. rpc_run es n = Inr n' \<and> rpc_inv ss n'"
  using assms
proof (induction es arbitrary: n)
  case (Cons e es)
  then obtain n' where n': "rpc_step e n = Inr n'" "length (calls n') \<le> Suc (length (calls n))" "rpc_inv ss n'"
    using rpc_step_inv [of ss n e] by auto
  then show ?case using Cons.IH [of n'] Cons.prems by auto
qed simp

section \<open>Every call is finished once, with its own answer\<close>

text \<open>
  C15. Whatever calls a client makes, from any threads, and however the registrations of the calls, the sends of their requests, responses and the completions of services interleave, as long as fewer than
  \<open>2^64\<close> events happen no assertion of the channel fails; every call finishes at most once, with its own closure and with the answer its service gives
  to its own request (none when the service, the method or the request is not accepted); a call that is not finished is still on its way, and
  when nothing is on its way every call made is finished and none is outstanding.
\<close>

theorem rpc_matches_calls:
  fixes es :: "'h rpc_event list"
  assumes "length es < 2 ^ 64"
  shows "\<exists>n. rpc_run es (new_net ss) = Inr n
     \<and> distinct (map fst (completed (client n)))
     \<and> (\<forall>(i, h, r) \<in> set (completed (client n)). i \<in> ids n \<and> (\<exists>sv me re. call_of n i = (sv, me, re, h) \<and> r = call_result ss sv me re))
     \<and> (\<forall>i \<in> ids n. i \<in> set (in_flight n) \<longleftrightarrow> i \<notin> fst ` set (completed (client n)))
     \<and> dom (outstandings (client n)) = set (in_flight n)"
proof -
  have "length (calls (new_net ss :: 'h rpc_net)) + length es < 2 ^ 64" using assms by (simp add: new_net_def)
  from rpc_run_inv [OF rpc_inv_new this] obtain n :: "'h rpc_net" where n: "rpc_run es (new_net ss) = Inr n" "rpc_inv ss n" by blast
  note parts = n(2) [unfolded rpc_inv_def]
  have fin: "i \<in> ids n \<and> (\<exists>sv me re. call_of n i = (sv, me, re, h) \<and> r = call_result ss sv me re)"
    if "(i, h, r) \<in> set (completed (client n))" for i h r
  proof -
    have "completed_ok ss n (i, h, r)" using parts that by blast
    moreover have "set (in_flight n) \<union> fst ` set (completed (client n)) = ids n" using parts by blast
    then have "i \<in> ids n" using that by force
    ultimately show ?thesis by (cases "call_of n i") (simp add: handle_of_def expected_def)
  qed
  have "outstandings (client n) i = (if i \<in> set (in_flight n) then Some (handle_of n i) else None)" for i using parts by blast
  then have "dom (outstandings (client n)) = set (in_flight n)" by (auto simp: dom_def split: if_splits)
  moreover have "\<forall>i \<in> ids n. i \<in> set (in_flight n) \<longleftrightarrow> i \<notin> fst ` set (completed (client n))"
    "distinct (map fst (completed (client n)))"
  proof -
    have "distinct (in_flight n @ map fst (completed (client n)))" "set (in_flight n) \<union> fst ` set (completed (client n)) = ids n"
      using parts by blast+
    then show "\<forall>i \<in> ids n. i \<in> set (in_flight n) \<longleftrightarrow> i \<notin> fst ` set (completed (client n))"
      "distinct (map fst (completed (client n)))" by auto
  qed
  ultimately show ?thesis using n(1) fin by blast
qed

theorem rpc_matches_calls_witness:
  "\<exists>n. rpc_run [Call ''s'' ''up'' ''a'' (1::nat), Call ''s'' ''up'' ''b'' 2, SendCall 1, SendCall 0, ToServer, ToServer, Done 0, ToClient]
        (new_net (Some [''s'' \<mapsto> [''up'' \<mapsto> (\<lambda>q. Some (q @ q))]])) = Inr n
     \<and> completed (client n) = [(2, 2, Some ''bb'')] \<and> distinct (map fst (completed (client n)))"
proof -
  let ?es = "[Call ''s'' ''up'' ''a'' (1::nat), Call ''s'' ''up'' ''b'' 2, SendCall 1, SendCall 0, ToServer, ToServer, Done 0, ToClient]"
  let ?ss = "Some [''s'' \<mapsto> [''up'' \<mapsto> (\<lambda>q. Some (q @ q))]]"
  obtain n where n: "rpc_run ?es (new_net ?ss) = Inr n" "distinct (map fst (completed (client n)))"
    using rpc_matches_calls [of ?es ?ss] by auto
  have "\<exists>n. rpc_run ?es (new_net ?ss) = Inr n \<and> completed (client n) = [(2, 2, Some ''bb'')]"
    by (simp add: new_net_def newRpcChannel_def CallMethod_register_def CallMethod_send_def Let_def codec_put_def onRpcMessage_def onRequest_def onResponse_def
        c_assert_def take_outbox_def doneCallback_def response_message_def)
  with n show ?thesis by auto
qed

end
