(* ===== verification/Monitor.thy ===== *)
theory Monitor
  imports Prelude
begin

text \<open>
  Queues shared by threads, with a mutex and the two conditions \<open>notEmpty\<close> and \<open>notFull\<close>: \<open>muduo/base/BlockingQueue.h\<close>,
  \<open>BoundedBlockingQueue.h\<close>, and the frame for \<open>ThreadPool.cc\<close>; and \<open>CountDownLatch.cc\<close>.

  A critical section runs from the locking of the mutex, or the return of a wait, to the next wait or the unlocking; the mutex makes sections
  atomic. \<open>put_section\<close> and \<open>take_section\<close> are the sections of a class. A run is a sequence of sections of any threads; a thread
  that waits goes on when it is notified or spuriously. \<open>notify\<close> wakes one waiting thread, which one is part of the event.
\<close>

section \<open>Threads\<close>

datatype 'x put_result = PutWaits | PutDone "'x list" | PutRefused

datatype 'x take_result = TakeWaits | TakeGot 'x "'x list" bool | TakeNothing

text \<open>The flag of \<open>TakeGot\<close> says whether the section notifies \<open>notFull\<close>.\<close>

record 'x sections =
  put_section :: "bool \<Rightarrow> 'x \<Rightarrow> 'x list \<Rightarrow> 'x put_result res"
  take_section :: "bool \<Rightarrow> 'x list \<Rightarrow> 'x take_result res"

datatype 'x pc = Idle | Putting 'x | PutWait 'x | Taking | TakeWait

record 'x monitor =
  running :: bool
  items :: "'x list"
  pcs :: "nat \<Rightarrow> 'x pc"
  accepted_items :: "'x list"
  taken :: "'x list"

datatype 'x mon_event = CallPut nat 'x | CallTake nat | Enter nat nat | Spurious nat | Halt

definition new_monitor :: "'x monitor" where
  "new_monitor = \<lparr>running = True, items = [], pcs = (\<lambda>_. Idle), accepted_items = [], taken = []\<rparr>"

fun wake :: "'x pc \<Rightarrow> 'x pc" where
  "wake (PutWait x) = Putting x"
| "wake TakeWait = Taking"
| "wake p = p"

fun put_waits :: "'x pc \<Rightarrow> bool" where
  "put_waits (PutWait x) = True" | "put_waits p = False"

fun putting :: "'x pc \<Rightarrow> bool" where
  "putting (Putting x) = True" | "putting p = False"

definition set_thread :: "nat \<Rightarrow> 'x pc \<Rightarrow> 'x monitor \<Rightarrow> 'x monitor" where
  "set_thread t p s = s\<lparr>pcs := (pcs s)(t := p)\<rparr>"

text \<open>\<open>notify\<close> with the choice \<open>w\<close>: \<open>w\<close> waits for the condition, or nobody does.\<close>

definition notified :: "('x pc \<Rightarrow> bool) \<Rightarrow> nat \<Rightarrow> 'x monitor \<Rightarrow> 'x monitor \<Rightarrow> bool" where
  "notified waits w s s' \<longleftrightarrow>
     (if \<exists>t. waits (pcs s t) then waits (pcs s w) \<and> s' = set_thread w (wake (pcs s w)) s else s' = s)"

text \<open>
  The steps. \<open>run\<close> and \<open>put\<close> are called at any time, \<open>take\<close> only while the pool is running (the loop of its threads).
  A failed assertion is the step to \<open>Inl\<close>.
\<close>

inductive mon_step :: "'x sections \<Rightarrow> 'x monitor \<Rightarrow> 'x mon_event \<Rightarrow> 'x monitor res \<Rightarrow> bool" for S where
  call_put: "pcs s t = Idle \<Longrightarrow> mon_step S s (CallPut t x) (Inr (set_thread t (Putting x) s))"
| call_take: "pcs s t = Idle \<Longrightarrow> running s \<Longrightarrow> mon_step S s (CallTake t) (Inr (set_thread t Taking s))"
| put_fault: "pcs s t = Putting x \<Longrightarrow> put_section S (running s) x (items s) = Inl e \<Longrightarrow> mon_step S s (Enter t w) (Inl e)"
| put_wait: "pcs s t = Putting x \<Longrightarrow> put_section S (running s) x (items s) = Inr PutWaits \<Longrightarrow>
    mon_step S s (Enter t w) (Inr (set_thread t (PutWait x) s))"
| put_done: "pcs s t = Putting x \<Longrightarrow> put_section S (running s) x (items s) = Inr (PutDone q) \<Longrightarrow>
    notified (\<lambda>p. p = TakeWait) w ((set_thread t Idle s)\<lparr>items := q, accepted_items := accepted_items s @ [x]\<rparr>) s' \<Longrightarrow>
    mon_step S s (Enter t w) (Inr s')"
| put_refused: "pcs s t = Putting x \<Longrightarrow> put_section S (running s) x (items s) = Inr PutRefused \<Longrightarrow>
    mon_step S s (Enter t w) (Inr (set_thread t Idle s))"
| take_fault: "pcs s t = Taking \<Longrightarrow> take_section S (running s) (items s) = Inl e \<Longrightarrow> mon_step S s (Enter t w) (Inl e)"
| take_wait: "pcs s t = Taking \<Longrightarrow> take_section S (running s) (items s) = Inr TakeWaits \<Longrightarrow>
    mon_step S s (Enter t w) (Inr (set_thread t TakeWait s))"
| take_got: "pcs s t = Taking \<Longrightarrow> take_section S (running s) (items s) = Inr (TakeGot x q n) \<Longrightarrow>
    s1 = (set_thread t Idle s)\<lparr>items := q, taken := taken s @ [x]\<rparr> \<Longrightarrow>
    (if n then notified put_waits w s1 s' else s' = s1) \<Longrightarrow> mon_step S s (Enter t w) (Inr s')"
| take_nothing: "pcs s t = Taking \<Longrightarrow> take_section S (running s) (items s) = Inr TakeNothing \<Longrightarrow>
    mon_step S s (Enter t w) (Inr (set_thread t Idle s))"
| spurious: "mon_step S s (Spurious t) (Inr (set_thread t (wake (pcs s t)) s))"
| halt: "mon_step S s Halt (Inr (s\<lparr>running := False, pcs := wake \<circ> pcs s\<rparr>))"

inductive mon_reach :: "'x sections \<Rightarrow> 'x monitor \<Rightarrow> 'x mon_event list \<Rightarrow> 'x monitor \<Rightarrow> bool" for S where
  mon_start: "mon_reach S s [] s"
| mon_next: "mon_reach S s es s1 \<Longrightarrow> mon_step S s1 e (Inr s2) \<Longrightarrow> mon_reach S s (es @ [e]) s2"

inductive_cases mon_step_cases: "mon_step S s e r"

section \<open>The contract of a queue\<close>

text \<open>
  \<open>full\<close> is what \<open>put\<close> waits for. While running, \<open>put\<close> appends unless the queue is full, and \<open>take\<close> removes the first element, notifying \<open>notFull\<close>
  when the queue can be full at all; afterwards nobody waits. A full queue is not empty.
\<close>

definition active_putters :: "'x monitor \<Rightarrow> nat set" where
  "active_putters s = {t. putting (pcs s t)}"

definition active_takers :: "'x monitor \<Rightarrow> nat set" where
  "active_takers s = {t. pcs s t = Taking}"

definition mon_inv :: "nat option \<Rightarrow> 'x monitor \<Rightarrow> bool" where
  "mon_inv cap s \<longleftrightarrow> finite {t. pcs s t \<noteq> Idle} \<and> taken s @ items s = accepted_items s
     \<and> (case cap of None \<Rightarrow> \<forall>t. \<not> put_waits (pcs s t)
        | Some n \<Rightarrow> length (items s) \<le> n \<and> ((\<exists>t. put_waits (pcs s t)) \<longrightarrow> n \<le> length (items s) + card (active_putters s)))
     \<and> ((\<exists>t. pcs s t = TakeWait) \<longrightarrow> length (items s) \<le> card (active_takers s))
     \<and> (\<not> running s \<longrightarrow> (\<forall>t. \<not> put_waits (pcs s t) \<and> pcs s t \<noteq> TakeWait))"

definition at_limit :: "nat option \<Rightarrow> 'x list \<Rightarrow> bool" where
  "at_limit cap q \<longleftrightarrow> (case cap of None \<Rightarrow> False | Some n \<Rightarrow> length q \<ge> n)"

text \<open>How a step of one thread changes the sets of active threads.\<close>

lemma set_thread_simps [simp]:
  "pcs (set_thread t p s) = (pcs s)(t := p)" "items (set_thread t p s) = items s" "running (set_thread t p s) = running s"
  "accepted_items (set_thread t p s) = accepted_items s" "taken (set_thread t p s) = taken s"
  by (simp_all add: set_thread_def)

lemma finite_threads:
  "finite {t. pcs s t \<noteq> Idle} \<Longrightarrow> finite (active_putters s)" "finite {t. pcs s t \<noteq> Idle} \<Longrightarrow> finite (active_takers s)"
  "finite {t. pcs s t \<noteq> Idle} \<Longrightarrow> finite {t'. ((pcs s)(t := p)) t' \<noteq> Idle}"
proof -
  assume f: "finite {t. pcs s t \<noteq> Idle}"
  show "finite (active_putters s)" "finite (active_takers s)"
    unfolding active_putters_def active_takers_def by (rule finite_subset [OF _ f], auto)+
  have "{t'. ((pcs s)(t := p)) t' \<noteq> Idle} \<subseteq> insert t {t. pcs s t \<noteq> Idle}" by auto
  then show "finite {t'. ((pcs s)(t := p)) t' \<noteq> Idle}" using f finite_subset by blast
qed

lemma active_upd:
  "pcs s' = (pcs s)(t := p) \<Longrightarrow> active_takers s' = (if p = Taking then insert t (active_takers s) else active_takers s - {t})"
  "pcs s' = (pcs s)(t := p) \<Longrightarrow> active_putters s' = (if putting p then insert t (active_putters s) else active_putters s - {t})"
  by (auto simp: active_takers_def active_putters_def)

lemma wake_facts [simp]: "wake p \<noteq> TakeWait" "\<not> put_waits (wake p)" "wake p = Idle \<longleftrightarrow> p = Idle"
  "wake p = Taking \<longleftrightarrow> p = Taking \<or> p = TakeWait" "putting (wake p) \<longleftrightarrow> putting p \<or> put_waits p"
  by (cases p; simp)+

lemma mon_inv_more_active:
  assumes "mon_inv cap s" "pcs s' = (pcs s)(t := p)" "items s' = items s" "taken s' = taken s"
    "accepted_items s' = accepted_items s" "running s' = running s" "\<not> put_waits p" "p \<noteq> TakeWait"
    "active_putters s \<subseteq> active_putters s'" "active_takers s \<subseteq> active_takers s'"
  shows "mon_inv cap s'"
proof -
  have fin: "finite {u. pcs s u \<noteq> Idle}" using assms(1) by (simp add: mon_inv_def)
  have fin': "finite {u. pcs s' u \<noteq> Idle}" using finite_threads(3) [OF fin, of t p] assms(2) by simp
  have "card (active_putters s) \<le> card (active_putters s')" "card (active_takers s) \<le> card (active_takers s')"
    using assms(9,10) finite_threads(1,2) [OF fin'] card_mono by blast+
  moreover have "put_waits (pcs s' u) \<Longrightarrow> put_waits (pcs s u)" "pcs s' u = TakeWait \<Longrightarrow> pcs s u = TakeWait" for u
    using assms(2,7,8) by (auto split: if_splits)
  ultimately show ?thesis
    using assms(1,3-6) fin' unfolding mon_inv_def by (cases cap) (fastforce intro: order_trans)+
qed

definition within_limit :: "nat option \<Rightarrow> 'x list \<Rightarrow> bool" where
  "within_limit cap q \<longleftrightarrow> (case cap of None \<Rightarrow> True | Some n \<Rightarrow> length q \<le> n)"

lemma mon_inv_limit: "mon_inv cap s \<Longrightarrow> within_limit cap (items s)"
  by (simp add: mon_inv_def within_limit_def split: option.splits)

locale shared_queue =
  fixes S :: "'x sections"
    and cap :: "nat option"
    and nf :: bool
    and stoppable :: bool
  assumes positive: "cap \<noteq> Some 0"
    and put_law: "r \<or> stoppable \<Longrightarrow> within_limit cap q \<Longrightarrow> put_section S r x q =
      Inr (if at_limit cap q \<and> r then PutWaits else if r then PutDone (q @ [x]) else PutRefused)"
    and take_empty: "r \<or> stoppable \<Longrightarrow> take_section S r [] = Inr (if r then TakeWaits else TakeNothing)"
    and take_first: "r \<or> stoppable \<Longrightarrow> take_section S r (x # q) = Inr (TakeGot x q nf)"
    and notifies: "cap \<noteq> None \<Longrightarrow> nf"
begin

lemma take_law:
  "r \<or> stoppable \<Longrightarrow> take_section S r q = Inr res \<longleftrightarrow> res = (case q of [] \<Rightarrow> if r then TakeWaits else TakeNothing | x # q' \<Rightarrow> TakeGot x q' nf)"
  by (cases q) (auto simp: take_empty take_first)

text \<open>No assertion fails.\<close>

lemma no_fault:
  assumes live: "running s \<or> stoppable" and inv: "mon_inv cap s"
  shows "\<not> mon_step S s e (Inl f)"
proof
  assume "mon_step S s e (Inl f)"
  then show False
  proof (cases rule: mon_step.cases)
    case (put_fault t x w)
    then show False by (simp add: put_law [OF live mon_inv_limit [OF inv]])
  next
    case (take_fault t w)
    then show False by (cases "items s") (auto simp: take_empty [OF live] take_first [OF live])
  qed
qed

lemma put_done_inv:
  assumes "mon_inv cap s" "pcs s t = Putting x" "running s" "\<not> at_limit cap (items s)"
    "notified (\<lambda>p. p = TakeWait) w ((set_thread t Idle s)\<lparr>items := items s @ [x], accepted_items := accepted_items s @ [x]\<rparr>) s'"
  shows "mon_inv cap s'"
proof -
  let ?s = "(set_thread t Idle s)\<lparr>items := items s @ [x], accepted_items := accepted_items s @ [x]\<rparr>"
  have fin: "finite {t. pcs s t \<noteq> Idle}" using assms(1) by (simp add: mon_inv_def)
  have t: "t \<in> active_putters s" "t \<notin> active_takers s" using assms(2) by (simp_all add: active_putters_def active_takers_def)
  have P: "active_putters ?s = active_putters s - {t}" "active_takers ?s = active_takers s"
    using t(2) by (simp_all add: active_upd [of ?s s t Idle])
  have card: "card (active_putters s) = Suc (card (active_putters ?s))"
    using t(1) finite_threads(1) [OF fin] P(1) by (metis card.remove)
  have base: "finite {t. pcs ?s t \<noteq> Idle}" using finite_threads(3) [OF fin] by simp
  show ?thesis
  proof (cases "\<exists>u. pcs ?s u = TakeWait")
    case True
    then have w: "pcs ?s w = TakeWait" "s' = set_thread w Taking ?s" using assms(5) by (simp_all add: notified_def del: fun_upd_apply)
    then have A: "active_takers s' = insert w (active_takers s)" "w \<notin> active_takers s" "active_putters s' = active_putters ?s"
      using P active_upd [of s' ?s w Taking] by (auto simp: active_takers_def active_putters_def split: if_splits)
    have "pcs s w = TakeWait" using w(1) by (simp split: if_splits)
    with A w fin finite_threads(2) [OF fin] finite_threads(3) [OF base, of w Taking] card assms(1,3,4) show ?thesis
      by (auto simp: mon_inv_def at_limit_def split: option.splits if_splits)
  next
    case False
    then have "s' = ?s" using assms(5) by (simp add: notified_def)
    with False card P base assms(1,3,4) show ?thesis
      by (auto simp: mon_inv_def at_limit_def split: option.splits if_splits)
  qed
qed

lemma take_got_inv:
  assumes "mon_inv cap s" "pcs s t = Taking" "items s = x # q"
    "if nf then notified put_waits w ((set_thread t Idle s)\<lparr>items := q, taken := taken s @ [x]\<rparr>) s'
     else s' = (set_thread t Idle s)\<lparr>items := q, taken := taken s @ [x]\<rparr>"
  shows "mon_inv cap s'"
proof -
  let ?s = "(set_thread t Idle s)\<lparr>items := q, taken := taken s @ [x]\<rparr>"
  have fin: "finite {t. pcs s t \<noteq> Idle}" using assms(1) by (simp add: mon_inv_def)
  have t: "t \<notin> active_putters s" "t \<in> active_takers s" using assms(2) by (simp_all add: active_putters_def active_takers_def)
  have P: "active_putters ?s = active_putters s" "active_takers ?s = active_takers s - {t}"
    using t(1) by (simp_all add: active_upd [of ?s s t Idle])
  have card: "card (active_takers s) = Suc (card (active_takers ?s))"
    using t(2) finite_threads(2) [OF fin] P(2) by (metis card.remove)
  have base: "finite {t. pcs ?s t \<noteq> Idle}" using finite_threads(3) [OF fin] by simp
  show ?thesis
  proof (cases "nf \<and> (\<exists>u. put_waits (pcs ?s u))")
    case True
    then have w: "put_waits (pcs ?s w)" "s' = set_thread w (wake (pcs ?s w)) ?s" using assms(4) by (simp_all add: notified_def del: fun_upd_apply)
    then have "pcs s' = (pcs ?s)(w := wake (pcs ?s w))" by simp
    note upd = active_upd [OF this]
    have wt: "w \<noteq> t" "put_waits (pcs s w)" using w(1) by (auto split: if_splits)
    then have A: "active_putters s' = insert w (active_putters s)" "w \<notin> active_putters s" "active_takers s' = active_takers ?s"
      using P upd by (cases "pcs s w"; auto simp: active_takers_def active_putters_def)+
    have fin': "finite {u. pcs s' u \<noteq> Idle}" using finite_threads(3) [OF base, of w "wake (pcs ?s w)"] w(2) by simp
    have others: "\<exists>u. put_waits (pcs s' u) \<Longrightarrow> \<exists>u. put_waits (pcs s u)" "\<exists>u. pcs s' u = TakeWait \<Longrightarrow> \<exists>u. pcs s u = TakeWait"
      using wt(2) w(2) by (auto split: if_splits)
    have frame: "items s' = q" "running s' = running s" "accepted_items s' = accepted_items s" "taken s' = taken s @ [x]"
      using w(2) by simp_all
    have "running s" using assms(1) wt(2) by (auto simp: mon_inv_def)
    with A fin' others frame card finite_threads(1) [OF fin] assms(1,3) wt(2) show ?thesis
      unfolding mon_inv_def by (auto split: option.splits)
  next
    case False
    then have s': "s' = ?s" using assms(4) by (auto simp: notified_def split: if_splits)
    have "u \<noteq> t" if "put_waits (pcs s u)" for u using that assms(2) by auto
    then have "cap = None \<or> (\<nexists>u. put_waits (pcs s u))"
      using False notifies by (cases cap) (auto dest: spec split: if_splits)
    with s' card P base assms(1-3) show ?thesis
      by (auto simp: mon_inv_def split: option.splits if_splits)
  qed
qed

lemma step_inv:
  assumes "mon_step S s e (Inr s')" and inv: "mon_inv cap s" and live: "running s \<or> stoppable"
  shows "mon_inv cap s'"
  using assms(1)
proof (cases rule: mon_step.cases)
  case (call_put t x)
  show ?thesis
    by (rule mon_inv_more_active [OF assms(2), of s' t "Putting x"]) (use call_put in \<open>auto simp: active_putters_def active_takers_def\<close>)
next
  case (call_take t)
  show ?thesis
    by (rule mon_inv_more_active [OF assms(2), of s' t Taking]) (use call_take in \<open>auto simp: active_putters_def active_takers_def\<close>)
next
  case (put_wait t x w)
  then have full: "at_limit cap (items s)" "running s" by (auto simp: put_law [OF live mon_inv_limit [OF inv]] split: if_splits)
  from put_wait have "pcs s' = (pcs s)(t := PutWait x)" by simp
  from active_upd [OF this] put_wait full assms(2) finite_threads [of s] show ?thesis
    by (auto simp: mon_inv_def at_limit_def active_takers_def split: option.splits if_splits)
next
  case (put_done t x q w)
  then have "running s" "\<not> at_limit cap (items s)" "q = items s @ [x]" by (auto simp: put_law [OF live mon_inv_limit [OF inv]] split: if_splits)
  with put_done_inv [OF assms(2)] put_done show ?thesis by simp
next
  case (put_refused t x w)
  then have "\<not> running s" by (auto simp: put_law [OF live mon_inv_limit [OF inv]] split: if_splits)
  with put_refused assms(2) finite_threads [of s] show ?thesis
    by (auto simp: mon_inv_def split: option.splits if_splits)
next
  case (take_wait t w)
  then have "items s = []" "running s" by (auto simp: take_law [OF live] split: list.splits if_splits)
  with take_wait assms(2) finite_threads [of s] active_upd [of s' s t TakeWait] show ?thesis
    by (auto simp: mon_inv_def active_putters_def split: option.splits if_splits)
next
  case (take_got t x q n s1 w)
  then have "items s = x # q" "n = nf" by (auto simp: take_law [OF live] split: list.splits if_splits)
  with take_got_inv [OF assms(2), of t x q w s'] take_got show ?thesis by (cases nf) simp_all
next
  case (take_nothing t w)
  then have "\<not> running s" by (auto simp: take_law [OF live] split: list.splits if_splits)
  with take_nothing assms(2) finite_threads [of s] show ?thesis
    by (auto simp: mon_inv_def split: option.splits if_splits)
next
  case (spurious t)
  show ?thesis
    by (rule mon_inv_more_active [OF assms(2), of s' t "wake (pcs s t)"])
       (use spurious in \<open>auto simp: active_putters_def active_takers_def\<close>)
next
  case halt
  then show ?thesis using assms(2) by (auto simp: mon_inv_def split: option.splits)
qed

lemma step_running: "mon_step S s e (Inr s') \<Longrightarrow> running s' \<longleftrightarrow> running s \<and> e \<noteq> Halt"
  by (erule mon_step.cases) (auto simp: notified_def split: if_splits)

lemma reach_running: "mon_reach S new_monitor es s \<Longrightarrow> running s \<longleftrightarrow> Halt \<notin> set es"
  by (induction "new_monitor :: 'x monitor" es s rule: mon_reach.induct) (auto simp: new_monitor_def dest: step_running)

lemma reach_inv: "mon_reach S new_monitor es s \<Longrightarrow> Halt \<notin> set es \<or> stoppable \<Longrightarrow> mon_inv cap s"
proof (induction "new_monitor :: 'x monitor" es s rule: mon_reach.induct)
  case mon_start
  then show ?case by (simp add: mon_inv_def new_monitor_def split: option.split)
next
  case (mon_next es s1 e s2)
  then show ?case using step_inv [OF mon_next(3)] reach_running [OF mon_next(1)] by auto
qed

text \<open>What the invariant gives: order, bounds, and nobody sleeps through his condition.\<close>

lemma queue_correct:
  assumes "mon_reach S new_monitor es s" "Halt \<notin> set es \<or> stoppable"
  shows "taken s @ items s = accepted_items s"
    and "cap = Some n \<Longrightarrow> length (items s) \<le> n"
    and "\<forall>t. pcs s t \<noteq> Taking \<Longrightarrow> pcs s u = TakeWait \<Longrightarrow> running s \<and> items s = []"
    and "\<forall>t. \<not> putting (pcs s t) \<Longrightarrow> put_waits (pcs s u) \<Longrightarrow> running s \<and> at_limit cap (items s)"
    and "\<not> mon_step S s e (Inl f)"
    and "\<not> running s \<Longrightarrow> pcs s u \<noteq> TakeWait \<and> \<not> put_waits (pcs s u)"
    and "\<forall>t. pcs s t = Idle \<or> pcs s t = TakeWait \<or> put_waits (pcs s t) \<Longrightarrow> pcs s u = TakeWait \<Longrightarrow> \<not> put_waits (pcs s v)"
proof -
  have inv: "mon_inv cap s" using reach_inv [OF assms] .
  show "\<not> mon_step S s e (Inl f)" using no_fault [OF _ inv] reach_running [OF assms(1)] assms(2) by blast
  show "pcs s u \<noteq> TakeWait \<and> \<not> put_waits (pcs s u)" if "\<not> running s" using inv that by (simp add: mon_inv_def)
  show "taken s @ items s = accepted_items s" using inv by (simp add: mon_inv_def)
  show "cap = Some n \<Longrightarrow> length (items s) \<le> n" using inv by (simp add: mon_inv_def)
  show empty: "running s \<and> items s = []" if "\<forall>t. pcs s t \<noteq> Taking" "pcs s u = TakeWait"
    using inv that by (auto simp: mon_inv_def active_takers_def)
  show full: "running s \<and> at_limit cap (items s)" if "\<forall>t. \<not> putting (pcs s t)" "put_waits (pcs s u)" for u
  proof -
    have "active_putters s = {}" using that(1) by (simp add: active_putters_def)
    with inv that(2) show ?thesis by (cases cap) (auto simp: mon_inv_def at_limit_def)
  qed
  show "\<not> put_waits (pcs s v)" if "\<forall>t. pcs s t = Idle \<or> pcs s t = TakeWait \<or> put_waits (pcs s t)" "pcs s u = TakeWait"
  proof
    assume v: "put_waits (pcs s v)"
    have "\<not> putting (pcs s t) \<and> pcs s t \<noteq> Taking" for t using that(1) by (cases "pcs s t") (auto dest: spec [of _ t])
    with full [OF _ v] inv that(2) positive show False
      by (auto simp: mon_inv_def active_takers_def at_limit_def split: option.splits)
  qed
qed

text \<open>After the stop, when no thread is in \<open>take\<close>, nothing more is taken.\<close>

lemma halted_step:
  assumes "mon_step S s e (Inr s')" "mon_inv cap s" "stoppable" "\<not> running s" "\<forall>t. pcs s t \<noteq> Taking"
  shows "taken s' = taken s \<and> items s' = items s \<and> (\<forall>t. pcs s' t \<noteq> Taking)"
  using assms(1)
proof (cases rule: mon_step.cases)
  case (put_done t x q w)
  then show ?thesis using assms(3,4) put_law [OF _ mon_inv_limit [OF assms(2)], of "running s" x] by simp
next
  case (spurious t)
  then show ?thesis using assms(2,4,5) by (auto simp: mon_inv_def)
next
  case halt
  then show ?thesis using assms(2,4,5) by (auto simp: mon_inv_def)
qed (use assms(4,5) in auto)

lemma halted_run:
  assumes "mon_reach S s es s'" "mon_inv cap s" "stoppable" "\<not> running s" "\<forall>t. pcs s t \<noteq> Taking"
  shows "taken s' = taken s \<and> items s' = items s"
proof -
  have "mon_inv cap s' \<and> \<not> running s' \<and> taken s' = taken s \<and> items s' = items s \<and> (\<forall>t. pcs s' t \<noteq> Taking)"
    using assms(1,2,4,5)
  proof (induction rule: mon_reach.induct)
    case (mon_next s es s1 e s2)
    then show ?case using halted_step [OF mon_next(2)] step_inv [OF mon_next(2)] step_running [OF mon_next(2)] assms(3) by simp
  qed simp
  then show ?thesis by blast
qed

end

end
