(* ===== verification/BlockingQueues.thy ===== *)
theory BlockingQueues
  imports Monitor
begin

text \<open>
  The two queues (\<open>muduo/base/BlockingQueue.h\<close>, \<open>BoundedBlockingQueue.h\<close>) as instances of the contract of a shared queue, and the latch
  (\<open>CountDownLatch.cc\<close>). The circular buffer of the bounded queue holds at most its capacity; it is full when it holds that many.
\<close>

section \<open>The unbounded queue\<close>

definition BlockingQueue_put :: "bool \<Rightarrow> 'x \<Rightarrow> 'x list \<Rightarrow> 'x put_result res" where
  "BlockingQueue_put r x queue = Inr (PutDone (queue @ [x]))"

definition BlockingQueue_take :: "bool \<Rightarrow> 'x list \<Rightarrow> 'x take_result res" where
  "BlockingQueue_take r queue =
     (if queue = [] then Inr TakeWaits else c_assert (queue \<noteq> []) (Inr (TakeGot (hd queue) (tl queue) False)))"

text \<open>\<open>drain\<close> moves the whole queue out: what it returns and what stays.\<close>

definition BlockingQueue_drain :: "'x list \<Rightarrow> ('x list \<times> 'x list) res" where
  "BlockingQueue_drain queue = (let (out, left) = (queue, []) in c_assert (left = []) (Inr (out, left)))"

definition blocking_sections :: "'x sections" where
  "blocking_sections = \<lparr>put_section = BlockingQueue_put, take_section = BlockingQueue_take\<rparr>"

interpretation unbounded: shared_queue blocking_sections None False False
  by unfold_locales (simp_all add: blocking_sections_def BlockingQueue_put_def BlockingQueue_take_def at_limit_def)

section \<open>The bounded queue\<close>

definition queue_full :: "nat \<Rightarrow> 'x list \<Rightarrow> bool" where
  "queue_full maxSize queue \<longleftrightarrow> length queue = maxSize"

definition BoundedBlockingQueue_put :: "nat \<Rightarrow> bool \<Rightarrow> 'x \<Rightarrow> 'x list \<Rightarrow> 'x put_result res" where
  "BoundedBlockingQueue_put maxSize r x queue =
     (if queue_full maxSize queue then Inr PutWaits
      else c_assert (\<not> queue_full maxSize queue) (Inr (PutDone (queue @ [x]))))"

definition BoundedBlockingQueue_take :: "nat \<Rightarrow> bool \<Rightarrow> 'x list \<Rightarrow> 'x take_result res" where
  "BoundedBlockingQueue_take maxSize r queue =
     (if queue = [] then Inr TakeWaits else c_assert (queue \<noteq> []) (Inr (TakeGot (hd queue) (tl queue) True)))"

definition bounded_sections :: "nat \<Rightarrow> 'x sections" where
  "bounded_sections maxSize =
     \<lparr>put_section = BoundedBlockingQueue_put maxSize, take_section = BoundedBlockingQueue_take maxSize\<rparr>"

interpretation bounded: shared_queue "bounded_sections (Suc n)" "Some (Suc n)" True False for n
  by unfold_locales
     (auto simp: bounded_sections_def BoundedBlockingQueue_put_def BoundedBlockingQueue_take_def queue_full_def at_limit_def
       within_limit_def)

text \<open>
  C18. The bounded queue. Under every interleaving of putting and taking threads, with every choice of the thread a notification wakes and with spurious
  wake-ups: no assertion fails, elements are taken in the order they were put, each once, never more than the capacity are held, and when
  no thread is about to run, a thread waits for an element only while there is none, and to put one only while the queue is full; so
  they never wait for each other.
\<close>

theorem bounded_queue_correct:
  assumes "0 < maxSize" "mon_reach (bounded_sections maxSize) new_monitor es s" "Halt \<notin> set es"
  shows "(\<forall>e f. \<not> mon_step (bounded_sections maxSize) s e (Inl f))
    \<and> taken s @ items s = accepted_items s \<and> length (items s) \<le> maxSize
    \<and> ((\<forall>t. pcs s t = Idle \<or> pcs s t = TakeWait \<or> put_waits (pcs s t)) \<longrightarrow>
        ((\<exists>t. pcs s t = TakeWait) \<longrightarrow> items s = []) \<and> ((\<exists>t. put_waits (pcs s t)) \<longrightarrow> length (items s) = maxSize)
        \<and> \<not> ((\<exists>t. pcs s t = TakeWait) \<and> (\<exists>t. put_waits (pcs s t))))"
proof -
  obtain n where n: "maxSize = Suc n" using assms(1) by (cases maxSize) auto
  have r: "mon_reach (bounded_sections (Suc n)) new_monitor es s" using assms(2) n by simp
  note ok = bounded.queue_correct [OF r disjI1 [OF assms(3)]]
  have still: "pcs s t \<noteq> Taking \<and> \<not> putting (pcs s t)" if "\<forall>t. pcs s t = Idle \<or> pcs s t = TakeWait \<or> put_waits (pcs s t)" for t
    using that [rule_format, of t] by (cases "pcs s t") auto
  have len: "length (items s) \<le> Suc n" using ok(2) by simp
  have "items s = []" if "\<forall>t. pcs s t \<noteq> Taking" "pcs s u = TakeWait" for u using ok(3) [OF that] by simp
  moreover have "length (items s) = Suc n" if "\<forall>t. \<not> putting (pcs s t)" "put_waits (pcs s u)" for u
    using ok(4) [OF that] len by (simp add: at_limit_def)
  ultimately show ?thesis using ok(1,5) len still unfolding n by fastforce
qed

theorem bounded_queue_correct_witness:
  "\<exists>s :: nat monitor. mon_reach (bounded_sections 1) new_monitor [CallPut 0 7, Enter 0 0, CallPut 1 8, Enter 1 0] s
    \<and> put_waits (pcs s 1) \<and> length (items s) = 1"
proof -
  let ?s0 = "new_monitor :: nat monitor"
  let ?s1 = "set_thread 0 (Putting 7) ?s0"
  let ?s2 = "(set_thread 0 Idle ?s1)\<lparr>items := [7], accepted_items := [7]\<rparr>"
  let ?s3 = "set_thread 1 (Putting 8) ?s2"
  let ?s4 = "set_thread 1 (PutWait 8) ?s3"
  note defs = new_monitor_def bounded_sections_def BoundedBlockingQueue_put_def queue_full_def
  have step1: "mon_step (bounded_sections 1) ?s0 (CallPut 0 7) (Inr ?s1)" by (rule call_put) (simp add: defs)
  have step2: "mon_step (bounded_sections 1) ?s1 (Enter 0 0) (Inr ?s2)"
    by (rule put_done [where x = 7 and q = "[7]"]) (simp_all add: defs notified_def)
  have step3: "mon_step (bounded_sections 1) ?s2 (CallPut 1 8) (Inr ?s3)" by (rule call_put) (simp add: defs)
  have step4: "mon_step (bounded_sections 1) ?s3 (Enter 1 0) (Inr ?s4)" by (rule put_wait) (simp_all add: defs)
  have r: "mon_reach (bounded_sections 1) ?s0 [CallPut 0 7, Enter 0 0, CallPut 1 8, Enter 1 0] ?s4"
    using mon_next [OF mon_next [OF mon_next [OF mon_next [OF mon_start step1] step2] step3] step4] by simp
  have w: "put_waits (pcs ?s4 1)" by simp
  have "\<forall>t. pcs ?s4 t = Idle \<or> pcs ?s4 t = TakeWait \<or> put_waits (pcs ?s4 t)" by (simp add: new_monitor_def)
  moreover have "Halt \<notin> set [CallPut 0 (7::nat), Enter 0 0, CallPut 1 8, Enter 1 0]" by simp
  ultimately have "length (items ?s4) = 1" using bounded_queue_correct [OF zero_less_one r] w by blast
  with r w show ?thesis by blast
qed

section \<open>The latch\<close>

datatype latch_pc = LOutside | LReady | LAsleep | LReturned

record latch =
  latch_count :: int
  latch_pcs :: "nat \<Rightarrow> latch_pc"

definition newCountDownLatch :: "int \<Rightarrow> latch" where
  "newCountDownLatch n = \<lparr>latch_count = n, latch_pcs = (\<lambda>_. LOutside)\<rparr>"

text \<open>The section of \<open>wait\<close>: entered by a call or after a wake-up.\<close>

definition latch_wait :: "nat \<Rightarrow> latch \<Rightarrow> latch" where
  "latch_wait t l = l\<lparr>latch_pcs := (latch_pcs l)(t := if latch_count l > 0 then LAsleep else LReturned)\<rparr>"

definition countDown :: "latch \<Rightarrow> latch" where
  "countDown l =
     (let l1 = l\<lparr>latch_count := latch_count l - 1\<rparr>
      in if latch_count l1 = 0 then l1\<lparr>latch_pcs := (\<lambda>t. if latch_pcs l1 t = LAsleep then LReady else latch_pcs l1 t)\<rparr> else l1)"

definition getCount :: "latch \<Rightarrow> int" where
  "getCount l = latch_count l"

datatype latch_event = LWait nat | LCountDown | LSpurious nat

fun latch_step :: "latch_event \<Rightarrow> latch \<Rightarrow> latch" where
  "latch_step (LWait t) l = (if latch_pcs l t = LOutside \<or> latch_pcs l t = LReady then latch_wait t l else l)"
| "latch_step LCountDown l = countDown l"
| "latch_step (LSpurious t) l = (if latch_pcs l t = LAsleep then l\<lparr>latch_pcs := (latch_pcs l)(t := LReady)\<rparr> else l)"

definition latch_inv :: "latch \<Rightarrow> bool" where
  "latch_inv l \<longleftrightarrow> (\<forall>t. latch_pcs l t = LAsleep \<longrightarrow> 0 < latch_count l) \<and> (\<forall>t. latch_pcs l t = LReturned \<longrightarrow> latch_count l \<le> 0)"

lemma latch_step_inv: "latch_inv l \<Longrightarrow> latch_inv (latch_step e l)"
  by (cases e) (auto simp: latch_inv_def latch_wait_def countDown_def Let_def dest: spec)

lemma latch_step_count: "latch_count (latch_step e l) = latch_count l - (if e = LCountDown then 1 else 0)"
  by (cases e) (auto simp: latch_wait_def countDown_def Let_def)

text \<open>
  C6. The latch. Whatever the order of waits, count-downs and spurious wake-ups, nobody returns from \<open>wait\<close> before the latch
  has been counted down as often as it was set to, and from then on nobody sleeps.
\<close>

theorem latch_releases:
  "let l = fold latch_step es (newCountDownLatch n) in
     getCount l = n - int (count_list es LCountDown)
     \<and> (int (count_list es LCountDown) < n \<longrightarrow> (\<forall>t. latch_pcs l t \<noteq> LReturned))
     \<and> (n \<le> int (count_list es LCountDown) \<longrightarrow> (\<forall>t. latch_pcs l t \<noteq> LAsleep))"
proof -
  have "latch_inv (fold latch_step es l) \<and> latch_count (fold latch_step es l) = latch_count l - int (count_list es LCountDown)"
    if "latch_inv l" for l
    using that by (induction es arbitrary: l) (auto simp: latch_step_inv latch_step_count)
  from this [of "newCountDownLatch n"] show ?thesis
    by (fastforce simp: newCountDownLatch_def latch_inv_def getCount_def Let_def)
qed

theorem latch_releases_witness:
  "\<forall>t. latch_pcs (fold latch_step [LWait 0, LCountDown, LWait 1, LCountDown] (newCountDownLatch 2)) t \<noteq> LAsleep"
  using latch_releases [of "[LWait 0, LCountDown, LWait 1, LCountDown]" 2] by (simp add: Let_def)

end
