(* ===== verification/ThreadPool.thy ===== *)
theory ThreadPool
  imports Monitor
begin

text \<open>
  The thread pool (\<open>muduo/base/ThreadPool.h\<close>, \<open>ThreadPool.cc\<close>). Its mutex, its two conditions and its queue of tasks are a shared queue
  that can be stopped; a maximal size of 0 is no bound. A worker repeats \<open>take\<close> as long as the pool is running, and executes what it gets;
  so the tasks taken are the tasks started, in order. Tasks that throw abort the process and are not modelled further.
\<close>

section \<open>The pool\<close>

definition isFull :: "nat \<Rightarrow> 'x list \<Rightarrow> bool" where
  "isFull maxQueueSize queue \<longleftrightarrow> maxQueueSize > 0 \<and> length queue \<ge> maxQueueSize"

text \<open>The critical sections of \<open>run\<close>, when the pool has threads, and of \<open>take\<close>. An empty task is \<open>TakeNothing\<close>.\<close>

definition run_section :: "nat \<Rightarrow> bool \<Rightarrow> 'x \<Rightarrow> 'x list \<Rightarrow> 'x put_result res" where
  "run_section maxQueueSize is_running task queue =
     (if isFull maxQueueSize queue \<and> is_running then Inr PutWaits
      else if \<not> is_running then Inr PutRefused
      else c_assert (\<not> isFull maxQueueSize queue) (Inr (PutDone (queue @ [task]))))"

definition pool_take_section :: "nat \<Rightarrow> bool \<Rightarrow> 'x list \<Rightarrow> 'x take_result res" where
  "pool_take_section maxQueueSize is_running queue =
     (if queue = [] \<and> is_running then Inr TakeWaits
      else if queue \<noteq> [] then Inr (TakeGot (hd queue) (tl queue) (maxQueueSize > 0))
      else Inr TakeNothing)"

definition pool_sections :: "nat \<Rightarrow> 'x sections" where
  "pool_sections maxQueueSize = \<lparr>put_section = run_section maxQueueSize, take_section = pool_take_section maxQueueSize\<rparr>"

definition pool_limit :: "nat \<Rightarrow> nat option" where
  "pool_limit maxQueueSize = (if maxQueueSize = 0 then None else Some maxQueueSize)"

text \<open>\<open>start\<close> asserts that there are no threads yet and makes them, with their names; without any, \<open>run\<close> executes the task itself.\<close>

definition thread_names :: "string \<Rightarrow> nat \<Rightarrow> string list" where
  "thread_names name numThreads = map (\<lambda>i. name @ show_nat (i + 1)) [0..<numThreads]"

definition pool_start_threads :: "string \<Rightarrow> nat \<Rightarrow> string list \<Rightarrow> string list res" where
  "pool_start_threads name numThreads threads = c_assert (threads = []) (Inr (thread_names name numThreads))"

definition runs_itself :: "string list \<Rightarrow> bool" where
  "runs_itself threads \<longleftrightarrow> threads = []"

interpretation pool: shared_queue "pool_sections n" "pool_limit n" "n > 0" True for n
  by unfold_locales
     (auto simp: pool_sections_def run_section_def pool_take_section_def isFull_def at_limit_def pool_limit_def within_limit_def
       split: if_splits)

section \<open>Properties\<close>

text \<open>
  C19. The thread pool. Under every interleaving of callers of \<open>run\<close>, workers and \<open>stop\<close>: no assertion fails; the accepted tasks are started in order, each
  once; the queue keeps its bound; while the pool is running and no thread is about to run, workers wait only when there is no
  task and callers only when the queue is full; after \<open>stop\<close> nobody waits. Tasks still queued when all workers have left \<open>take\<close> after
  \<open>stop\<close> are never started.
\<close>

theorem thread_pool_correct:
  assumes "mon_reach (pool_sections maxQueueSize) new_monitor es s"
  shows "(\<forall>e f. \<not> mon_step (pool_sections maxQueueSize) s e (Inl f))
    \<and> taken s @ items s = accepted_items s \<and> (maxQueueSize > 0 \<longrightarrow> length (items s) \<le> maxQueueSize)
    \<and> ((\<forall>t. pcs s t \<noteq> Taking) \<longrightarrow> (\<exists>t. pcs s t = TakeWait) \<longrightarrow> items s = [])
    \<and> ((\<forall>t. \<not> putting (pcs s t)) \<longrightarrow> (\<exists>t. put_waits (pcs s t)) \<longrightarrow> isFull maxQueueSize (items s))
    \<and> (Halt \<in> set es \<longrightarrow> (\<forall>t. pcs s t \<noteq> TakeWait \<and> \<not> put_waits (pcs s t)))
    \<and> (Halt \<in> set es \<and> (\<forall>t. pcs s t \<noteq> Taking) \<longrightarrow>
        (\<forall>es' s'. mon_reach (pool_sections maxQueueSize) s es' s' \<longrightarrow> taken s' = taken s \<and> items s' = items s))"
proof -
  note ok = pool.queue_correct [OF assms disjI2 [OF TrueI]]
  have run: "running s \<longleftrightarrow> Halt \<notin> set es" using pool.reach_running [OF assms] .
  have inv: "mon_inv (pool_limit maxQueueSize) s" using pool.reach_inv [OF assms] by simp
  have "isFull maxQueueSize (items s)" if "at_limit (pool_limit maxQueueSize) (items s)"
    using that by (simp add: at_limit_def pool_limit_def isFull_def split: if_splits)
  moreover have "length (items s) \<le> maxQueueSize" if "maxQueueSize > 0" using ok(2) that by (simp add: pool_limit_def)
  moreover have "taken s' = taken s \<and> items s' = items s"
    if "Halt \<in> set es" "\<forall>t. pcs s t \<noteq> Taking" "mon_reach (pool_sections maxQueueSize) s es' s'" for es' s'
    using pool.halted_run [OF that(3) inv _ _ that(2)] run that(1) by simp
  ultimately show ?thesis using ok(1,3-6) run by blast
qed

theorem thread_pool_correct_witness:
  "\<exists>s :: nat monitor. mon_reach (pool_sections 0) new_monitor [CallPut 0 7, Enter 0 0, Halt] s
    \<and> (\<forall>es' s'. mon_reach (pool_sections 0) s es' s' \<longrightarrow> taken s' = [] \<and> items s' = [7])"
proof -
  let ?s0 = "new_monitor :: nat monitor"
  let ?s1 = "set_thread 0 (Putting 7) ?s0"
  let ?s2 = "(set_thread 0 Idle ?s1)\<lparr>items := [7], accepted_items := [7]\<rparr>"
  let ?s3 = "?s2\<lparr>running := False, pcs := wake \<circ> pcs ?s2\<rparr>"
  note defs = new_monitor_def pool_sections_def run_section_def isFull_def
  have step1: "mon_step (pool_sections 0) ?s0 (CallPut 0 7) (Inr ?s1)" by (rule call_put) (simp add: defs)
  have step2: "mon_step (pool_sections 0) ?s1 (Enter 0 0) (Inr ?s2)"
    by (rule put_done [where x = 7 and q = "[7]"]) (simp_all add: defs notified_def)
  have step3: "mon_step (pool_sections 0) ?s2 Halt (Inr ?s3)" by (rule halt)
  have r: "mon_reach (pool_sections 0) ?s0 [CallPut 0 7, Enter 0 0, Halt] ?s3"
    using mon_next [OF mon_next [OF mon_next [OF mon_start step1] step2] step3] by simp
  have stopped: "Halt \<in> set [CallPut 0 (7::nat), Enter 0 0, Halt]" "\<forall>t. pcs ?s3 t \<noteq> Taking"
    by (simp_all add: new_monitor_def)
  have "taken ?s3 = []" "items ?s3 = [7]" by (simp_all add: new_monitor_def)
  with thread_pool_correct [OF r] stopped r show ?thesis by metis
qed

end
