(* ===== verification/JsonOrder.thy ===== *)
theory JsonOrder
  imports JsonValue
begin

text \<open>
  The order of JSON values (\<open>jsoncpp/json_value.cpp\<close>: \<open>operator <\<close> and the operators defined by it). Values of different types are ordered
  by their types, arrays and objects first by the number of their members, then as \<open>std::map\<close>s, member by member. The difference of
  the numbers is narrowed to \<open>int\<close>.
\<close>

section \<open>Operators\<close>

text \<open>\<open>std::lexicographical_compare\<close> and the order of \<open>std::pair\<close>, which only use the order of the elements.\<close>

fun lex_lt :: "('a \<Rightarrow> 'a \<Rightarrow> bool) \<Rightarrow> 'a list \<Rightarrow> 'a list \<Rightarrow> bool" where
  "lex_lt lt xs [] = False"
| "lex_lt lt [] (y # ys) = True"
| "lex_lt lt (x # xs) (y # ys) = (if lt x y then True else if lt y x then False else lex_lt lt xs ys)"

definition pair_lt :: "('v \<Rightarrow> 'v \<Rightarrow> bool) \<Rightarrow> 'k::linorder \<times> 'v \<Rightarrow> 'k \<times> 'v \<Rightarrow> bool" where
  "pair_lt lt p q \<longleftrightarrow> fst p < fst q \<or> \<not> fst q < fst p \<and> lt (snd p) (snd q)"

lemma pair_lt_cong [fundef_cong]:
  "p = p' \<Longrightarrow> q = q' \<Longrightarrow> f (snd p') (snd q') = g (snd p') (snd q') \<Longrightarrow> pair_lt f p q = pair_lt g p' q'"
  by (simp add: pair_lt_def)

lemma lex_lt_cong [fundef_cong]:
  assumes "xs = xs'" "ys = ys'" "\<And>x y. x \<in> set xs' \<Longrightarrow> y \<in> set ys' \<Longrightarrow> f x y = g x y"
    "\<And>x y. x \<in> set xs' \<Longrightarrow> y \<in> set ys' \<Longrightarrow> f y x = g y x"
  shows "lex_lt f xs ys = lex_lt g xs' ys'"
  using assms(3,4) unfolding assms(1,2) by (induction g xs' ys' rule: lex_lt.induct) auto

definition size_delta :: "nat \<Rightarrow> nat \<Rightarrow> int" where
  "size_delta m n = sint (word_of_int (int m - int n) :: i32)"

function json_lt :: "'d dbl \<Rightarrow> 'd json \<Rightarrow> 'd json \<Rightarrow> bool" where
  "json_lt D a b =
     (let typeDelta = type_code (json_type a) - type_code (json_type b)
      in if typeDelta \<noteq> 0 then typeDelta < 0
         else (case (a, b) of
             (IntV x, IntV y) \<Rightarrow> sint x < sint y
           | (UIntV x, UIntV y) \<Rightarrow> x < y
           | (RealV x, RealV y) \<Rightarrow> d_lt D x y
           | (BoolV x, BoolV y) \<Rightarrow> x < y
           | (StringV x, StringV y) \<Rightarrow> x < y
           | (ArrayV x, ArrayV y) \<Rightarrow>
               (let delta = size_delta (length x) (length y)
                in if delta \<noteq> 0 then delta < 0 else lex_lt (pair_lt (json_lt D)) x y)
           | (ObjectV x, ObjectV y) \<Rightarrow>
               (let delta = size_delta (length x) (length y)
                in if delta \<noteq> 0 then delta < 0 else lex_lt (pair_lt (json_lt D)) x y)
           | _ \<Rightarrow> False))"
  by pat_completeness auto

lemma size_snd_member: "p \<in> set kvs \<Longrightarrow> size (snd p) < Suc (size_list (size_prod (\<lambda>_. 0) size) kvs)"
  by (metis size_member surjective_pairing)

termination json_lt
  by (relation "measure (\<lambda>(D, a, b). size a + size b)") (auto dest!: size_snd_member)

declare json_lt.simps [simp del]

definition json_gt :: "'d dbl \<Rightarrow> 'd json \<Rightarrow> 'd json \<Rightarrow> bool" where
  "json_gt D a b = json_lt D b a"

definition json_le :: "'d dbl \<Rightarrow> 'd json \<Rightarrow> 'd json \<Rightarrow> bool" where
  "json_le D a b = (\<not> json_gt D b a)"

definition json_ge :: "'d dbl \<Rightarrow> 'd json \<Rightarrow> 'd json \<Rightarrow> bool" where
  "json_ge D a b = (\<not> json_lt D a b)"

definition json_ne :: "'d dbl \<Rightarrow> 'd json \<Rightarrow> 'd json \<Rightarrow> bool" where
  "json_ne D a b = (\<not> json_eq D a b)"

section \<open>Strict weak orders\<close>

text \<open>
  An order that sorting and maps may use: asymmetric and negatively transitive. Two elements are equivalent when neither is smaller;
  \<open>e\<close> decides that.
\<close>

definition weak_order :: "('a \<Rightarrow> 'a \<Rightarrow> bool) \<Rightarrow> ('a \<Rightarrow> 'a \<Rightarrow> bool) \<Rightarrow> 'a set \<Rightarrow> bool" where
  "weak_order lt e S \<longleftrightarrow> (\<forall>x \<in> S. \<forall>y \<in> S. \<not> (lt x y \<and> lt y x)) \<and> (\<forall>x \<in> S. \<forall>y \<in> S. e x y \<longleftrightarrow> \<not> lt x y \<and> \<not> lt y x)
     \<and> (\<forall>x \<in> S. \<forall>y \<in> S. \<forall>z \<in> S. lt x z \<longrightarrow> lt x y \<or> lt y z)"

lemma weak_orderD:
  assumes "weak_order lt e S"
  shows "x \<in> S \<Longrightarrow> y \<in> S \<Longrightarrow> lt x y \<Longrightarrow> \<not> lt y x"
    and "x \<in> S \<Longrightarrow> y \<in> S \<Longrightarrow> e x y \<longleftrightarrow> \<not> lt x y \<and> \<not> lt y x"
    and "x \<in> S \<Longrightarrow> y \<in> S \<Longrightarrow> z \<in> S \<Longrightarrow> lt x z \<Longrightarrow> lt x y \<or> lt y z"
  using assms unfolding weak_order_def by blast+

lemma weak_order_trans:
  assumes "weak_order lt e S" "x \<in> S" "y \<in> S" "z \<in> S"
  shows "lt x y \<Longrightarrow> lt y z \<Longrightarrow> lt x z" "e x y \<Longrightarrow> e y z \<Longrightarrow> e x z" "lt x y \<Longrightarrow> e y z \<Longrightarrow> lt x z" "e x y \<Longrightarrow> lt y z \<Longrightarrow> lt x z"
  using assms(2-4) weak_orderD [OF assms(1)] by metis+

lemma weak_order_pair:
  assumes "weak_order lt e S"
  shows "weak_order (pair_lt lt :: 'k::linorder \<times> 'a \<Rightarrow> 'k \<times> 'a \<Rightarrow> bool) (\<lambda>p q. fst p = fst q \<and> e (snd p) (snd q)) {p. snd p \<in> S}"
proof -
  note w = weak_orderD [OF assms]
  show ?thesis unfolding weak_order_def pair_lt_def
  proof (intro conjI ballI impI)
    fix p q :: "'k \<times> 'a" assume "p \<in> {p. snd p \<in> S}" "q \<in> {p. snd p \<in> S}"
    then show "\<not> ((fst p < fst q \<or> \<not> fst q < fst p \<and> lt (snd p) (snd q)) \<and> (fst q < fst p \<or> \<not> fst p < fst q \<and> lt (snd q) (snd p)))"
      using w(1) by auto
  next
    fix p q :: "'k \<times> 'a" assume "p \<in> {p. snd p \<in> S}" "q \<in> {p. snd p \<in> S}"
    then show "(fst p = fst q \<and> e (snd p) (snd q))
      = (\<not> (fst p < fst q \<or> \<not> fst q < fst p \<and> lt (snd p) (snd q)) \<and> \<not> (fst q < fst p \<or> \<not> fst p < fst q \<and> lt (snd q) (snd p)))"
      using w(2) by auto
  next
    fix p q r :: "'k \<times> 'a" assume S: "p \<in> {p. snd p \<in> S}" "q \<in> {p. snd p \<in> S}" "r \<in> {p. snd p \<in> S}"
      and lt: "fst p < fst r \<or> \<not> fst r < fst p \<and> lt (snd p) (snd r)"
    from S have "lt (snd p) (snd r) \<Longrightarrow> lt (snd p) (snd q) \<or> lt (snd q) (snd r)" using w(3) [of "snd p" "snd q" "snd r"] by simp
    with lt show "(fst p < fst q \<or> \<not> fst q < fst p \<and> lt (snd p) (snd q)) \<or> (fst q < fst r \<or> \<not> fst r < fst q \<and> lt (snd q) (snd r))"
      by (cases "fst p" "fst q" rule: linorder_cases; cases "fst q" "fst r" rule: linorder_cases) auto
  qed
qed

lemma lex_lt_asym:
  assumes "weak_order lt e S"
  shows "set xs \<subseteq> S \<Longrightarrow> set ys \<subseteq> S \<Longrightarrow> lex_lt lt xs ys \<Longrightarrow> \<not> lex_lt lt ys xs"
  using assms by (induction lt xs ys rule: lex_lt.induct) (auto split: if_splits dest: weak_orderD(1))

lemma lex_lt_eq:
  assumes "weak_order lt e S"
  shows "set xs \<subseteq> S \<Longrightarrow> set ys \<subseteq> S \<Longrightarrow> list_all2 e xs ys \<longleftrightarrow> \<not> lex_lt lt xs ys \<and> \<not> lex_lt lt ys xs"
  using assms
proof (induction lt xs ys rule: lex_lt.induct)
  case (1 lt xs)
  then show ?case by (cases xs) auto
qed (auto simp: weak_orderD(2))

lemma lex_lt_neg_trans:
  assumes "weak_order lt e S"
  shows "set xs \<subseteq> S \<Longrightarrow> set ys \<subseteq> S \<Longrightarrow> set zs \<subseteq> S \<Longrightarrow> lex_lt lt xs zs \<Longrightarrow> lex_lt lt xs ys \<or> lex_lt lt ys zs"
proof (induction xs arbitrary: ys zs)
  case Nil
  then show ?case by (cases ys; cases zs) auto
next
  case (Cons x xs)
  then obtain z zs' where z: "zs = z # zs'" by (cases zs) auto
  show ?case
  proof (cases ys)
    case (Cons y ys')
    have S: "x \<in> S" "y \<in> S" "z \<in> S" "set xs \<subseteq> S" "set ys' \<subseteq> S" "set zs' \<subseteq> S" using Cons.prems z Cons by auto
    note n = weak_orderD(3) [OF assms]
    show ?thesis
    proof (cases "lt x y \<or> lt y z")
      case True
      then show ?thesis using z Cons by auto
    next
      case False
      then have "\<not> lt x z" "\<not> lt y x \<or> lt z x" "\<not> lt z y \<or> lt z x" using n S by metis+
      with False \<open>lex_lt lt (x # xs) zs\<close> z Cons Cons.IH [OF S(4-6)] show ?thesis by (auto split: if_splits)
    qed
  qed (use z in simp)
qed

section \<open>The order of values\<close>

text \<open>
  Doubles without NaN are totally ordered, up to equality of \<open>0\<close> and \<open>-0\<close>. Containers with fewer than \<open>2^31\<close> members: then
  the narrowed difference is the difference.
\<close>

definition double_order :: "'d dbl \<Rightarrow> bool" where
  "double_order D \<longleftrightarrow> weak_order (d_lt D) (d_eq D) UNIV"

function small_json :: "'d json \<Rightarrow> bool" where
  "small_json (ArrayV kvs) \<longleftrightarrow> length kvs < 2 ^ 31 \<and> list_all (\<lambda>(k, v). small_json v) kvs"
| "small_json (ObjectV kvs) \<longleftrightarrow> length kvs < 2 ^ 31 \<and> list_all (\<lambda>(k, v). small_json v) kvs"
| "small_json NullV \<longleftrightarrow> True"
| "small_json (IntV i) \<longleftrightarrow> True"
| "small_json (UIntV u) \<longleftrightarrow> True"
| "small_json (RealV r) \<longleftrightarrow> True"
| "small_json (StringV s) \<longleftrightarrow> True"
| "small_json (BoolV b) \<longleftrightarrow> True"
  by pat_completeness auto
termination small_json
  by (relation "measure size") (auto dest: size_member)

lemma size_delta_small:
  assumes "m < 2 ^ 31" "n < 2 ^ 31"
  shows "size_delta m n = int m - int n"
proof -
  have "- (2 ^ 31) \<le> int m - int n" "int m - int n < 2 ^ 31" using assms by simp_all
  then show ?thesis unfolding size_delta_def by (subst signed_of_int, subst signed_take_bit_int_eq_self) auto
qed

lemma weak_order_subset: "weak_order lt e S \<Longrightarrow> T \<subseteq> S \<Longrightarrow> weak_order lt e T"
  unfolding weak_order_def by blast

lemma weak_order_linear: "weak_order (<) (=) (S :: 'k::linorder set)"
  unfolding weak_order_def by force

lemma weak_order_image:
  assumes "weak_order lt e T" and S: "\<And>x. x \<in> S \<Longrightarrow> \<exists>t \<in> T. x = C t"
    and lt: "\<And>x y. x \<in> T \<Longrightarrow> y \<in> T \<Longrightarrow> lt' (C x) (C y) \<longleftrightarrow> lt x y" and e: "\<And>x y. x \<in> T \<Longrightarrow> y \<in> T \<Longrightarrow> e' (C x) (C y) \<longleftrightarrow> e x y"
  shows "weak_order lt' e' S"
proof -
  note w = weak_orderD [OF assms(1)]
  show ?thesis unfolding weak_order_def
  proof (intro conjI ballI impI)
    fix x y assume "x \<in> S" "y \<in> S"
    then obtain s t where "s \<in> T" "x = C s" "t \<in> T" "y = C t" using S by blast
    with lt e w(1,2) show "\<not> (lt' x y \<and> lt' y x)" "e' x y \<longleftrightarrow> \<not> lt' x y \<and> \<not> lt' y x" by blast+
  next
    fix x y z assume "x \<in> S" "y \<in> S" "z \<in> S" "lt' x z"
    moreover from this obtain s t u where "s \<in> T" "x = C s" "t \<in> T" "y = C t" "u \<in> T" "z = C u" using S by meson
    ultimately show "lt' x y \<or> lt' y z" using lt w(3) by blast
  qed
qed

lemma weak_order_signed: "weak_order (\<lambda>i j :: i32. sint i < sint j) (=) UNIV"
  unfolding weak_order_def using signed_word_eqI by force

text \<open>Containers: first the number of members, then the members.\<close>

definition members_lt :: "('v \<Rightarrow> 'v \<Rightarrow> bool) \<Rightarrow> ('k::linorder \<times> 'v) list \<Rightarrow> ('k \<times> 'v) list \<Rightarrow> bool" where
  "members_lt lt x y \<longleftrightarrow> length x < length y \<or> length x = length y \<and> lex_lt (pair_lt lt) x y"

definition members_eq :: "('v \<Rightarrow> 'v \<Rightarrow> bool) \<Rightarrow> ('k \<times> 'v) list \<Rightarrow> ('k \<times> 'v) list \<Rightarrow> bool" where
  "members_eq e x y \<longleftrightarrow> length x = length y \<and> list_all (\<lambda>((i, v), (j, w)). i = j \<and> e v w) (zip x y)"

lemma weak_order_members:
  assumes "weak_order lt e S"
  shows "weak_order (members_lt lt) (members_eq e) {kvs. snd ` set kvs \<subseteq> S}"
proof -
  note w = weak_order_pair [OF assms]
  have sub: "set x \<subseteq> {p. snd p \<in> S}" if "x \<in> {kvs. snd ` set kvs \<subseteq> S}" for x :: "('b \<times> 'a) list" using that by auto
  note asym = lex_lt_asym [OF w sub sub] and eq = lex_lt_eq [OF w sub sub] and neg = lex_lt_neg_trans [OF w sub sub sub]
  have me: "members_eq e x y \<longleftrightarrow> list_all2 (\<lambda>p q. fst p = fst q \<and> e (snd p) (snd q)) x y" for x y :: "('b \<times> 'a) list"
    by (auto simp: members_eq_def list_all2_iff list_all_iff)
  show ?thesis unfolding weak_order_def
  proof (intro conjI ballI impI)
    fix x y :: "('b \<times> 'a) list" assume S: "x \<in> {kvs. snd ` set kvs \<subseteq> S}" "y \<in> {kvs. snd ` set kvs \<subseteq> S}"
    show "\<not> (members_lt lt x y \<and> members_lt lt y x)" using asym [OF S] by (auto simp: members_lt_def)
    show "members_eq e x y \<longleftrightarrow> \<not> members_lt lt x y \<and> \<not> members_lt lt y x"
      using eq [OF S] by (auto simp: me members_lt_def dest: list_all2_lengthD)
  next
    fix x y z :: "('b \<times> 'a) list" assume S: "x \<in> {kvs. snd ` set kvs \<subseteq> S}" "y \<in> {kvs. snd ` set kvs \<subseteq> S}" "z \<in> {kvs. snd ` set kvs \<subseteq> S}"
      and "members_lt lt x z"
    then show "members_lt lt x y \<or> members_lt lt y z" using neg [OF S] by (auto simp: members_lt_def)
  qed
qed

lemma json_lt_types: "json_type a \<noteq> json_type b \<Longrightarrow> json_lt D a b \<longleftrightarrow> type_code (json_type a) < type_code (json_type b)"
  by (cases "json_type a"; cases "json_type b") (simp_all add: json_lt.simps [of D a b])

lemma json_lt_cases:
  "json_lt D NullV NullV \<longleftrightarrow> False"
  "json_lt D (IntV i) (IntV j) \<longleftrightarrow> sint i < sint j"
  "json_lt D (UIntV u) (UIntV w) \<longleftrightarrow> u < w"
  "json_lt D (RealV r) (RealV q) \<longleftrightarrow> d_lt D r q"
  "json_lt D (BoolV b) (BoolV c) \<longleftrightarrow> b < c"
  "json_lt D (StringV s) (StringV t) \<longleftrightarrow> s < t"
  "length x < 2 ^ 31 \<Longrightarrow> length y < 2 ^ 31 \<Longrightarrow> json_lt D (ArrayV x) (ArrayV y) \<longleftrightarrow> members_lt (json_lt D) x y"
  "length kvs < 2 ^ 31 \<Longrightarrow> length kws < 2 ^ 31 \<Longrightarrow> json_lt D (ObjectV kvs) (ObjectV kws) \<longleftrightarrow> members_lt (json_lt D) kvs kws"
  by (auto simp: json_lt.simps [of D] size_delta_small members_lt_def Let_def)

lemma json_eq_cases:
  "json_eq D NullV NullV"
  "json_eq D (IntV i) (IntV j) \<longleftrightarrow> i = j"
  "json_eq D (UIntV u) (UIntV w) \<longleftrightarrow> u = w"
  "json_eq D (RealV r) (RealV q) \<longleftrightarrow> d_eq D r q"
  "json_eq D (BoolV b) (BoolV c) \<longleftrightarrow> b = c"
  "json_eq D (StringV s) (StringV t) \<longleftrightarrow> s = t"
  "json_eq D (ArrayV x) (ArrayV y) \<longleftrightarrow> members_eq (json_eq D) x y"
  "json_eq D (ObjectV kvs) (ObjectV kws) \<longleftrightarrow> members_eq (json_eq D) kvs kws"
  by (simp_all add: json_eq.simps [of D] members_eq_def)

lemma json_eq_types: "json_type a \<noteq> json_type b \<Longrightarrow> \<not> json_eq D a b"
  by (cases a; cases b) (simp_all add: json_eq.simps [of D])

lemma weak_order_by_type:
  assumes "\<And>t. weak_order (json_lt D) (json_eq D) {v \<in> S. json_type v = t}"
  shows "weak_order (json_lt D) (json_eq D) S"
proof -
  have inj: "json_type x = json_type y" if "type_code (json_type x) = type_code (json_type y)" for x y :: "'a json"
    using that by (cases "json_type x"; cases "json_type y") simp_all
  note same = weak_orderD [OF assms, unfolded mem_Collect_eq]
  show ?thesis unfolding weak_order_def
  proof (intro conjI ballI impI)
    fix x y assume S: "x \<in> S" "y \<in> S"
    have "\<not> (json_lt D x y \<and> json_lt D y x) \<and> (json_eq D x y \<longleftrightarrow> \<not> json_lt D x y \<and> \<not> json_lt D y x)"
    proof (cases "json_type x = json_type y")
      case True
      then have m: "x \<in> S \<and> json_type x = json_type y" "y \<in> S \<and> json_type y = json_type y" using S by simp_all
      show ?thesis using same(1) [OF m] same(2) [OF m] by blast
    next
      case False
      then have "type_code (json_type x) \<noteq> type_code (json_type y)" using inj by blast
      then show ?thesis using json_lt_types [OF False, of D] json_lt_types [OF False [symmetric], of D] json_eq_types [OF False, of D] by auto
    qed
    then show "\<not> (json_lt D x y \<and> json_lt D y x)" "json_eq D x y \<longleftrightarrow> \<not> json_lt D x y \<and> \<not> json_lt D y x" by blast+
  next
    fix x y z assume S: "x \<in> S" "y \<in> S" "z \<in> S" and lt: "json_lt D x z"
    consider "json_type x = json_type y" "json_type y = json_type z" | "json_type x = json_type y" "json_type y \<noteq> json_type z"
      | "json_type x \<noteq> json_type y" "json_type y = json_type z" | "json_type x \<noteq> json_type y" "json_type y \<noteq> json_type z" by blast
    then show "json_lt D x y \<or> json_lt D y z"
    proof cases
      case 1
      then have m: "x \<in> S \<and> json_type x = json_type z" "y \<in> S \<and> json_type y = json_type z" "z \<in> S \<and> json_type z = json_type z"
        using S by simp_all
      show ?thesis using same(3) [OF m lt] .
    next
      case 4
      have "type_code (json_type x) \<le> type_code (json_type z)" using lt json_lt_types [of x z D] by (cases "json_type x = json_type z") auto
      with 4 show ?thesis using json_lt_types [of x y D] json_lt_types [of y z D] inj [of x y] by linarith
    next
      case 2
      then have "type_code (json_type x) < type_code (json_type z)" using lt json_lt_types [of x z D] by metis
      with 2 show ?thesis using json_lt_types [of y z D] by metis
    next
      case 3
      then have "type_code (json_type x) < type_code (json_type z)" using lt json_lt_types [of x z D] by metis
      with 3 show ?thesis using json_lt_types [of x y D] by metis
    qed
  qed
qed

lemma small_child:
  assumes "list_all (\<lambda>(k, v). small_json v) kvs" "size_list (size_prod (\<lambda>_. 0) size) kvs < n"
  shows "snd ` set kvs \<subseteq> {v. small_json v \<and> size v < n}"
proof
  fix v assume "v \<in> snd ` set kvs"
  then obtain k where k: "(k, v) \<in> set kvs" by auto
  then show "v \<in> {v. small_json v \<and> size v < n}" using size_member [OF k] assms by (auto simp: list_all_iff)
qed

lemma json_weak_order:
  assumes "double_order D"
  shows "weak_order (json_lt D) (json_eq D) {v. small_json v \<and> size v < n}"
proof (induction n)
  case 0
  show ?case by (simp add: weak_order_def)
next
  case (Suc n)
  let ?S = "{v. small_json v \<and> size v < Suc n}" and ?T = "{v. small_json v \<and> size v < n}"
  note members = weak_order_members [OF Suc.IH]
  have child: "snd ` set kvs \<subseteq> ?T" if "ArrayV kvs \<in> ?S" for kvs
    using small_child [of kvs n] that by auto
  have child': "snd ` set kvs \<subseteq> ?T" if "ObjectV kvs \<in> ?S" for kvs
    using small_child [of kvs n] that by auto
  show ?case
  proof (rule weak_order_by_type)
    fix t
    let ?St = "{v \<in> ?S. json_type v = t}"
    have has_type: "json_type v = t" if "v \<in> ?St" for v using that by simp
    show "weak_order (json_lt D) (json_eq D) ?St"
    proof (cases t)
      case nullValue
      then have "v = NullV" if "v \<in> ?St" for v using has_type [OF that] by (cases v; simp)
      then have sub: "?St \<subseteq> {NullV}" by blast
      have "weak_order (json_lt D) (json_eq D) {NullV}" by (simp add: weak_order_def json_lt_cases json_eq_cases)
      from weak_order_subset [OF this sub] show ?thesis .
    next
      case intValue
      then have m: "\<exists>i \<in> UNIV. v = IntV i" if "v \<in> ?St" for v using has_type [OF that] by (cases v; simp)
      show ?thesis by (rule weak_order_image [where C = IntV, OF weak_order_signed], fact m, simp_all add: json_lt_cases json_eq_cases)
    next
      case uintValue
      then have m: "\<exists>i \<in> UNIV. v = UIntV i" if "v \<in> ?St" for v using has_type [OF that] by (cases v; simp)
      show ?thesis by (rule weak_order_image [where C = UIntV, OF weak_order_linear], fact m, simp_all add: json_lt_cases json_eq_cases)
    next
      case realValue
      then have m: "\<exists>i \<in> UNIV. v = RealV i" if "v \<in> ?St" for v using has_type [OF that] by (cases v; simp)
      show ?thesis by (rule weak_order_image [where C = RealV, OF assms [unfolded double_order_def]], fact m, simp_all add: json_lt_cases json_eq_cases)
    next
      case stringValue
      then have m: "\<exists>i \<in> UNIV. v = StringV i" if "v \<in> ?St" for v using has_type [OF that] by (cases v; simp)
      show ?thesis by (rule weak_order_image [where C = StringV, OF weak_order_linear], fact m, simp_all add: json_lt_cases json_eq_cases)
    next
      case booleanValue
      then have m: "\<exists>i \<in> UNIV. v = BoolV i" if "v \<in> ?St" for v using has_type [OF that] by (cases v; simp)
      show ?thesis by (rule weak_order_image [where C = BoolV, OF weak_order_linear], fact m, simp_all add: json_lt_cases json_eq_cases)
    next
      case arrayValue
      let ?M = "{kvs. snd ` set kvs \<subseteq> ?T \<and> length kvs < 2 ^ 31}"
      have m: "\<exists>i \<in> ?M. v = ArrayV i" if "v \<in> ?St" for v using has_type [OF that] that child arrayValue by (cases v) (simp_all, blast)
      show ?thesis by (rule weak_order_image [where C = ArrayV, OF weak_order_subset [OF members, of ?M]], blast, fact m, simp_all add: json_lt_cases json_eq_cases)
    next
      case objectValue
      let ?M = "{kvs. snd ` set kvs \<subseteq> ?T \<and> length kvs < 2 ^ 31}"
      have m: "\<exists>i \<in> ?M. v = ObjectV i" if "v \<in> ?St" for v using has_type [OF that] that child' objectValue by (cases v) (simp_all, blast)
      show ?thesis by (rule weak_order_image [where C = ObjectV, OF weak_order_subset [OF members, of ?M]], blast, fact m, simp_all add: json_lt_cases json_eq_cases)
    qed
  qed
qed

section \<open>Properties\<close>

text \<open>
  C28. The order of values. When doubles are totally ordered and containers have fewer than \<open>2^31\<close> members, of two values exactly one is smaller,
  or they are equal; \<open>operator <\<close> and \<open>operator ==\<close> are transitive and agree with each other, so values can be sorted and be keys of a map. But
  \<open>operator <=\<close> is the wrong way round: it holds when its left side is equal or greater, as \<open>operator >=\<close> does.
\<close>

theorem json_order:
  assumes "double_order D" "small_json a" "small_json b" "small_json c"
  shows "(if json_lt D a b then \<not> json_eq D a b \<and> \<not> json_lt D b a else json_eq D a b \<noteq> json_lt D b a)
    \<and> (json_lt D a b \<and> json_lt D b c \<longrightarrow> json_lt D a c) \<and> (json_eq D a b \<and> json_eq D b c \<longrightarrow> json_eq D a c)
    \<and> (json_lt D a b \<and> json_eq D b c \<longrightarrow> json_lt D a c) \<and> (json_eq D a b \<and> json_lt D b c \<longrightarrow> json_lt D a c)
    \<and> (json_gt D a b \<longleftrightarrow> json_lt D b a) \<and> (json_ge D a b \<longleftrightarrow> json_eq D a b \<or> json_gt D a b) \<and> (json_le D a b \<longleftrightarrow> json_ge D a b)"
proof -
  let ?S = "{v. small_json v \<and> size v < Suc (size a + size b + size c)}"
  have w: "weak_order (json_lt D) (json_eq D) ?S" by (rule json_weak_order [OF assms(1)])
  have S: "a \<in> ?S" "b \<in> ?S" "c \<in> ?S" using assms(2-4) by auto
  note tr = weak_order_trans [OF w S] and ab = weak_orderD(1,2) [OF w S(1,2)] and ba = weak_orderD(1) [OF w S(2,1)]
  show ?thesis unfolding json_gt_def json_ge_def json_le_def using tr ab ba by (split if_split) blast
qed

definition int_doubles :: "int dbl" where
  "int_doubles = \<lparr>d_of_int = (\<lambda>i. i), d_trunc = (\<lambda>i. i), d_le = (\<le>), d_lt = (<), d_eq = (=)\<rparr>"

theorem json_order_witness:
  "json_lt int_doubles (IntV 1) (IntV 2) \<and> \<not> json_le int_doubles (IntV 1) (IntV 2)
   \<and> json_lt int_doubles (ArrayV [(0, IntV 1)]) (ArrayV [(0, StringV ''b'')])"
proof -
  have d: "double_order int_doubles" unfolding double_order_def int_doubles_def using weak_order_linear [of "UNIV :: int set"] by simp
  have s: "small_json (IntV 1 :: int json)" "small_json (IntV 2 :: int json)" by simp_all
  have lt: "json_lt int_doubles (IntV 1) (IntV 2)" by (simp add: json_lt_cases)
  have "\<not> json_le int_doubles (IntV 1) (IntV 2)" using json_order [OF d s s(2)] lt by metis
  moreover have "json_lt int_doubles (ArrayV [(0, IntV 1)]) (ArrayV [(0, StringV ''b'')])"
    by (simp add: json_lt_cases members_lt_def pair_lt_def json_lt_types)
  ultimately show ?thesis using lt by blast
qed

end
