(* ===== verification/JsonPath.thy ===== *)
theory JsonPath
  imports JsonValue
begin

text \<open>
  Paths into JSON values (\<open>jsoncpp/json_value.cpp\<close>: \<open>PathArgument\<close> and \<open>Path\<close>): the reader of path texts, reading the value at a path, with and
  without a default, and making it. The loop of \<open>makePath\<close> may not return, so it is a partial function. A reference that \<open>make\<close> returns is
  used by a function on the value it refers to.
\<close>

section \<open>Path texts\<close>

datatype path_argument = KindNone | KindIndex i32 | KindKey string

definition index_argument :: "i32 \<Rightarrow> path_argument" where
  "index_argument index = KindIndex index"

definition key_argument :: "string \<Rightarrow> path_argument" where
  "key_argument key = KindKey (c_str key)"

datatype path_kind = kindNone | kindIndex | kindKey

fun kind_of :: "path_argument \<Rightarrow> path_kind" where
  "kind_of KindNone = kindNone"
| "kind_of (KindIndex _) = kindIndex"
| "kind_of (KindKey _) = kindKey"

text \<open>The first argument list is what \<open>itInArg\<close> points at; it is not advanced.\<close>

definition addPathInArg :: "path_argument list \<Rightarrow> path_kind \<Rightarrow> path_argument list \<Rightarrow> path_argument list" where
  "addPathInArg ins kind args =
     (case ins of [] \<Rightarrow> args | a # _ \<Rightarrow> if kind_of a \<noteq> kind then args else args @ [a])"

definition scan_index :: "string \<Rightarrow> i32" where
  "scan_index ds = foldl (\<lambda>index c. index * 10 + of_nat (digit_val c)) 0 ds"

text \<open>
  One round of the loop at the rest \<open>cs\<close> of the text. The byte behind the text is 0. \<open>strchr\<close> also finds the terminating 0 of the characters
  it searches.
\<close>

definition strchr_stop :: "char \<Rightarrow> bool" where
  "strchr_stop c \<longleftrightarrow> c = CHR ''['' \<or> c = CHR ''.'' \<or> c = CHR 0x00"

definition path_step :: "path_argument list \<Rightarrow> string \<Rightarrow> path_argument list \<Rightarrow> string \<times> path_argument list" where
  "path_step ins cs args =
     (case cs of [] \<Rightarrow> ([], args)
      | c # rest \<Rightarrow>
          if c = CHR ''[''
          then let (args1, rest1) =
                 (if rest \<noteq> [] \<and> hd rest = CHR ''%'' then (addPathInArg ins kindIndex args, rest)
                  else (args @ [index_argument (scan_index (takeWhile is_digit rest))], dropWhile is_digit rest))
               in (tl rest1, args1)
          else if c = CHR ''%'' then (rest, addPathInArg ins kindKey args)
          else if c = CHR ''.'' then (rest, args)
          else (dropWhile (\<lambda>c. \<not> strchr_stop c) cs, args @ [key_argument (takeWhile (\<lambda>c. \<not> strchr_stop c) cs)]))"

partial_function (option) path_loop :: "path_argument list \<Rightarrow> string \<Rightarrow> path_argument list \<Rightarrow> path_argument list option" where
  "path_loop ins cs args =
     (if cs = [] then Some args else path_loop ins (fst (path_step ins cs args)) (snd (path_step ins cs args)))"

definition makePath :: "string \<Rightarrow> path_argument list \<Rightarrow> path_argument list option" where
  "makePath path ins = path_loop ins path []"

section \<open>Values at a path\<close>

fun resolve :: "path_argument list \<Rightarrow> 'd json \<Rightarrow> 'd json res" where
  "resolve [] node = Inr node"
| "resolve (KindIndex i # args) node = rbind (index_get (unat i) node) (resolve args)"
| "resolve (KindKey k # args) node = rbind (member_get k node) (resolve args)"
| "resolve (KindNone # args) node = resolve args node"

text \<open>A reference to \<open>Value::null\<close> is what the constant \<open>operator[]\<close> returns for a member that is not there.\<close>

fun resolve_default :: "'d json \<Rightarrow> path_argument list \<Rightarrow> 'd json \<Rightarrow> 'd json res" where
  "resolve_default d [] node = Inr node"
| "resolve_default d (KindIndex i # args) node =
     (if \<not> isArray node \<or> isValidIndex (unat i) node then Inr d
      else rbind (index_get (unat i) node) (resolve_default d args))"
| "resolve_default d (KindKey k # args) node =
     (if \<not> isObject node then Inr d
      else if \<not> found_member k node then Inr d
      else rbind (member_get k node) (resolve_default d args))"
| "resolve_default d (KindNone # args) node = resolve_default d args node"

fun make :: "('d json \<Rightarrow> 'd json) \<Rightarrow> path_argument list \<Rightarrow> 'd json \<Rightarrow> 'd json res" where
  "make use [] node = Inr (use node)"
| "make use (KindIndex i # args) node =
     rbind (index_ref (unat i) node) (\<lambda>(child, node1).
     rbind (make use args child) (\<lambda>child1. set_index (unat i) child1 node1))"
| "make use (KindKey k # args) node =
     rbind (resolveReference k node) (\<lambda>(child, node1).
     rbind (make use args child) (\<lambda>child1. set_member k child1 node1))"
| "make use (KindNone # args) node = make use args node"

section \<open>Reading path texts\<close>

fun arg_text :: "path_argument \<Rightarrow> string" where
  "arg_text KindNone = []"
| "arg_text (KindIndex i) = CHR ''['' # show_nat (unat i) @ '']''"
| "arg_text (KindKey k) = CHR ''.'' # k"

definition path_text :: "path_argument list \<Rightarrow> string" where
  "path_text args = concat (map arg_text args)"

fun plain_arg :: "path_argument \<Rightarrow> bool" where
  "plain_arg KindNone \<longleftrightarrow> False"
| "plain_arg (KindIndex i) \<longleftrightarrow> True"
| "plain_arg (KindKey k) \<longleftrightarrow> k \<noteq> [] \<and> hd k \<noteq> CHR ''%'' \<and> list_all (\<lambda>c. \<not> strchr_stop c) k"

lemma path_loop_Nil [simp]: "path_loop ins [] args = Some args"
  by (subst path_loop.simps) simp

lemma path_loop_step:
  "path_step ins cs args = (cs', args') \<Longrightarrow> cs \<noteq> [] \<Longrightarrow> path_loop ins cs args = path_loop ins cs' args'"
  by (subst path_loop.simps) simp

lemma path_step_dot: "path_step ins (CHR ''.'' # cs) args = (cs, args)"
  by (simp add: path_step_def)

lemma path_step_name:
  assumes "plain_arg (KindKey k)" "cs = [] \<or> strchr_stop (hd cs)"
  shows "path_step ins (k @ cs) args = (cs, args @ [KindKey k])"
proof -
  obtain c k' where k: "k = c # k'" using assms(1) by (cases k) auto
  have c: "c \<noteq> CHR ''['' \<and> c \<noteq> CHR ''%'' \<and> c \<noteq> CHR ''.''" using assms(1) k by (auto simp: strchr_stop_def)
  have all: "\<forall>c \<in> set k. \<not> strchr_stop c" using assms(1) by (simp add: list_all_iff)
  have tk: "takeWhile (\<lambda>c. \<not> strchr_stop c) (k @ cs) = k" "dropWhile (\<lambda>c. \<not> strchr_stop c) (k @ cs) = cs"
    using assms(2) all by (cases cs; simp add: takeWhile_append2 dropWhile_append2)+
  have "c_str k = k" using all by (simp add: c_str_def takeWhile_eq_all_conv strchr_stop_def)
  with tk c k show ?thesis by (simp add: path_step_def key_argument_def)
qed

lemma scan_index_read:
  assumes "\<forall>c \<in> set ds. is_digit c"
  shows "foldl (\<lambda>index c. index * 10 + of_nat (digit_val c)) (of_nat acc :: i32) ds = of_nat (read_nat acc ds)"
  using assms
proof (induction ds arbitrary: acc)
  case (Cons c ds)
  then show ?case using Cons.IH [of "10 * acc + digit_val c"] by (simp add: mult.commute)
qed simp

lemma path_step_index: "path_step ins (CHR ''['' # show_nat (unat i) @ CHR '']'' # cs) args = (cs, args @ [KindIndex i])"
proof -
  let ?ds = "show_nat (unat i)"
  have ds: "\<forall>c \<in> set ?ds. is_digit c" by (rule show_nat_digits)
  have close: "\<not> is_digit (CHR '']'')" by (simp add: is_digit_def)
  have "is_digit (hd ?ds)" using ds by simp
  then have "hd ?ds \<noteq> CHR ''%''" by (auto simp: is_digit_def)
  moreover have "takeWhile is_digit (?ds @ CHR '']'' # cs) = ?ds" "dropWhile is_digit (?ds @ CHR '']'' # cs) = CHR '']'' # cs"
    using ds close by (simp_all add: takeWhile_append2 dropWhile_append2)
  moreover have "scan_index ?ds = i" using scan_index_read [OF ds, of 0] by (simp add: scan_index_def read_nat_show_nat)
  ultimately show ?thesis by (simp add: path_step_def index_argument_def)
qed

lemma path_loop_text:
  assumes "list_all plain_arg args" "cs = [] \<or> strchr_stop (hd cs)"
  shows "path_loop ins (path_text args @ cs) acc = path_loop ins cs (acc @ args)"
  using assms(1)
proof (induction args arbitrary: acc)
  case (Cons a args)
  let ?rest = "path_text args @ cs"
  have stop: "?rest = [] \<or> strchr_stop (hd ?rest)"
    using Cons.prems assms(2) by (cases args rule: list.exhaust; cases "hd args") (auto simp: path_text_def strchr_stop_def)
  have "path_loop ins (arg_text a @ ?rest) acc = path_loop ins ?rest (acc @ [a])"
  proof (cases a)
    case (KindKey k)
    then have k: "plain_arg (KindKey k)" "k \<noteq> []" using Cons.prems by auto
    show ?thesis using KindKey k(2) path_loop_step [OF path_step_dot] path_loop_step [OF path_step_name [OF k(1) stop]] by simp
  next
    case (KindIndex i)
    then show ?thesis using path_loop_step [OF path_step_index] by simp
  qed (use Cons.prems in simp)
  then show ?case using Cons by (simp add: path_text_def)
qed (simp add: path_text_def)

text \<open>A text without 0 bytes is used up; at a 0 byte the loop stays for ever.\<close>

lemma path_step_shorter:
  assumes "cs \<noteq> []" "CHR 0x00 \<notin> set cs"
  shows "length (fst (path_step ins cs args)) < length cs \<and> CHR 0x00 \<notin> set (fst (path_step ins cs args))"
proof -
  obtain c rest where cs: "cs = c # rest" using assms(1) by (cases cs) auto
  have nul: "c \<noteq> CHR 0x00" "CHR 0x00 \<notin> set rest" using assms(2) cs by auto
  have drop: "length (dropWhile P rest) \<le> length rest \<and> CHR 0x00 \<notin> set (dropWhile P rest)" for P
    using nul(2) by (auto simp: length_dropWhile_le dest: set_dropWhileD)
  have less: "length (tl xs) < Suc (length rest) \<and> CHR 0x00 \<notin> set (tl xs)"
    if "length xs \<le> length rest \<and> CHR 0x00 \<notin> set xs" for xs :: string using that by (cases xs) auto
  consider "c = CHR ''[''" | "c = CHR ''%'' \<or> c = CHR ''.''" | "c \<noteq> CHR ''[''" "c \<noteq> CHR ''%''" "c \<noteq> CHR ''.''" by blast
  then show ?thesis
  proof cases
    case 1
    then show ?thesis using cs less [OF drop, of is_digit] less [of rest] nul(2) by (simp add: path_step_def)
  next
    case 2
    then show ?thesis using cs nul(2) by (auto simp: path_step_def)
  next
    case 3
    then have "\<not> strchr_stop c" using nul(1) by (simp add: strchr_stop_def)
    with 3 cs drop [of "\<lambda>c. \<not> strchr_stop c"] show ?thesis by (simp add: path_step_def)
  qed
qed

lemma path_loop_returns:
  "CHR 0x00 \<notin> set cs \<Longrightarrow> \<exists>args'. path_loop ins cs args = Some args'"
proof (induction "length cs" arbitrary: cs args rule: less_induct)
  case less
  show ?case
  proof (cases "cs = []")
    case False
    from less.hyps [OF path_step_shorter [OF False less.prems, THEN conjunct1] path_step_shorter [OF False less.prems, THEN conjunct2]]
    show ?thesis using path_loop_step [of ins cs args] False by (metis prod.collapse)
  qed simp
qed

lemma path_loop_stuck: "path_loop ins (CHR 0x00 # cs) args = None"
proof -
  have "\<not> (cs' \<noteq> [] \<and> hd cs' = CHR 0x00)" if "path_loop ins cs' args = Some r" for ins cs' args r
  proof (rule path_loop.raw_induct [of "\<lambda>ins cs args r. \<not> (cs \<noteq> [] \<and> hd cs = CHR 0x00)", OF _ that])
    fix f :: "path_argument list \<Rightarrow> string \<Rightarrow> path_argument list \<Rightarrow> path_argument list option" and ins cs args r
    assume IH: "\<And>ins cs args r. f ins cs args = Some r \<Longrightarrow> \<not> (cs \<noteq> [] \<and> hd cs = CHR 0x00)"
      and run: "(if cs = [] then Some args else f ins (fst (path_step ins cs args)) (snd (path_step ins cs args))) = Some r"
    show "\<not> (cs \<noteq> [] \<and> hd cs = CHR 0x00)"
    proof
      assume "cs \<noteq> [] \<and> hd cs = CHR 0x00"
      then obtain rest where cs: "cs = CHR 0x00 # rest" by (cases cs) auto
      then have "fst (path_step ins cs args) = cs" by (simp add: path_step_def strchr_stop_def)
      with run cs have "f ins cs (snd (path_step ins cs args)) = Some r" by simp
      from IH [OF this] cs show False by simp
    qed
  qed
  from this [of ins "CHR 0x00 # cs" args] show ?thesis by (cases "path_loop ins (CHR 0x00 # cs) args") auto
qed

section \<open>Making and reading values\<close>

text \<open>Paths that part: the second leads past what the first one makes.\<close>

fun parted :: "path_argument list \<Rightarrow> path_argument list \<Rightarrow> bool" where
  "parted (KindIndex i # as) (KindIndex j # bs) \<longleftrightarrow> i \<noteq> j \<or> parted as bs"
| "parted (KindKey k # as) (KindKey l # bs) \<longleftrightarrow> c_str k \<noteq> c_str l \<or> parted as bs"
| "parted _ _ \<longleftrightarrow> False"

lemma index_ref_get:
  "index_ref i v = Inr (c, v1) \<Longrightarrow> index_get i v = Inr c \<and> index_get j v1 = index_get j v \<and> (\<exists>kvs. v1 = ArrayV kvs)"
  by (cases v) (auto split: option.splits)

lemma index_ref_fails: "index_ref i v = Inl e \<longleftrightarrow> index_get i v = Inl e"
  by (cases v) (auto split: option.splits)

lemma set_index_get: "\<exists>v'. set_index i x (ArrayV kvs) = Inr v' \<and> index_get i v' = Inr x \<and> (slot j \<noteq> slot i \<longrightarrow> index_get j v' = index_get j (ArrayV kvs))"
  by (auto split: option.splits)

lemma resolveReference_get:
  "resolveReference k v = Inr (c, v1) \<Longrightarrow> member_get k v = Inr c \<and> member_get l v1 = member_get l v \<and> (\<exists>kvs. v1 = ObjectV kvs)"
  by (cases v) (auto split: option.splits)

lemma resolveReference_fails: "resolveReference k v = Inl e \<longleftrightarrow> member_get k v = Inl e"
  by (cases v) (auto split: option.splits)

lemma set_member_get:
  "\<exists>v'. set_member k x (ObjectV kvs) = Inr v' \<and> member_get k v' = Inr x \<and> (c_str l \<noteq> c_str k \<longrightarrow> member_get l v' = member_get l (ObjectV kvs))"
  by (auto simp: set_member_def split: option.splits)

lemma member_get_c_str: "c_str k = c_str l \<Longrightarrow> member_get k v = member_get l v"
  by (cases v) auto

text \<open>What \<open>make\<close> promises, against \<open>resolve\<close>.\<close>

definition make_ok :: "('d json \<Rightarrow> 'd json) \<Rightarrow> path_argument list \<Rightarrow> 'd json \<Rightarrow> bool" where
  "make_ok use args root \<longleftrightarrow>
     (case resolve args root of
        Inl e \<Rightarrow> make use args root = Inl e
      | Inr v \<Rightarrow> (\<exists>root'. make use args root = Inr root' \<and> resolve args root' = Inr (use v)
          \<and> (\<forall>other. parted args other \<longrightarrow> resolve other root' = resolve other root)))"

lemma make_ok_index:
  assumes IH: "\<And>c. make_ok use args c"
  shows "make_ok use (KindIndex i # args) root"
proof (cases "index_ref (unat i) root")
  case (Inl e)
  then show ?thesis using index_ref_fails [of "unat i" root e] by (simp add: make_ok_def)
next
  case (Inr p)
  obtain c v1 where p: "p = (c, v1)" by (cases p)
  note ref = index_ref_get [OF Inr [unfolded p]]
  obtain kvs where v1: "v1 = ArrayV kvs" using ref by auto
  show ?thesis
  proof (cases "resolve args c")
    case (Inl e)
    then show ?thesis using Inr p ref IH [of c] by (simp add: make_ok_def)
  next
    case res: (Inr v)
    then obtain c' where c': "make use args c = Inr c'" "resolve args c' = Inr (use v)"
        "\<forall>other. parted args other \<longrightarrow> resolve other c' = resolve other c" using IH [of c] by (auto simp: make_ok_def)
    obtain v' where v': "set_index (unat i) c' (ArrayV kvs) = Inr v'" "index_get (unat i) v' = Inr c'"
      using set_index_get [of "unat i" c' kvs] by blast
    have other: "index_get j v' = index_get j root" if "slot j \<noteq> slot (unat i)" for j
      using set_index_get [of "unat i" c' kvs j] v'(1) ref [of j] v1 that by auto
    have "resolve (KindIndex j # as) v' = resolve (KindIndex j # as) root" if "i \<noteq> j \<or> parted args as" for j as
    proof (cases "i = j")
      case True
      then show ?thesis using that c'(3) v'(2) ref by simp
    next
      case False
      then have "slot (unat j) \<noteq> slot (unat i)" using signed_word_eqI [of j i] by (auto simp: slot_unat)
      then show ?thesis using other [of "unat j"] by simp
    qed
    then have "resolve other v' = resolve other root" if "parted (KindIndex i # args) other" for other
      using that by (cases "(KindIndex i # args, other)" rule: parted.cases) auto
    then show ?thesis using Inr p v1 res c'(1,2) v' ref by (simp add: make_ok_def del: set_index.simps)
  qed
qed

lemma make_ok_key:
  assumes IH: "\<And>c. make_ok use args c"
  shows "make_ok use (KindKey k # args) root"
proof (cases "resolveReference k root")
  case (Inl e)
  then show ?thesis using resolveReference_fails [of k root e] by (simp add: make_ok_def)
next
  case (Inr p)
  obtain c v1 where p: "p = (c, v1)" by (cases p)
  note ref = resolveReference_get [OF Inr [unfolded p]]
  obtain kvs where v1: "v1 = ObjectV kvs" using ref by auto
  show ?thesis
  proof (cases "resolve args c")
    case (Inl e)
    then show ?thesis using Inr p ref IH [of c] by (simp add: make_ok_def)
  next
    case res: (Inr v)
    then obtain c' where c': "make use args c = Inr c'" "resolve args c' = Inr (use v)"
        "\<forall>other. parted args other \<longrightarrow> resolve other c' = resolve other c" using IH [of c] by (auto simp: make_ok_def)
    obtain v' where v': "set_member k c' (ObjectV kvs) = Inr v'" "member_get k v' = Inr c'"
      using set_member_get [of k c' kvs] by blast
    have other: "member_get l v' = member_get l root" if "c_str l \<noteq> c_str k" for l
      using set_member_get [of k c' kvs l] v'(1) ref [of l] v1 that by auto
    have "resolve (KindKey l # as) v' = resolve (KindKey l # as) root" if "c_str k \<noteq> c_str l \<or> parted args as" for l as
    proof (cases "c_str k = c_str l")
      case True
      then show ?thesis using that c'(3) v'(2) ref member_get_c_str [OF True, of v'] member_get_c_str [OF True, of root] by simp
    qed (use other [of l] in auto)
    then have "resolve other v' = resolve other root" if "parted (KindKey k # args) other" for other
      using that by (cases "(KindKey k # args, other)" rule: parted.cases) auto
    then show ?thesis using Inr p v1 res c'(1,2) v' ref by (simp add: make_ok_def)
  qed
qed

lemma make_spec: "make_ok use args root"
proof (induction args arbitrary: root)
  case (Cons a args)
  then show ?case
  proof (cases a)
    case KindNone
    then show ?thesis using Cons.IH [of root] by (auto simp: make_ok_def split: sum.splits)
  qed (auto intro: make_ok_index make_ok_key)
qed (simp add: make_ok_def)

text \<open>An index that \<open>isValidIndex\<close> accepts once it is the only one made; behind the largest index the size is 0.\<close>

fun counted :: "path_argument \<Rightarrow> bool" where
  "counted (KindIndex i) \<longleftrightarrow> i \<noteq> - 1"
| "counted _ \<longleftrightarrow> False"

lemma counted_index: "isValidIndex (unat i) (ArrayV [(slot (unat i), v)]) \<longleftrightarrow> counted (KindIndex i)"
proof (cases "1 + i = 0")
  case True
  then have "i = - 1" by (metis add.commute add_eq_0_iff)
  then show ?thesis by (simp add: isValidIndex_def slot_unat)
next
  case False
  then have "i \<noteq> - 1" by auto
  then show ?thesis using unatSuc [OF False] by (simp add: isValidIndex_def slot_unat add.commute)
qed

lemma make_null:
  "make (\<lambda>_. x) args NullV = Inr root \<Longrightarrow>
   resolve_default d args root = Inr (if list_ex counted args then d else x)"
proof (induction args arbitrary: root)
  case (Cons a args)
  then show ?case
    by (cases a) (auto simp: res_simps isArray_def isObject_def counted_index set_member_def)
qed simp

section \<open>Properties\<close>

text \<open>
  C30. Path texts. \<open>makePath\<close> returns for every text without a 0 byte, and reads the text of a list of indices and names (names that are not empty, do not begin
  with a percent sign and have none of the characters \<open>[\<close>, \<open>.\<close> and 0) as that list. For the same text with a 0 byte behind it, and anything behind that, it never returns.
\<close>

theorem path_texts:
  "(CHR 0x00 \<notin> set path \<longrightarrow> (\<exists>args. makePath path ins = Some args))
   \<and> (list_all plain_arg args \<longrightarrow> makePath (path_text args) ins = Some args \<and> makePath (path_text args @ CHR 0x00 # rest) ins = None)"
proof (intro conjI impI)
  assume args: "list_all plain_arg args"
  show "makePath (path_text args) ins = Some args" using path_loop_text [OF args, of "[]" ins "[]"] by (simp add: makePath_def)
  show "makePath (path_text args @ CHR 0x00 # rest) ins = None"
    using path_loop_text [OF args, of "CHR 0x00 # rest" ins "[]"] path_loop_stuck by (simp add: makePath_def strchr_stop_def)
qed (simp add: makePath_def path_loop_returns)

theorem path_texts_witness:
  "makePath ''.users[12].name'' [] = Some [KindKey ''users'', KindIndex 12, KindKey ''name'']
   \<and> makePath (''.users[12].name'' @ [CHR 0x00]) [] = None \<and> (\<exists>args. makePath ''[x]..%'' [] = Some args)"
proof -
  let ?args = "[KindKey ''users'', KindIndex 12, KindKey ''name'']"
  have "list_all plain_arg ?args" by (simp add: strchr_stop_def)
  moreover have "path_text ?args = ''.users[12].name''"
    by code_simp
  moreover have "CHR 0x00 \<notin> set ''[x]..%''" by simp
  ultimately show ?thesis using path_texts [of "''[x]..%''" "[]" ?args "[]"] by auto
qed

text \<open>
  C29. Assigning through a path. Where the value at a path can be read, the assignment of a value to what \<open>make\<close> returns puts it there, and no value on a path that
  parts from it changes; where it cannot, both abort alike. Into a null value everything can be assigned. Read with a default afterwards, the value is found
  only when the path has no index, or only the largest one, behind which the size is 0: the test of the index is the wrong way round, and the default is
  returned exactly when the size counts the element.
\<close>

theorem path_assign:
  "(case resolve args root of
      Inl e \<Rightarrow> make (\<lambda>_. x) args root = Inl e
    | Inr v \<Rightarrow> (\<exists>root'. make (\<lambda>_. x) args root = Inr root' \<and> resolve args root' = Inr x
        \<and> (\<forall>other. parted args other \<longrightarrow> resolve other root' = resolve other root)))
   \<and> (\<exists>made. make (\<lambda>_. x) args NullV = Inr made
        \<and> resolve_default d args made = Inr (if list_ex counted args then d else x))"
proof -
  have "resolve args (NullV :: 'a json) = Inr NullV"
  proof (induction args)
    case (Cons a args)
    then show ?case by (cases a) auto
  qed simp
  then obtain made where "make (\<lambda>_. x) args NullV = Inr made" using make_spec [of "\<lambda>_. x" args NullV] by (auto simp: make_ok_def)
  with make_null [OF this, of d] make_spec [of "\<lambda>_. x" args root] show ?thesis unfolding make_ok_def by blast
qed

theorem path_assign_witness:
  "\<exists>root'. make (\<lambda>_. IntV 7) [KindKey ''a'', KindIndex 0] (ObjectV [(''b'', BoolV True)] :: unit json) = Inr root'
     \<and> resolve [KindKey ''a'', KindIndex 0] root' = Inr (IntV 7) \<and> resolve [KindKey ''b''] root' = Inr (BoolV True)"
proof -
  let ?args = "[KindKey ''a'', KindIndex 0]" and ?root = "ObjectV [(''b'', BoolV True)] :: unit json"
  have r: "resolve ?args ?root = Inr NullV" and b: "resolve [KindKey ''b''] ?root = Inr (BoolV True)" by (simp_all add: c_str_def)
  have p: "parted ?args [KindKey ''b'']" by (simp add: c_str_def)
  from path_assign [where args = ?args and root = ?root and x = "IntV 7", THEN conjunct1, unfolded r sum.case] p b
  show ?thesis by metis
qed

text \<open>
  Placeholders. Both take the first argument, since the iterator over them is not advanced, and behind an index placeholder the closing
  bracket is read as a name.
\<close>

lemma path_placeholders:
  "makePath ''.%.%'' [KindKey a, KindKey b] = Some [KindKey a, KindKey a]"
  "makePath ''[%]'' [KindIndex i] = Some [KindIndex i, KindKey '']'']"
  by (simp_all add: makePath_def path_loop.simps path_step_def addPathInArg_def strchr_stop_def key_argument_def c_str_def)

end
