(* ===== verification/JsonTypes.thy ===== *)
theory JsonTypes
  imports JsonReader JsonPath
begin

text \<open>
  The values of the JSON library as arrays and objects. Well-formed values keep their members ordered, each index and name once, and texts are C strings; every
  operation on values keeps this, and the reader only makes such values. On them the operations do what their names say: \<open>append\<close> adds one element at the end,
  \<open>removeMember\<close> takes out one member, \<open>resize\<close> cuts or lengthens, and nothing else changes.
\<close>

section \<open>Well-formed values\<close>

function wf_json :: "'d json \<Rightarrow> bool" where
  "wf_json (ArrayV kvs) \<longleftrightarrow> ordered kvs \<and> list_all (\<lambda>(i, v). in_i32 i \<and> wf_json v) kvs"
| "wf_json (ObjectV kvs) \<longleftrightarrow> ordered kvs \<and> list_all (\<lambda>(k, v). c_str k = k \<and> wf_json v) kvs"
| "wf_json (StringV s) \<longleftrightarrow> c_str s = s"
| "wf_json NullV \<longleftrightarrow> True"
| "wf_json (IntV i) \<longleftrightarrow> True"
| "wf_json (UIntV u) \<longleftrightarrow> True"
| "wf_json (RealV r) \<longleftrightarrow> True"
| "wf_json (BoolV b) \<longleftrightarrow> True"
  by pat_completeness auto
termination wf_json
  by (relation "measure size") (auto dest: size_member)

lemma c_str_c_str [simp]: "c_str (c_str s) = c_str s"
  by (auto simp: c_str_def takeWhile_eq_all_conv dest: set_takeWhileD)

lemma list_all_ins_key: "list_all P kvs \<Longrightarrow> P (k, v) \<Longrightarrow> list_all P (ins_key k v kvs)"
  by (induction k v kvs rule: ins_key.induct) auto

lemma list_all_del_key: "list_all P kvs \<Longrightarrow> list_all P (del_key k kvs)"
  by (auto simp: del_key_def list_all_iff)

lemma wf_lookup:
  "wf_json (ArrayV kvs) \<Longrightarrow> map_of kvs i = Some v \<Longrightarrow> wf_json v"
  "wf_json (ObjectV ms) \<Longrightarrow> map_of ms k = Some w \<Longrightarrow> wf_json w"
  by (auto simp: list_all_iff dest: map_of_SomeD)

lemma wf_array_ins: "wf_json (ArrayV kvs) \<Longrightarrow> wf_json x \<Longrightarrow> wf_json (ArrayV (ins_key (slot i) x kvs))"
  by (simp add: ordered_ins_key list_all_ins_key slot_i32)

lemma wf_object_ins: "wf_json (ObjectV kvs) \<Longrightarrow> wf_json x \<Longrightarrow> wf_json (ObjectV (ins_key (c_str k) x kvs))"
  by (simp add: ordered_ins_key list_all_ins_key)

lemma wf_empty: "wf_json (ArrayV [])" "wf_json (ObjectV [])" "wf_json (value_of_string s)" "wf_json (value_of_type D t)"
  by (auto simp: ordered_def value_of_string_def value_of_type_def c_str_def split: value_type.splits)

named_theorems wf_ops \<open>operations that keep values well-formed\<close>

section \<open>Operations\<close>

lemma ins_key_twice [simp]: "ins_key k x (ins_key k y kvs) = ins_key k x kvs"
  by (induction k y kvs rule: ins_key.induct) auto

lemma set_index_eq: "set_index i x NullV = Inr (ArrayV [(slot i, x)])" "set_index i x (ArrayV kvs) = Inr (ArrayV (ins_key (slot i) x kvs))"
  by (simp_all split: option.splits)

lemma set_member_eq:
  "set_member k x NullV = Inr (ObjectV [(c_str k, x)])" "set_member k x (ObjectV kvs) = Inr (ObjectV (ins_key (c_str k) x kvs))"
  by (simp_all add: set_member_def split: option.splits)

lemma wf_index_ref [wf_ops]: "wf_json v \<Longrightarrow> index_ref i v = Inr (c, v1) \<Longrightarrow> wf_json c \<and> wf_json v1"
  using wf_lookup(1) wf_array_ins [of _ NullV] by (cases v) (fastforce split: option.splits simp: ordered_def slot_i32)+

lemma wf_set_index [wf_ops]:
  assumes "wf_json v" "wf_json x" "set_index i x v = Inr v1"
  shows "wf_json v1"
proof (cases v)
  case (ArrayV kvs)
  then show ?thesis using assms wf_array_ins by (simp add: set_index_eq del: set_index.simps wf_json.simps(1)) blast
qed (use assms in \<open>auto simp: ordered_def slot_i32\<close>)

lemma wf_resolveReference [wf_ops]: "wf_json v \<Longrightarrow> resolveReference k v = Inr (c, v1) \<Longrightarrow> wf_json c \<and> wf_json v1"
  using wf_lookup(2) wf_object_ins [of _ NullV] by (cases v) (fastforce split: option.splits simp: ordered_def slot_i32)+

lemma wf_set_member [wf_ops]:
  assumes "wf_json v" "wf_json x" "set_member k x v = Inr v1"
  shows "wf_json v1"
proof (cases v)
  case (ObjectV kvs)
  then show ?thesis using assms wf_object_ins by (simp add: set_member_eq del: wf_json.simps(2)) blast
qed (use assms in \<open>auto simp: ordered_def set_member_def\<close>)

lemma wf_index_get [wf_ops]: "wf_json v \<Longrightarrow> index_get i v = Inr x \<Longrightarrow> wf_json x"
  by (cases v) (auto split: option.splits dest: wf_lookup(1) simp del: wf_json.simps(1))

lemma wf_member_get [wf_ops]: "wf_json v \<Longrightarrow> member_get k v = Inr x \<Longrightarrow> wf_json x"
  by (cases v) (auto split: option.splits dest: wf_lookup(2) simp del: wf_json.simps(2))

lemma wf_append [wf_ops]: "wf_json v \<Longrightarrow> wf_json x \<Longrightarrow> json_append x v = Inr v1 \<Longrightarrow> wf_json v1"
  unfolding json_append_def by (rule wf_set_index)

lemma wf_removeMember [wf_ops]: "wf_json v \<Longrightarrow> removeMember k v = Inr (x, v1) \<Longrightarrow> wf_json x \<and> wf_json v1"
proof (cases v)
  case (ObjectV kvs)
  assume "wf_json v" "removeMember k v = Inr (x, v1)"
  then show ?thesis using ObjectV wf_lookup(2) [of kvs "c_str k" x]
    by (auto simp: ordered_del_key list_all_del_key split: option.splits)
qed auto

lemma wf_clear [wf_ops]: "json_clear v = Inr v1 \<Longrightarrow> wf_json v1"
  by (cases v) (auto simp: ordered_def)

lemma wf_del_range: "wf_json (ArrayV kvs) \<Longrightarrow> wf_json (ArrayV (del_range i n kvs))"
  by (induction i n kvs rule: del_range.induct) (simp_all add: ordered_del_key list_all_del_key)

lemma wf_resize [wf_ops]:
  assumes "wf_json v" "json_resize n v = Inr v1"
  shows "wf_json v1"
proof -
  define a where "a = (if json_type v = nullValue then ArrayV [] else v)"
  have "json_type v = nullValue \<or> json_type v = arrayValue" using assms(2) by (auto simp: json_resize_def split: if_splits)
  then obtain kvs where a: "a = ArrayV kvs" "wf_json (ArrayV kvs)" using assms(1) wf_empty(1) unfolding a_def by (cases v) auto
  have "json_clear a = Inr v1 \<or> (\<exists>c. index_ref (n - 1) a = Inr (c, v1)) \<or> v1 = ArrayV (del_range n (json_size a - n) kvs)"
    using assms(2) a(1) unfolding json_resize_def a_def [symmetric] by (auto simp: Let_def res_simps split: if_splits)
  then show ?thesis using wf_clear wf_index_ref a wf_del_range by metis
qed

lemma wf_resolve [wf_ops]: "wf_json v \<Longrightarrow> resolve args v = Inr x \<Longrightarrow> wf_json x"
proof (induction args arbitrary: v)
  case (Cons a args)
  then show ?case by (cases a) (auto simp: res_simps dest: wf_index_get wf_member_get)
qed simp

lemma wf_make [wf_ops]:
  assumes "\<And>v. wf_json v \<Longrightarrow> wf_json (use v)"
  shows "wf_json v \<Longrightarrow> make use args v = Inr v1 \<Longrightarrow> wf_json v1"
proof (induction args arbitrary: v v1)
  case (Cons a args)
  show ?case
  proof (cases a)
    case (KindIndex i)
    then obtain c w c1 where "index_ref (unat i) v = Inr (c, w)" "make use args c = Inr c1" "set_index (unat i) c1 w = Inr v1"
      using Cons.prems(2) by (auto simp: res_simps simp del: set_index.simps)
    with Cons show ?thesis using wf_index_ref wf_set_index by blast
  next
    case (KindKey k)
    then obtain c w c1 where "resolveReference k v = Inr (c, w)" "make use args c = Inr c1" "set_member k c1 w = Inr v1"
      using Cons.prems(2) by (auto simp: res_simps)
    with Cons show ?thesis using wf_resolveReference wf_set_member by blast
  qed (use Cons in simp)
qed (use assms in auto)

section \<open>The reader\<close>

fun wf_call :: "'d call \<Rightarrow> bool" where
  "wf_call (CallValue cur) \<longleftrightarrow> wf_json cur"
| "wf_call (CallObject nm cur) \<longleftrightarrow> wf_json cur"
| "wf_call (CallArray i cur) \<longleftrightarrow> wf_json cur"

definition wf_result :: "(bool \<times> 'd json \<times> pstate) run \<Rightarrow> bool" where
  "wf_result r \<longleftrightarrow> (\<forall>ok v st. r = Some (Inr (ok, v, st)) \<longrightarrow> wf_json v)"

lemma wf_result_simps [simp]:
  "wf_result None" "wf_result (Some (Inl e))" "wf_result (Some (Inr (ok, v, st))) \<longleftrightarrow> wf_json v"
  "wf_result (fail_recover t v st) \<longleftrightarrow> wf_json v" "wf_result (addErrorAndRecover m t v st) \<longleftrightarrow> wf_json v"
  by (auto simp: wf_result_def fail_recover_def addErrorAndRecover_def)

lemma wf_result_bind:
  assumes "wf_result m" "\<And>ok v st. wf_json v \<Longrightarrow> wf_result (f (ok, v, st))"
  shows "wf_result (obind m f)"
proof (cases m)
  case (Some r)
  then show ?thesis using assms by (cases r) auto
qed simp

lemma wf_obj_put: "wf_json cur \<Longrightarrow> wf_json v \<Longrightarrow> wf_json (obj_put nm v cur)"
  using wf_object_ins by (cases cur) auto

lemma wf_arr_put: "wf_json cur \<Longrightarrow> wf_json v \<Longrightarrow> wf_json (arr_put i v cur)"
  using wf_array_ins by (cases cur) auto

lemma wf_obj_member: "wf_json cur \<Longrightarrow> wf_json (obj_member nm cur)"
  by (cases cur) (auto split: option.splits simp del: wf_json.simps(2) dest: wf_lookup(2))

lemma wf_number: "decodeNumber ub scan text = Inr (Some v) \<Longrightarrow> wf_json v"
  by (auto simp: decodeNumber_def decodeDouble_def neg_minInt_def Let_def split: if_splits num_scan.splits)

lemma wf_run_parser: "wf_call c \<Longrightarrow> wf_result (run_parser ub F scan n c st)"
proof (induction n arbitrary: c st)
  case (Suc n)
  obtain r errs where st: "st = (r, errs)" by (cases st)
  note rec = Suc.IH
  show ?case
  proof (cases c)
    case (CallValue cur)
    then show ?thesis using Suc.prems rec st
      by (auto simp: readValue_def Let_def wf_empty ordered_def intro: wf_number split: token_type.splits prod.splits sum.splits option.splits)
  next
    case (CallObject nm cur)
    have rest: "wf_result (readObject_next (run_parser ub F scan n) nm v r errs)" if "wf_json v" for nm v r errs
      using that rec by (auto simp: readObject_next_def split: prod.splits)
    show ?thesis using CallObject Suc.prems rec st rest
      by (auto simp: readObject_def Let_def wf_obj_member wf_obj_put intro!: wf_result_bind split: prod.splits sum.splits)
  next
    case (CallArray i cur)
    then show ?thesis using Suc.prems rec st
      by (auto simp: readArray_def Let_def wf_arr_put intro!: wf_result_bind split: prod.splits)
  qed
qed simp

lemma wf_parse:
  assumes "parse F scan doc = Some (Inr (ok, root, errs))"
  shows "wf_json root"
proof -
  obtain r where r: "run_parser False F scan (parse_fuel doc) (CallValue NullV) (doc, []) = Some (Inr r)" and root: "fst (snd r) = root"
    using assms by (auto simp: parse_def parse_with_def obind_def split: option.splits sum.splits if_splits)
  have "wf_result (run_parser False F scan (parse_fuel doc) (CallValue NullV) (doc, []))" by (rule wf_run_parser) simp
  with r root show ?thesis by (cases r) (auto simp: wf_result_def)
qed

section \<open>Arrays\<close>

lemma unat_small: "n < 2 ^ 32 \<Longrightarrow> unat (of_nat n :: i32) = n"
  by (simp add: unat_of_nat)

text \<open>A new last key: \<open>append\<close> puts the element behind the others as long as the keys stay \<open>int\<close>s.\<close>

lemma ordered_last: "ordered kvs \<Longrightarrow> k \<in> fst ` set kvs \<Longrightarrow> k \<le> fst (last kvs)"
  by (induction kvs) (auto simp: ordered_def intro: order.strict_implies_order)

lemma small_size_exact:
  assumes "in_i32 l" "(l + 1) mod 2 ^ 32 < 2 ^ 31 - 1"
  shows "(l + 1) mod 2 ^ 32 = l + 1"
proof (cases "l + 1 < 0")
  case True
  have "(l + 1) mod 2 ^ 32 = (l + 1 + 2 ^ 32) mod 2 ^ 32" by (simp only: mod_add_self2)
  also have "\<dots> = l + 1 + 2 ^ 32" by (rule mod_pos_pos_trivial) (use True assms(1) in \<open>simp_all add: in_i32_def\<close>)
  finally show ?thesis using assms by (simp add: in_i32_def)
qed (use assms(1) in \<open>simp add: in_i32_def\<close>)

lemma append_array:
  assumes "ordered kvs" "json_size (ArrayV kvs) < 2 ^ 31 - 1" "list_all (\<lambda>(i, v). in_i32 i) kvs"
  shows "json_append x (ArrayV kvs) = Inr (ArrayV (kvs @ [(int (json_size (ArrayV kvs)), x)]))"
proof -
  let ?n = "json_size (ArrayV kvs)"
  have slot: "slot ?n = int ?n" using assms(2) by (intro slot_small) simp
  have "k < int ?n" if "k \<in> fst ` set kvs" for k
  proof -
    let ?l = "fst (last kvs)"
    have ne: "kvs \<noteq> []" using that by auto
    then have l: "in_i32 ?l" using assms(3) last_in_set [OF ne] by (auto simp: list_all_iff case_prod_unfold)
    have n: "?n = unat (of_int (?l + 1) :: i32)" using ne by simp
    have mod: "int ?n = (?l + 1) mod 2 ^ 32" unfolding n by (simp add: uint_word_of_int flip: uint_nat of_int_add del: of_int_add)
    have small: "int ?n < 2 ^ 31 - 1" using assms(2) by (simp del: json_size.simps)
    have "int ?n = ?l + 1" by (rule trans [OF mod small_size_exact [OF l small [unfolded mod]]])
    then show ?thesis using ordered_last [OF assms(1) that] by linarith
  qed
  then have "ins_key (int ?n) x kvs = kvs @ [(int ?n, x)]" by (intro ins_key_last) blast
  then show ?thesis by (simp add: json_append_def set_index_eq slot del: set_index.simps json_size.simps)
qed

text \<open>The array behind a value that is null or an array.\<close>

fun elements :: "'d json \<Rightarrow> (int \<times> 'd json) list" where
  "elements (ArrayV kvs) = kvs"
| "elements _ = []"

lemma array_elements:
  assumes "isArray v"
  shows "v = NullV \<or> v = ArrayV (elements v)" "json_size v = json_size (ArrayV (elements v))" "index_get i v = index_get i (ArrayV (elements v))"
    "json_append x v = json_append x (ArrayV (elements v))" "json_resize n v = json_resize n (ArrayV (elements v))" "wf_json v \<Longrightarrow> wf_json (ArrayV (elements v))"
  using assms by (cases v; simp add: isArray_def json_append_def json_resize_def ordered_def; fail)+

lemma append_law:
  assumes "wf_json v" "wf_json x" "isArray v" "json_size v < 2 ^ 31 - 1"
  shows "\<exists>v1. json_append x v = Inr v1 \<and> wf_json v1 \<and> json_size v1 = Suc (json_size v)
    \<and> (\<forall>j < 2 ^ 32. index_get j v1 = (if j = json_size v then Inr x else index_get j v))"
proof -
  let ?kvs = "elements v" and ?n = "json_size v"
  have wf: "wf_json (ArrayV ?kvs)" and n: "json_size (ArrayV ?kvs) = ?n" using array_elements [OF assms(3)] assms(1) by simp_all
  let ?v1 = "ArrayV (?kvs @ [(int ?n, x)])"
  have app: "json_append x v = Inr ?v1"
    unfolding array_elements(4) [OF assms(3)] n [symmetric] by (rule append_array) (use wf assms(4) n in \<open>auto simp: list_all_iff\<close>)
  then have "wf_json ?v1" using wf_append assms(1,2) by blast
  have set: "set_index ?n x (ArrayV ?kvs) = Inr ?v1" using app unfolding array_elements(4) [OF assms(3)] unfolding json_append_def n .
  have word: "(of_int (int ?n + 1) :: i32) = of_nat (Suc ?n)" by simp
  have "json_size ?v1 = unat (of_nat (Suc ?n) :: i32)" by (simp del: of_int_add of_nat_Suc add: word)
  also have "\<dots> = Suc ?n" by (rule unat_small) (use assms(4) in simp)
  finally have "json_size ?v1 = Suc ?n" .
  moreover have "index_get j ?v1 = (if j = ?n then Inr x else index_get j v)" if "j < 2 ^ 32" for j
  proof -
    have "slot j = slot ?n \<longleftrightarrow> j = ?n" using that assms(4) by (intro slot_eq_iff) simp_all
    moreover have "?v1 = ArrayV (ins_key (slot ?n) x ?kvs)" using set by (simp add: set_index_eq del: set_index.simps)
    then have "map_of (?kvs @ [(int ?n, x)]) = (map_of ?kvs)(slot ?n \<mapsto> x)" using map_of_ins_key [of "slot ?n" x ?kvs] by simp
    then have "index_get j ?v1 = (case ((map_of ?kvs)(slot ?n \<mapsto> x)) (slot j) of Some v \<Rightarrow> Inr v | None \<Rightarrow> Inr NullV)"
      unfolding index_get.simps by (rule arg_cong)
    ultimately show ?thesis unfolding array_elements(3) [OF assms(3), of j] by simp
  qed
  ultimately show ?thesis using app \<open>wf_json ?v1\<close> by blast
qed

lemma dense_key: "dense kvs \<Longrightarrow> kvs ! i = (k, v) \<Longrightarrow> i < length kvs \<Longrightarrow> k = int i"
  using dense_fst [of kvs i] by simp

text \<open>\<open>resize\<close>, for an array without holes.\<close>

lemma del_range_filter: "del_range i n kvs = filter (\<lambda>(k, v). k \<notin> slot ` {i..<i + n}) kvs"
proof (induction i n kvs rule: del_range.induct)
  case (2 i n kvs)
  have "{i..<i + Suc n} = insert i {Suc i..<Suc i + n}" by auto
  then show ?case using 2 by (auto simp: del_key_def intro!: filter_cong)
qed simp

lemma del_range_dense:
  assumes "dense kvs" "n \<le> length kvs"
  shows "del_range n (length kvs - n) kvs = take n kvs"
proof -
  let ?P = "\<lambda>(k, v). k \<notin> slot ` {n..<n + (length kvs - n)}"
  have len: "length kvs < 2 ^ 31" using assms(1) by (simp add: dense_def)
  then have slots: "slot ` {n..<n + (length kvs - n)} = int ` {n..<length kvs}"
    using assms(2) by (intro image_cong) (simp_all add: slot_small)
  have "filter ?P (take n kvs) = take n kvs"
    using assms(2) unfolding slots by (auto simp: filter_id_conv in_set_conv_nth dest!: dense_key [OF assms(1)])
  moreover have "fst p \<in> int ` {n..<length kvs}" if p: "p \<in> set (drop n kvs)" for p
  proof -
    obtain i where "i < length (drop n kvs)" "p = drop n kvs ! i" using p by (metis in_set_conv_nth)
    then have i: "n + i < length kvs" "p = kvs ! (n + i)" by simp_all
    have "fst p = int (n + i)" using dense_fst [OF assms(1) i(1)] i(2) by simp
    moreover have "n + i \<in> {n..<length kvs}" using i(1) by simp
    ultimately show ?thesis by (rule image_eqI)
  qed
  then have "filter ?P (drop n kvs) = []" unfolding slots by (auto simp: filter_empty_conv)
  ultimately have "filter ?P (take n kvs @ drop n kvs) = take n kvs" by (simp only: filter_append) simp
  then show ?thesis by (simp add: del_range_filter)
qed

lemma dense_take: "dense kvs \<Longrightarrow> n \<le> length kvs \<Longrightarrow> dense (take n kvs)"
  by (auto simp: dense_def take_map [symmetric] min_def) (simp add: take_map)

lemma resize_law:
  assumes "wf_json v" "isArray v" "dense (elements v)" "n < 2 ^ 31"
  shows "\<exists>v1. json_resize n v = Inr v1 \<and> wf_json v1 \<and> json_size v1 = n
    \<and> (\<forall>j < 2 ^ 32. index_get j v1 = (if j < n then index_get j v else Inr NullV))"
proof -
  let ?kvs = "elements v"
  have size: "json_size (ArrayV ?kvs) = length ?kvs" by (rule dense_size [OF assms(3)])
  have get: "index_get j (ArrayV ?kvs) = (if j < length ?kvs then Inr (snd (?kvs ! j)) else Inr NullV)" if "j < 2 ^ 32" for j
    using dense_lookup [OF assms(3), of j] that by simp
  consider (cut) "n \<le> length ?kvs" | (grow) "n > length ?kvs" by linarith
  then have "\<exists>v1. json_resize n (ArrayV ?kvs) = Inr v1 \<and> json_size v1 = n
    \<and> (\<forall>j < 2 ^ 32. index_get j v1 = (if j < n then index_get j (ArrayV ?kvs) else Inr NullV))"
  proof cases
    case cut
    have d: "dense (take n ?kvs)" by (rule dense_take [OF assms(3) cut])
    have size1: "json_size (ArrayV (take n ?kvs)) = n" using dense_size [OF d] cut by simp
    have "json_resize n (ArrayV ?kvs) = Inr (ArrayV (take n ?kvs))"
      using cut size size1 del_range_dense [OF assms(3) cut] by (simp add: json_resize_def Let_def c_assert_def del: json_size.simps)
    moreover have "index_get j (ArrayV (take n ?kvs)) = (if j < n then index_get j (ArrayV ?kvs) else Inr NullV)" if "j < 2 ^ 32" for j
      using get [OF that] dense_lookup [OF d, of j] that cut by simp
    ultimately show ?thesis using size1 by blast
  next
    case grow
    let ?new = "?kvs @ [(int (n - 1), NullV)]"
    have key: "slot (n - 1) = int (n - 1)" using assms(4) by (intro slot_small) simp
    have keys: "\<forall>k \<in> fst ` set ?kvs. k < int (n - 1)"
      using grow by (auto simp: in_set_conv_nth dest!: dense_key [OF assms(3)])
    have none: "map_of ?kvs (slot (n - 1)) = None" using dense_lookup(2) [OF assms(3), of "n - 1"] grow assms(4) by simp
    have "json_resize n (ArrayV ?kvs) = Inr (ArrayV ?new)"
      using grow size none ins_key_last [OF keys, of NullV] by (simp add: json_resize_def Let_def key [unfolded One_nat_def] of_nat_diff del: json_size.simps)
    moreover have "json_size (ArrayV ?new) = n"
    proof -
      have word: "(of_int (int (n - 1) + 1) :: i32) = of_nat n" using grow by (cases n) simp_all
      have "json_size (ArrayV ?new) = unat (of_nat n :: i32)" by (simp del: of_int_add add: word [unfolded One_nat_def])
      also have "\<dots> = n" by (rule unat_small) (use assms(4) in simp)
      finally show ?thesis .
    qed
    moreover have "index_get j (ArrayV ?new) = (if j < n then index_get j (ArrayV ?kvs) else Inr NullV)" if "j < 2 ^ 32" for j
      using dense_lookup [OF assms(3), of j] that grow assms(4) slot_eq_iff [of j "n - 1"] key by (auto simp: map_add_def split: option.splits)
    ultimately show ?thesis by blast
  qed
  then show ?thesis using wf_resize [OF assms(1), of n] unfolding array_elements(3,5) [OF assms(2)] by blast
qed

section \<open>Objects\<close>

fun members :: "'d json \<Rightarrow> (string \<times> 'd json) list" where
  "members (ObjectV kvs) = kvs"
| "members _ = []"

lemma object_members:
  assumes "isObject v"
  shows "member_get k v = member_get k (ObjectV (members v))" "set_member k x v = set_member k x (ObjectV (members v))"
    "getMemberNames v = Inr (map fst (members v))" "wf_json v \<Longrightarrow> wf_json (ObjectV (members v))"
  using assms by (cases v; simp add: isObject_def set_member_def ordered_def; fail)+

lemma set_member_law:
  assumes "wf_json v" "wf_json x" "isObject v"
  shows "\<exists>v1 ns1. set_member k x v = Inr v1 \<and> wf_json v1
    \<and> (\<forall>k'. member_get k' v1 = (if c_str k' = c_str k then Inr x else member_get k' v))
    \<and> getMemberNames v1 = Inr ns1 \<and> sorted ns1 \<and> distinct ns1 \<and> set ns1 = insert (c_str k) (set (map fst (members v)))"
proof -
  let ?v1 = "ObjectV (ins_key (c_str k) x (members v))"
  have set: "set_member k x v = Inr ?v1" by (simp add: object_members(2) [OF assms(3)] set_member_eq)
  have wf: "wf_json ?v1" by (rule wf_set_member [OF assms(1,2) set])
  then have "sorted (map fst (ins_key (c_str k) x (members v))) \<and> distinct (map fst (ins_key (c_str k) x (members v)))"
    by (simp add: ordered_def strict_sorted_iff)
  moreover have "set (map fst (ins_key (c_str k) x (members v))) = insert (c_str k) (set (map fst (members v)))"
    by (simp add: set_ins_key)
  moreover have "member_get k' ?v1 = (if c_str k' = c_str k then Inr x else member_get k' v)" for k'
    unfolding object_members(1) [OF assms(3), of k'] by simp
  ultimately show ?thesis using set wf unfolding getMemberNames.simps(2) [of "ins_key (c_str k) x (members v)", symmetric] by (metis getMemberNames.simps(2))
qed

lemma removeMember_law:
  assumes "wf_json v" "isObject v"
  shows "\<exists>y v1. removeMember k v = Inr (y, v1) \<and> member_get k v = Inr y \<and> wf_json v1
    \<and> (\<forall>k'. member_get k' v1 = (if c_str k' = c_str k then Inr NullV else member_get k' v))
    \<and> getMemberNames v1 = Inr (filter (\<lambda>n. n \<noteq> c_str k) (map fst (members v)))"
proof (cases "removeMember k v")
  case (Inl e)
  then show ?thesis using assms(2) by (cases v) (auto simp: isObject_def split: option.splits)
next
  case (Inr p)
  obtain y v1 where p: "p = (y, v1)" by (cases p)
  have wf: "wf_json v1" using wf_removeMember [OF assms(1) Inr [unfolded p]] by simp
  have names: "map fst (del_key (c_str k) kvs) = filter (\<lambda>n. n \<noteq> c_str k) (map fst kvs)" for kvs :: "(string \<times> 'a json) list"
    by (simp add: del_key_def filter_map comp_def case_prod_unfold)
  have absent: "map_of kvs (c_str k) = None \<Longrightarrow> filter (\<lambda>n. n \<noteq> c_str k) (map fst kvs) = map fst kvs" for kvs :: "(string \<times> 'a json) list"
    unfolding map_of_eq_None_iff by (auto simp: filter_id_conv image_iff)
  have "member_get k v = Inr y \<and> (\<forall>k'. member_get k' v1 = (if c_str k' = c_str k then Inr NullV else member_get k' v))
    \<and> getMemberNames v1 = Inr (filter (\<lambda>n. n \<noteq> c_str k) (map fst (members v)))"
    using Inr assms(2) by (cases v) (auto simp: p isObject_def map_of_del_key names absent split: option.splits)
  then show ?thesis using Inr p wf by blast
qed

section \<open>Properties\<close>

text \<open>
  C26. Arrays and objects. Let a value and an element be well-formed: their members ordered, each index and name once, their texts C strings, at every depth.
  \<open>append\<close> to an array (or null) of less than \<open>2 ^ 31 - 1\<close> elements puts the element at the index \<open>size()\<close>, makes the array one longer and changes no other element.
  \<open>resize\<close> of an array without holes makes it as long as asked, keeps the elements below the new size and drops the others. The assignment of a member sets it, changes no other
  member and adds its name to the names, which stay sorted without duplicates. \<open>removeMember\<close> returns the member, takes out this name only and changes no other member. All
  these results are well-formed, and so are what \<open>make\<close> and the assignment of an element leave and what \<open>parse\<close> returns for any document, also one with errors.
\<close>

theorem json_types:
  assumes "wf_json v" "wf_json x"
  shows "(isArray v \<and> json_size v < 2 ^ 31 - 1 \<longrightarrow> (\<exists>v1. json_append x v = Inr v1 \<and> wf_json v1 \<and> json_size v1 = Suc (json_size v)
       \<and> (\<forall>j < 2 ^ 32. index_get j v1 = (if j = json_size v then Inr x else index_get j v))))
    \<and> (isArray v \<and> dense (elements v) \<and> n < 2 ^ 31 \<longrightarrow> (\<exists>v1. json_resize n v = Inr v1 \<and> wf_json v1 \<and> json_size v1 = n
       \<and> (\<forall>j < 2 ^ 32. index_get j v1 = (if j < n then index_get j v else Inr NullV))))
    \<and> (isObject v \<longrightarrow> (\<exists>v1 ns1. set_member k x v = Inr v1 \<and> wf_json v1
       \<and> (\<forall>k'. member_get k' v1 = (if c_str k' = c_str k then Inr x else member_get k' v))
       \<and> getMemberNames v1 = Inr ns1 \<and> sorted ns1 \<and> distinct ns1 \<and> set ns1 = insert (c_str k) (set (map fst (members v)))))
    \<and> (isObject v \<longrightarrow> (\<exists>y v1. removeMember k v = Inr (y, v1) \<and> member_get k v = Inr y \<and> wf_json v1
       \<and> (\<forall>k'. member_get k' v1 = (if c_str k' = c_str k then Inr NullV else member_get k' v))
       \<and> getMemberNames v1 = Inr (filter (\<lambda>m. m \<noteq> c_str k) (map fst (members v)))))
    \<and> (set_index i x v = Inr v2 \<or> make (\<lambda>_. x) args v = Inr v2 \<longrightarrow> wf_json v2)
    \<and> (parse F scan doc = Some (Inr (ok, root, errs)) \<longrightarrow> wf_json root)"
proof (intro conjI impI)
  assume "set_index i x v = Inr v2 \<or> make (\<lambda>_. x) args v = Inr v2"
  then show "wf_json v2" using assms wf_make [of "\<lambda>_. x" v args v2] wf_set_index by blast
qed (use append_law [OF assms] resize_law [OF assms(1)] set_member_law [OF assms] removeMember_law [OF assms(1)] wf_parse in blast)+

theorem json_types_witness:
  "(\<exists>v1. json_append (IntV 5) (ArrayV [(0, NullV), (1, StringV ''x'')] :: unit json) = Inr v1 \<and> json_size v1 = 3 \<and> index_get 2 v1 = Inr (IntV 5))
   \<and> (\<exists>v1. json_resize 1 (ArrayV [(0, NullV), (1, StringV ''x'')] :: unit json) = Inr v1 \<and> json_size v1 = 1)
   \<and> (\<exists>v1. removeMember ''a'' (ObjectV [(''a'', BoolV True), (''b'', NullV)] :: unit json) = Inr (BoolV True, v1) \<and> getMemberNames v1 = Inr [''b''])
   \<and> (\<exists>root. set_index 0 (IntV 5) NullV = Inr (root :: unit json) \<and> wf_json root)"
proof -
  let ?a = "ArrayV [(0, NullV), (1, StringV ''x'')] :: unit json" and ?o = "ObjectV [(''a'', BoolV True), (''b'', NullV)] :: unit json"
  have wf: "wf_json ?a" "wf_json ?o" "wf_json (IntV 5 :: unit json)" "wf_json (NullV :: unit json)" by (simp_all add: ordered_def c_str_def in_i32_def)
  have sz: "json_size ?a = 2" by simp
  have ar: "isArray ?a" "dense (elements ?a)" by (simp_all add: isArray_def dense_def upt_rec)
  have "\<exists>v1. json_append (IntV 5) ?a = Inr v1 \<and> json_size v1 = 3 \<and> index_get 2 v1 = Inr (IntV 5)"
    using json_types [OF wf(1,3), THEN conjunct1] ar(1) unfolding sz by fastforce
  moreover have "\<exists>v1. json_resize 1 ?a = Inr v1 \<and> json_size v1 = 1"
    using json_types [OF wf(1,3), THEN conjunct2, THEN conjunct1, of 1] ar by auto
  moreover have "\<exists>v1. removeMember ''a'' ?o = Inr (BoolV True, v1) \<and> getMemberNames v1 = Inr [''b'']"
    using json_types [OF wf(2,3), THEN conjunct2, THEN conjunct2, THEN conjunct2, THEN conjunct1, of "''a''"]
    by (auto simp: isObject_def c_str_def)
  moreover have "\<exists>root. set_index 0 (IntV 5) NullV = Inr (root :: unit json) \<and> wf_json root"
    using json_types [OF wf(4,3), THEN conjunct2, THEN conjunct2, THEN conjunct2, THEN conjunct2, THEN conjunct1, of 0 "ArrayV [(slot 0, IntV 5)]"]
    by (simp add: set_index_eq del: wf_json.simps)
  ultimately show ?thesis by blast
qed

end
