(* ===== verification/JsonStreamWriter.thy ===== *)
theory JsonStreamWriter
  imports JsonStyled
begin

text \<open>
  \<open>StyledStreamWriter\<close> (\<open>jsoncpp/json_writer.cpp\<close>), which \<open>operator <<\<close> uses, and the agreement of the three writers: for values without
  comments they print the same text up to white space outside of strings. The two indenting writers are instances of one locale, \<open>layout_writer\<close>.
  The values of \<open>JsonValue\<close> carry no comments, so the steps that print them (\<open>writeCommentBeforeValue\<close>, \<open>writeCommentAfterValueOnSameLine\<close>) and
  \<open>hasCommentForValue\<close> are left out; with comments the texts differ, since \<open>FastWriter\<close> does not print them. The stream is the text written to it.
\<close>

section \<open>StyledStreamWriter\<close>

definition stream_pushValue :: "string \<Rightarrow> styled \<Rightarrow> styled" where
  "stream_pushValue value s =
     (if addChildValues s then s\<lparr>childValues := childValues s @ [value]\<rparr>
      else s\<lparr>document := document s @ value\<rparr>)"

definition stream_writeIndent :: "styled \<Rightarrow> styled" where
  "stream_writeIndent s = s\<lparr>document := document s @ [LF] @ indentString s\<rparr>"

definition stream_writeWithIndent :: "string \<Rightarrow> styled \<Rightarrow> styled" where
  "stream_writeWithIndent value s = put value (stream_writeIndent s)"

definition stream_indent :: "string \<Rightarrow> styled \<Rightarrow> styled" where
  "stream_indent indentation s = s\<lparr>indentString := indentString s @ indentation\<rparr>"

definition stream_unindent :: "string \<Rightarrow> styled \<Rightarrow> styled res" where
  "stream_unindent indentation s = c_assert (length (indentString s) \<ge> length indentation)
     (Inr (s\<lparr>indentString := take (length (indentString s) - length indentation) (indentString s)\<rparr>))"

function ssw_value :: "string \<Rightarrow> ('d \<Rightarrow> string) \<Rightarrow> 'd json \<Rightarrow> styled \<Rightarrow> styled res" where
  "ssw_value ind fmt NullV s = Inr (stream_pushValue ''null'' s)"
| "ssw_value ind fmt (IntV i) s = Inr (stream_pushValue (valueToString_int i) s)"
| "ssw_value ind fmt (UIntV u) s = Inr (stream_pushValue (valueToString_uint u) s)"
| "ssw_value ind fmt (RealV r) s = Inr (stream_pushValue (valueToString_double fmt r) s)"
| "ssw_value ind fmt (StringV t) s = Inr (stream_pushValue (valueToQuotedString t) s)"
| "ssw_value ind fmt (BoolV b) s = Inr (stream_pushValue (valueToString_bool b) s)"
| "ssw_value ind fmt (ArrayV kvs) s =
     (let xs = array_elems kvs; size = length xs
      in if size = 0 then Inr (stream_pushValue ''[]'' s)
         else if size * 3 \<ge> 2 ^ 31 then Inl Overflow
         else
           rbind
             (if isMultineArray_pre xs then Inr (True, s\<lparr>childValues := []\<rparr>)
              else rbind (rfold (\<lambda>x. ssw_value ind fmt x) xs (s\<lparr>childValues := [], addChildValues := True\<rparr>)) (\<lambda>s1.
                   if length (childValues s1) < size then Inl OutOfBounds
                   else Inr (lineLength size (childValues s1) \<ge> rightMargin, s1\<lparr>addChildValues := False\<rparr>)))
             (\<lambda>(isArrayMultiLine, s2).
              if isArrayMultiLine
              then let hasChildValue = (childValues s2 \<noteq> []);
                       s3 = stream_indent ind (stream_writeWithIndent ''['' s2)
                   in rbind (rfold (\<lambda>(i, comma, x) s4.
                          rbind (if hasChildValue then rbind (nth_child i s4) (\<lambda>t. Inr (stream_writeWithIndent t s4))
                                 else ssw_value ind fmt x (stream_writeIndent s4)) (\<lambda>s5.
                          Inr (if comma then put '','' s5 else s5)))
                        (commas xs) s3) (\<lambda>s6.
                      rbind (stream_unindent ind s6) (\<lambda>s7. Inr (stream_writeWithIndent '']'' s7)))
              else c_assert (length (childValues s2) = size)
                   (Inr (put ('' ]'') (put (join '', '' (childValues s2)) (put ''[ '' s2))))))"
| "ssw_value ind fmt (ObjectV kvs) s =
     (if kvs = [] then Inr (stream_pushValue ''{}'' s)
      else rbind (rfold (\<lambda>(i, comma, (k, v)) s4.
              rbind (ssw_value ind fmt v (put '' : '' (stream_writeWithIndent (valueToQuotedString k) s4))) (\<lambda>s5.
              Inr (if comma then put '','' s5 else s5)))
             (commas kvs) (stream_indent ind (stream_writeWithIndent ''{'' s))) (\<lambda>s6.
           rbind (stream_unindent ind s6) (\<lambda>s7. Inr (stream_writeWithIndent ''}'' s7))))"
  by pat_completeness auto
termination ssw_value
  by (relation "measure (\<lambda>(ind, fmt, v, s). size v)") (auto dest: size_commas_elem size_commas_member size_array_elem)

definition stream_write :: "string \<Rightarrow> ('d \<Rightarrow> string) \<Rightarrow> string \<Rightarrow> 'd json \<Rightarrow> string res" where
  "stream_write ind fmt out root =
     rbind (ssw_value ind fmt root \<lparr>document = out, childValues = [], addChildValues = False, indentString = []\<rparr>) (\<lambda>s.
     Inr (document s @ [LF]))"

definition default_indentation :: string where
  "default_indentation = [CHR 0x09]"

definition json_shift_out :: "('d \<Rightarrow> string) \<Rightarrow> string \<Rightarrow> 'd json \<Rightarrow> string res" where
  "json_shift_out fmt out root = stream_write default_indentation fmt out root"

section \<open>Texts up to white space\<close>

text \<open>\<open>strip\<close> leaves out white space outside of string literals; its first argument says whether it is inside one.\<close>

fun strip :: "bool \<Rightarrow> string \<Rightarrow> string" where
  "strip q [] = []"
| "strip False (c # cs) = (if c = DQ then c # strip True cs else if is_space c then strip False cs else c # strip False cs)"
| "strip True (c # cs) =
     (if c = BS then (case cs of [] \<Rightarrow> [c] | d # ds \<Rightarrow> c # d # strip True ds) else if c = DQ then c # strip False cs else c # strip True cs)"

definition closed :: "string \<Rightarrow> bool" where
  "closed xs \<longleftrightarrow> (\<forall>ys. strip False (xs @ ys) = strip False xs @ strip False ys)"

lemma strip_closed: "closed xs \<Longrightarrow> strip False (xs @ ys) = strip False xs @ strip False ys"
  by (simp add: closed_def)

lemma closed_append: "closed xs \<Longrightarrow> closed ys \<Longrightarrow> closed (xs @ ys)"
  by (simp add: closed_def)

lemma closed_plain: "DQ \<notin> set xs \<Longrightarrow> closed xs"
  unfolding closed_def by (induction xs) auto

lemma strip_blank: "blank w \<Longrightarrow> strip False w = []"
proof (induction w)
  case (Cons c w)
  then show ?case by (auto simp: DQ_def is_space_def)
qed simp

lemma blank_plain: "blank w \<Longrightarrow> DQ \<notin> set w"
  by (induction w) (auto simp: DQ_def is_space_def)

lemma strip_join:
  assumes "\<forall>t \<in> set ts. closed t" "closed sep"
  shows "closed (join sep ts) \<and> strip False (join sep ts) = join (strip False sep) (map (strip False) ts)"
  using assms
proof (induction sep ts rule: join.induct)
  case (1 sep)
  then show ?case by (simp add: closed_def)
next
  case (3 sep x y ys)
  note prems = "3.prems" and hyp = "3.IH"
  have IH: "closed (join sep (y # ys)) \<and> strip False (join sep (y # ys)) = join (strip False sep) (map (strip False) (y # ys))"
    by (rule hyp) (use prems in simp_all)
  have x: "closed x" using prems(1) by simp
  have "closed (x @ sep @ join sep (y # ys))" by (intro closed_append x prems(2) conjunct1 [OF IH])
  moreover have "strip False (x @ sep @ join sep (y # ys)) = strip False x @ strip False sep @ strip False (join sep (y # ys))"
    unfolding strip_closed [OF x] strip_closed [OF prems(2)] ..
  ultimately show ?case using IH by (simp only: join.simps list.map)
qed simp

lemma strip_escaped:
  assumes "c \<noteq> CHR 0x00"
  shows "strip True (escape_char c @ ys) = escape_char c @ strip True ys"
proof -
  have hex: "hex_upper n \<noteq> DQ \<and> hex_upper n \<noteq> BS" if "n < 16" for n
  proof -
    have "(of_char (hex_upper n) :: nat) = (if n < 10 then 48 + n else 55 + n)" using that by (simp add: hex_upper_def)
    moreover have "(of_char DQ :: nat) = 34" "(of_char BS :: nat) = 92" by (simp_all add: DQ_def BS_def)
    ultimately have "(of_char (hex_upper n) :: nat) \<noteq> of_char DQ" "(of_char (hex_upper n) :: nat) \<noteq> of_char BS" using that by auto
    then show ?thesis by auto
  qed
  have "of_char c div 16 < (16 :: nat)" "of_char c mod 16 < (16 :: nat)"
    using of_char_less [of c] by (simp_all add: div_less_iff_less_mult)
  with hex show ?thesis unfolding escape_char_def by (auto simp: DQ_def BS_def)
qed

lemma strip_escaped_all:
  "\<forall>c \<in> set cs. c \<noteq> CHR 0x00 \<Longrightarrow> strip True (concat (map escape_char cs) @ ys) = concat (map escape_char cs) @ strip True ys"
  by (induction cs) (auto simp: strip_escaped)

lemma strip_literal: "\<forall>c \<in> set cs. c \<noteq> DQ \<and> c \<noteq> BS \<Longrightarrow> strip True (cs @ ys) = cs @ strip True ys"
  by (induction cs) auto

lemma closed_quoted: "closed (valueToQuotedString s)"
proof -
  have nul: "\<forall>c \<in> set (c_str s). c \<noteq> CHR 0x00" by (auto simp: c_str_def dest: set_takeWhileD)
  have body: "closed ([DQ] @ t @ [DQ])" if "\<And>ys. strip True (t @ ys) = t @ strip True ys" for t
    using that by (simp add: closed_def)
  show ?thesis
  proof (cases "\<not> list_ex needs_escape (c_str s) \<and> \<not> containsControlCharacter s")
    case True
    then have "\<forall>c \<in> set (c_str s). c \<noteq> DQ \<and> c \<noteq> BS" by (auto simp: list_ex_iff needs_escape_def)
    from body [OF strip_literal [OF this]] True show ?thesis by (simp add: valueToQuotedString_def)
  next
    case False
    from body [OF strip_escaped_all [OF nul]] False show ?thesis unfolding valueToQuotedString_def by auto
  qed
qed

section \<open>The compact text\<close>

lemma trim_zeros_subset: "set (trim_zeros b) \<subseteq> set b"
  by (auto simp: trim_zeros_def Let_def dest: in_set_takeD split: list.splits if_splits)

lemma digits_plain: "DQ \<notin> set (show_nat n)"
proof
  assume "DQ \<in> set (show_nat n)"
  with show_nat_digits [of n] have "is_digit DQ" by blast
  then show False by (simp add: is_digit_def DQ_def)
qed

lemma closed_scalar:
  assumes "\<forall>r. DQ \<notin> set (fmt r)" "json_type v \<noteq> arrayValue" "json_type v \<noteq> objectValue"
  shows "closed (fw_value y fmt v)"
proof (cases v)
  case (RealV r)
  then show ?thesis using assms(1) trim_zeros_subset [of "fmt r"] by (auto simp: valueToString_double_def intro!: closed_plain)
next
  case (IntV i)
  then show ?thesis using digits_plain by (auto simp: valueToString_int_def uintToString_def DQ_def intro!: closed_plain)
next
  case (UIntV u)
  then show ?thesis using digits_plain by (auto simp: valueToString_uint_def uintToString_def intro!: closed_plain)
qed (use assms(2,3) closed_quoted in \<open>auto simp: valueToString_bool_def DQ_def intro!: closed_plain\<close>)

definition pair_text :: "bool \<Rightarrow> ('d \<Rightarrow> string) \<Rightarrow> string \<times> 'd json \<Rightarrow> string" where
  "pair_text y fmt kv = valueToQuotedString (fst kv) @ (if y then '': '' else '':'') @ fw_value y fmt (snd kv)"

lemma fw_object: "fw_value y fmt (ObjectV kvs) = ''{'' @ join '','' (map (pair_text y fmt) kvs) @ ''}''"
proof -
  have "(\<lambda>(k, v). valueToQuotedString k @ (if y then '': '' else '':'') @ fw_value y fmt v) = pair_text y fmt"
    by (auto simp: fun_eq_iff pair_text_def)
  then show ?thesis by simp
qed

lemma closed_bracket: "closed [CHR ''['']" "closed [CHR '']'']" "closed [CHR ''{'']" "closed [CHR ''}'']" "closed '',''"
    "closed '':''" "closed '': ''" "closed '' : ''" "closed ''[ ''" "closed '' ]''" "closed '', ''"
  by (simp_all add: closed_plain DQ_def)

lemma strip_bracket [simp]: "strip False [CHR ''['']= ''[''" "strip False [CHR '']''] = '']''" "strip False [CHR ''{''] = ''{''"
    "strip False [CHR ''}''] = ''}''" "strip False '','' = '',''"
    "strip False '':'' = '':''" "strip False '': '' = '':''" "strip False '' : '' = '':''" "strip False ''[ '' = ''[''" "strip False '' ]'' = '']''"
    "strip False '', '' = '',''"
  by (simp_all add: DQ_def is_space_def)

declare strip.simps(2,3) [simp del]

text \<open>The text of a list between brackets.\<close>

lemma strip_list:
  assumes "\<forall>t \<in> set ts. closed t" "closed op1" "closed cl1"
  shows "closed (op1 @ join '','' ts @ cl1) \<and> strip False (op1 @ join '','' ts @ cl1) = strip False op1 @ join '','' (map (strip False) ts) @ strip False cl1"
proof -
  have j: "closed (join '','' ts)" "strip False (join '','' ts) = join '','' (map (strip False) ts)"
    using strip_join [OF assms(1) closed_bracket(5)] by simp_all
  have "closed (op1 @ join '','' ts @ cl1)" using j(1) assms(2,3) by (intro closed_append)
  moreover have "strip False (op1 @ join '','' ts @ cl1) = strip False op1 @ strip False (join '','' ts) @ strip False cl1"
    unfolding strip_closed [OF assms(2)] strip_closed [OF j(1)] ..
  ultimately show ?thesis using j(2) by simp
qed

lemma closed_member:
  assumes "closed (fw_value y fmt (snd kv))"
  shows "closed (pair_text y fmt kv) \<and>
    strip False (pair_text y fmt kv) = strip False (valueToQuotedString (fst kv)) @ '':'' @ strip False (fw_value y fmt (snd kv))"
  using assms closed_quoted closed_bracket(6,7)
  by (cases y) (simp_all only: pair_text_def closed_append strip_closed if_True if_False strip_bracket simp_thms)

lemma closed_fw:
  assumes "\<forall>r. DQ \<notin> set (fmt r)"
  shows "closed (fw_value y fmt v)"
proof (induction "size v" arbitrary: v rule: less_induct)
  case less
  show ?case
  proof (cases v)
    case (ArrayV kvs)
    have "closed (fw_value y fmt x)" if "x \<in> set (array_elems kvs)" for x using less size_array_elem [OF that] ArrayV by simp
    then show ?thesis using strip_list [of "map (fw_value y fmt) (array_elems kvs)" "''[''" "'']''"] closed_bracket ArrayV by simp
  next
    case (ObjectV kvs)
    have "closed (pair_text y fmt kv)" if "kv \<in> set kvs" for kv
    proof -
      have "size (snd kv) < size v" using size_member [of "fst kv" "snd kv" kvs] that ObjectV by simp
      from closed_member [OF less [OF this]] show ?thesis by (rule conjunct1)
    qed
    then show ?thesis using strip_list [of "map (pair_text y fmt) kvs" "''{''" "''}''"] closed_bracket ObjectV
      by (simp add: fw_object del: fw_value.simps)
  qed (use closed_scalar [OF assms, of v y] in simp_all)
qed

lemma strip_fw_array:
  assumes "\<forall>r. DQ \<notin> set (fmt r)"
  shows "strip False (fw_value y fmt (ArrayV kvs)) = ''['' @ join '','' (map (\<lambda>x. strip False (fw_value y fmt x)) (array_elems kvs)) @ '']''"
  using strip_list [of "map (fw_value y fmt) (array_elems kvs)" "''[''" "'']''"] closed_bracket closed_fw [OF assms] by (simp add: comp_def)

lemma strip_fw_object:
  assumes "\<forall>r. DQ \<notin> set (fmt r)"
  shows "strip False (fw_value y fmt (ObjectV kvs)) = ''{'' @ join '','' (map (\<lambda>kv. strip False (valueToQuotedString (fst kv)) @ '':''
      @ strip False (fw_value y fmt (snd kv))) kvs) @ ''}''"
proof -
  have m: "closed (pair_text y fmt kv)" "strip False (pair_text y fmt kv)
      = strip False (valueToQuotedString (fst kv)) @ '':'' @ strip False (fw_value y fmt (snd kv))" for kv
    using closed_member closed_fw [OF assms] by blast+
  show ?thesis using strip_list [of "map (pair_text y fmt) kvs" "''{''" "''}''"] closed_bracket m
    by (simp add: fw_object comp_def del: fw_value.simps)
qed

section \<open>Indenting writers\<close>

definition out :: "styled \<Rightarrow> string" where
  "out s = strip False (document s)"

definition tidy :: "string \<Rightarrow> styled \<Rightarrow> bool" where
  "tidy k s \<longleftrightarrow> \<not> addChildValues s \<and> indentString s = k \<and> closed (document s)"

lemma put_simps [simp]:
  "document (put t s) = document s @ t" "childValues (put t s) = childValues s" "addChildValues (put t s) = addChildValues s"
  "indentString (put t s) = indentString s"
  by (simp_all add: put_def)

lemma tidy_put: "tidy k s \<Longrightarrow> closed t \<Longrightarrow> tidy k (put t s) \<and> out (put t s) = out s @ strip False t"
  by (simp add: tidy_def out_def closed_append strip_closed)

text \<open>The loop over the elements of a list, with a comma behind each but the last.\<close>

lemma emit_commas_from:
  assumes step: "\<And>i s. i < length xs \<Longrightarrow> P s \<Longrightarrow> \<exists>s'. g i (xs ! i) s = Inr s' \<and> P s' \<and> out s' = out s @ T (xs ! i)"
    and comma: "\<And>s. P s \<Longrightarrow> P (put '','' s) \<and> out (put '','' s) = out s @ '',''"
  shows "P s \<Longrightarrow> i + Suc n = length xs \<Longrightarrow>
    \<exists>s'. rfold (\<lambda>(i, comma, x) s. rbind (g i x s) (\<lambda>s5. Inr (if comma then put '','' s5 else s5)))
            (map (\<lambda>j. (j, j + 1 < length xs, xs ! j)) [i..<length xs]) s = Inr s'
       \<and> P s' \<and> out s' = out s @ join '','' (map T (drop i xs))"
proof (induction n arbitrary: i s)
  case 0
  then have i: "i < length xs" "[i..<length xs] = [i]" "drop i xs = [xs ! i]"
    by (auto simp: upt_conv_Cons Cons_nth_drop_Suc [symmetric])
  obtain s' where "g i (xs ! i) s = Inr s'" "P s'" "out s' = out s @ T (xs ! i)" using step [OF i(1) 0(1)] by blast
  with 0 i show ?case by auto
next
  case (Suc n)
  then have i: "i < length xs" "Suc i < length xs" "[i..<length xs] = i # [Suc i..<length xs]" "drop i xs = xs ! i # drop (Suc i) xs"
    by (auto simp: upt_conv_Cons Cons_nth_drop_Suc)
  obtain y ys where y: "drop (Suc i) xs = y # ys" using i(2) by (cases "drop (Suc i) xs") auto
  obtain s1 where s1: "g i (xs ! i) s = Inr s1" "P s1" "out s1 = out s @ T (xs ! i)" using step [OF i(1) Suc.prems(1)] by blast
  have c: "P (put '','' s1)" "out (put '','' s1) = out s1 @ '',''" using comma [OF s1(2)] by auto
  obtain s' where s': "rfold (\<lambda>(i, comma, x) s. rbind (g i x s) (\<lambda>s5. Inr (if comma then put '','' s5 else s5)))
      (map (\<lambda>j. (j, j + 1 < length xs, xs ! j)) [Suc i..<length xs]) (put '','' s1) = Inr s'"
      "P s'" "out s' = out (put '','' s1) @ join '','' (map T (drop (Suc i) xs))"
    using Suc.IH [OF c(1), of "Suc i"] Suc.prems(2) by auto
  have "out s' = out s @ join '','' (map T (drop i xs))" using s'(3) c(2) s1(3) i(4) y by simp
  with s'(1,2) s1(1) i show ?case by (intro exI [of _ s']) (simp del: upt_Suc)
qed

lemma emit_commas:
  assumes "\<And>i s. i < length xs \<Longrightarrow> P s \<Longrightarrow> \<exists>s'. g i (xs ! i) s = Inr s' \<and> P s' \<and> out s' = out s @ T (xs ! i)"
    and "\<And>s. P s \<Longrightarrow> P (put '','' s) \<and> out (put '','' s) = out s @ '',''" and "xs \<noteq> []" "P s"
  shows "\<exists>s'. rfold (\<lambda>(i, comma, x) s. rbind (g i x s) (\<lambda>s5. Inr (if comma then put '','' s5 else s5))) (commas xs) s = Inr s'
       \<and> P s' \<and> out s' = out s @ join '','' (map T xs)"
  using emit_commas_from [of xs P g T s 0 "length xs - 1", OF assms(1,2,4)] assms(3) by (simp add: commas_def)

text \<open>Values whose arrays are short enough for the product in \<open>isMultineArray\<close>, at every depth.\<close>

function printable :: "'d json \<Rightarrow> bool" where
  "printable (ArrayV kvs) \<longleftrightarrow> json_size (ArrayV kvs) * 3 < 2 ^ 31 \<and> list_all (\<lambda>(i, v). printable v) kvs"
| "printable (ObjectV ms) \<longleftrightarrow> list_all (\<lambda>(k, v). printable v) ms"
| "printable NullV \<longleftrightarrow> True"
| "printable (IntV i) \<longleftrightarrow> True"
| "printable (UIntV u) \<longleftrightarrow> True"
| "printable (RealV r) \<longleftrightarrow> True"
| "printable (StringV s) \<longleftrightarrow> True"
| "printable (BoolV b) \<longleftrightarrow> True"
  by pat_completeness auto
termination printable
  by (relation "measure size") (auto dest: size_member)

lemma printable_elems: "printable (ArrayV kvs) \<Longrightarrow> x \<in> set (array_elems kvs) \<Longrightarrow> printable x"
  by (force simp: array_elems_def list_all_iff simp del: json_size.simps split: option.splits dest!: map_of_SomeD)

locale layout_writer =
  fixes wval :: "('d \<Rightarrow> string) \<Rightarrow> 'd json \<Rightarrow> styled \<Rightarrow> styled res" and wi :: "styled \<Rightarrow> styled" and unind :: "styled \<Rightarrow> styled res" and pad :: string
  assumes leaf: "\<not> child_nonempty v \<Longrightarrow> wval fmt v s = Inr (pushValue (fw_value False fmt v) s)"
    and array: "array_elems kvs = xs \<Longrightarrow> xs \<noteq> [] \<Longrightarrow> length xs * 3 < 2 ^ 31 \<Longrightarrow> wval fmt (ArrayV kvs) s =
      rbind
        (if isMultineArray_pre xs then Inr (True, s\<lparr>childValues := []\<rparr>)
         else rbind (rfold (\<lambda>x. wval fmt x) xs (s\<lparr>childValues := [], addChildValues := True\<rparr>)) (\<lambda>s1.
              if length (childValues s1) < length xs then Inl OutOfBounds
              else Inr (lineLength (length xs) (childValues s1) \<ge> rightMargin, s1\<lparr>addChildValues := False\<rparr>)))
        (\<lambda>(isArrayMultiLine, s2).
         if isArrayMultiLine
         then rbind (rfold (\<lambda>(i, comma, x) s4.
                 rbind (if childValues s2 \<noteq> [] then rbind (nth_child i s4) (\<lambda>t. Inr (put t (wi s4))) else wval fmt x (wi s4)) (\<lambda>s5.
                 Inr (if comma then put '','' s5 else s5)))
               (commas xs) ((put ''['' (wi s2))\<lparr>indentString := indentString s2 @ pad\<rparr>)) (\<lambda>s6.
             rbind (unind s6) (\<lambda>s7. Inr (put '']'' (wi s7))))
         else c_assert (length (childValues s2) = length xs)
              (Inr (put ('' ]'') (put (join '', '' (childValues s2)) (put ''[ '' s2)))))"
    and object: "ms \<noteq> [] \<Longrightarrow> wval fmt (ObjectV ms) s =
      rbind (rfold (\<lambda>(i, comma, kv) s4.
          rbind (wval fmt (snd kv) (put '' : '' (put (valueToQuotedString (fst kv)) (wi s4)))) (\<lambda>s5.
          Inr (if comma then put '','' s5 else s5)))
        (commas ms) ((put ''{'' (wi s))\<lparr>indentString := indentString s @ pad\<rparr>)) (\<lambda>s6.
      rbind (unind s6) (\<lambda>s7. Inr (put ''}'' (wi s7))))"
    and write_indent: "blank (indentString s) \<Longrightarrow> \<exists>w. blank w \<and> wi s = put w s"
    and unindent: "indentString s = k @ pad \<Longrightarrow> unind s = Inr (s\<lparr>indentString := k\<rparr>)"
    and pad: "blank pad"
begin

lemma tidy_wi: "tidy k s \<Longrightarrow> blank k \<Longrightarrow> tidy k (wi s) \<and> out (wi s) = out s \<and> childValues (wi s) = childValues s"
  using write_indent [of s] tidy_put [of k s] closed_plain [OF blank_plain] strip_blank by (force simp: tidy_def)

lemma tidy_with_indent:
  assumes "tidy k s" "blank k" "closed t"
  shows "tidy k (put t (wi s)) \<and> out (put t (wi s)) = out s @ strip False t"
  using tidy_wi [OF assms(1,2)] tidy_put [OF _ assms(3)] by force

text \<open>What stands between an opening and a closing bracket, each on a line of its own.\<close>

lemma bracketed:
  assumes body: "\<And>s. tidy (k @ pad) s \<Longrightarrow> C s \<Longrightarrow> \<exists>s'. body s = Inr s' \<and> tidy (k @ pad) s' \<and> out s' = out s @ t"
    and s: "tidy k s" "blank k" and b: "closed lb" "closed rb" and C: "C ((put lb (wi s))\<lparr>indentString := indentString s @ pad\<rparr>)"
  shows "\<exists>s'. rbind (body ((put lb (wi s))\<lparr>indentString := indentString s @ pad\<rparr>)) (\<lambda>s6. rbind (unind s6) (\<lambda>s7. Inr (put rb (wi s7)))) = Inr s'
    \<and> tidy k s' \<and> out s' = out s @ strip False lb @ t @ strip False rb"
proof -
  let ?s = "(put lb (wi s))\<lparr>indentString := indentString s @ pad\<rparr>"
  have lb: "tidy k (put lb (wi s))" "out (put lb (wi s)) = out s @ strip False lb" using tidy_with_indent [OF s b(1)] by auto
  have "indentString s = k" using s(1) by (simp add: tidy_def)
  then have in1: "tidy (k @ pad) ?s" "out ?s = out s @ strip False lb" using lb by (simp_all add: tidy_def out_def)
  obtain s6 where s6: "body ?s = Inr s6" "tidy (k @ pad) s6" "out s6 = out ?s @ t" using body [OF in1(1) C] by blast
  let ?s7 = "s6\<lparr>indentString := k\<rparr>"
  have un: "unind s6 = Inr ?s7" using s6(2) by (intro unindent) (simp add: tidy_def)
  have "tidy k ?s7" "out ?s7 = out s6" using s6(2) by (simp_all add: tidy_def out_def)
  with tidy_with_indent [OF _ s(2) b(2), of ?s7] s6 un in1(2) show ?thesis by simp
qed

lemma leaves_pushed:
  "\<forall>x \<in> set xs. \<not> child_nonempty x \<Longrightarrow> addChildValues s \<Longrightarrow>
   rfold (\<lambda>x. wval fmt x) xs s = Inr (s\<lparr>childValues := childValues s @ map (fw_value False fmt) xs\<rparr>)"
  by (induction xs arbitrary: s) (auto simp: leaf pushValue_def)

lemma elements_written:
  assumes IH: "\<And>x k s. x \<in> set xs \<Longrightarrow> tidy k s \<Longrightarrow> blank k \<Longrightarrow> \<exists>s'. wval fmt x s = Inr s' \<and> tidy k s' \<and> out s' = out s @ T x"
    and "blank k" "xs \<noteq> []" "tidy k s"
  shows "\<exists>s'. rfold (\<lambda>(i, comma, x) s4. rbind (wval fmt x (wi s4)) (\<lambda>s5. Inr (if comma then put '','' s5 else s5))) (commas xs) s = Inr s'
    \<and> tidy k s' \<and> out s' = out s @ join '','' (map T xs)"
proof (rule emit_commas [where g = "\<lambda>i x s. wval fmt x (wi s)" and P = "tidy k"])
  fix i s assume "i < length xs" "tidy k s"
  with IH [of "xs ! i" k "wi s"] tidy_wi [of k s] assms(2) show "\<exists>s'. wval fmt (xs ! i) (wi s) = Inr s' \<and> tidy k s' \<and> out s' = out s @ T (xs ! i)"
    by auto
next
  fix s assume "tidy k s"
  then show "tidy k (put '','' s) \<and> out (put '','' s) = out s @ '',''" using tidy_put closed_bracket(5) by force
qed (use assms in auto)

lemma childs_written:
  assumes cl: "\<forall>t \<in> set ts. closed t" and "blank k" "ts \<noteq> []" "length xs = length ts" "tidy k s" "childValues s = ts"
  shows "\<exists>s'. rfold (\<lambda>(i, comma, x) s4. rbind (rbind (nth_child i s4) (\<lambda>t. Inr (put t (wi s4)))) (\<lambda>s5. Inr (if comma then put '','' s5 else s5))) (commas xs) s = Inr s'
    \<and> tidy k s' \<and> out s' = out s @ join '','' (map (strip False) ts)"
proof -
  let ?P = "\<lambda>s. tidy k s \<and> childValues s = ts" and ?g = "\<lambda>i x s. rbind (nth_child i s) (\<lambda>t. Inr (put t (wi s)))"
  have "\<exists>s'. rfold (\<lambda>(i, comma, x) s4. rbind (?g i x s4) (\<lambda>s5. Inr (if comma then put '','' s5 else s5))) (commas ts) s = Inr s'
    \<and> ?P s' \<and> out s' = out s @ join '','' (map (strip False) ts)"
  proof (rule emit_commas [where g = ?g and P = ?P])
    fix i s assume "i < length ts" "?P s"
    with tidy_with_indent [of k s "ts ! i"] tidy_wi [of k s] assms(1,2)
    show "\<exists>s'. ?g i (ts ! i) s = Inr s' \<and> ?P s' \<and> out s' = out s @ strip False (ts ! i)" by (auto simp: nth_child_def)
  next
    fix s assume "?P s"
    then show "?P (put '','' s) \<and> out (put '','' s) = out s @ '',''" using tidy_put [of k s "'',''"] closed_bracket(5) by simp
  qed (use assms in auto)
  moreover have "rfold (\<lambda>(i, comma, x) s4. rbind (?g i x s4) (\<lambda>s5. Inr (if comma then put '','' s5 else s5))) (commas xs) s
      = rfold (\<lambda>(i, comma, x) s4. rbind (?g i x s4) (\<lambda>s5. Inr (if comma then put '','' s5 else s5))) (commas ts) s"
    using assms(4) by (simp add: commas_def rfold_map comp_def)
  ultimately show ?thesis by auto
qed

lemma array_written:
  assumes fmt: "\<forall>r. DQ \<notin> set (fmt r)" and xs: "array_elems kvs = xs" "xs \<noteq> []" "length xs * 3 < 2 ^ 31" and s: "tidy k s" "blank k"
    and IH: "\<And>x k s. x \<in> set xs \<Longrightarrow> tidy k s \<Longrightarrow> blank k \<Longrightarrow>
      \<exists>s'. wval fmt x s = Inr s' \<and> tidy k s' \<and> out s' = out s @ strip False (fw_value False fmt x)"
  shows "\<exists>s'. wval fmt (ArrayV kvs) s = Inr s' \<and> tidy k s' \<and> out s' = out s @ strip False (fw_value False fmt (ArrayV kvs))"
proof -
  let ?T = "\<lambda>x. strip False (fw_value False fmt x)" and ?ts = "map (fw_value False fmt) xs"
  have goal: "strip False (fw_value False fmt (ArrayV kvs)) = ''['' @ join '','' (map ?T xs) @ '']''" using strip_fw_array [OF fmt, of False kvs] unfolding xs(1) .
  have k: "blank (k @ pad)" using s(2) pad by (simp add: blank_def)
  have cl: "\<forall>t \<in> set ?ts. closed t" using closed_fw [OF fmt] by simp
  have "\<exists>s'. wval fmt (ArrayV kvs) s = Inr s' \<and> tidy k s' \<and> out s' = out s @ ''['' @ join '','' (map ?T xs) @ '']''"
  proof (cases "isMultineArray_pre xs")
    case True
    have "tidy k (s\<lparr>childValues := []\<rparr>)" "out (s\<lparr>childValues := []\<rparr>) = out s" using s(1) by (simp_all add: tidy_def out_def)
    with bracketed [where s = "s\<lparr>childValues := []\<rparr>" and C = "\<lambda>_. True" and lb = "''[''" and rb = "'']''", OF elements_written [OF IH k xs(2)] _ s(2) closed_bracket(1,2) TrueI]
    show ?thesis using True by (simp add: array [OF xs])
  next
    case False
    then have "\<forall>x \<in> set xs. \<not> child_nonempty x" by (auto simp: isMultineArray_pre_def list_ex_iff)
    from leaves_pushed [OF this, of "s\<lparr>childValues := [], addChildValues := True\<rparr>" fmt]
    have pushed: "rfold (\<lambda>x. wval fmt x) xs (s\<lparr>childValues := [], addChildValues := True\<rparr>) = Inr (s\<lparr>childValues := ?ts, addChildValues := True\<rparr>)"
      by simp
    let ?s2 = "s\<lparr>childValues := ?ts, addChildValues := False\<rparr>"
    have s2: "tidy k ?s2" "out ?s2 = out s" using s(1) by (simp_all add: tidy_def out_def)
    show ?thesis
    proof (cases "lineLength (length xs) ?ts \<ge> rightMargin")
      case True
      have ne: "?ts \<noteq> []" and len: "length xs = length ?ts" using xs(2) by simp_all
      have C: "childValues ((put ''['' (wi ?s2))\<lparr>indentString := indentString ?s2 @ pad\<rparr>) = ?ts" using tidy_wi [OF s2(1) s(2)] by simp
      from bracketed [where C = "\<lambda>s. childValues s = ?ts" and lb = "''[''" and rb = "'']''",
          OF childs_written [OF cl k ne len] s2(1) s(2) closed_bracket(1,2) C] s2(2)
      show ?thesis using False True pushed ne by (simp add: array [OF xs] comp_def)
    next
      case lines: False
      have j: "closed (join '', '' ?ts)" "strip False (join '', '' ?ts) = join '','' (map ?T xs)"
        using strip_join [OF cl closed_bracket(11)] by (simp_all add: comp_def)
      note t1 = tidy_put [OF s2(1) closed_bracket(9)]
      note t2 = tidy_put [OF conjunct1 [OF t1] j(1)]
      note t3 = tidy_put [OF conjunct1 [OF t2] closed_bracket(10)]
      show ?thesis using False lines pushed t1 t2 t3 s2(2) j(2) by (simp add: array [OF xs])
    qed
  qed
  then show ?thesis unfolding goal .
qed

lemma object_written:
  assumes fmt: "\<forall>r. DQ \<notin> set (fmt r)" and ms: "ms \<noteq> []" and s: "tidy k s" "blank k"
    and IH: "\<And>kv k s. kv \<in> set ms \<Longrightarrow> tidy k s \<Longrightarrow> blank k \<Longrightarrow>
      \<exists>s'. wval fmt (snd kv) s = Inr s' \<and> tidy k s' \<and> out s' = out s @ strip False (fw_value False fmt (snd kv))"
  shows "\<exists>s'. wval fmt (ObjectV ms) s = Inr s' \<and> tidy k s' \<and> out s' = out s @ strip False (fw_value False fmt (ObjectV ms))"
proof -
  let ?T = "\<lambda>kv. strip False (valueToQuotedString (fst kv)) @ '':'' @ strip False (fw_value False fmt (snd kv))"
  let ?g = "\<lambda>i :: nat. \<lambda>kv s. wval fmt (snd kv) (put '' : '' (put (valueToQuotedString (fst kv)) (wi s)))"
  have k: "blank (k @ pad)" using s(2) pad by (simp add: blank_def)
  have member: "\<exists>s'. ?g i (ms ! i) s = Inr s' \<and> tidy (k @ pad) s' \<and> out s' = out s @ ?T (ms ! i)"
    if "i < length ms" "tidy (k @ pad) s" for i s
  proof -
    note t1 = tidy_with_indent [OF that(2) k closed_quoted, of "fst (ms ! i)"]
    note t2 = tidy_put [OF conjunct1 [OF t1] closed_bracket(8)]
    show ?thesis using IH [OF nth_mem [OF that(1)] conjunct1 [OF t2] k] t1 t2 by auto
  qed
  have comma: "tidy (k @ pad) (put '','' s) \<and> out (put '','' s) = out s @ '',''" if "tidy (k @ pad) s" for s
    using tidy_put [OF that closed_bracket(5)] by simp
  from bracketed [where C = "\<lambda>_. True" and lb = "''{''" and rb = "''}''",
      OF emit_commas [where P = "tidy (k @ pad)" and g = ?g and T = ?T, OF member comma ms] s closed_bracket(3,4) TrueI]
  have "\<exists>s'. wval fmt (ObjectV ms) s = Inr s' \<and> tidy k s' \<and> out s' = out s @ ''{'' @ join '','' (map ?T ms) @ ''}''"
    by (simp add: object [OF ms])
  then show ?thesis unfolding strip_fw_object [OF fmt] .
qed

theorem writes_tokens:
  assumes fmt: "\<forall>r. DQ \<notin> set (fmt r)" and "tidy k s" "blank k" "printable v"
  shows "\<exists>s'. wval fmt v s = Inr s' \<and> tidy k s' \<and> out s' = out s @ strip False (fw_value False fmt v)"
  using assms(2-4)
proof (induction "size v" arbitrary: v k s rule: less_induct)
  case less
  show ?case
  proof (cases "child_nonempty v")
    case False
    then have "wval fmt v s = Inr (put (fw_value False fmt v) s)" using leaf [OF False] less.prems by (simp add: pushValue_def put_def tidy_def)
    then show ?thesis using tidy_put [OF less.prems(1) closed_fw [OF fmt]] by simp
  next
    case True
    then consider (arr) kvs where "v = ArrayV kvs" "array_elems kvs \<noteq> []" | (obj) ms where "v = ObjectV ms" "ms \<noteq> []"
      by (cases v) (auto simp: child_nonempty_def isArray_def isObject_def array_elems_def split: if_splits)
    then show ?thesis
    proof cases
      case (arr kvs)
      have small: "size x < size v" "printable x" if "x \<in> set (array_elems kvs)" for x
        using size_array_elem [OF that] printable_elems [OF _ that] less.prems(3) arr(1) by simp_all
      have len: "length (array_elems kvs) * 3 < 2 ^ 31" using less.prems(3) arr(1) by (simp add: array_elems_def)
      from array_written [OF fmt refl arr(2) len less.prems(1,2) less.hyps [OF small(1) _ _ small(2)]] show ?thesis unfolding arr(1) .
    next
      case (obj ms)
      have small: "size (snd kv) < size v" "printable (snd kv)" if "kv \<in> set ms" for kv
        using size_member [of "fst kv" "snd kv" ms] that less.prems(3) obj(1) by (auto simp: list_all_iff)
      from object_written [OF fmt obj(2) less.prems(1,2) less.hyps [OF small(1) _ _ small(2)]] show ?thesis unfolding obj(1) .
    qed
  qed
qed

end

section \<open>The two writers\<close>

lemma stream_pushValue_eq: "stream_pushValue = pushValue"
  by (simp add: stream_pushValue_def pushValue_def fun_eq_iff)

lemma not_child_nonempty:
  "\<not> child_nonempty (ArrayV kvs) \<longleftrightarrow> array_elems kvs = []" "\<not> child_nonempty (ObjectV ms) \<longleftrightarrow> ms = []"
  by (simp_all add: child_nonempty_def isArray_def isObject_def array_elems_def del: json_size.simps(1))

lemma writeWithIndent_put: "writeWithIndent t s = put t (writeIndent s)"
  by (simp add: writeWithIndent_def put_def Let_def)

lemma indent_pad:
  "indent (put t (writeIndent s)) = (put t (writeIndent s))\<lparr>indentString := indentString s @ replicate indentSize (CHR '' '')\<rparr>"
  "stream_indent i (put t (stream_writeIndent s)) = (put t (stream_writeIndent s))\<lparr>indentString := indentString s @ i\<rparr>"
  by (simp_all add: indent_def stream_indent_def writeIndent_def stream_writeIndent_def put_def)

lemma object_body:
  "(\<lambda>(i :: nat, comma :: bool, k, v) s4. f i comma k v s4) = (\<lambda>(i, comma, kv) s4. f i comma (fst kv) (snd kv) s4)"
  by (auto simp: fun_eq_iff)

lemma styled_layout: "layout_writer sw_value writeIndent unindent (replicate indentSize (CHR '' ''))"
proof
  fix v :: "'a json" and fmt s assume "\<not> child_nonempty v"
  then show "sw_value fmt v s = Inr (pushValue (fw_value False fmt v) s)" by (cases v) (simp_all add: not_child_nonempty)
next
  fix s :: styled assume "blank (indentString s)"
  then show "\<exists>w. blank w \<and> writeIndent s = put w s"
    by (cases "document s = []"; cases "last (document s) = CHR '' ''"; cases "last (document s) = CHR 0x0A")
      (auto simp: writeIndent_def put_def intro: exI [of _ "[]"] exI [of _ "indentString s"] exI [of _ "CHR 0x0A # indentString s"])
next
  show "blank (replicate indentSize (CHR '' ''))" by (simp add: blank_def list_all_iff is_space_def)
qed (simp_all add: object_body writeWithIndent_put indent_pad Let_def unindent_def cong: if_cong)

lemma stream_layout:
  assumes "blank indentation"
  shows "layout_writer (ssw_value indentation) stream_writeIndent (stream_unindent indentation) indentation"
proof
  fix v :: "'a json" and fmt s assume "\<not> child_nonempty v"
  then show "ssw_value indentation fmt v s = Inr (pushValue (fw_value False fmt v) s)"
    by (cases v) (simp_all add: not_child_nonempty stream_pushValue_eq)
next
  fix s :: styled assume "blank (indentString s)"
  then show "\<exists>w. blank w \<and> stream_writeIndent s = put w s"
    by (intro exI [of _ "LF # indentString s"]) (simp add: stream_writeIndent_def put_def LF_def)
qed (simp_all add: assms object_body stream_writeWithIndent_def indent_pad Let_def stream_unindent_def cong: if_cong)

interpretation styled_writer: layout_writer sw_value writeIndent unindent "replicate indentSize (CHR '' '')"
  by (rule styled_layout)

interpretation shift_out: layout_writer "ssw_value default_indentation" stream_writeIndent "stream_unindent default_indentation" default_indentation
  by (rule stream_layout) (simp add: default_indentation_def is_space_def)

section \<open>Properties\<close>

text \<open>
  C27. The three writers agree on values without comments (\<open>FastWriter\<close> prints no comments, the two others do). For every value that carries no comment, whatever is nested in
  it, whose arrays have at most 715827882 elements, and with any white space as indentation, the indenting writers succeed (no assertion
  of theirs fails, nothing overflows and no child value is missing), and the texts of \<open>StyledWriter\<close>, of \<open>StyledStreamWriter\<close> and of \<open>FastWriter\<close> with and without the blank
  after colons are the same up to white space outside of strings. The stream's earlier content stays before it. The texts of doubles contain no quotes.
\<close>

theorem writers_agree:
  assumes "\<forall>r. DQ \<notin> set (fmt r)" "blank indentation" "closed before" "printable v"
  shows "\<exists>t u. styled_write fmt v = Inr t \<and> stream_write indentation fmt before v = Inr u
    \<and> strip False t = strip False (fast_write y fmt v) \<and> strip False u = strip False before @ strip False (fast_write y fmt v)"
proof -
  have y: "strip False (fw_value y fmt v) = strip False (fw_value False fmt v)" for y
  proof (induction "size v" arbitrary: v rule: less_induct)
    case less
    show ?case
    proof (cases v)
      case (ArrayV kvs)
      have "strip False (fw_value y fmt x) = strip False (fw_value False fmt x)" if "x \<in> set (array_elems kvs)" for x
        using less size_array_elem [OF that] ArrayV by simp
      then show ?thesis unfolding ArrayV strip_fw_array [OF assms(1)] by (simp cong: map_cong)
    next
      case (ObjectV ms)
      have "strip False (fw_value y fmt (snd kv)) = strip False (fw_value False fmt (snd kv))" if "kv \<in> set ms" for kv
        using less size_member [of "fst kv" "snd kv" ms] that ObjectV by simp
      then show ?thesis unfolding ObjectV strip_fw_object [OF assms(1)] by (simp cong: map_cong)
    qed simp_all
  qed
  let ?s = "\<lambda>d. \<lparr>document = d, childValues = [], addChildValues = False, indentString = []\<rparr>"
  have tidy: "tidy [] (?s d)" if "closed d" for d using that by (simp add: tidy_def)
  have lf: "strip False [LF] = []" "LF = CHR 0x0A" by (simp_all add: LF_def strip_blank)
  have nil: "closed []" by (simp add: closed_def)
  have fast: "strip False (fast_write y fmt v) = strip False (fw_value False fmt v)"
    using y lf strip_closed [OF closed_fw [OF assms(1), of y v], of "[LF]"] by (simp add: fast_write_def)
  obtain s1 where s1: "sw_value fmt v (?s []) = Inr s1" "tidy [] s1" "out s1 = strip False (fw_value False fmt v)"
    using styled_writer.writes_tokens [OF assms(1) tidy [OF nil] _ assms(4)] by (auto simp: out_def)
  obtain s2 where s2: "ssw_value indentation fmt v (?s before) = Inr s2" "tidy [] s2" "out s2 = strip False before @ strip False (fw_value False fmt v)"
    using layout_writer.writes_tokens [OF stream_layout [OF assms(2)] assms(1) tidy [OF assms(3)] _ assms(4)] by (auto simp: out_def)
  have "strip False (document s1 @ [LF]) = out s1" "strip False (document s2 @ [LF]) = out s2"
    using s1(2) s2(2) lf by (simp_all add: tidy_def out_def strip_closed)
  then show ?thesis using s1 s2 fast lf by (simp add: styled_write_def stream_write_def)
qed

theorem writers_agree_witness:
  "\<exists>t u. styled_write (\<lambda>_. ''1.5'') (ObjectV [(''a b'', ArrayV [(0, RealV ()), (1, ArrayV [(0, NullV)])])]) = Inr t
    \<and> stream_write [CHR 0x09] (\<lambda>_. ''1.5'') ''x'' (ObjectV [(''a b'', ArrayV [(0, RealV ()), (1, ArrayV [(0, NullV)])])]) = Inr u
    \<and> strip False u = ''x'' @ strip False t"
proof -
  let ?v = "ObjectV [(''a b'', ArrayV [(0, RealV ()), (1, ArrayV [(0, NullV)])])]"
  have "\<forall>r :: unit. DQ \<notin> set ((\<lambda>_. ''1.5'') r)" "blank [CHR 0x09]" "closed ''x''" "printable (?v :: unit json)" "strip False ''x'' = ''x''"
    by (simp_all add: DQ_def is_space_def closed_plain strip.simps)
  with writers_agree [of "\<lambda>_. ''1.5''" "[CHR 0x09]" "''x''" ?v True] show ?thesis by force
qed

end
