(* ===== verification/Inspector.thy ===== *)
theory Inspector
  imports HttpServer
begin

text \<open>
  The inspector (\<open>muduo/net/inspect/Inspector.h\<close>, \<open>Inspector.cc\<close>): commands registered under a module and a name, served over HTTP. The callbacks of commands are
  functions of the method and the arguments; an empty \<open>std::function\<close> is \<open>None\<close>. Both tables are \<open>std::map\<close>s of \<open>std::map\<close>s.
\<close>

section \<open>The inspector\<close>

text \<open>\<open>split\<close>: the first argument is the text from \<open>start\<close> on.\<close>

function split_loop :: "string \<Rightarrow> string list \<Rightarrow> string list" where
  "split_loop rest result =
     (if CHR ''/'' \<in> set rest
      then let part = takeWhile (\<lambda>c. c \<noteq> CHR ''/'') rest;
               rest' = tl (dropWhile (\<lambda>c. c \<noteq> CHR ''/'') rest)
           in split_loop rest' (if part \<noteq> [] then result @ [part] else result)
      else if rest \<noteq> [] then result @ [rest] else result)"
  by pat_completeness auto
lemma split_rest_less: "c \<in> set rest \<Longrightarrow> length (dropWhile (\<lambda>x. x \<noteq> c) rest) - Suc 0 < length rest"
  by (induction rest) (auto simp: le_less_trans [OF diff_le_self] less_Suc_eq_le)

termination split_loop
  by (relation "measure (\<lambda>(rest, result). length rest)") (auto dest: split_rest_less)

declare split_loop.simps [simp del]

definition split_path :: "string \<Rightarrow> string list" where
  "split_path str = split_loop str []"

type_synonym insp_callback = "http_method \<Rightarrow> string list \<Rightarrow> string"

record inspector =
  modules :: "(string \<times> (string \<times> insp_callback option) list) list"
  helps :: "(string \<times> (string \<times> string) list) list"

definition new_inspector :: inspector where
  "new_inspector = \<lparr>modules = [], helps = []\<rparr>"

text \<open>\<open>m[k1][k2] = v\<close> and \<open>m[k1].erase(k2)\<close> for a map of maps; \<open>m[k1]\<close> makes an empty map when there is none.\<close>

definition sub_map :: "'k \<Rightarrow> ('k \<times> ('l \<times> 'v) list) list \<Rightarrow> ('l \<times> 'v) list" where
  "sub_map k m = (case map_of m k of Some s \<Rightarrow> s | None \<Rightarrow> [])"

definition insp_add :: "string \<Rightarrow> string \<Rightarrow> insp_callback option \<Rightarrow> string \<Rightarrow> inspector \<Rightarrow> inspector" where
  "insp_add module command cb help i = i\<lparr>
     modules := ins_key module (ins_key command cb (sub_map module (modules i))) (modules i),
     helps := ins_key module (ins_key command help (sub_map module (helps i))) (helps i)\<rparr>"

definition insp_remove :: "string \<Rightarrow> string \<Rightarrow> inspector \<Rightarrow> inspector" where
  "insp_remove module command i =
     (case map_of (modules i) module of
        None \<Rightarrow> i
      | Some commList \<Rightarrow> i\<lparr>
          modules := ins_key module (del_key command commList) (modules i),
          helps := ins_key module (del_key command (sub_map module (helps i))) (helps i)\<rparr>)"

definition favicon :: string where
  "favicon = [
     CHR 0x89, CHR 0x50, CHR 0x4E, CHR 0x47, CHR 0x0D, CHR 0x0A, CHR 0x1A, CHR 0x0A, CHR 0x00, CHR 0x00, CHR 0x00, CHR 0x0D, CHR 0x49, CHR 0x48, CHR 0x44, CHR 0x52,
     CHR 0x00, CHR 0x00, CHR 0x00, CHR 0x10, CHR 0x00, CHR 0x00, CHR 0x00, CHR 0x10, CHR 0x08, CHR 0x06, CHR 0x00, CHR 0x00, CHR 0x00, CHR 0x1F, CHR 0xF3, CHR 0xFF,
     CHR 0x61, CHR 0x00, CHR 0x00, CHR 0x00, CHR 0x04, CHR 0x73, CHR 0x42, CHR 0x49, CHR 0x54, CHR 0x08, CHR 0x08, CHR 0x08, CHR 0x08, CHR 0x7C, CHR 0x08, CHR 0x64,
     CHR 0x88, CHR 0x00, CHR 0x00, CHR 0x00, CHR 0x09, CHR 0x70, CHR 0x48, CHR 0x59, CHR 0x73, CHR 0x00, CHR 0x00, CHR 0x0B, CHR 0x12, CHR 0x00, CHR 0x00, CHR 0x0B,
     CHR 0x12, CHR 0x01, CHR 0xD2, CHR 0xDD, CHR 0x7E, CHR 0xFC, CHR 0x00, CHR 0x00, CHR 0x00, CHR 0x1C, CHR 0x74, CHR 0x45, CHR 0x58, CHR 0x74, CHR 0x53, CHR 0x6F,
     CHR 0x66, CHR 0x74, CHR 0x77, CHR 0x61, CHR 0x72, CHR 0x65, CHR 0x00, CHR 0x41, CHR 0x64, CHR 0x6F, CHR 0x62, CHR 0x65, CHR 0x20, CHR 0x46, CHR 0x69, CHR 0x72,
     CHR 0x65, CHR 0x77, CHR 0x6F, CHR 0x72, CHR 0x6B, CHR 0x73, CHR 0x20, CHR 0x43, CHR 0x53, CHR 0x33, CHR 0x98, CHR 0xD6, CHR 0x46, CHR 0x03, CHR 0x00, CHR 0x00,
     CHR 0x00, CHR 0x15, CHR 0x74, CHR 0x45, CHR 0x58, CHR 0x74, CHR 0x43, CHR 0x72, CHR 0x65, CHR 0x61, CHR 0x74, CHR 0x69, CHR 0x6F, CHR 0x6E, CHR 0x20, CHR 0x54,
     CHR 0x69, CHR 0x6D, CHR 0x65, CHR 0x00, CHR 0x32, CHR 0x2F, CHR 0x31, CHR 0x37, CHR 0x2F, CHR 0x30, CHR 0x38, CHR 0x20, CHR 0x9C, CHR 0xAA, CHR 0x58, CHR 0x00,
     CHR 0x00, CHR 0x04, CHR 0x11, CHR 0x74, CHR 0x45, CHR 0x58, CHR 0x74, CHR 0x58, CHR 0x4D, CHR 0x4C, CHR 0x3A, CHR 0x63, CHR 0x6F, CHR 0x6D, CHR 0x2E, CHR 0x61,
     CHR 0x64, CHR 0x6F, CHR 0x62, CHR 0x65, CHR 0x2E, CHR 0x78, CHR 0x6D, CHR 0x70, CHR 0x00, CHR 0x3C, CHR 0x3F, CHR 0x78, CHR 0x70, CHR 0x61, CHR 0x63, CHR 0x6B,
     CHR 0x65, CHR 0x74, CHR 0x20, CHR 0x62, CHR 0x65, CHR 0x67, CHR 0x69, CHR 0x6E, CHR 0x3D, CHR 0x22, CHR 0x20, CHR 0x20, CHR 0x20, CHR 0x22, CHR 0x20, CHR 0x69,
     CHR 0x64, CHR 0x3D, CHR 0x22, CHR 0x57, CHR 0x35, CHR 0x4D, CHR 0x30, CHR 0x4D, CHR 0x70, CHR 0x43, CHR 0x65, CHR 0x68, CHR 0x69, CHR 0x48, CHR 0x7A, CHR 0x72,
     CHR 0x65, CHR 0x53, CHR 0x7A, CHR 0x4E, CHR 0x54, CHR 0x63, CHR 0x7A, CHR 0x6B, CHR 0x63, CHR 0x39, CHR 0x64, CHR 0x22, CHR 0x3F, CHR 0x3E, CHR 0x0A, CHR 0x3C,
     CHR 0x78, CHR 0x3A, CHR 0x78, CHR 0x6D, CHR 0x70, CHR 0x6D, CHR 0x65, CHR 0x74, CHR 0x61, CHR 0x20, CHR 0x78, CHR 0x6D, CHR 0x6C, CHR 0x6E, CHR 0x73, CHR 0x3A,
     CHR 0x78, CHR 0x3D, CHR 0x22, CHR 0x61, CHR 0x64, CHR 0x6F, CHR 0x62, CHR 0x65, CHR 0x3A, CHR 0x6E, CHR 0x73, CHR 0x3A, CHR 0x6D, CHR 0x65, CHR 0x74, CHR 0x61,
     CHR 0x2F, CHR 0x22, CHR 0x20, CHR 0x78, CHR 0x3A, CHR 0x78, CHR 0x6D, CHR 0x70, CHR 0x74, CHR 0x6B, CHR 0x3D, CHR 0x22, CHR 0x41, CHR 0x64, CHR 0x6F, CHR 0x62,
     CHR 0x65, CHR 0x20, CHR 0x58, CHR 0x4D, CHR 0x50, CHR 0x20, CHR 0x43, CHR 0x6F, CHR 0x72, CHR 0x65, CHR 0x20, CHR 0x34, CHR 0x2E, CHR 0x31, CHR 0x2D, CHR 0x63,
     CHR 0x30, CHR 0x33, CHR 0x34, CHR 0x20, CHR 0x34, CHR 0x36, CHR 0x2E, CHR 0x32, CHR 0x37, CHR 0x32, CHR 0x39, CHR 0x37, CHR 0x36, CHR 0x2C, CHR 0x20, CHR 0x53,
     CHR 0x61, CHR 0x74, CHR 0x20, CHR 0x4A, CHR 0x61, CHR 0x6E, CHR 0x20, CHR 0x32, CHR 0x37, CHR 0x20, CHR 0x32, CHR 0x30, CHR 0x30, CHR 0x37, CHR 0x20, CHR 0x32,
     CHR 0x32, CHR 0x3A, CHR 0x31, CHR 0x31, CHR 0x3A, CHR 0x34, CHR 0x31, CHR 0x20, CHR 0x20, CHR 0x20, CHR 0x20, CHR 0x20, CHR 0x20, CHR 0x20, CHR 0x20, CHR 0x22,
     CHR 0x3E, CHR 0x0A, CHR 0x20, CHR 0x20, CHR 0x20, CHR 0x3C, CHR 0x72, CHR 0x64, CHR 0x66, CHR 0x3A, CHR 0x52, CHR 0x44, CHR 0x46, CHR 0x20, CHR 0x78, CHR 0x6D,
     CHR 0x6C, CHR 0x6E, CHR 0x73, CHR 0x3A, CHR 0x72, CHR 0x64, CHR 0x66, CHR 0x3D, CHR 0x22, CHR 0x68, CHR 0x74, CHR 0x74, CHR 0x70, CHR 0x3A, CHR 0x2F, CHR 0x2F,
     CHR 0x77, CHR 0x77, CHR 0x77, CHR 0x2E, CHR 0x77, CHR 0x33, CHR 0x2E, CHR 0x6F, CHR 0x72, CHR 0x67, CHR 0x2F, CHR 0x31, CHR 0x39, CHR 0x39, CHR 0x39, CHR 0x2F,
     CHR 0x30, CHR 0x32, CHR 0x2F, CHR 0x32, CHR 0x32, CHR 0x2D, CHR 0x72, CHR 0x64, CHR 0x66, CHR 0x2D, CHR 0x73, CHR 0x79, CHR 0x6E, CHR 0x74, CHR 0x61, CHR 0x78,
     CHR 0x2D, CHR 0x6E, CHR 0x73, CHR 0x23, CHR 0x22, CHR 0x3E, CHR 0x0A, CHR 0x20, CHR 0x20, CHR 0x20, CHR 0x20, CHR 0x20, CHR 0x20, CHR 0x3C, CHR 0x72, CHR 0x64,
     CHR 0x66, CHR 0x3A, CHR 0x44, CHR 0x65, CHR 0x73, CHR 0x63, CHR 0x72, CHR 0x69, CHR 0x70, CHR 0x74, CHR 0x69, CHR 0x6F, CHR 0x6E, CHR 0x20, CHR 0x72, CHR 0x64,
     CHR 0x66, CHR 0x3A, CHR 0x61, CHR 0x62, CHR 0x6F, CHR 0x75, CHR 0x74, CHR 0x3D, CHR 0x22, CHR 0x22, CHR 0x0A, CHR 0x20, CHR 0x20, CHR 0x20, CHR 0x20, CHR 0x20,
     CHR 0x20, CHR 0x20, CHR 0x20, CHR 0x20, CHR 0x20, CHR 0x20, CHR 0x20, CHR 0x78, CHR 0x6D, CHR 0x6C, CHR 0x6E, CHR 0x73, CHR 0x3A, CHR 0x78, CHR 0x61, CHR 0x70,
     CHR 0x3D, CHR 0x22, CHR 0x68, CHR 0x74, CHR 0x74, CHR 0x70, CHR 0x3A, CHR 0x2F, CHR 0x2F, CHR 0x6E, CHR 0x73, CHR 0x2E, CHR 0x61, CHR 0x64, CHR 0x6F, CHR 0x62,
     CHR 0x65, CHR 0x2E, CHR 0x63, CHR 0x6F, CHR 0x6D, CHR 0x2F, CHR 0x78, CHR 0x61, CHR 0x70, CHR 0x2F, CHR 0x31, CHR 0x2E, CHR 0x30, CHR 0x2F, CHR 0x22, CHR 0x3E,
     CHR 0x0A, CHR 0x20, CHR 0x20, CHR 0x20, CHR 0x20, CHR 0x20, CHR 0x20, CHR 0x20, CHR 0x20, CHR 0x20, CHR 0x3C, CHR 0x78, CHR 0x61, CHR 0x70, CHR 0x3A, CHR 0x43,
     CHR 0x72, CHR 0x65, CHR 0x61, CHR 0x74, CHR 0x6F, CHR 0x72, CHR 0x54, CHR 0x6F, CHR 0x6F, CHR 0x6C, CHR 0x3E, CHR 0x41, CHR 0x64, CHR 0x6F, CHR 0x62, CHR 0x65,
     CHR 0x20, CHR 0x46, CHR 0x69, CHR 0x72, CHR 0x65, CHR 0x77, CHR 0x6F, CHR 0x72, CHR 0x6B, CHR 0x73, CHR 0x20, CHR 0x43, CHR 0x53, CHR 0x33, CHR 0x3C, CHR 0x2F,
     CHR 0x78, CHR 0x61, CHR 0x70, CHR 0x3A, CHR 0x43, CHR 0x72, CHR 0x65, CHR 0x61, CHR 0x74, CHR 0x6F, CHR 0x72, CHR 0x54, CHR 0x6F, CHR 0x6F, CHR 0x6C, CHR 0x3E,
     CHR 0x0A, CHR 0x20, CHR 0x20, CHR 0x20, CHR 0x20, CHR 0x20, CHR 0x20, CHR 0x20, CHR 0x20, CHR 0x20, CHR 0x3C, CHR 0x78, CHR 0x61, CHR 0x70, CHR 0x3A, CHR 0x43,
     CHR 0x72, CHR 0x65, CHR 0x61, CHR 0x74, CHR 0x65, CHR 0x44, CHR 0x61, CHR 0x74, CHR 0x65, CHR 0x3E, CHR 0x32, CHR 0x30, CHR 0x30, CHR 0x38, CHR 0x2D, CHR 0x30,
     CHR 0x32, CHR 0x2D, CHR 0x31, CHR 0x37, CHR 0x54, CHR 0x30, CHR 0x32, CHR 0x3A, CHR 0x33, CHR 0x36, CHR 0x3A, CHR 0x34, CHR 0x35, CHR 0x5A, CHR 0x3C, CHR 0x2F,
     CHR 0x78, CHR 0x61, CHR 0x70, CHR 0x3A, CHR 0x43, CHR 0x72, CHR 0x65, CHR 0x61, CHR 0x74, CHR 0x65, CHR 0x44, CHR 0x61, CHR 0x74, CHR 0x65, CHR 0x3E, CHR 0x0A,
     CHR 0x20, CHR 0x20, CHR 0x20, CHR 0x20, CHR 0x20, CHR 0x20, CHR 0x20, CHR 0x20, CHR 0x20, CHR 0x3C, CHR 0x78, CHR 0x61, CHR 0x70, CHR 0x3A, CHR 0x4D, CHR 0x6F,
     CHR 0x64, CHR 0x69, CHR 0x66, CHR 0x79, CHR 0x44, CHR 0x61, CHR 0x74, CHR 0x65, CHR 0x3E, CHR 0x32, CHR 0x30, CHR 0x30, CHR 0x38, CHR 0x2D, CHR 0x30, CHR 0x33,
     CHR 0x2D, CHR 0x32, CHR 0x34, CHR 0x54, CHR 0x31, CHR 0x39, CHR 0x3A, CHR 0x30, CHR 0x30, CHR 0x3A, CHR 0x34, CHR 0x32, CHR 0x5A, CHR 0x3C, CHR 0x2F, CHR 0x78,
     CHR 0x61, CHR 0x70, CHR 0x3A, CHR 0x4D, CHR 0x6F, CHR 0x64, CHR 0x69, CHR 0x66, CHR 0x79, CHR 0x44, CHR 0x61, CHR 0x74, CHR 0x65, CHR 0x3E, CHR 0x0A, CHR 0x20,
     CHR 0x20, CHR 0x20, CHR 0x20, CHR 0x20, CHR 0x20, CHR 0x3C, CHR 0x2F, CHR 0x72, CHR 0x64, CHR 0x66, CHR 0x3A, CHR 0x44, CHR 0x65, CHR 0x73, CHR 0x63, CHR 0x72,
     CHR 0x69, CHR 0x70, CHR 0x74, CHR 0x69, CHR 0x6F, CHR 0x6E, CHR 0x3E, CHR 0x0A, CHR 0x20, CHR 0x20, CHR 0x20, CHR 0x20, CHR 0x20, CHR 0x20, CHR 0x3C, CHR 0x72,
     CHR 0x64, CHR 0x66, CHR 0x3A, CHR 0x44, CHR 0x65, CHR 0x73, CHR 0x63, CHR 0x72, CHR 0x69, CHR 0x70, CHR 0x74, CHR 0x69, CHR 0x6F, CHR 0x6E, CHR 0x20, CHR 0x72,
     CHR 0x64, CHR 0x66, CHR 0x3A, CHR 0x61, CHR 0x62, CHR 0x6F, CHR 0x75, CHR 0x74, CHR 0x3D, CHR 0x22, CHR 0x22, CHR 0x0A, CHR 0x20, CHR 0x20, CHR 0x20, CHR 0x20,
     CHR 0x20, CHR 0x20, CHR 0x20, CHR 0x20, CHR 0x20, CHR 0x20, CHR 0x20, CHR 0x20, CHR 0x78, CHR 0x6D, CHR 0x6C, CHR 0x6E, CHR 0x73, CHR 0x3A, CHR 0x64, CHR 0x63,
     CHR 0x3D, CHR 0x22, CHR 0x68, CHR 0x74, CHR 0x74, CHR 0x70, CHR 0x3A, CHR 0x2F, CHR 0x2F, CHR 0x70, CHR 0x75, CHR 0x72, CHR 0x6C, CHR 0x2E, CHR 0x6F, CHR 0x72,
     CHR 0x67, CHR 0x2F, CHR 0x64, CHR 0x63, CHR 0x2F, CHR 0x65, CHR 0x6C, CHR 0x65, CHR 0x6D, CHR 0x65, CHR 0x6E, CHR 0x74, CHR 0x73, CHR 0x2F, CHR 0x31, CHR 0x2E,
     CHR 0x31, CHR 0x2F, CHR 0x22, CHR 0x3E, CHR 0x0A, CHR 0x20, CHR 0x20, CHR 0x20, CHR 0x20, CHR 0x20, CHR 0x20, CHR 0x20, CHR 0x20, CHR 0x20, CHR 0x3C, CHR 0x64,
     CHR 0x63, CHR 0x3A, CHR 0x66, CHR 0x6F, CHR 0x72, CHR 0x6D, CHR 0x61, CHR 0x74, CHR 0x3E, CHR 0x69, CHR 0x6D, CHR 0x61, CHR 0x67, CHR 0x65, CHR 0x2F, CHR 0x70,
     CHR 0x6E, CHR 0x67, CHR 0x3C, CHR 0x2F, CHR 0x64, CHR 0x63, CHR 0x3A, CHR 0x66, CHR 0x6F, CHR 0x72, CHR 0x6D, CHR 0x61, CHR 0x74, CHR 0x3E, CHR 0x0A, CHR 0x20,
     CHR 0x20, CHR 0x20, CHR 0x20, CHR 0x20, CHR 0x20, CHR 0x3C, CHR 0x2F, CHR 0x72, CHR 0x64, CHR 0x66, CHR 0x3A, CHR 0x44, CHR 0x65, CHR 0x73, CHR 0x63, CHR 0x72,
     CHR 0x69, CHR 0x70, CHR 0x74, CHR 0x69, CHR 0x6F, CHR 0x6E, CHR 0x3E, CHR 0x0A, CHR 0x20, CHR 0x20, CHR 0x20, CHR 0x3C, CHR 0x2F, CHR 0x72, CHR 0x64, CHR 0x66,
     CHR 0x3A, CHR 0x52, CHR 0x44, CHR 0x46, CHR 0x3E, CHR 0x0A, CHR 0x3C, CHR 0x2F, CHR 0x78, CHR 0x3A, CHR 0x78, CHR 0x6D, CHR 0x70, CHR 0x6D, CHR 0x65, CHR 0x74,
     CHR 0x61, CHR 0x3E, CHR 0x0A, CHR 0x20, CHR 0x20, CHR 0x20, CHR 0x20, CHR 0x20, CHR 0x20, CHR 0x20, CHR 0x20, CHR 0x20, CHR 0x20, CHR 0x20, CHR 0x20, CHR 0x20,
     CHR 0x20, CHR 0x20, CHR 0x20, CHR 0x20, CHR 0x20, CHR 0x20, CHR 0x20, CHR 0x20, CHR 0x20, CHR 0x20, CHR 0x20, CHR 0x20, CHR 0x20, CHR 0x20, CHR 0x20, CHR 0x20,
     CHR 0x20, CHR 0x20, CHR 0x20, CHR 0x20, CHR 0x20, CHR 0x20, CHR 0x20, CHR 0x20, CHR 0x20, CHR 0x20, CHR 0x20, CHR 0x20, CHR 0x20, CHR 0x20, CHR 0x20, CHR 0x20,
     CHR 0x20, CHR 0x20, CHR 0x20, CHR 0x20, CHR 0x20, CHR 0x20, CHR 0x20, CHR 0x20, CHR 0x20, CHR 0x20, CHR 0x20, CHR 0x20, CHR 0x20, CHR 0x20, CHR 0x20, CHR 0x20,
     CHR 0x20, CHR 0x20, CHR 0x20, CHR 0x20, CHR 0x20, CHR 0x20, CHR 0x20, CHR 0x20, CHR 0x20, CHR 0x20, CHR 0x20, CHR 0x20, CHR 0x20, CHR 0x20, CHR 0x20, CHR 0x20,
     CHR 0x20, CHR 0x20, CHR 0x20, CHR 0x20, CHR 0x20, CHR 0x20, CHR 0x20, CHR 0x20, CHR 0x20, CHR 0x20, CHR 0x20, CHR 0x20, CHR 0x20, CHR 0x20, CHR 0x20, CHR 0x20,
     CHR 0x20, CHR 0x20, CHR 0x20, CHR 0x20, CHR 0x20, CHR 0x20, CHR 0x20, CHR 0x0A, CHR 0x20, CHR 0x20, CHR 0x20, CHR 0x20, CHR 0x20, CHR 0x20, CHR 0x20, CHR 0x20,
     CHR 0x20, CHR 0x20, CHR 0x20, CHR 0x20, CHR 0x20, CHR 0x20, CHR 0x20, CHR 0x20, CHR 0x20, CHR 0x20, CHR 0x20, CHR 0x20, CHR 0x20, CHR 0x20, CHR 0x20, CHR 0x20,
     CHR 0x20, CHR 0x20, CHR 0x20, CHR 0x20, CHR 0x20, CHR 0x20, CHR 0x20, CHR 0x20, CHR 0x20, CHR 0x20, CHR 0x20, CHR 0x20, CHR 0x20, CHR 0x20, CHR 0x20, CHR 0x20,
     CHR 0x20, CHR 0x20, CHR 0x20, CHR 0x20, CHR 0x20, CHR 0x20, CHR 0x20, CHR 0x20, CHR 0x20, CHR 0x20, CHR 0x20, CHR 0x20, CHR 0x20, CHR 0x20, CHR 0x20, CHR 0x20,
     CHR 0x20, CHR 0x20, CHR 0x20, CHR 0x20, CHR 0x20, CHR 0x20, CHR 0x20, CHR 0x20, CHR 0x20, CHR 0x20, CHR 0x20, CHR 0x20, CHR 0x20, CHR 0x20, CHR 0x20, CHR 0x20,
     CHR 0x20, CHR 0x20, CHR 0x20, CHR 0x20, CHR 0x20, CHR 0x20, CHR 0x20, CHR 0x20, CHR 0x20, CHR 0x20, CHR 0x20, CHR 0x20, CHR 0x20, CHR 0x20, CHR 0x20, CHR 0x20,
     CHR 0x20, CHR 0x20, CHR 0x20, CHR 0x20, CHR 0x20, CHR 0x20, CHR 0x20, CHR 0x20, CHR 0x20, CHR 0x20, CHR 0x20, CHR 0x20, CHR 0x0A, CHR 0x20, CHR 0x20, CHR 0x20,
     CHR 0x20, CHR 0x20, CHR 0x20, CHR 0x20, CHR 0x20, CHR 0x20, CHR 0x20, CHR 0x20, CHR 0x20, CHR 0x20, CHR 0x20, CHR 0x20, CHR 0x20, CHR 0x20, CHR 0x20, CHR 0x20,
     CHR 0x20, CHR 0x20, CHR 0x20, CHR 0x20, CHR 0x20, CHR 0x20, CHR 0x20, CHR 0x20, CHR 0x20, CHR 0x20, CHR 0x20, CHR 0x20, CHR 0x20, CHR 0x20, CHR 0x20, CHR 0x20,
     CHR 0x20, CHR 0x20, CHR 0x20, CHR 0x20, CHR 0x20, CHR 0x20, CHR 0x20, CHR 0x20, CHR 0x20, CHR 0x20, CHR 0x20, CHR 0x20, CHR 0x20, CHR 0x20, CHR 0x20, CHR 0x20,
     CHR 0x20, CHR 0x20, CHR 0x20, CHR 0x20, CHR 0x20, CHR 0x20, CHR 0x20, CHR 0x20, CHR 0x20, CHR 0x20, CHR 0x20, CHR 0x20, CHR 0x20, CHR 0x20, CHR 0x20, CHR 0x20,
     CHR 0x20, CHR 0x20, CHR 0x20, CHR 0x20, CHR 0x20, CHR 0x20, CHR 0x20, CHR 0x20, CHR 0x20, CHR 0x20, CHR 0x20, CHR 0x20, CHR 0x20, CHR 0x20, CHR 0x20, CHR 0x20,
     CHR 0x20, CHR 0x20, CHR 0x20, CHR 0x20, CHR 0x20, CHR 0x20, CHR 0x20, CHR 0x20, CHR 0x35, CHR 0x1D, CHR 0x52, CHR 0x64, CHR 0x00, CHR 0x00, CHR 0x02, CHR 0x0B,
     CHR 0x49, CHR 0x44, CHR 0x41, CHR 0x54, CHR 0x38, CHR 0x8D, CHR 0xA5, CHR 0x93, CHR 0x41, CHR 0x6B, CHR 0x1A, CHR 0x41, CHR 0x18, CHR 0x86, CHR 0x9F, CHR 0x89,
     CHR 0x06, CHR 0x23, CHR 0x2E, CHR 0x74, CHR 0xF5, CHR 0x20, CHR 0x4A, CHR 0x0E, CHR 0x6B, CHR 0x20, CHR 0xE4, CHR 0xE2, CHR 0xA5, CHR 0x78, CHR 0xC8, CHR 0xA1,
     CHR 0x78, CHR 0x89, CHR 0x82, CHR 0x17, CHR 0x85, CHR 0x82, CHR 0x82, CHR 0x3D, CHR 0x26, CHR 0x62, CHR 0x58, CHR 0x72, CHR 0xCD, CHR 0x4F, CHR 0xF1, CHR 0x18,
     CHR 0x4B, CHR 0x1B, CHR 0x2F, CHR 0xA5, CHR 0x32, CHR 0xE0, CHR 0xB5, CHR 0x9E, CHR 0x35, CHR 0x1A, CHR 0x58, CHR 0x2F, CHR 0xE9, CHR 0x0F, CHR 0xE8, CHR 0x65,
     CHR 0x6D, CHR 0x84, CHR 0xA2, CHR 0x84, CHR 0x2C, CHR 0x0A, CHR 0x6B, CHR 0x58, CHR 0x62, CHR 0xA7, CHR 0x87, CHR 0x68, CHR 0x68, CHR 0x13, CHR 0xA1, CHR 0xA5,
     CHR 0x79, CHR 0xE1, CHR 0x3B, CHR 0x0C, CHR 0xC3, CHR 0xFB, CHR 0xCC, CHR 0x37, CHR 0xEF, CHR 0x7C, CHR 0x23, CHR 0x94, CHR 0x52, CHR 0xBC, CHR 0x44, CHR 0x7E,
     CHR 0x00, CHR 0x21, CHR 0x04, CHR 0x00, CHR 0xAD, CHR 0x56, CHR 0xCB, CHR 0x18, CHR 0x8F, CHR 0xC7, CHR 0x0D, CHR 0xDB, CHR 0xB6, CHR 0xD3, CHR 0x8E, CHR 0xE3,
     CHR 0xF8, CHR 0x83, CHR 0xC1, CHR 0xA0, CHR 0x8A, CHR 0xC7, CHR 0xE3, CHR 0x3F, CHR 0x12, CHR 0x89, CHR 0x44, CHR 0xB9, CHR 0x5C, CHR 0x2E, CHR 0xF7, CHR 0x56,
     CHR 0xA6, CHR 0xDF, CHR 0x0F, CHR 0x15, CHR 0x4A, CHR 0x29, CHR 0x84, CHR 0x10, CHR 0x34, CHR 0x9B, CHR 0xCD, CHR 0x77, CHR 0x96, CHR 0x65, CHR 0x7D, CHR 0x36,
     CHR 0x0C, CHR 0x43, CHR 0xE4, CHR 0x72, CHR 0x39, CHR 0xE2, CHR 0xF1, CHR 0x38, CHR 0xB7, CHR 0xB7, CHR 0xB7, CHR 0xF4, CHR 0xFB, CHR 0x7D, CHR 0x06, CHR 0x83,
     CHR 0x01, CHR 0xA9, CHR 0x54, CHR 0xEA, CHR 0x43, CHR 0xA5, CHR 0x52, CHR 0x39, CHR 0x7E, CHR 0x0A, CHR 0x40, CHR 0x29, CHR 0x45, CHR 0xAB, CHR 0xD5, CHR 0x32,
     CHR 0x4E, CHR 0x4F, CHR 0x4F, CHR 0x7F, CHR 0x4A, CHR 0x29, CHR 0xD5, CHR 0xDD, CHR 0xDD, CHR 0xDD, CHR 0xB3, CHR 0xEA, CHR 0xF5, CHR 0x7A, CHR 0xEA, CHR 0xE4,
     CHR 0xE4, CHR 0x44, CHR 0x49, CHR 0x29, CHR 0xD3, CHR 0x2B, CHR 0xCF, CHR 0xAA, CHR 0x36, CHR 0x00, CHR 0xC6, CHR 0xE3, CHR 0x71, CHR 0x63, CHR 0x67, CHR 0x67,
     CHR 0x47, CHR 0xE4, CHR 0xF3, CHR 0x79, CHR 0x00, CHR 0x3C, CHR 0xCF, CHR 0xA3, CHR 0x50, CHR 0x28, CHR 0xE0, CHR 0xBA, CHR 0x2E, CHR 0x9E, CHR 0xE7, CHR 0x91,
     CHR 0x4A, CHR 0xA5, CHR 0xD8, CHR 0xDB, CHR 0xDB, CHR 0x63, CHR 0x34, CHR 0x1A, CHR 0x7D, CHR 0x7C, CHR 0x9A, CHR 0xC1, CHR 0x06, CHR 0x80, CHR 0x6D, CHR 0xDB,
     CHR 0xE9, CHR 0x6C, CHR 0x36, CHR 0x8B, CHR 0xCF, CHR 0xE7, CHR 0xC3, CHR 0xF3, CHR 0x3C, CHR 0x5C, CHR 0xD7, CHR 0x05, CHR 0x60, CHR 0x36, CHR 0x9B, CHR 0xE1,
     CHR 0xBA, CHR 0x2E, CHR 0x8B, CHR 0xC5, CHR 0x82, CHR 0x4C, CHR 0x26, CHR 0x83, CHR 0x6D, CHR 0xDB, CHR 0xBB, CHR 0x6B, CHR 0x43, CHR 0x74, CHR 0x1C, CHR 0xC7,
     CHR 0x1F, CHR 0x8B, CHR 0xC5, CHR 0x00, CHR 0x28, CHR 0x16, CHR 0x8B, CHR 0x8F, CHR 0x9B, CHR 0xD5, CHR 0x6A, CHR 0x15, CHR 0x00, CHR 0x29, CHR 0x25, CHR 0x9A,
     CHR 0xA6, CHR 0x31, CHR 0x9F, CHR 0xCF, CHR 0xC5, CHR 0x5A, CHR 0xC0, CHR 0xD6, CHR 0xD6, CHR 0x96, CHR 0x9A, CHR 0x4C, CHR 0x26, CHR 0x22, CHR 0x14, CHR 0x0A,
     CHR 0x21, CHR 0xA5, CHR 0x64, CHR 0x36, CHR 0x9B, CHR 0x51, CHR 0xAD, CHR 0x56, CHR 0xA9, CHR 0xD5, CHR 0x6A, CHR 0x68, CHR 0x9A, CHR 0x06, CHR 0xC0, CHR 0xF5,
     CHR 0xF5, CHR 0x35, CHR 0xBA, CHR 0xAE, CHR 0xDF, CHR 0xAF, CHR 0xBD, CHR 0x82, CHR 0x61, CHR 0x18, CHR 0xDF, CHR 0x2C, CHR 0xCB, CHR 0x7A, CHR 0x20, CHR 0xFA,
     CHR 0xFD, CHR 0x04, CHR 0x02, CHR 0x01, CHR 0x00, CHR 0x34, CHR 0x4D, CHR 0x23, CHR 0x10, CHR 0x08, CHR 0xB0, CHR 0x58, CHR 0x2C, CHR 0xE8, CHR 0x76, CHR 0xBB,
     CHR 0x24, CHR 0x12, CHR 0x89, CHR 0x8B, CHR 0xB5, CHR 0x1D, CHR 0x6C, CHR 0x6F, CHR 0x6F, CHR 0x1F, CHR 0x75, CHR 0x3A, CHR 0x9D, CHR 0x7E, CHR 0x38, CHR 0x1C,
     CHR 0x26, CHR 0x97, CHR 0xCB, CHR 0x21, CHR 0x84, CHR 0x40, CHR 0x4A, CHR 0x09, CHR 0xC0, CHR 0xE6, CHR 0xE6, CHR 0x26, CHR 0xED, CHR 0x76, CHR 0x9B, CHR 0xC9,
     CHR 0x64, CHR 0xA2, CHR 0xA6, CHR 0xD3, CHR 0xE9, CHR 0x27, CHR 0x78, CHR 0x98, CHR 0x9B, CHR 0xD5, CHR 0x53, CHR 0x3E, CHR 0xCE, CHR 0xC1, CHR 0xF9, CHR 0xF9,
     CHR 0xF9, CHR 0xFB, CHR 0xC1, CHR 0x60, CHR 0x70, CHR 0x9C, CHR 0x4C, CHR 0x26, CHR 0xD9, CHR 0xDF, CHR 0xDF, CHR 0x27, CHR 0x12, CHR 0x89, CHR 0x30, CHR 0x1C,
     CHR 0x0E, CHR 0xB9, CHR 0xBC, CHR 0xBC, CHR 0xE4, CHR 0xE6, CHR 0xE6, CHR 0x46, CHR 0xF9, CHR 0x7C, CHR 0xBE, CHR 0x2F, CHR 0xD3, CHR 0xE9, CHR 0x34, CHR 0x0F,
     CHR 0x34, CHR 0xEA, CHR 0xF5, CHR 0x7A, CHR 0xE5, CHR 0x19, CHR 0x60, CHR 0x19, CHR 0xD6, CHR 0x9B, CHR 0xD1, CHR 0x68, CHR 0xD4, CHR 0x18, CHR 0x0E, CHR 0x87,
     CHR 0xBB, CHR 0xF3, CHR 0xF9, CHR 0x5C, CHR 0xE8, CHR 0xBA, CHR 0x7E, CHR 0x6F, CHR 0x18, CHR 0xC6, CHR 0x45, CHR 0x34, CHR 0x1A, CHR 0x3D, CHR 0x2C, CHR 0x95,
     CHR 0x4A, CHR 0xDF, CHR 0x4D, CHR 0xD3, CHR 0xBC, CHR 0x02, CHR 0x5E, CHR 0x03, CHR 0x5F, CHR 0x81, CHR 0x83, CHR 0xB3, CHR 0xB3, CHR 0x33, CHR 0xE7, CHR 0x0F,
     CHR 0xC0, CHR 0xDF, CHR 0x64, CHR 0x9A, CHR 0xA6, CHR 0xB1, CHR 0x34, CHR 0xEB, CHR 0x80, CHR 0x03, CHR 0x1C, CHR 0x6C, CHR 0xFC, CHR 0x93, CHR 0x73, CHR 0xA9,
     CHR 0x7A, CHR 0xBD, CHR 0x6E, CHR 0x03, CHR 0x47, CHR 0xCB, CHR 0xA5, CHR 0x0E, CHR 0xBC, CHR 0xE2, CHR 0x7F, CHR 0x7E, CHR 0xA3, CHR 0x69, CHR 0x9A, CHR 0x87,
     CHR 0xA6, CHR 0x69, CHR 0xBE, CHR 0x55, CHR 0x4A, CHR 0x3D, CHR 0x64, CHR 0xF0, CHR 0x12, CHR 0xFD, CHR 0x02, CHR 0x0D, CHR 0x53, CHR 0x06, CHR 0x24, CHR 0x88,
     CHR 0x3F, CHR 0xE1, CHR 0x69, CHR 0x00, CHR 0x00, CHR 0x00, CHR 0x00, CHR 0x49, CHR 0x45, CHR 0x4E, CHR 0x44, CHR 0xAE, CHR 0x42, CHR 0x60, CHR 0x82]"

definition help_line :: "string \<Rightarrow> string \<times> string \<Rightarrow> string" where
  "help_line module it =
     (let len = length module + length (fst it)
      in ''/'' @ module @ ''/'' @ fst it @ replicate (if len \<ge> 25 then 1 else 25 - len) (CHR '' '') @ snd it @ [LF])"

definition help_text :: "inspector \<Rightarrow> string" where
  "help_text i = concat (map (\<lambda>(module, list). concat (map (help_line module) list)) (helps i))"

definition ok_response :: "string \<Rightarrow> string \<Rightarrow> http_response \<Rightarrow> http_response" where
  "ok_response contentType text resp =
     (setContentType contentType (resp\<lparr>statusCode := 200, statusMessage := ''OK''\<rparr>))\<lparr>body := text\<rparr>"

definition insp_onRequest :: "inspector \<Rightarrow> http_callback" where
  "insp_onRequest i req resp =
     (if path req = ''/'' then ok_response ''text/plain'' (help_text i) resp
      else let result = split_path (path req);
               not_found = resp\<lparr>statusCode := 404, statusMessage := ''Not Found''\<rparr>
           in case result of
                [] \<Rightarrow> not_found
              | [module] \<Rightarrow> if module = ''favicon.ico'' then ok_response ''image/png'' favicon resp else not_found
              | module # command # args \<Rightarrow>
                  (case map_of (modules i) module of
                     None \<Rightarrow> not_found
                   | Some commList \<Rightarrow>
                       (case map_of commList command of
                          Some (Some cb) \<Rightarrow> ok_response ''text/plain'' (cb (req_method req) args) resp
                        | _ \<Rightarrow> not_found)))"

section \<open>Paths\<close>

lemma split_loop_part:
  assumes "CHR ''/'' \<notin> set part" "part \<noteq> []"
  shows "split_loop (part @ CHR ''/'' # rest) result = split_loop rest (result @ [part])"
proof -
  have "\<forall>c \<in> set part. c \<noteq> CHR ''/''" using assms(1) by auto
  then have "takeWhile (\<lambda>c. c \<noteq> CHR ''/'') (part @ CHR ''/'' # rest) = part" "dropWhile (\<lambda>c. c \<noteq> CHR ''/'') (part @ CHR ''/'' # rest) = CHR ''/'' # rest"
    by (simp_all add: takeWhile_append2 dropWhile_append2)
  then show ?thesis using assms(2) by (subst split_loop.simps) simp
qed

lemma split_loop_last: "CHR ''/'' \<notin> set part \<Longrightarrow> part \<noteq> [] \<Longrightarrow> split_loop part result = result @ [part]"
  by (subst split_loop.simps) simp

lemma split_loop_slash: "split_loop (CHR ''/'' # rest) result = split_loop rest result"
  by (subst split_loop.simps) simp

lemma split_loop_parts:
  assumes "list_all (\<lambda>p. p \<noteq> [] \<and> CHR ''/'' \<notin> set p) parts"
  shows "split_loop (concat (map (\<lambda>p. CHR ''/'' # p) parts)) result = result @ parts"
  using assms
proof (induction parts arbitrary: result)
  case Nil
  show ?case by (subst split_loop.simps) simp
next
  case (Cons p parts)
  then have p: "CHR ''/'' \<notin> set p" "p \<noteq> []" and IH: "split_loop (concat (map (\<lambda>p. CHR ''/'' # p) parts)) (result @ [p]) = result @ p # parts" by auto
  show ?case
  proof (cases parts)
    case Nil
    then show ?thesis using p by (simp add: split_loop_slash split_loop_last)
  next
    case (Cons q qs)
    then show ?thesis using IH split_loop_part [OF p, of "q @ concat (map (\<lambda>p. CHR ''/'' # p) qs)" result] by (simp add: split_loop_slash)
  qed
qed

section \<open>Commands\<close>

text \<open>The specification of the tables: which callback a module and a command name have.\<close>

definition commands :: "inspector \<Rightarrow> string \<times> string \<rightharpoonup> insp_callback" where
  "commands i = (\<lambda>(m, c). case map_of (modules i) m of None \<Rightarrow> None
     | Some commList \<Rightarrow> (case map_of commList c of Some (Some cb) \<Rightarrow> Some cb | _ \<Rightarrow> None))"

definition command_path :: "string list \<Rightarrow> string" where
  "command_path parts = concat (map (\<lambda>p. CHR ''/'' # p) parts)"

definition not_found :: "http_response \<Rightarrow> http_response" where
  "not_found resp = resp\<lparr>statusCode := 404, statusMessage := ''Not Found''\<rparr>"

lemma commands_add: "commands (insp_add m c cb h i) = (commands i)((m, c) := cb)"
  by (auto simp: fun_eq_iff commands_def insp_add_def sub_map_def split: option.splits)

lemma commands_remove: "commands (insp_remove m c i) = (commands i)((m, c) := None)"
  by (auto simp: fun_eq_iff commands_def insp_remove_def map_of_del_key split: option.splits)

lemma onRequest_command:
  assumes "list_all (\<lambda>p. p \<noteq> [] \<and> CHR ''/'' \<notin> set p) (m # c # args)" "path req = command_path (m # c # args)"
  shows "insp_onRequest i req resp = (case commands i (m, c) of
      Some cb \<Rightarrow> ok_response ''text/plain'' (cb (req_method req) args) resp | None \<Rightarrow> not_found resp)"
proof -
  have "split_path (path req) = m # c # args" unfolding split_path_def assms(2) command_path_def using split_loop_parts [OF assms(1), of "[]"] by simp
  moreover have "path req \<noteq> ''/''" using assms by (auto simp: command_path_def)
  ultimately show ?thesis by (simp add: insp_onRequest_def commands_def not_found_def split: option.splits)
qed

section \<open>Properties\<close>

text \<open>
  C31. The inspector. Its tables are a map from module and command names to callbacks: registering and removing change it at one place. A
  request for \<open>/module/command/arg/...\<close>, however it is cut into pieces, is answered over HTTP with the status 200 and the text that the callback registered last gives for the method and the
  arguments, or with 404 when there is none (an empty callback counts as none).
\<close>

theorem inspector_serves:
  assumes "conn_inv c" "state c = kConnected" "contents (inputBuffer c) = []" "writer_ok wr" "pipe_open wr"
    and "valid_request rq" "list_all valid_header hs" "v \<noteq> []" "concat (map snd cs) @ v = request_text rq hs"
    and parts: "list_all (\<lambda>p. p \<noteq> [] \<and> CHR ''/'' \<notin> set p) (m # com # args)" "path rq = command_path (m # com # args)"
    and short: "\<forall>cb. commands i (m, com) = Some cb \<longrightarrow> length (cb (req_method rq) args) < 2 ^ 31"
  shows "(\<exists>c'. http_feed wr (insp_onRequest i) (cs @ [(te, v)]) \<lparr>hc_conn = c, hc_context = newHttpContext\<rparr>
        = Some (Inr \<lparr>hc_conn = c', hc_context = newHttpContext\<rparr>)
      \<and> stream c' = stream c @ response_text ((case commands i (m, com) of
            Some cb \<Rightarrow> ok_response ''text/plain'' (cb (req_method rq) args) | None \<Rightarrow> not_found)
          (newHttpResponse (close_wanted (parsed_request te rq hs)))))
    \<and> commands new_inspector = Map.empty
    \<and> commands (insp_add m com f h i) = (commands i)((m, com) := f)
    \<and> commands (insp_remove m com i) = (commands i)((m, com) := None)"
proof -
  let ?h = "\<lparr>hc_conn = c, hc_context = newHttpContext\<rparr>"
  let ?F = "\<lambda>t. parsed_request t rq hs"
  let ?resp = "(case commands i (m, com) of Some cb \<Rightarrow> ok_response ''text/plain'' (cb (req_method rq) args) | None \<Rightarrow> not_found)
    (newHttpResponse (close_wanted (?F te)))"
  have same: "close_wanted (?F t) = close_wanted (?F te)" "path (?F t) = path rq" "req_method (?F t) = req_method rq" for t
    by (simp_all add: parsed_request_def with_headers_def close_wanted_def getHeader_def)
  have R: "?resp = insp_onRequest i (?F t) (newHttpResponse (close_wanted (?F t)))" for t
    using onRequest_command [OF parts(1), of "?F t"] parts(2) same(2,3) [of t] unfolding same(1) [of t] by (simp split: option.splits)
  have "valid_response ?resp"
    using short by (auto simp: valid_response_def ok_response_def not_found_def setContentType_def res_addHeader_def newHttpResponse_def
        split: option.splits)
  moreover have whole: "contents (inputBuffer c) @ concat (map snd cs) @ v @ [] = request_text rq hs @ []" using assms(3,9) by simp
  have F: "\<forall>t. \<exists>t0 \<in> insert t {}. parse_text t (hc_context ?h) (contents (inputBuffer (hc_conn ?h)) @ concat (map snd cs) @ v @ [])
      = Inr (True, [], \<lparr>ctx_state = kGotAll, request = ?F t0\<rparr>)"
    using parse_request_text [OF assms(6,7), of _ "[]", folded whole] by simp
  have ready: "conn_inv (hc_conn ?h)" "state (hc_conn ?h) = kConnected" "ctx_state (hc_context ?h) \<in> {kExpectRequestLine, kExpectHeaders}"
    using assms(1,2) by (simp_all add: newHttpContext_def)
  ultimately obtain c' where "http_feed wr (insp_onRequest i) (cs @ [(te, v @ [])]) ?h = Some (Inr \<lparr>hc_conn = c', hc_context = newHttpContext\<rparr>)"
      "stream c' = stream c @ response_text ?resp"
    using http_feed_pieces [where cb = "insp_onRequest i" and R = "\<lambda>_. ?resp", OF ready(1,2) assms(4,5) ready(3) assms(8) F _ R, of te] by auto
  moreover have "commands new_inspector = Map.empty" by (auto simp: commands_def new_inspector_def fun_eq_iff)
  ultimately show ?thesis using commands_add commands_remove by auto
qed

definition pid_request :: http_request where
  "pid_request = newHttpRequest\<lparr>req_method := kGet, version := kHttp10, path := ''/proc/pid/a''\<rparr>"

theorem inspector_serves_witness:
  "\<exists>c'. http_feed two_bytes (insp_onRequest (insp_add ''proc'' ''pid'' (Some (\<lambda>m args. concat args)) ''print pid'' new_inspector))
      [(1, ''GET /pr''), (2, ''oc/pid/a HTTP/1.0'' @ [CR, LF, CR, LF])]
      \<lparr>hc_conn = open_conn, hc_context = newHttpContext\<rparr> = Some (Inr \<lparr>hc_conn = c', hc_context = newHttpContext\<rparr>)
    \<and> stream c' = stream open_conn @ response_text (ok_response ''text/plain'' ''a'' (newHttpResponse True))"
proof -
  let ?i = "insp_add ''proc'' ''pid'' (Some (\<lambda>m args. concat args)) ''print pid'' new_inspector"
  have com: "commands ?i (''proc'', ''pid'') = Some (\<lambda>m args. concat args)" by (simp add: commands_add)
  have rq: "valid_request pid_request" "list_all valid_header []" "req_method pid_request = kGet"
    by (simp_all add: pid_request_def newHttpRequest_def valid_request_def)
  have pipe: "pipe_open two_bytes" by (simp add: pipe_open_def two_bytes_def)
  have conn: "state open_conn = kConnected" "contents (inputBuffer open_conn) = []" by (simp_all add: open_conn_def newTcpConnection_def Let_def)
  have cut: "concat (map snd [(1, ''GET /pr'')]) @ ''oc/pid/a HTTP/1.0'' @ [CR, LF, CR, LF] = request_text pid_request []"
    by (simp add: request_text_def request_line_def pid_request_def newHttpRequest_def)
  have parts: "list_all (\<lambda>p. p \<noteq> [] \<and> CHR ''/'' \<notin> set p) [''proc'', ''pid'', ''a'']" "path pid_request = command_path [''proc'', ''pid'', ''a'']"
    by (simp_all add: pid_request_def command_path_def)
  have close: "close_wanted (parsed_request 2 pid_request [])"
    by (simp add: close_wanted_def parsed_request_def with_headers_def pid_request_def newHttpRequest_def getHeader_def)
  have short: "\<forall>cb. commands ?i (''proc'', ''pid'') = Some cb \<longrightarrow> length (cb (req_method pid_request) [''a'']) < 2 ^ 31"
    by (auto simp: com)
  from inspector_serves [where i = ?i and m = "''proc''" and com = "''pid''" and args = "[''a'']" and te = 2 and hs = "[]"
        and v = "''oc/pid/a HTTP/1.0'' @ [CR, LF, CR, LF]" and cs = "[(1, ''GET /pr'')]",
      OF open_conn_inv conn two_bytes_ok pipe rq(1,2) _ cut parts short, THEN conjunct1] com close show ?thesis by simp
qed

end
