(* ===== verification/EventLoopThread.thy ===== *)
theory EventLoopThread
  imports Prelude
begin

text \<open>
  A thread that runs an event loop (\<open>muduo/net/EventLoopThread.h\<close>, \<open>EventLoopThread.cc\<close>). The loop is a local variable of the thread's function; its address is
  published in \<open>loop_\<close> under the mutex, taken back when the loop has returned, and read without the mutex by the destructor. The steps are the critical sections and the
  accesses outside of them, of the thread that owns the object and of the new thread. An access to the object after its destruction, or through \<open>loop_\<close> when
  it is null, is a fault.
\<close>

section \<open>The two threads\<close>

text \<open>The owner in \<open>startLoop\<close>: before, about to enter the critical section, waiting, returned.\<close>

datatype starter_pc = SOutside | SEnter | SWait | SReturned

text \<open>
  \<open>threadFunc\<close>: not started, in the callback, between the publication of \<open>loop_\<close> and the call of \<open>loop()\<close>, in \<open>loop()\<close>, behind it, behind the last section, returned (the
  loop is destroyed).
\<close>

datatype thread_pc = TNotStarted | TCallback | TPublished | TLoop | TExit | TCleared | TDone

text \<open>The destructor: not called, behind its test of \<open>loop_\<close>, in \<open>quit()\<close> before the wake-up, in \<open>join\<close>, returned.\<close>

datatype dtor_pc = DNone | DSawLoop | DQuit | DJoin | DEnd

record loop_thread =
  loop_ptr :: bool
  exiting :: bool
  quit_flag :: bool
  starter :: starter_pc
  thread :: thread_pc
  dtor :: dtor_pc

definition newEventLoopThread :: loop_thread where
  "newEventLoopThread = \<lparr>loop_ptr = False, exiting = False, quit_flag = False, starter = SOutside, thread = TNotStarted, dtor = DNone\<rparr>"

definition loop_alive :: "loop_thread \<Rightarrow> bool" where
  "loop_alive s \<longleftrightarrow> thread s \<in> {TCallback, TPublished, TLoop, TExit, TCleared}"

text \<open>\<open>startLoop\<close>: the call, and its critical section.\<close>

definition startLoop_call :: "loop_thread \<Rightarrow> loop_thread res" where
  "startLoop_call s = c_assert (thread s = TNotStarted) (Inr (s\<lparr>thread := TCallback, starter := SEnter\<rparr>))"

definition startLoop_section :: "loop_thread \<Rightarrow> loop_thread" where
  "startLoop_section s = s\<lparr>starter := if loop_ptr s then SReturned else SWait\<rparr>"

text \<open>\<open>threadFunc\<close>. Entering \<open>loop()\<close> sets \<open>quit_\<close> to false, whatever it was.\<close>

definition on_object :: "loop_thread \<Rightarrow> loop_thread \<Rightarrow> loop_thread res" where
  "on_object s s' = (if dtor s = DEnd then Inl OutOfBounds else Inr s')"

definition publish :: "loop_thread \<Rightarrow> loop_thread res" where
  "publish s = on_object s (s\<lparr>loop_ptr := True, thread := TPublished, starter := if starter s = SWait then SEnter else starter s\<rparr>)"

definition enter_loop :: "loop_thread \<Rightarrow> loop_thread" where
  "enter_loop s = s\<lparr>thread := TLoop, quit_flag := False\<rparr>"

definition clear_ptr :: "loop_thread \<Rightarrow> loop_thread res" where
  "clear_ptr s = on_object s (s\<lparr>loop_ptr := False, thread := TCleared\<rparr>)"

text \<open>The destructor. \<open>quit()\<close> sets the flag and then wakes the loop up, two accesses to the loop.\<close>

definition destruct_test :: "loop_thread \<Rightarrow> loop_thread" where
  "destruct_test s = s\<lparr>exiting := True, dtor := if loop_ptr s then DSawLoop else DEnd\<rparr>"

definition destruct_quit :: "loop_thread \<Rightarrow> loop_thread res" where
  "destruct_quit s = (if loop_ptr s \<and> loop_alive s then Inr (s\<lparr>quit_flag := True, dtor := DQuit\<rparr>) else Inl OutOfBounds)"

definition destruct_wakeup :: "loop_thread \<Rightarrow> loop_thread res" where
  "destruct_wakeup s = (if loop_alive s then Inr (s\<lparr>dtor := DJoin\<rparr>) else Inl OutOfBounds)"

datatype elt_event = StartLoop | StartSection | WakeUp | Publish | EnterLoop | LoopReturns | ClearPtr | ThreadReturns | UserQuit
  | Destruct | DestructQuit | DestructWakeup | DestructJoin

text \<open>A step, when it is possible. The loop tests \<open>quit_\<close> in every round, at the latest when its poll times out.\<close>

fun elt_step :: "elt_event \<Rightarrow> loop_thread \<Rightarrow> loop_thread res option" where
  "elt_step StartLoop s = (if starter s = SOutside \<and> dtor s = DNone then Some (startLoop_call s) else None)"
| "elt_step StartSection s = (if starter s = SEnter then Some (Inr (startLoop_section s)) else None)"
| "elt_step WakeUp s = (if starter s = SWait then Some (Inr (s\<lparr>starter := SEnter\<rparr>)) else None)"
| "elt_step Publish s = (if thread s = TCallback then Some (publish s) else None)"
| "elt_step EnterLoop s = (if thread s = TPublished then Some (Inr (enter_loop s)) else None)"
| "elt_step LoopReturns s = (if thread s = TLoop \<and> quit_flag s then Some (Inr (s\<lparr>thread := TExit\<rparr>)) else None)"
| "elt_step ClearPtr s = (if thread s = TExit then Some (clear_ptr s) else None)"
| "elt_step ThreadReturns s = (if thread s = TCleared then Some (Inr (s\<lparr>thread := TDone\<rparr>)) else None)"
| "elt_step UserQuit s = (if loop_alive s then Some (Inr (s\<lparr>quit_flag := True\<rparr>)) else None)"
| "elt_step Destruct s = (if dtor s = DNone then Some (Inr (destruct_test s)) else None)"
| "elt_step DestructQuit s = (if dtor s = DSawLoop then Some (destruct_quit s) else None)"
| "elt_step DestructWakeup s = (if dtor s = DQuit then Some (destruct_wakeup s) else None)"
| "elt_step DestructJoin s = (if dtor s = DJoin \<and> thread s = TDone then Some (Inr (s\<lparr>dtor := DEnd\<rparr>)) else None)"

text \<open>What the class expects: the object is destroyed by its owner, not in the middle of \<open>startLoop\<close>, and nobody else quits the loop.\<close>

definition expected_use :: "elt_event \<Rightarrow> loop_thread \<Rightarrow> bool" where
  "expected_use e s \<longleftrightarrow> e \<noteq> UserQuit \<and> (e = Destruct \<longrightarrow> starter s = SOutside \<or> starter s = SReturned)"

inductive elt_reach :: "(elt_event \<Rightarrow> loop_thread \<Rightarrow> bool) \<Rightarrow> loop_thread \<Rightarrow> bool" for use where
  start: "elt_reach use newEventLoopThread"
| step: "elt_reach use s \<Longrightarrow> use e s \<Longrightarrow> elt_step e s = Some (Inr s') \<Longrightarrow> elt_reach use s'"

section \<open>Invariant\<close>

text \<open>In the state \<open>stuck\<close> the destructor waits for a thread whose loop has forgotten that it was to quit.\<close>

definition stuck :: "loop_thread \<Rightarrow> bool" where
  "stuck s \<longleftrightarrow> dtor s = DJoin \<and> thread s = TLoop \<and> \<not> quit_flag s"

definition elt_inv :: "loop_thread \<Rightarrow> bool" where
  "elt_inv s \<longleftrightarrow>
     (loop_ptr s \<longleftrightarrow> thread s = TPublished \<or> thread s = TLoop \<or> thread s = TExit)
     \<and> (starter s = SOutside \<longrightarrow> thread s = TNotStarted \<and> (dtor s = DNone \<or> dtor s = DEnd))
     \<and> (starter s = SEnter \<longrightarrow> thread s \<in> {TCallback, TPublished, TLoop} \<and> dtor s = DNone)
     \<and> (starter s = SWait \<longrightarrow> thread s = TCallback \<and> dtor s = DNone)
     \<and> (starter s = SReturned \<longrightarrow> thread s \<noteq> TNotStarted \<and> thread s \<noteq> TCallback)
     \<and> (starter s = SReturned \<and> (dtor s = DNone \<or> dtor s = DSawLoop) \<longrightarrow> thread s = TPublished \<or> thread s = TLoop)
     \<and> (dtor s = DNone \<or> dtor s = DSawLoop \<longrightarrow> \<not> quit_flag s)
     \<and> (thread s = TPublished \<and> (dtor s = DQuit \<or> dtor s = DJoin) \<longrightarrow> quit_flag s)
     \<and> (dtor s = DEnd \<and> starter s = SReturned \<longrightarrow> thread s = TDone)"

lemmas elt_defs = startLoop_call_def startLoop_section_def publish_def enter_loop_def clear_ptr_def on_object_def destruct_test_def
  destruct_quit_def destruct_wakeup_def loop_alive_def

lemma elt_inv_step:
  assumes "elt_inv s" "expected_use e s" "elt_step e s = Some r"
  shows "(case r of Inr s' \<Rightarrow> elt_inv s' | Inl f \<Rightarrow> f = OutOfBounds \<and> e = DestructWakeup \<and> thread s = TDone)"
  using assms by (cases e; cases "starter s"; cases "thread s"; cases "dtor s")
    (auto simp: elt_inv_def expected_use_def elt_defs split: if_splits)

lemma elt_reach_inv: "elt_reach expected_use s \<Longrightarrow> elt_inv s"
proof (induction rule: elt_reach.induct)
  case start
  show ?case by (simp add: elt_inv_def newEventLoopThread_def)
next
  case (step s e s')
  then show ?case using elt_inv_step [of s e "Inr s'"] by simp
qed

lemma elt_progress:
  assumes "elt_inv s" "starter s = SEnter \<or> starter s = SWait \<or> dtor s = DSawLoop \<or> dtor s = DQuit \<or> dtor s = DJoin" "\<not> stuck s"
  shows "\<exists>e r. e \<noteq> WakeUp \<and> expected_use e s \<and> elt_step e s = Some r"
proof -
  let ?E = "{StartSection, Publish, EnterLoop, DestructQuit, DestructWakeup, LoopReturns, ClearPtr, ThreadReturns, DestructJoin}"
  have "\<exists>e \<in> ?E. \<exists>r. elt_step e s = Some r"
    using assms by (cases "thread s"; cases "starter s") (auto simp: elt_inv_def stuck_def)
  moreover have "expected_use e s" "e \<noteq> WakeUp" if "e \<in> ?E" for e using that by (auto simp: expected_use_def)
  ultimately show ?thesis by blast
qed

lemma stuck_stays: "starter s = SReturned \<Longrightarrow> stuck s \<Longrightarrow> expected_use e s \<Longrightarrow> elt_step e s = None"
  by (cases e) (auto simp: stuck_def expected_use_def)

section \<open>The two races of the destructor\<close>

text \<open>A run up to the point where the destructor has seen the published loop, which is not yet in \<open>loop()\<close>.\<close>

definition seen :: loop_thread where
  "seen = \<lparr>loop_ptr = True, exiting = True, quit_flag = False, starter = SReturned, thread = TPublished, dtor = DSawLoop\<rparr>"

lemma seen_reach: "elt_reach expected_use seen"
proof -
  let ?s = "\<lambda>p x st t d. \<lparr>loop_ptr = p, exiting = x, quit_flag = False, starter = st, thread = t, dtor = d\<rparr>"
  note step = elt_reach.step [where use = expected_use]
  have "elt_reach expected_use (?s False False SEnter TCallback DNone)"
    by (rule step [OF elt_reach.start, of StartLoop]) (simp_all add: expected_use_def newEventLoopThread_def elt_defs)
  then have "elt_reach expected_use (?s True False SEnter TPublished DNone)"
    by (rule step [of _ Publish]) (simp_all add: expected_use_def elt_defs)
  then have "elt_reach expected_use (?s True False SReturned TPublished DNone)"
    by (rule step [of _ StartSection]) (simp_all add: expected_use_def elt_defs)
  then show ?thesis by (rule step [of _ Destruct]) (simp_all add: expected_use_def elt_defs seen_def)
qed

lemma quit_lost: "\<exists>s. elt_reach expected_use s \<and> stuck s \<and> (\<forall>e. expected_use e s \<longrightarrow> elt_step e s = None)"
proof -
  let ?s = "\<lambda>q t d. \<lparr>loop_ptr = True, exiting = True, quit_flag = q, starter = SReturned, thread = t, dtor = d\<rparr>"
  note step = elt_reach.step [where use = expected_use]
  have "elt_reach expected_use (?s True TPublished DQuit)"
    by (rule step [OF seen_reach, of DestructQuit]) (simp_all add: expected_use_def elt_defs seen_def)
  then have "elt_reach expected_use (?s True TPublished DJoin)" by (rule step [of _ DestructWakeup]) (simp_all add: expected_use_def elt_defs)
  then have r: "elt_reach expected_use (?s False TLoop DJoin)" by (rule step [of _ EnterLoop]) (simp_all add: expected_use_def elt_defs)
  have "stuck (?s False TLoop DJoin)" by (simp add: stuck_def)
  with r stuck_stays [OF _ this] show ?thesis by auto
qed

lemma wakeup_destroyed: "\<exists>s. elt_reach expected_use s \<and> elt_step DestructWakeup s = Some (Inl OutOfBounds)"
proof -
  let ?s = "\<lambda>p q t d. \<lparr>loop_ptr = p, exiting = True, quit_flag = q, starter = SReturned, thread = t, dtor = d\<rparr>"
  note step = elt_reach.step [where use = expected_use]
  have "elt_reach expected_use (?s True False TLoop DSawLoop)"
    by (rule step [OF seen_reach, of EnterLoop]) (simp_all add: expected_use_def elt_defs seen_def)
  then have "elt_reach expected_use (?s True True TLoop DQuit)" by (rule step [of _ DestructQuit]) (simp_all add: expected_use_def elt_defs)
  then have "elt_reach expected_use (?s True True TExit DQuit)" by (rule step [of _ LoopReturns]) (simp_all add: expected_use_def)
  then have "elt_reach expected_use (?s False True TCleared DQuit)" by (rule step [of _ ClearPtr]) (simp_all add: expected_use_def elt_defs)
  then have r: "elt_reach expected_use (?s False True TDone DQuit)" by (rule step [of _ ThreadReturns]) (simp_all add: expected_use_def)
  have "elt_step DestructWakeup (?s False True TDone DQuit) = Some (Inl OutOfBounds)" by (simp add: elt_defs)
  with r show ?thesis by blast
qed

section \<open>Properties\<close>

text \<open>
  C32. The hand-over of the loop. Under every interleaving of the owner and the thread, with spurious wake-ups, as long as nobody else quits the loop and the object is not destroyed in the
  middle of \<open>startLoop\<close>: \<open>startLoop\<close> fails no assertion, waits only before the address is published and returns with the address of a living loop, which lives until the
  destructor calls \<open>quit\<close>; a destructor that returns has waited for the end of the thread. Two things go wrong, and only these: the wake-up in \<open>quit\<close> can come
  when the thread has already ended and the loop is destroyed; and a \<open>quit\<close> before the thread has entered \<open>loop()\<close> is forgotten, so that the destructor waits for ever.
  Both can happen; in every other state some thread can go on.
\<close>

theorem loop_thread_safe:
  assumes "elt_reach expected_use s"
  shows "(\<forall>e f. expected_use e s \<and> elt_step e s = Some (Inl f) \<longrightarrow> e = DestructWakeup \<and> thread s = TDone)
    \<and> (starter s = SWait \<longrightarrow> \<not> loop_ptr s)
    \<and> (starter s = SReturned \<and> (dtor s = DNone \<or> dtor s = DSawLoop) \<longrightarrow> loop_ptr s \<and> loop_alive s)
    \<and> (dtor s = DEnd \<and> starter s = SReturned \<longrightarrow> thread s = TDone)
    \<and> (starter s = SEnter \<or> starter s = SWait \<or> dtor s = DSawLoop \<or> dtor s = DQuit \<or> dtor s = DJoin \<longrightarrow>
        stuck s \<or> (\<exists>e r. e \<noteq> WakeUp \<and> expected_use e s \<and> elt_step e s = Some r))
    \<and> (\<exists>s'. elt_reach expected_use s' \<and> stuck s' \<and> (\<forall>e. expected_use e s' \<longrightarrow> elt_step e s' = None))
    \<and> (\<exists>s'. elt_reach expected_use s' \<and> elt_step DestructWakeup s' = Some (Inl OutOfBounds))"
proof -
  have inv: "elt_inv s" by (rule elt_reach_inv [OF assms])
  have "starter s = SWait \<longrightarrow> \<not> loop_ptr s" "dtor s = DEnd \<and> starter s = SReturned \<longrightarrow> thread s = TDone"
    "starter s = SReturned \<and> (dtor s = DNone \<or> dtor s = DSawLoop) \<longrightarrow> loop_ptr s \<and> loop_alive s"
    using inv by (auto simp: elt_inv_def loop_alive_def)
  moreover have "e = DestructWakeup \<and> thread s = TDone" if "expected_use e s" "elt_step e s = Some (Inl f)" for e f
    using elt_inv_step [OF inv that] by simp
  ultimately show ?thesis using elt_progress [OF inv] quit_lost wakeup_destroyed by blast
qed

theorem loop_thread_safe_witness:
  "elt_reach expected_use seen \<and> starter seen = SReturned \<and> dtor seen = DSawLoop \<and> loop_ptr seen \<and> loop_alive seen"
proof -
  have "starter seen = SReturned" "dtor seen = DSawLoop" by (simp_all add: seen_def)
  with loop_thread_safe [OF seen_reach] seen_reach show ?thesis by blast
qed

text \<open>
  The race the source notes: when a callback of the loop quits it, the thread can end between the destructor's test of \<open>loop_\<close> and its use, which then is one of a null
  pointer.
\<close>

lemma loop_thread_race:
  "\<exists>s. elt_reach (\<lambda>e s. e = Destruct \<longrightarrow> starter s = SReturned) s \<and> elt_step DestructQuit s = Some (Inl OutOfBounds)"
proof -
  let ?use = "\<lambda>e s. e = Destruct \<longrightarrow> starter s = SReturned"
  let ?s = "\<lambda>p x q st t d. \<lparr>loop_ptr = p, exiting = x, quit_flag = q, starter = st, thread = t, dtor = d\<rparr>"
  note step = elt_reach.step [where use = ?use]
  have "elt_reach ?use (?s False False False SEnter TCallback DNone)"
    by (rule step [OF elt_reach.start, of StartLoop]) (simp_all add: newEventLoopThread_def elt_defs)
  then have "elt_reach ?use (?s True False False SEnter TPublished DNone)" by (rule step [of _ Publish]) (simp_all add: elt_defs)
  then have "elt_reach ?use (?s True False False SReturned TPublished DNone)" by (rule step [of _ StartSection]) (simp_all add: elt_defs)
  then have "elt_reach ?use (?s True False False SReturned TLoop DNone)" by (rule step [of _ EnterLoop]) (simp_all add: elt_defs)
  then have "elt_reach ?use (?s True False True SReturned TLoop DNone)" by (rule step [of _ UserQuit]) (simp_all add: elt_defs)
  then have "elt_reach ?use (?s True True True SReturned TLoop DSawLoop)" by (rule step [of _ Destruct]) (simp_all add: elt_defs)
  then have "elt_reach ?use (?s True True True SReturned TExit DSawLoop)" by (rule step [of _ LoopReturns]) simp_all
  then have "elt_reach ?use (?s False True True SReturned TCleared DSawLoop)" by (rule step [of _ ClearPtr]) (simp_all add: elt_defs)
  then show ?thesis by (intro exI conjI) (assumption, simp add: destruct_quit_def)
qed

end
