(* ===== verification/Spec2Isabelle.thy ===== *)
theory Spec2Isabelle
  imports Buffer PollPoller EPollPoller TimerQueue EventLoop IMServer TcpClient Logging AsyncLogging HttpServer RpcChannel BlockingQueues ThreadPool
    JsonOrder JsonTypes JsonStreamWriter Inspector EventLoopThread
begin

text \<open>
  A verification of the chat server \<^bold>\<open>IMServer\<close> (\<open>src/IMServer/src\<close>): the application, the parts of the
  bundled muduo network library it runs on, and the bundled JSON library it uses.

  \<^bold>\<open>The program.\<close> One thread runs an event loop: it asks a multiplexer which descriptors are ready, calls the
  handlers of their channels and then the functors queued by other code. An acceptor's channel makes
  connections; the TCP server names and registers them. A connection reads into an input buffer, calls
  the message callback, and writes what does not fit the socket into an output buffer. The chat server
  gives every connection a session, which cuts the input into messages, decodes them, and answers
  heartbeats, registrations and logins with JSON texts; users are cached from a MySQL database.

  \<^bold>\<open>Theories.\<close> From the bottom up, with the source they model.

  \<^item> \<open>Prelude\<close>: faults and results, code that may not return, little-endian byte images, block copies, decimal numerals.
  \<^item> \<open>Buffer\<close> (\<open>muduo/net/Buffer.h\<close>, \<open>Buffer.cc\<close>, \<open>Endian.h\<close>): the byte buffer as an array with two indices. The
    contract of a byte queue is the locale \<open>byte_queue\<close>; the buffer refines it. Integers in network order, \<open>readFd\<close>, searching, shrinking.
  \<^item> \<open>Channel\<close> (\<open>Channel.h\<close>, \<open>Channel.cc\<close>): interest and dispatch of events.
  \<^item> \<open>Poller\<close>, \<open>PollPoller\<close>, \<open>EPollPoller\<close> (\<open>Poller.cc\<close>, \<open>poller/*.cc\<close>): the contract of a multiplexer as a locale and its two
    implementations, with the life cycle of a channel and the events reported.
  \<^item> \<open>TimerQueue\<close> (\<open>Timer.cc\<close>, \<open>TimerQueue.cc\<close>): timers in an explicit heap, so that use after free and leaks are faults;
    safe for every history of adding, cancelling and alarms with re-entrant callbacks.
  \<^item> \<open>EventLoop\<close> (\<open>EventLoop.cc\<close>): rounds of the loop, pending functors, and a step relation for the threads, in which no wake-up is lost except for a functor that the loop
    thread queues outside of \<open>loop()\<close>.
  \<^item> \<open>EventLoopThread\<close> (\<open>EventLoopThread.cc\<close>): the hand-over of a loop from its thread to the owner, and the destructor, under every interleaving.
  \<^item> \<open>TcpConnection\<close> (\<open>TcpConnection.cc\<close>): the state machine of a connection under every interleaving of
    readiness, queued functors and user calls (with \<open>startRead\<close> only on a connection that is up): no assertion fails, the callback order is right, and no byte of a sent message is lost,
    duplicated or reordered.
  \<^item> \<open>TcpServer\<close> (\<open>EventLoopThreadPool.cc\<close>, \<open>TcpServer.cc\<close>, \<open>Acceptor.cc\<close>): distribution over loops, and the table of connections as an instance of
    the locale \<open>registry\<close>.
  \<^item> \<open>Connector\<close>, \<open>TcpClient\<close> (\<open>Connector.cc\<close>, \<open>TcpClient.cc\<close>): the client side. The connector's channel, sockets, timers and
    functors under every order of events; the client on top of it and of \<open>TcpConnection\<close>, with reconnection.
  \<^item> \<open>Date\<close>, \<open>UtcTime\<close>, \<open>TimeZone\<close> (\<open>Date.cc\<close>, \<open>TimeZone.cc\<close> of \<open>muduo/base\<close>): the calendar formulas against day-by-day counting, the conversions
    of seconds to fields and back, local time with its transitions, and the reader of zone files. The C library's \<open>gmtime_r\<close> and
    \<open>timegm\<close> are the locale \<open>libc_time\<close>, which the repository's own conversions satisfy.
  \<^item> \<open>LogStream\<close>, \<open>Logging\<close>, \<open>LogFile\<close>, \<open>AsyncLogging\<close> (\<open>muduo/base\<close>): the way of a log statement. Its text in a fixed buffer without overruns,
    the line with its cached time stamp, the rolling files, and the logging thread with its buffers as a step function over
    all interleavings. What the thread writes to is the locale \<open>log_sink\<close>, which the log files satisfy.
  \<^item> \<open>Framing\<close>: readers that cut a stream into messages, as the locale \<open>framed_reader\<close>; the chat sessions and the protobuf codec are
    instances. \<open>StdMap\<close>: ordered association lists.
  \<^item> \<open>Http\<close>, \<open>HttpServer\<close> (\<open>muduo/net/http\<close>): the incremental parser against a parser of whole texts, the texts of responses, and the server on top of
    \<open>TcpConnection\<close>. \<open>Inspector\<close> (\<open>muduo/net/inspect/Inspector.cc\<close>): the commands of the inspection server, over HTTP.
  \<^item> \<open>ProtobufCodec\<close>, \<open>RpcChannel\<close> (\<open>muduo/net/protobuf\<close>, \<open>muduo/net/protorpc\<close>): checked frames, and calls matched with their answers under every
    interleaving, with the registration and the send of a call as two steps. Protocol buffers and \<open>adler32\<close> are parameters.
  \<^item> \<open>Monitor\<close>, \<open>BlockingQueues\<close>, \<open>ThreadPool\<close> (\<open>muduo/base\<close>): threads that share a queue under a mutex with two conditions, as a step relation; its laws
    are the locale \<open>shared_queue\<close>, interpreted by both blocking queues and by the thread pool. The latch.
  \<^item> \<open>BinaryCodec\<close> (\<open>BinaryWriter\<close>, \<open>BinaryReader\<close>): the encoding of messages.
  \<^item> \<open>JsonValue\<close>, \<open>JsonWriter\<close>, \<open>JsonReader\<close> (\<open>jsoncpp\<close>): values, both writers and the parser; the parser returns on every document.
    \<open>JsonRoundtrip\<close> proves that the compact writer's output is read back, and the bounds of integers; \<open>JsonStyled\<close> gives the styled
    writer's output on flat objects in closed form and reads it back. \<open>JsonStreamWriter\<close> adds the stream writer: the indenting writers are
    instances of the locale \<open>layout_writer\<close> and write the compact writer's tokens. \<open>JsonOrder\<close> is about the comparisons, \<open>JsonPath\<close> about
    paths, \<open>JsonTypes\<close> about the laws of arrays and objects and the well-formedness that all operations and the parser keep.
  \<^item> \<open>ClientFraming\<close>, \<open>ClientSession\<close> (\<open>ClientSession.cpp\<close>): the cutting of the stream into messages, the dispatch and the handlers.
  \<^item> \<open>Database\<close>, \<open>UserManager\<close> (\<open>MysqlTool\<close>, \<open>MysqlBusiness\<close>, \<open>UserManager\<close>): reconnection, statements, the cache of users.
  \<^item> \<open>IMServer\<close> (\<open>IMServer.cpp\<close>, \<open>main.cpp\<close>): sessions on top of the TCP server, and the start of the program.

  \<^bold>\<open>Conventions.\<close> State is a record that the operations return updated. The build defines no
  \<open>NDEBUG\<close>, so a failed \<open>assert\<close> is a fault, as are an access outside an object, an undefined
  shift, an exception that leaves the function and a fatal log entry (type \<open>fault\<close>). The host is little-endian
  with 64-bit \<open>size_t\<close>. \<open>std::map\<close> is an ordered association list or a finite map, strings are lists of bytes.

  The overflow of a signed integer is a fault where the theorems depend on it (dates, time stamps, the product in \<open>isMultineArray\<close>). In the JSON library three
  overflows are given their two's complement value: the negation \<open>-Value::minInt\<close> in \<open>decodeNumber\<close>, which every negative integer in a document meets (\<open>parse_strict\<close> is the parser with
  this one as a fault, and \<open>parse_returns\<close> relates the two), the negation of the smallest \<open>Int\<close> when it is printed, and the sum in \<open>Value::size\<close> at the index \<open>2 ^ 31 - 1\<close>. Documents and texts are
  shorter than \<open>2 ^ 31\<close> bytes.
  JSON values carry no comments: the theorems about the parser and the writers are about values without comments, and the steps of the styled writers that print comments are left out.

  \<^bold>\<open>Parameters.\<close> Code outside the repository is an argument of the definitions: \<open>readv\<close>, \<open>write\<close>, \<open>poll\<close>,
  \<open>epoll_ctl\<close>, \<open>epoll_wait\<close>, \<open>accept\<close>, the allocator, the clock, the conversions of doubles, the MySQL library, and the
  user's callbacks. Where a theorem relies on their documentation the hypothesis is named (\<open>readv_bounded\<close>, \<open>writer_ok\<close> and others) and
  a witness instantiates it. The bytes \<open>BinaryReader::readData<T>\<close> reads are
  assigned to a pointer in the source, which has no meaning; what becomes of them is a parameter, too.

  \<^bold>\<open>Loops and fuel.\<close> Loops that end are functions with a measure. The event loop, \<open>compress\<close> and \<open>onRead\<close> are
  partial functions whose value \<open>None\<close> is not returning; theorems say when they return. The parser takes fuel,
  twice the length of the document and two, which \<open>parse_returns\<close> proves to be enough.

  \<^bold>\<open>What the theorems show to be wrong.\<close> Several properties are about faults of the code: closing a connection stops the chat
  server (\<open>close_stops_server\<close>), no login is ever confirmed (\<open>login_outcome\<close>), registrations with a password are
  rejected (\<open>register_outcome\<close>), texts of 128 bytes and more cannot be written (\<open>string_prefix\<close>), negative lengths and messages without data
  are not handled (\<open>negative_length\<close>, \<open>process_short\<close>), an empty user table stops the start (\<open>empty_user_table\<close>). Of the library: lines are lost when
  asynchronous logging stops (\<open>stop_loses_lines\<close>), a connector that is stopped and started and a client that connects a second time can
  abort (\<open>stop_start_aborts\<close>, \<open>client_reconnects\<close>), a missing zone file is not noticed (\<open>zone_file\<close>), a peer can abort the HTTP server
  (\<open>http_bad_line_aborts\<close>), a stopped thread pool drops accepted tasks (\<open>thread_pool_correct\<close>), a loop can sleep on a functor its own thread queued before
  \<open>loop()\<close> (\<open>no_lost_wakeup\<close>), \<open>startRead\<close> on a closed connection makes its destruction abort (\<open>connection_life\<close>), and a loop thread can wake a destroyed loop, wait for ever for a loop that was told to quit too
  early (\<open>loop_thread_safe\<close>), or use a destroyed loop when it is quit from elsewhere (\<open>loop_thread_race\<close>). Of the JSON library: \<open>operator <=\<close> is the wrong way round (\<open>json_order\<close>), reading along a path with a default
  misses what is there (\<open>path_assign\<close>), path texts with a 0 byte are never read (\<open>path_texts\<close>), and negative integers overflow in the parser (\<open>parse_returns\<close>).

  \<^bold>\<open>Not modelled.\<close> \<open>QueryResult\<close> and \<open>Field::setValue\<close>, which are not well-formed C++ (a result set is the list of its
  rows); the comments of JSON values and the positions of parse errors; the iterators of JSON values;
  the acceptor's spare descriptor; the wrappers of sockets, addresses, threads and process information; the destructors of \<open>TcpServer\<close> and
  \<open>TcpClient\<close>, which depend on reference counts; \<open>formatSI\<close> and \<open>formatIEC\<close>, which print doubles; the commands of the inspection server,
  which print files of the system.
\<close>

end
